(* ===== verification/Ossl_Prelude.thy ===== *)
theory Ossl_Prelude
  imports Main "HOL-Library.Word" "HOL-Library.Sublist" "HOL-Library.Signed_Division"
    "HOL-Library.Monad_Syntax" "HOL-Library.Code_Target_Nat"
begin

text \<open>
  Shared vocabulary of the development.

  \<^item> Machine integers.  \<open>uint64_t\<close> and \<open>size_t\<close> counters (64 bit on the targets considered)
    are natural numbers below \<open>U64\<close>, with C's wrap-around written out by \<open>u64_add\<close>,
    \<open>u64_sub\<close> and \<open>u64_mul\<close>.  Where the code works on the bits of a value (the codecs)
    the value is a word of \<open>HOL-Library.Word\<close>.
  \<^item> Memory.  A C object is a list of bytes; \<open>mem_read\<close> and \<open>mem_write\<close> are \<open>None\<close> when
    the access leaves the object or goes through a null pointer.
  \<^item> C functions over a state \<open>'s\<close> are of type \<open>'s \<Rightarrow> ('a \<times> 's) option\<close>: \<open>None\<close> is undefined
    behaviour (an access outside an object), and never an error return of the code, which
    is part of the returned value.  \<open>c_and\<close> is the short-circuit chain
    \<open>if (!f(..) || !g(..)) return 0;\<close>.
\<close>

named_theorems u64_arith "facts on the wrap-around operations"

unbundle bit_operations_syntax

text \<open>The program's counters are written with literals, so \<open>1\<close> is kept rather than \<open>Suc 0\<close>.\<close>

declare One_nat_def [simp del]
declare add_2_eq_Suc [simp del]
declare add_2_eq_Suc' [simp del]

lemma take_bit_num_1 [simp]:
  "take_bit_num 1 num.One = Some num.One"
  "take_bit_num 1 (num.Bit0 m) = None"
  "take_bit_num 1 (num.Bit1 m) = Some num.One"
  by (simp_all add: One_nat_def)

lemma drop_take_1 [simp]: "drop 1 (x # xs) = xs" "take 1 (x # xs) = [x]"
  by (simp_all add: One_nat_def)

section \<open>Machine integers\<close>

type_synonym u8 = "8 word"
type_synonym u64 = "64 word"

abbreviation U64 :: nat where
  "U64 \<equiv> 18446744073709551616"

abbreviation UINT64_MAX :: nat where
  "UINT64_MAX \<equiv> 18446744073709551615"

abbreviation SIZE_MAX :: nat where
  "SIZE_MAX \<equiv> 18446744073709551615"

definition u64_add :: "nat \<Rightarrow> nat \<Rightarrow> nat" where
  "u64_add a b = (a + b) mod U64"

definition u64_sub :: "nat \<Rightarrow> nat \<Rightarrow> nat" where
  "u64_sub a b = (a + (U64 - b mod U64)) mod U64"

definition u64_mul :: "nat \<Rightarrow> nat \<Rightarrow> nat" where
  "u64_mul a b = (a * b) mod U64"

lemma u64_add_less [simp]: "u64_add a b < U64"
  by (simp add: u64_add_def)

lemma u64_sub_less [simp]: "u64_sub a b < U64"
  by (simp add: u64_sub_def)

lemma u64_mul_less [simp]: "u64_mul a b < U64"
  by (simp add: u64_mul_def)

lemma u64_add_exact [u64_arith]: "a + b < U64 \<Longrightarrow> u64_add a b = a + b"
  by (simp add: u64_add_def)

lemma u64_add_1_below: "a < b \<Longrightarrow> b < U64 \<Longrightarrow> u64_add a 1 = a + 1"
  by (simp add: u64_add_def)

lemma u64_sub_exact [u64_arith]: "b \<le> a \<Longrightarrow> a < U64 \<Longrightarrow> u64_sub a b = a - b"
proof -
  assume "b \<le> a" and "a < U64"
  then have "a + (U64 - b mod U64) = (a - b) + U64" by simp
  moreover have "(a - b + U64) mod U64 = (a - b) mod U64" by (rule mod_add_self2)
  moreover have "(a - b) mod U64 = a - b" using \<open>a < U64\<close> by simp
  ultimately show ?thesis unfolding u64_sub_def by simp
qed

lemma u64_sub_wrap: "a < b \<Longrightarrow> b < U64 \<Longrightarrow> u64_sub a b = a + U64 - b"
  by (simp add: u64_sub_def)

lemma u64_mul_exact [u64_arith]: "a * b < U64 \<Longrightarrow> u64_mul a b = a * b"
  by (simp add: u64_mul_def)

lemma unat_u64_less: "unat (v :: u64) < U64"
proof -
  have "unat v < 2 ^ LENGTH(64)" by (rule unsigned_less)
  then show ?thesis by simp
qed

lemma unat_u64_of_nat: "n < U64 \<Longrightarrow> unat (of_nat n :: u64) = n"
  by (simp add: unsigned_of_nat take_bit_nat_eq_self)

text \<open>Equations for evaluation, which avoid the division when nothing wraps.\<close>

lemma u64_add_code [code]: "u64_add a b = (let s = a + b in if s < U64 then s else s mod U64)"
  by (simp add: u64_add_def Let_def)

lemma u64_sub_code [code]:
  "u64_sub a b = (if b \<le> a \<and> a < U64 then a - b else (a + (U64 - b mod U64)) mod U64)"
  using u64_sub_exact by (simp add: u64_sub_def)

lemma u64_mul_code [code]: "u64_mul a b = (let p = a * b in if p < U64 then p else p mod U64)"
  by (simp add: u64_mul_def Let_def)

lemma u64_sub_0 [simp]: "a < U64 \<Longrightarrow> u64_sub a 0 = a"
  by (simp add: u64_sub_exact)

lemma u64_sub_self [simp]: "a < U64 \<Longrightarrow> u64_sub a a = 0"
  by (simp add: u64_sub_exact)

lemma u64_add_0 [simp]: "a < U64 \<Longrightarrow> u64_add a 0 = a" "a < U64 \<Longrightarrow> u64_add 0 a = a"
  by (simp_all add: u64_add_def)

section \<open>Memory objects\<close>

type_synonym object = "u8 list option"

definition mem_read :: "object \<Rightarrow> nat \<Rightarrow> nat \<Rightarrow> u8 list option" where
  "mem_read ob off n =
     (if n = 0 then Some []
      else case ob of None \<Rightarrow> None
           | Some b \<Rightarrow> if off + n \<le> length b then Some (take n (drop off b)) else None)"

definition mem_write :: "u8 list \<Rightarrow> nat \<Rightarrow> u8 list \<Rightarrow> u8 list option" where
  "mem_write b off bs =
     (if bs = [] then Some b
      else if off + length bs \<le> length b
           then Some (take off b @ bs @ drop (off + length bs) b) else None)"

definition mem_byte :: "object \<Rightarrow> nat \<Rightarrow> u8 option" where
  "mem_byte ob i =
     (case ob of None \<Rightarrow> None | Some b \<Rightarrow> if i < length b then Some (b ! i) else None)"

lemma length_mem_read: "mem_read ob off n = Some bs \<Longrightarrow> length bs = n"
  by (auto simp: mem_read_def split: if_splits option.splits)

lemma mem_read_prefix: "mem_read ob off n = Some bs \<Longrightarrow> m \<le> n \<Longrightarrow> mem_read ob off m = Some (take m bs)"
  by (auto simp: mem_read_def min_def split: if_splits option.splits)

lemma mem_byte_read:
  "mem_read ob off n = Some bs \<Longrightarrow> i < n \<Longrightarrow> mem_byte ob (off + i) = Some (bs ! i)"
  by (auto simp: mem_read_def mem_byte_def split: if_splits option.splits)

lemma length_mem_write: "mem_write b off bs = Some b' \<Longrightarrow> length b' = length b"
  by (auto simp: mem_write_def split: if_splits)

lemma mem_write_in_bounds:
  "off + length bs \<le> length b
     \<Longrightarrow> mem_write b off bs = Some (take off b @ bs @ drop (off + length bs) b)"
  by (simp add: mem_write_def)

lemma mem_write_nth:
  assumes "mem_write b off bs = Some b'" "i < length b"
  shows "b' ! i = (if off \<le> i \<and> i < off + length bs then bs ! (i - off) else b ! i)"
proof (cases "bs = []")
  case True
  with assms show ?thesis by (auto simp: mem_write_def)
next
  case False
  with assms(1) have fit: "off + length bs \<le> length b"
    and b': "b' = take off b @ bs @ drop (off + length bs) b"
    by (simp_all add: mem_write_def split: if_splits)
  consider "i < off" | "off \<le> i" "i < off + length bs" | "off + length bs \<le> i" by linarith
  then show ?thesis
  proof cases
    case 1
    with fit show ?thesis unfolding b' by (simp add: nth_append)
  next
    case 2
    then have "i - off < length bs" by linarith
    with 2 fit show ?thesis unfolding b' by (simp add: nth_append)
  next
    case 3
    then have "\<not> i - off < length bs" by linarith
    with 3 fit assms(2) show ?thesis unfolding b' by (simp add: nth_append)
  qed
qed

lemma take_mem_write_at:
  assumes "off + length bs \<le> length b" "mem_write b off bs = Some b'"
  shows "take (off + length bs) b' = take off b @ bs"
proof -
  have "b' = take off b @ bs @ drop (off + length bs) b"
    using assms mem_write_in_bounds [of off bs b] by simp
  with assms(1) show ?thesis by simp
qed

lemma mem_read_drop:
  "mem_read ob off n = Some bs \<Longrightarrow> m \<le> n \<Longrightarrow> mem_read ob (off + m) (n - m) = Some (drop m bs)"
  by (auto simp: mem_read_def min_def drop_take add.commute split: if_splits option.splits)

text \<open>A pointer into an object (read-only data, or a buffer passed around with its contents) is the
  object and the offset; \<open>NULL\<close> points to no object.\<close>

type_synonym cptr = "object \<times> nat"

abbreviation NULL :: cptr where
  "NULL \<equiv> (None, 0)"

definition ptr_add :: "cptr \<Rightarrow> nat \<Rightarrow> cptr" where
  "ptr_add p n = (fst p, snd p + n)"

definition ptr_byte :: "cptr \<Rightarrow> nat \<Rightarrow> u8 option" where
  "ptr_byte p i = mem_byte (fst p) (snd p + i)"

definition ptr_read :: "cptr \<Rightarrow> nat \<Rightarrow> u8 list option" where
  "ptr_read p n = mem_read (fst p) (snd p) n"

lemma length_ptr_read: "ptr_read p n = Some bs \<Longrightarrow> length bs = n"
  by (simp add: ptr_read_def length_mem_read)

lemma ptr_read_0 [simp]: "ptr_read p 0 = Some []"
  by (simp add: ptr_read_def mem_read_def)

lemma ptr_byte_read: "ptr_read p n = Some bs \<Longrightarrow> i < n \<Longrightarrow> ptr_byte p i = Some (bs ! i)"
  by (simp add: ptr_read_def ptr_byte_def mem_byte_read)

lemma ptr_read_prefix: "ptr_read p n = Some bs \<Longrightarrow> m \<le> n \<Longrightarrow> ptr_read p m = Some (take m bs)"
  by (simp add: ptr_read_def mem_read_prefix)

lemma ptr_read_drop:
  "ptr_read p n = Some bs \<Longrightarrow> m \<le> n \<Longrightarrow> ptr_read (ptr_add p m) (n - m) = Some (drop m bs)"
  by (simp add: ptr_read_def ptr_add_def mem_read_drop)

section \<open>The allocator\<close>

abbreviation PTRDIFF_MAX :: nat where
  "PTRDIFF_MAX \<equiv> 9223372036854775807"

abbreviation INT_MAX :: nat where
  "INT_MAX \<equiv> 2147483647"

text \<open>What the code relies on of \<open>OPENSSL_malloc\<close>: a successful allocation has the size asked for, which
  is not zero and fits \<open>ptrdiff_t\<close>.\<close>

definition malloc_ok :: "(nat \<Rightarrow> object) \<Rightarrow> bool" where
  "malloc_ok malloc \<longleftrightarrow> (\<forall>n b. malloc n = Some b \<longrightarrow> length b = n \<and> 0 < n \<and> n \<le> PTRDIFF_MAX)"

section \<open>Short-circuit chains of C calls\<close>

definition c_and ::
    "('s \<Rightarrow> (bool \<times> 's) option) \<Rightarrow> ('s \<Rightarrow> (bool \<times> 's) option) \<Rightarrow> 's \<Rightarrow> (bool \<times> 's) option" where
  "c_and f g s =
     (case f s of None \<Rightarrow> None
      | Some (ok, s1) \<Rightarrow> if ok then g s1 else Some (False, s1))"

definition c_ret :: "'a \<Rightarrow> 's \<Rightarrow> ('a \<times> 's) option" where
  "c_ret r s = Some (r, s)"

definition c_bind ::
    "('s \<Rightarrow> ('a option \<times> 's) option) \<Rightarrow> ('a \<Rightarrow> 's \<Rightarrow> ('b option \<times> 's) option)
       \<Rightarrow> 's \<Rightarrow> ('b option \<times> 's) option" where
  "c_bind f g s =
     (case f s of None \<Rightarrow> None
      | Some (None, s1) \<Rightarrow> Some (None, s1)
      | Some (Some a, s1) \<Rightarrow> g a s1)"

abbreviation c_then ::
    "('s \<Rightarrow> ('a option \<times> 's) option) \<Rightarrow> ('s \<Rightarrow> ('b option \<times> 's) option) \<Rightarrow> 's \<Rightarrow> ('b option \<times> 's) option" where
  "c_then f g \<equiv> c_bind f (\<lambda>_. g)"

lemma c_and_TrueD:
  "c_and f g s = Some (True, s2) \<Longrightarrow> \<exists>s1. f s = Some (True, s1) \<and> g s1 = Some (True, s2)"
  by (auto simp: c_and_def split: option.splits if_splits)

lemma c_and_step [simp]: "f s = Some (True, s1) \<Longrightarrow> c_and f g s = g s1"
  by (simp add: c_and_def)

lemma c_and_stop [simp]: "f s = Some (False, s1) \<Longrightarrow> c_and f g s = Some (False, s1)"
  by (simp add: c_and_def)

lemma c_bind_step [simp]: "f s = Some (Some a, s1) \<Longrightarrow> c_bind f g s = g a s1"
  by (simp add: c_bind_def)

lemma c_bind_stop [simp]: "f s = Some (None, s1) \<Longrightarrow> c_bind f g s = Some (None, s1)"
  by (simp add: c_bind_def)

end
