(* ===== verification/Safe_Math.thy ===== *)
theory Safe_Math
  imports Ossl_Prelude
begin

text \<open>
  The overflow-checked arithmetic of \<open>include/internal/safe_math.h\<close>.

  Each function macro is one definition, parameterised as the macro is by the bounds of the
  C type: the unsigned ones by \<open>mx\<close> (\<open>OSSL_SAFE_MATH_MAXU\<close>), on naturals with \<open>a + b\<close> and
  \<open>a * b\<close> reduced modulo \<open>mx + 1\<close>; the signed ones by \<open>mn\<close> and \<open>mx\<close>, on integers.  The
  \<open>int *err\<close> argument is a boolean that is passed in and returned: \<open>*err |= 1\<close> is \<open>True\<close>.
  The portable bodies are modelled; the \<open>__builtin_*_overflow\<close> bodies return the same values.
\<close>

named_theorems safe_math "definitions of the checked operations"

section \<open>Unsigned helpers\<close>

definition safe_addu :: "nat \<Rightarrow> nat \<Rightarrow> nat \<Rightarrow> bool \<Rightarrow> nat \<times> bool" where
  "safe_addu mx a b err =
     ((a + b) mod (mx + 1), if b > mx - a then True else err)"

definition safe_subu :: "nat \<Rightarrow> nat \<Rightarrow> nat \<Rightarrow> bool \<Rightarrow> nat \<times> bool" where
  "safe_subu mx a b err =
     ((a + (mx + 1 - b)) mod (mx + 1), if b > a then True else err)"

definition safe_mulu :: "nat \<Rightarrow> nat \<Rightarrow> nat \<Rightarrow> bool \<Rightarrow> nat \<times> bool" where
  "safe_mulu mx a b err =
     ((a * b) mod (mx + 1), if b \<noteq> 0 \<and> a > mx div b then True else err)"

definition safe_divu :: "nat \<Rightarrow> nat \<Rightarrow> nat \<Rightarrow> bool \<Rightarrow> nat \<times> bool" where
  "safe_divu mx a b err = (if b \<noteq> 0 then (a div b, err) else (mx, True))"

definition safe_modu :: "nat \<Rightarrow> nat \<Rightarrow> bool \<Rightarrow> nat \<times> bool" where
  "safe_modu a b err = (if b \<noteq> 0 then (a mod b, err) else (0, True))"

definition safe_negu :: "nat \<Rightarrow> nat \<Rightarrow> bool \<Rightarrow> nat \<times> bool" where
  "safe_negu mx a err = (if a = 0 then (a, err) else ((1 + (mx - a)) mod (mx + 1), True))"

definition safe_absu :: "nat \<Rightarrow> bool \<Rightarrow> nat \<times> bool" where
  "safe_absu a err = (a, err)"

definition safe_muldivu :: "nat \<Rightarrow> nat \<Rightarrow> nat \<Rightarrow> nat \<Rightarrow> bool \<Rightarrow> nat \<times> bool" where
  "safe_muldivu mx a b c err =
     (if c = 0 then (if a = 0 \<or> b = 0 then 0 else mx, True)
      else
        let (x, e2) = safe_mulu mx a b False
        in if \<not> e2 then (x div c, err)
           else
             let (a, b) = (if b > a then (b, a) else (a, b));
                 (x, err) = safe_mulu mx (a mod c) b err;
                 (y, err) = safe_mulu mx (a div c) b err
             in safe_addu mx y (x div c) err)"

text \<open>\<open>safe_div_round_up\<close> is shared by the signed and the unsigned wrapper; for an unsigned
  type its slow path (a negative operand) is unreachable.\<close>

definition safe_div_round_upu :: "nat \<Rightarrow> nat \<Rightarrow> nat \<Rightarrow> bool \<Rightarrow> nat \<times> bool" where
  "safe_div_round_upu mx a b err =
     (if b > 0 \<and> a > 0 then
        if a < mx - b then ((a + b - 1) div b, err)
        else (a div b + (if a mod b \<noteq> 0 then 1 else 0), err)
      else if b = 0 then (if a = 0 then 0 else mx, True)
      else (0, err))"

section \<open>Signed helpers\<close>

definition safe_adds :: "int \<Rightarrow> int \<Rightarrow> int \<Rightarrow> int \<Rightarrow> bool \<Rightarrow> int \<times> bool" where
  "safe_adds mn mx a b err =
     (if ((a < 0) \<noteq> (b < 0)) \<or> (a > 0 \<and> b \<le> mx - a) \<or> (a < 0 \<and> b \<ge> mn - a) \<or> a = 0
      then (a + b, err) else (if a < 0 then mn else mx, True))"

definition safe_subs :: "int \<Rightarrow> int \<Rightarrow> int \<Rightarrow> int \<Rightarrow> bool \<Rightarrow> int \<times> bool" where
  "safe_subs mn mx a b err =
     (if \<not> ((a < 0) \<noteq> (b < 0)) \<or> (b > 0 \<and> a \<ge> mn + b) \<or> (b < 0 \<and> a \<le> mx + b) \<or> b = 0
      then (a - b, err) else (if a < 0 then mn else mx, True))"

definition safe_muls :: "int \<Rightarrow> int \<Rightarrow> int \<Rightarrow> int \<Rightarrow> bool \<Rightarrow> int \<times> bool" where
  "safe_muls mn mx a b err =
     (if a = 0 \<or> b = 0 then (0, err)
      else if a = 1 then (b, err)
      else if b = 1 then (a, err)
      else if a \<noteq> mn \<and> b \<noteq> mn
              \<and> (if a < 0 then - a else a) \<le> mx sdiv (if b < 0 then - b else b)
      then (a * b, err)
      else (if (a < 0) \<noteq> (b < 0) then mn else mx, True))"

definition safe_divs :: "int \<Rightarrow> int \<Rightarrow> int \<Rightarrow> int \<Rightarrow> bool \<Rightarrow> int \<times> bool" where
  "safe_divs mn mx a b err =
     (if b = 0 then (if a < 0 then mn else mx, True)
      else if b = -1 \<and> a = mn then (mx, True)
      else (a sdiv b, err))"

definition safe_mods :: "int \<Rightarrow> int \<Rightarrow> int \<Rightarrow> int \<Rightarrow> bool \<Rightarrow> int \<times> bool" where
  "safe_mods mn mx a b err =
     (if b = 0 then (0, True)
      else if b = -1 \<and> a = mn then (mx, True)
      else (a smod b, err))"

definition safe_negs :: "int \<Rightarrow> int \<Rightarrow> bool \<Rightarrow> int \<times> bool" where
  "safe_negs mn a err = (if a \<noteq> mn then (- a, err) else (mn, True))"

definition safe_abss :: "int \<Rightarrow> int \<Rightarrow> bool \<Rightarrow> int \<times> bool" where
  "safe_abss mn a err = (if a \<noteq> mn then (if a < 0 then - a else a, err) else (mn, True))"

definition safe_muldivs :: "int \<Rightarrow> int \<Rightarrow> int \<Rightarrow> int \<Rightarrow> int \<Rightarrow> bool \<Rightarrow> int \<times> bool" where
  "safe_muldivs mn mx a b c err =
     (if c = 0 then (if a = 0 \<or> b = 0 then 0 else mx, True)
      else
        let (x, e2) = safe_muls mn mx a b False
        in if \<not> e2 then safe_divs mn mx x c err
           else
             let (a, b) = (if b > a then (b, a) else (a, b));
                 (q, err) = safe_divs mn mx a c err;
                 (r, err) = safe_mods mn mx a c err;
                 (x, err) = safe_muls mn mx r b err;
                 (y, err) = safe_muls mn mx q b err;
                 (q, err) = safe_divs mn mx x c err
             in safe_adds mn mx y q err)"

lemmas safe_defs =
  safe_addu_def safe_subu_def safe_mulu_def safe_divu_def safe_modu_def safe_muldivu_def
  safe_adds_def safe_subs_def safe_muls_def safe_divs_def safe_mods_def safe_muldivs_def

declare safe_defs [safe_math]

section \<open>The unsigned operations are exact or flagged\<close>

lemma safe_addu_noerr:
  assumes "a \<le> mx" "b \<le> mx" "safe_addu mx a b err = (v, False)"
  shows "v = a + b" "a + b \<le> mx" "\<not> err"
  using assms by (auto simp: safe_addu_def split: if_splits)

lemma safe_mulu_noerr:
  assumes "a \<le> mx" "b \<le> mx" "safe_mulu mx a b err = (v, False)"
  shows "v = a * b" "a * b \<le> mx" "\<not> err"
proof -
  from assms(3) have v: "v = (a * b) mod (mx + 1)" and fit: "b = 0 \<or> a \<le> mx div b"
    and "\<not> err"
    by (auto simp: safe_mulu_def split: if_splits)
  show "\<not> err" by fact
  show le: "a * b \<le> mx"
    using fit by (cases "b = 0") (auto simp: less_eq_div_iff_mult_less_eq)
  show "v = a * b" using v le by simp
qed

lemma safe_mulu_err_iff:
  "snd (safe_mulu mx a b False) \<longleftrightarrow> a * b > mx"
proof (cases "b = 0")
  case True
  then show ?thesis by (simp add: safe_mulu_def)
next
  case False
  then have "a \<le> mx div b \<longleftrightarrow> a * b \<le> mx"
    by (simp add: less_eq_div_iff_mult_less_eq)
  with False show ?thesis by (auto simp: safe_mulu_def)
qed

lemma muldiv_split:
  fixes a b c :: "'a :: euclidean_semiring_cancel"
  assumes "c \<noteq> 0"
  shows "(a div c) * b + (a mod c) * b div c = a * b div c"
proof -
  have "a * b = (c * (a div c) + a mod c) * b" by (simp only: mult_div_mod_eq)
  also have "\<dots> = (a mod c) * b + c * ((a div c) * b)"
    by (simp only: distrib_right mult.assoc add.commute)
  finally have "a * b div c = ((a mod c) * b + c * ((a div c) * b)) div c" by simp
  also have "\<dots> = (a div c) * b + (a mod c) * b div c"
    by (rule div_mult_self2 [OF assms])
  finally show ?thesis by simp
qed

lemma mod_plus1_le: "(n::nat) mod (mx + 1) \<le> mx"
  using mod_less_divisor [of "mx + 1" n] by linarith

lemma muldivu_exact_aux:
  fixes a b c mx :: nat
  assumes ab: "a \<le> mx" "b \<le> mx" and c: "c \<noteq> 0"
    and x: "safe_mulu mx (a mod c) b err = (x, e1)"
    and y: "safe_mulu mx (a div c) b e1 = (y, e2)"
    and v: "safe_addu mx y (x div c) e2 = (v, False)"
  shows "v = a * b div c"
proof -
  have ylt: "y \<le> mx" using y mod_plus1_le by (auto simp: safe_mulu_def)
  have xlt: "x \<le> mx" using x mod_plus1_le by (auto simp: safe_mulu_def)
  have "x div c \<le> mx" using xlt by (meson div_le_dividend le_trans)
  from safe_addu_noerr [OF ylt this v] have v': "v = y + x div c" and "\<not> e2" by auto
  have "a div c \<le> mx" "a mod c \<le> mx"
    using ab(1) by (meson div_le_dividend le_trans mod_less_eq_dividend)+
  from safe_mulu_noerr [OF this(1) ab(2), of e1 y] y \<open>\<not> e2\<close>
  have y': "y = (a div c) * b" and "\<not> e1" by auto
  from safe_mulu_noerr [OF \<open>a mod c \<le> mx\<close> ab(2), of err x] x \<open>\<not> e1\<close>
  have "x = (a mod c) * b" by auto
  with v' y' muldiv_split [OF c, of a b] show ?thesis by simp
qed

lemma safe_muldivu_noerr:
  assumes "a \<le> mx" "b \<le> mx" "safe_muldivu mx a b c False = (v, False)"
  shows "c \<noteq> 0 \<and> v = a * b div c"
proof -
  from assms(3) have c: "c \<noteq> 0" by (auto simp: safe_muldivu_def split: if_splits)
  show ?thesis
  proof (cases "snd (safe_mulu mx a b False)")
    case False
    then obtain x where x: "safe_mulu mx a b False = (x, False)"
      by (cases "safe_mulu mx a b False") auto
    with assms c have "v = x div c" by (simp add: safe_muldivu_def)
    with c safe_mulu_noerr(1) [OF assms(1,2) x] show ?thesis by simp
  next
    case True
    then obtain x0 where x0: "safe_mulu mx a b False = (x0, True)"
      by (cases "safe_mulu mx a b False") auto
    define a' b' where "a' = (if b > a then b else a)" and "b' = (if b > a then a else b)"
    have sw: "(if b > a then (b, a) else (a, b)) = (a', b')" by (simp add: a'_def b'_def)
    obtain x e1 where x: "safe_mulu mx (a' mod c) b' False = (x, e1)" by fastforce
    obtain y e2 where y: "safe_mulu mx (a' div c) b' e1 = (y, e2)" by fastforce
    have "safe_addu mx y (x div c) e2 = (v, False)"
      using assms(3) c x0 sw x y by (simp add: safe_muldivu_def)
    moreover have "a' \<le> mx" "b' \<le> mx" using assms(1,2) by (simp_all add: a'_def b'_def)
    ultimately have "v = a' * b' div c" using c x y by (blast intro: muldivu_exact_aux)
    then show ?thesis using c by (simp add: a'_def b'_def mult.commute)
  qed
qed

lemma safe_muldivu_le: "fst (safe_muldivu mx a b c err) \<le> mx"
proof -
  have d: "x mod (mx + 1) div c \<le> mx" for x :: nat
    using mod_plus1_le [of x mx] by (meson div_le_dividend le_trans)
  show ?thesis
    using d mod_plus1_le by (simp add: safe_muldivu_def safe_mulu_def safe_addu_def Let_def
        split: prod.splits del: One_nat_def)
qed

lemma safe_mulu_eq: "safe_mulu mx a b err = ((a * b) mod (mx + 1), mx < a * b \<or> err)"
  using safe_mulu_err_iff [of mx a b] by (auto simp: safe_mulu_def split: if_splits)

text \<open>The way through the remainder, when the product does not fit.\<close>

lemma muldivu_long:
  fixes a b c mx :: nat
  assumes ab: "a \<le> mx" "b \<le> mx" and c: "c \<noteq> 0"
  defines "x \<equiv> (a mod c) * b" and "y \<equiv> (a div c) * b"
  shows "safe_addu mx (y mod (mx + 1)) (x mod (mx + 1) div c) (mx < y \<or> mx < x) = (v, False)
    \<longleftrightarrow> v = a * b div c \<and> v \<le> mx \<and> x \<le> mx"
proof -
  have sum: "y + x div c = a * b div c" unfolding x_def y_def by (rule muldiv_split [OF c])
  have "x div c \<le> mx - y \<longleftrightarrow> y + x div c \<le> mx" if "y \<le> mx" using that by linarith
  then show ?thesis using sum by (auto simp: safe_addu_def)
qed

text \<open>
  C11.  The unsigned fused multiply-divide is exact or flagged: it reports no error exactly when the divisor is not zero,
  the quotient of the full (unbounded) product fits the type, and either the product fits or its part from the remainder
  of the larger factor does; and without an error its value is that quotient.
\<close>

theorem safe_muldivu_exact:
  assumes "a \<le> mx" "b \<le> mx"
  shows "safe_muldivu mx a b c False = (v, False) \<longleftrightarrow>
    c \<noteq> 0 \<and> v = a * b div c \<and> v \<le> mx \<and> (a * b \<le> mx \<or> (max a b mod c) * min a b \<le> mx)"
proof (cases "c = 0 \<or> a * b \<le> mx")
  case True
  have "a * b div c \<le> mx" if "a * b \<le> mx" using that div_le_dividend [of "a * b" c] by linarith
  with True show ?thesis by (auto simp: safe_muldivu_def safe_mulu_eq)
next
  case False
  let ?a = "max a b" and ?b = "min a b"
  have "(if b > a then (b, a) else (a, b)) = (?a, ?b)" by auto
  then have "safe_muldivu mx a b c False =
      safe_addu mx (((?a div c) * ?b) mod (mx + 1)) (((?a mod c) * ?b) mod (mx + 1) div c) (mx < (?a div c) * ?b \<or> mx < (?a mod c) * ?b)"
    using False by (simp add: safe_muldivu_def safe_mulu_eq)
  moreover have "?a \<le> mx" "?b \<le> mx" "?a * ?b = a * b" using assms by (auto simp: max_def min_def)
  ultimately show ?thesis using False muldivu_long [of ?a mx ?b c v] by auto
qed

theorem safe_muldivu_exact_witness:
  "safe_muldivu 255 250 3 200 False = (3, False) \<and> (3::nat) = 250 * 3 div 200"
proof -
  have ev: "safe_muldivu 255 250 3 200 False = (3, False)"
    by (simp add: safe_muldivu_def safe_mulu_def safe_addu_def)
  with safe_muldivu_exact [of 250 255 3 200 3] show ?thesis by simp
qed

section \<open>The signed operations are exact or flagged\<close>

definition in_type :: "int \<Rightarrow> int \<Rightarrow> int \<Rightarrow> bool" where
  "in_type mn mx v \<longleftrightarrow> mn \<le> v \<and> v \<le> mx"

definition signed_type :: "int \<Rightarrow> int \<Rightarrow> bool" where
  "signed_type mn mx \<longleftrightarrow> 0 < mx \<and> mn = - mx - 1"

lemma safe_adds_cases:
  assumes "signed_type mn mx" "in_type mn mx a" "in_type mn mx b"
  shows "in_type mn mx (fst (safe_adds mn mx a b err))"
    and "safe_adds mn mx a b err = (v, False) \<Longrightarrow> v = a + b \<and> \<not> err"
    and "snd (safe_adds mn mx a b False) \<longleftrightarrow> \<not> in_type mn mx (a + b)"
  using assms by (auto simp: safe_adds_def in_type_def signed_type_def split: if_splits)

lemma safe_subs_cases:
  assumes "signed_type mn mx" "in_type mn mx a" "in_type mn mx b"
  shows "in_type mn mx (fst (safe_subs mn mx a b err))"
    and "safe_subs mn mx a b err = (v, False) \<Longrightarrow> v = a - b \<and> \<not> err"
    and "snd (safe_subs mn mx a b False) \<longleftrightarrow> \<not> in_type mn mx (a - b)"
  using assms by (auto simp: safe_subs_def in_type_def signed_type_def split: if_splits)

lemma int_le_div_iff_mult_le:
  fixes a n q :: int
  assumes "0 < q"
  shows "a \<le> n div q \<longleftrightarrow> a * q \<le> n"
proof
  assume "a \<le> n div q"
  then have "a * q \<le> n div q * q" using assms by (simp add: mult_right_mono)
  also have "\<dots> \<le> n"
    using assms div_mult_mod_eq [of n q] pos_mod_sign [of q n] by linarith
  finally show "a * q \<le> n" .
next
  assume "a * q \<le> n"
  then have "a * q div q \<le> n div q" using assms by (rule zdiv_mono1)
  then show "a \<le> n div q" using assms by simp
qed

lemma abs_mult_le_iff_sdiv:
  fixes a b mx :: int
  assumes "b \<noteq> 0" "0 < mx"
  shows "\<bar>a\<bar> \<le> mx sdiv \<bar>b\<bar> \<longleftrightarrow> \<bar>a * b\<bar> \<le> mx"
proof -
  have "mx sdiv \<bar>b\<bar> = mx div \<bar>b\<bar>" using assms by (simp add: signed_divide_int_def)
  then show ?thesis using assms by (simp add: abs_mult int_le_div_iff_mult_le)
qed

lemma safe_muls_cases:
  assumes ty: "signed_type mn mx" and ab: "in_type mn mx a" "in_type mn mx b"
  shows "in_type mn mx (fst (safe_muls mn mx a b err))"
    and "safe_muls mn mx a b err = (v, False) \<Longrightarrow> v = a * b \<and> \<not> err"
proof -
  have abs: "(if x < 0 then - x else x) = \<bar>x\<bar>" for x :: int by simp
  have mx: "0 < mx" and mn: "mn = - mx - 1" using ty by (auto simp: signed_type_def)
  show "in_type mn mx (fst (safe_muls mn mx a b err))"
  proof (cases "a \<noteq> 0 \<and> b \<noteq> 0 \<and> \<bar>a\<bar> \<le> mx sdiv \<bar>b\<bar>")
    case True
    then have "\<bar>a * b\<bar> \<le> mx" using abs_mult_le_iff_sdiv mx by blast
    then have "in_type mn mx (a * b)" using mn by (auto simp: in_type_def)
    then show ?thesis using ab mx mn by (auto simp: safe_muls_def in_type_def)
  next
    case False
    then show ?thesis using ab mx mn by (auto simp: safe_muls_def abs in_type_def)
  qed
  show "v = a * b \<and> \<not> err" if "safe_muls mn mx a b err = (v, False)"
    using that by (auto simp: safe_muls_def split: if_splits)
qed

lemma sdiv_in_type:
  assumes "signed_type mn mx" "in_type mn mx a" "b \<noteq> 0" "\<not> (b = - 1 \<and> a = mn)"
  shows "in_type mn mx (a sdiv b)"
proof -
  have ab: "\<bar>a sdiv b\<bar> = \<bar>a\<bar> div \<bar>b\<bar>"
    using assms(3) by (cases "a = 0") (auto simp: signed_divide_int_def abs_mult pos_imp_zdiv_nonneg_iff)
  have le: "\<bar>a\<bar> div \<bar>b\<bar> \<le> \<bar>a\<bar>"
    using assms(3) zdiv_mono2 [of "\<bar>a\<bar>" 1 "\<bar>b\<bar>"] by simp
  show ?thesis
  proof (cases "a = mn")
    case False
    then have "\<bar>a\<bar> \<le> mx" using assms(1,2) by (auto simp: in_type_def signed_type_def)
    with ab le have "\<bar>a sdiv b\<bar> \<le> mx" by linarith
    then show ?thesis using assms(1) by (auto simp: in_type_def signed_type_def)
  next
    case True
    with assms(4) have "b \<noteq> - 1" by simp
    show ?thesis
    proof (cases "b = 1")
      case b1: True
      then show ?thesis using assms(2) by (simp add: signed_divide_int_def mult_sgn_abs)
    next
      case False
      with \<open>b \<noteq> - 1\<close> assms(3) have "2 \<le> \<bar>b\<bar>" by linarith
      then have "\<bar>a\<bar> div \<bar>b\<bar> \<le> \<bar>a\<bar> div 2" by (intro zdiv_mono2) auto
      moreover have "\<bar>a\<bar> = mx + 1" using True assms(1) by (auto simp: signed_type_def)
      ultimately have "\<bar>a sdiv b\<bar> \<le> mx" using ab assms(1) by (auto simp: signed_type_def)
      then show ?thesis using assms(1) by (auto simp: in_type_def signed_type_def)
    qed
  qed
qed

lemma safe_divs_cases:
  assumes "signed_type mn mx" "in_type mn mx a"
  shows "in_type mn mx (fst (safe_divs mn mx a b err))"
    and "safe_divs mn mx a b err = (v, False) \<Longrightarrow> b \<noteq> 0 \<and> v = a sdiv b \<and> \<not> err"
  using assms sdiv_in_type [OF assms, of b]
  by (auto simp: safe_divs_def in_type_def signed_type_def split: if_splits)

lemma safe_mods_cases:
  assumes "signed_type mn mx" "in_type mn mx a"
  shows "in_type mn mx (fst (safe_mods mn mx a b err))"
    and "safe_mods mn mx a b err = (v, False) \<Longrightarrow> b \<noteq> 0 \<and> v = a smod b \<and> \<not> err"
proof -
  have "in_type mn mx (a smod b)" if "b \<noteq> 0"
  proof -
    have "0 \<le> \<bar>a\<bar> mod \<bar>b\<bar>" "\<bar>a\<bar> mod \<bar>b\<bar> \<le> \<bar>a\<bar>"
      using that by (simp_all add: zmod_le_nonneg_dividend)
    moreover have "a smod b = (if a < 0 then - (\<bar>a\<bar> mod \<bar>b\<bar>) else \<bar>a\<bar> mod \<bar>b\<bar>)"
      by (cases "a = 0") (auto simp: signed_modulo_int_def sgn_if)
    ultimately show ?thesis using assms by (auto simp: in_type_def signed_type_def)
  qed
  then show "in_type mn mx (fst (safe_mods mn mx a b err))"
    using assms by (auto simp: safe_mods_def in_type_def signed_type_def)
  show "b \<noteq> 0 \<and> v = a smod b \<and> \<not> err" if "safe_mods mn mx a b err = (v, False)"
    using that by (auto simp: safe_mods_def split: if_splits)
qed

lemma sdiv_muldiv_split:
  fixes a b c :: int
  assumes "c \<noteq> 0"
  shows "(a sdiv c) * b + ((a smod c) * b) sdiv c = (a * b) sdiv c"
proof (cases "a = 0 \<or> b = 0")
  case True
  then show ?thesis by (auto simp: signed_divide_int_def signed_modulo_int_def)
next
  case False
  let ?s = "sgn a * sgn b * sgn c"
  have "(a sdiv c) * b = (a sdiv c) * (sgn b * \<bar>b\<bar>)" by (simp only: sgn_mult_abs)
  also have "\<dots> = ?s * (\<bar>a\<bar> div \<bar>c\<bar> * \<bar>b\<bar>)" by (simp only: signed_divide_int_def ac_simps)
  finally have 1: "(a sdiv c) * b = ?s * (\<bar>a\<bar> div \<bar>c\<bar> * \<bar>b\<bar>)" .
  have 2: "((a smod c) * b) sdiv c = ?s * (\<bar>a\<bar> mod \<bar>c\<bar> * \<bar>b\<bar> div \<bar>c\<bar>)"
  proof (cases "\<bar>a\<bar> mod \<bar>c\<bar> = 0")
    case True
    then show ?thesis by (simp add: signed_divide_int_def signed_modulo_int_def)
  next
    case nz: False
    have "0 \<le> \<bar>a\<bar> mod \<bar>c\<bar>" using assms by simp
    with nz have "sgn (\<bar>a\<bar> mod \<bar>c\<bar>) = 1" "\<bar>\<bar>a\<bar> mod \<bar>c\<bar>\<bar> = \<bar>a\<bar> mod \<bar>c\<bar>" by simp_all
    with False show ?thesis
      by (simp add: signed_divide_int_def signed_modulo_int_def sgn_mult abs_mult abs_sgn_eq)
  qed
  have 3: "(a * b) sdiv c = ?s * (\<bar>a\<bar> * \<bar>b\<bar> div \<bar>c\<bar>)"
    by (simp only: signed_divide_int_def sgn_mult abs_mult)
  have "\<bar>a\<bar> div \<bar>c\<bar> * \<bar>b\<bar> + \<bar>a\<bar> mod \<bar>c\<bar> * \<bar>b\<bar> div \<bar>c\<bar> = \<bar>a\<bar> * \<bar>b\<bar> div \<bar>c\<bar>"
    using assms by (intro muldiv_split) simp
  then show ?thesis unfolding 1 2 3 by (simp only: distrib_left [symmetric])
qed

text \<open>
  The signed fused multiply-divide never leaves the type, and when it reports no error its
  value is the truncated quotient of the full product.
\<close>

theorem safe_muldivs_exact:
  assumes "signed_type mn mx" "in_type mn mx a" "in_type mn mx b"
    and "safe_muldivs mn mx a b c False = (v, False)"
  shows "c \<noteq> 0 \<and> v = (a * b) sdiv c \<and> in_type mn mx v"
proof -
  from assms(4) have c: "c \<noteq> 0" by (auto simp: safe_muldivs_def split: if_splits)
  obtain x0 e0 where x0: "safe_muls mn mx a b False = (x0, e0)" by fastforce
  show ?thesis
  proof (cases e0)
    case False
    with assms(4) c x0 have d: "safe_divs mn mx x0 c False = (v, False)"
      by (simp add: safe_muldivs_def)
    have "in_type mn mx x0" "x0 = a * b"
      using safe_muls_cases [OF assms(1-3), where err = False] x0 False by auto
    with safe_divs_cases [OF assms(1), of x0 c False] d c show ?thesis by auto
  next
    case True
    define a' b' where "a' = (if b > a then b else a)" and "b' = (if b > a then a else b)"
    have sw: "(if b > a then (b, a) else (a, b)) = (a', b')" by (simp add: a'_def b'_def)
    have ty: "in_type mn mx a'" "in_type mn mx b'" using assms by (simp_all add: a'_def b'_def)
    obtain q e1 where q: "safe_divs mn mx a' c False = (q, e1)" by fastforce
    obtain r e2 where r: "safe_mods mn mx a' c e1 = (r, e2)" by fastforce
    obtain x e3 where x: "safe_muls mn mx r b' e2 = (x, e3)" by fastforce
    obtain y e4 where y: "safe_muls mn mx q b' e3 = (y, e4)" by fastforce
    obtain q' e5 where q': "safe_divs mn mx x c e4 = (q', e5)" by fastforce
    have v: "safe_adds mn mx y q' e5 = (v, False)"
      using assms(4) c x0 True sw q r x y q' by (simp add: safe_muldivs_def)
    have tq: "in_type mn mx q" using safe_divs_cases(1) [OF assms(1) ty(1), of c False] q by simp
    have tr: "in_type mn mx r" using safe_mods_cases(1) [OF assms(1) ty(1), of c e1] r by simp
    have tx: "in_type mn mx x" using safe_muls_cases(1) [OF assms(1) tr ty(2), of e2] x by simp
    have tY: "in_type mn mx y" using safe_muls_cases(1) [OF assms(1) tq ty(2), of e3] y by simp
    have tq': "in_type mn mx q'" using safe_divs_cases(1) [OF assms(1) tx, of c e4] q' by simp
    have tv: "in_type mn mx v" using safe_adds_cases(1) [OF assms(1) tY tq', of e5] v by simp
    have "v = y + q'" "\<not> e5" using safe_adds_cases(2) [OF assms(1) tY tq' v] by auto
    moreover from this have "q' = x sdiv c" "\<not> e4"
      using safe_divs_cases(2) [OF assms(1) tx, of c e4 q'] q' by auto
    moreover from this have "y = q * b'" "\<not> e3"
      using safe_muls_cases(2) [OF assms(1) tq ty(2), of e3 y] y by auto
    moreover from this have "x = r * b'" "\<not> e2"
      using safe_muls_cases(2) [OF assms(1) tr ty(2), of e2 x] x by auto
    moreover from this have "r = a' smod c" "\<not> e1"
      using safe_mods_cases(2) [OF assms(1) ty(1), of c e1 r] r by auto
    moreover from this have "q = a' sdiv c"
      using safe_divs_cases(2) [OF assms(1) ty(1), of c False q] q by auto
    ultimately have "v = (a' * b') sdiv c" using sdiv_muldiv_split [OF c] by simp
    then show ?thesis using c tv by (simp add: a'_def b'_def mult.commute)
  qed
qed

theorem safe_muldivs_exact_witness:
  "safe_muldivs (- 128) 127 120 (- 3) 100 False = (- 3, False)
     \<and> (- 3 :: int) = (120 * - 3) sdiv 100"
proof -
  have ev: "safe_muldivs (- 128) 127 120 (- 3) 100 False = (- 3, False)"
    by (simp add: safe_muldivs_def safe_muls_def safe_divs_def safe_mods_def safe_adds_def
        signed_divide_int_def signed_modulo_int_def)
  have "signed_type (- 128) 127" "in_type (- 128) 127 120" "in_type (- 128) 127 (- 3)"
    by (simp_all add: signed_type_def in_type_def)
  from safe_muldivs_exact [OF this ev] ev show ?thesis by simp
qed

lemma div_round_up_eq:
  fixes a b :: nat
  assumes "0 < b"
  shows "(a + b - 1) div b = a div b + (if a mod b \<noteq> 0 then 1 else 0)"
proof -
  have "a + b - 1 = (a mod b + b - 1) + a div b * b"
    using assms div_mult_mod_eq [of a b] by linarith
  then have "(a + b - 1) div b = a div b + (a mod b + b - 1) div b"
    using assms div_mult_self1 [of b "a mod b + b - 1" "a div b"] by simp
  moreover have "(a mod b + b - 1) div b = (if a mod b \<noteq> 0 then 1 else 0)"
  proof (cases "a mod b = 0")
    case True
    then show ?thesis using assms by simp
  next
    case False
    then have "a mod b + b - 1 = (a mod b - 1) + 1 * b" by simp
    moreover have "a mod b - 1 < b" using assms by (meson less_imp_diff_less mod_less_divisor)
    ultimately show ?thesis using False assms div_mult_self1 [of b "a mod b - 1" 1] by simp
  qed
  ultimately show ?thesis by simp
qed

text \<open>
  C3.  Rounding-up division by a non-zero divisor is the ceiling of the exact quotient, computed
  without overflow: no error is reported and the result stays within the type, although
  \<open>a + b - 1\<close> itself need not fit the type.
\<close>

theorem safe_div_round_upu_ceiling:
  assumes "a \<le> mx" "0 < b"
  shows "safe_div_round_upu mx a b err = ((a + b - 1) div b, err) \<and> (a + b - 1) div b \<le> mx"
proof -
  have le: "(a + b - 1) div b \<le> a"
  proof (cases "a = 0")
    case True
    then show ?thesis using assms by simp
  next
    case False
    have "a + b - 1 < (a + 1) * b" using assms False by (cases b) (auto simp: algebra_simps)
    then show ?thesis using assms by (metis Suc_eq_plus1 less_Suc_eq_le less_mult_imp_div_less)
  qed
  have eq: "safe_div_round_upu mx a b err = ((a + b - 1) div b, err)"
    using assms div_round_up_eq [of b a] by (auto simp: safe_div_round_upu_def)
  then show ?thesis using le assms(1) by simp
qed

theorem safe_div_round_upu_ceiling_witness:
  "safe_div_round_upu 255 250 100 False = (3, False) \<and> (250 + 100 - 1) div 100 = (3::nat)"
  using safe_div_round_upu_ceiling [of 250 255 100 False] by simp

end
