(* ===== verification/Ossl_Time.thy ===== *)
theory Ossl_Time
  imports Safe_Math
begin

text \<open>
  \<open>OSSL_TIME\<close> (\<open>include/internal/time.h\<close>): a 64-bit count of nanosecond ticks, with
  arithmetic built on \<open>safe_math.h\<close> instantiated at \<open>uint64_t\<close>.  The struct has the single
  field \<open>t\<close>; the model is that field.
\<close>

type_synonym ossl_time = nat

text \<open>A clock callback, as the function from the number of the call to the time it returns.\<close>

type_synonym clock = "nat \<Rightarrow> ossl_time"

abbreviation safe_add_time :: "nat \<Rightarrow> nat \<Rightarrow> bool \<Rightarrow> nat \<times> bool" where
  "safe_add_time \<equiv> safe_addu UINT64_MAX"

abbreviation safe_sub_time :: "nat \<Rightarrow> nat \<Rightarrow> bool \<Rightarrow> nat \<times> bool" where
  "safe_sub_time \<equiv> safe_subu UINT64_MAX"

abbreviation safe_mul_time :: "nat \<Rightarrow> nat \<Rightarrow> bool \<Rightarrow> nat \<times> bool" where
  "safe_mul_time \<equiv> safe_mulu UINT64_MAX"

abbreviation safe_div_time :: "nat \<Rightarrow> nat \<Rightarrow> bool \<Rightarrow> nat \<times> bool" where
  "safe_div_time \<equiv> safe_divu UINT64_MAX"

abbreviation safe_muldiv_time :: "nat \<Rightarrow> nat \<Rightarrow> nat \<Rightarrow> bool \<Rightarrow> nat \<times> bool" where
  "safe_muldiv_time \<equiv> safe_muldivu UINT64_MAX"

definition OSSL_TIME_SECOND :: nat where "OSSL_TIME_SECOND = 1000000000"
definition OSSL_TIME_MS :: nat where "OSSL_TIME_MS = OSSL_TIME_SECOND div 1000"
definition OSSL_TIME_US :: nat where "OSSL_TIME_US = OSSL_TIME_MS div 1000"

definition ossl_ticks2time :: "nat \<Rightarrow> ossl_time" where
  "ossl_ticks2time ticks = ticks"

definition ossl_time2ticks :: "ossl_time \<Rightarrow> nat" where
  "ossl_time2ticks t = t"

definition ossl_ms2time :: "nat \<Rightarrow> ossl_time" where
  "ossl_ms2time ms = ossl_ticks2time (u64_mul ms OSSL_TIME_MS)"

definition ossl_us2time :: "nat \<Rightarrow> ossl_time" where
  "ossl_us2time us = ossl_ticks2time (u64_mul us OSSL_TIME_US)"

definition ossl_time2ms :: "ossl_time \<Rightarrow> nat" where
  "ossl_time2ms t = ossl_time2ticks t div OSSL_TIME_MS"

definition ossl_time2us :: "ossl_time \<Rightarrow> nat" where
  "ossl_time2us t = ossl_time2ticks t div OSSL_TIME_US"

definition ossl_time_zero :: ossl_time where
  "ossl_time_zero = ossl_ticks2time 0"

definition ossl_time_infinite :: ossl_time where
  "ossl_time_infinite = ossl_ticks2time UINT64_MAX"

text \<open>\<open>struct timeval\<close> is the pair of its fields; \<open>time_t\<close> and the microseconds are signed.\<close>

definition ossl_time_to_timeval :: "ossl_time \<Rightarrow> int \<times> int" where
  "ossl_time_to_timeval t =
     (let (r, err) = safe_add_time t (OSSL_TIME_US - 1) False;
          t = (if err then ossl_time_infinite else r)
      in (int (t div OSSL_TIME_SECOND), int ((t mod OSSL_TIME_SECOND) div OSSL_TIME_US)))"

definition ossl_time_from_timeval :: "int \<times> int \<Rightarrow> ossl_time" where
  "ossl_time_from_timeval tv =
     (if fst tv < 0 then ossl_time_zero
      else nat ((fst tv * int OSSL_TIME_SECOND + snd tv * int OSSL_TIME_US) mod int U64))"

definition ossl_time_to_time_t :: "ossl_time \<Rightarrow> int" where
  "ossl_time_to_time_t t = int (t div OSSL_TIME_SECOND)"

definition ossl_time_from_time_t :: "int \<Rightarrow> ossl_time" where
  "ossl_time_from_time_t t = u64_mul (nat (t mod int U64)) OSSL_TIME_SECOND"

definition ossl_time_compare :: "ossl_time \<Rightarrow> ossl_time \<Rightarrow> int" where
  "ossl_time_compare a b = (if a > b then 1 else if a < b then - 1 else 0)"

definition ossl_time_is_zero :: "ossl_time \<Rightarrow> bool" where
  "ossl_time_is_zero t \<longleftrightarrow> ossl_time_compare t ossl_time_zero = 0"

definition ossl_time_is_infinite :: "ossl_time \<Rightarrow> bool" where
  "ossl_time_is_infinite t \<longleftrightarrow> ossl_time_compare t ossl_time_infinite = 0"

definition ossl_time_add :: "ossl_time \<Rightarrow> ossl_time \<Rightarrow> ossl_time" where
  "ossl_time_add a b =
     (let (r, err) = safe_add_time a b False in if err then ossl_time_infinite else r)"

definition ossl_time_subtract :: "ossl_time \<Rightarrow> ossl_time \<Rightarrow> ossl_time" where
  "ossl_time_subtract a b =
     (let (r, err) = safe_sub_time a b False in if err then ossl_time_zero else r)"

definition ossl_time_abs_difference :: "ossl_time \<Rightarrow> ossl_time \<Rightarrow> ossl_time" where
  "ossl_time_abs_difference a b =
     (if a > b then ossl_time_subtract a b else ossl_time_subtract b a)"

definition ossl_time_multiply :: "ossl_time \<Rightarrow> nat \<Rightarrow> ossl_time" where
  "ossl_time_multiply a b =
     (let (r, err) = safe_mul_time a b False in if err then ossl_time_infinite else r)"

definition ossl_time_divide :: "ossl_time \<Rightarrow> nat \<Rightarrow> ossl_time" where
  "ossl_time_divide a b =
     (let (r, err) = safe_div_time a b False in if err then ossl_time_zero else r)"

definition ossl_time_muldiv :: "ossl_time \<Rightarrow> nat \<Rightarrow> nat \<Rightarrow> ossl_time" where
  "ossl_time_muldiv a b c =
     (let (r, err) = safe_muldiv_time a b c False in if err then ossl_time_zero else r)"

definition ossl_time_max :: "ossl_time \<Rightarrow> ossl_time \<Rightarrow> ossl_time" where
  "ossl_time_max a b = (if a > b then a else b)"

definition ossl_time_min :: "ossl_time \<Rightarrow> ossl_time \<Rightarrow> ossl_time" where
  "ossl_time_min a b = (if a < b then a else b)"

section \<open>The arithmetic saturates\<close>

named_theorems time_simps "the time operations as saturating arithmetic on naturals"

lemma ossl_time_zero_eq [time_simps]: "ossl_time_zero = 0"
  by (simp add: ossl_time_zero_def ossl_ticks2time_def)

lemma ossl_time_infinite_eq [time_simps]: "ossl_time_infinite = UINT64_MAX"
  by (simp add: ossl_time_infinite_def ossl_ticks2time_def)

lemma ossl_time_is_zero_iff [time_simps]: "ossl_time_is_zero t \<longleftrightarrow> t = 0"
  by (simp add: ossl_time_is_zero_def ossl_time_compare_def time_simps)

lemma ossl_time_add_sat [time_simps]:
  "a < U64 \<Longrightarrow> b < U64 \<Longrightarrow> ossl_time_add a b = min (a + b) UINT64_MAX"
  by (auto simp: ossl_time_add_def safe_addu_def time_simps)

lemma ossl_time_subtract_sat [time_simps]:
  assumes "a < U64" "b < U64"
  shows "ossl_time_subtract a b = a - b"
proof (cases "b > a")
  case True
  then show ?thesis by (simp add: ossl_time_subtract_def safe_subu_def time_simps)
next
  case False
  with assms u64_sub_exact [of b a] show ?thesis
    by (simp add: ossl_time_subtract_def safe_subu_def u64_sub_def)
qed

lemma ossl_time_multiply_sat [time_simps]:
  assumes "a < U64" "b < U64"
  shows "ossl_time_multiply a b = min (a * b) UINT64_MAX"
  using safe_mulu_err_iff [of UINT64_MAX a b]
  by (auto simp: ossl_time_multiply_def time_simps safe_mulu_def split: if_splits)

lemma ossl_time_divide_sat [time_simps]: "ossl_time_divide a b = a div b"
  by (simp add: ossl_time_divide_def safe_divu_def time_simps)

lemma ossl_time_abs_difference_sat [time_simps]:
  "a < U64 \<Longrightarrow> b < U64 \<Longrightarrow> ossl_time_abs_difference a b = (if a > b then a - b else b - a)"
  by (simp add: ossl_time_abs_difference_def time_simps)

lemma ossl_time_max_eq [time_simps]: "ossl_time_max a b = max a b"
  by (simp add: ossl_time_max_def max_def)

lemma ossl_time_min_eq [time_simps]: "ossl_time_min a b = min a b"
  by (simp add: ossl_time_min_def min_def)

text \<open>
  C12.  Time addition, subtraction and multiplication saturate as documented: every result is the
  exact one clipped to the range of the type, so an overflow is the infinite time and an
  underflow the zero time.
\<close>

theorem ossl_time_saturating:
  assumes "a < U64" "b < U64"
  shows "ossl_time_add a b = min (a + b) ossl_time_infinite
       \<and> ossl_time_subtract a b = (if b \<le> a then a - b else ossl_time_zero)
       \<and> ossl_time_multiply a b = min (a * b) ossl_time_infinite
       \<and> int (ossl_time_abs_difference a b) = \<bar>int a - int b\<bar>"
  using assms by (simp add: time_simps)

theorem ossl_time_saturating_witness:
  "ossl_time_add UINT64_MAX 1 = ossl_time_infinite \<and> ossl_time_subtract 1 2 = ossl_time_zero"
  using ossl_time_saturating [of UINT64_MAX 1] ossl_time_saturating [of 1 2]
  by (simp add: time_simps)

text \<open>
  C5.  The fused \<open>ossl_time_muldiv\<close> does not saturate upwards: whenever the exact result exceeds
  the type it returns the zero time, the smallest value instead of the largest.
\<close>

theorem ossl_time_muldiv_overflow_zero:
  assumes "a < U64" "b < U64" "UINT64_MAX < a * b div c"
  shows "ossl_time_muldiv a b c = ossl_time_zero"
proof -
  obtain v err where v: "safe_muldivu UINT64_MAX a b c False = (v, err)" by fastforce
  have "v \<le> UINT64_MAX" using safe_muldivu_le [of UINT64_MAX a b c False] v by simp
  moreover have "v = a * b div c" if "\<not> err"
    using safe_muldivu_noerr [of a UINT64_MAX b c v] v that assms(1,2) by simp
  ultimately have err using assms(3) by fastforce
  with v show ?thesis by (simp add: ossl_time_muldiv_def)
qed

theorem ossl_time_muldiv_overflow_zero_witness:
  "ossl_time_muldiv UINT64_MAX 4 2 = ossl_time_zero \<and> UINT64_MAX < UINT64_MAX * 4 div 2"
  using ossl_time_muldiv_overflow_zero [of UINT64_MAX 4 2] by simp

lemma div_1000_split:
  fixes r :: nat
  shows "r div 1000000000 * 1000000000 + r mod 1000000000 div 1000 * 1000 = r div 1000 * 1000"
proof -
  let ?q = "r div 1000000000" and ?s = "r mod 1000000000"
  have "r = ?s + (?q * 1000000) * 1000" using div_mult_mod_eq [of r 1000000000] by linarith
  then have "r div 1000 = (?s + (?q * 1000000) * 1000) div 1000" by simp
  also have "\<dots> = ?q * 1000000 + ?s div 1000" by (rule div_mult_self1) simp
  finally show ?thesis by simp
qed

text \<open>
  C13.  Converting a time to a \<open>struct timeval\<close> and back rounds up to the next microsecond and
  never to zero: the result is at least the original, less than a microsecond above it, and
  zero only for the zero time.
\<close>

theorem ossl_time_timeval_roundtrip:
  assumes "t + 999 < U64"
  defines "t' \<equiv> ossl_time_from_timeval (ossl_time_to_timeval t)"
  shows "t \<le> t' \<and> t' < t + 1000 \<and> (t' = 0 \<longleftrightarrow> t = 0)"
proof -
  let ?r = "t + 999"
  have "\<not> UINT64_MAX - t < 999" using assms(1) by linarith
  then have "ossl_time_to_timeval t = (int (?r div 1000000000), int (?r mod 1000000000 div 1000))"
    using assms(1)
    by (simp add: ossl_time_to_timeval_def safe_addu_def OSSL_TIME_US_def OSSL_TIME_MS_def
        OSSL_TIME_SECOND_def Let_def)
  moreover have "int (?r div 1000000000) * 1000000000 + int (?r mod 1000000000 div 1000) * 1000
      = int (?r div 1000 * 1000)"
    unfolding div_1000_split [of ?r, symmetric] by simp
  ultimately have "t' = nat (int (?r div 1000 * 1000) mod int U64)"
    by (simp only: t'_def ossl_time_from_timeval_def fst_conv snd_conv OSSL_TIME_US_def
        OSSL_TIME_MS_def OSSL_TIME_SECOND_def) simp
  also have "\<dots> = ?r div 1000 * 1000 mod U64"
    by (simp only: zmod_int [symmetric] nat_int)
  also have "\<dots> = ?r div 1000 * 1000"
    using assms(1) by (intro mod_less) (meson div_times_less_eq_dividend le_less_trans)
  finally have "t' + ?r mod 1000 = ?r" by simp
  moreover have "?r mod 1000 < 1000" by simp
  moreover have "t = 0 \<Longrightarrow> ?r mod 1000 = 999" by simp
  ultimately show ?thesis by linarith
qed

theorem ossl_time_timeval_roundtrip_witness:
  "1 \<le> ossl_time_from_timeval (ossl_time_to_timeval 1)
     \<and> ossl_time_from_timeval (ossl_time_to_timeval 1) < 1001"
  using ossl_time_timeval_roundtrip [of 1] by simp

end
