(* ===== verification/Ring_Buf.thy ===== *)
theory Ring_Buf
  imports Safe_Math
begin

text \<open>
  The byte ring buffer of \<open>include/internal/ring_buf.h\<close>, with the logical stream offset of every
  byte: \<open>head_offset\<close> is where bytes are appended and \<open>ctail_offset\<close> the first byte retained.

  The allocation behind \<open>start\<close> is a byte list or null.  An operation is \<open>None\<close> when the C code
  would have undefined behaviour (a division by a zero \<open>alloc\<close>, a copy outside the allocation
  or through the null pointer); the lemmas show that this never happens in a well-formed state.
\<close>

section \<open>The program\<close>

record ring_buf =
  rb_start :: object
  rb_alloc :: nat
  rb_head :: nat
  rb_ctail :: nat

abbreviation MAX_OFFSET :: nat where
  "MAX_OFFSET \<equiv> 4611686018427387904"

definition ring_buf_init :: ring_buf where
  "ring_buf_init = \<lparr>rb_start = None, rb_alloc = 0, rb_head = 0, rb_ctail = 0\<rparr>"

definition ring_buf_destroy :: "ring_buf \<Rightarrow> ring_buf" where
  "ring_buf_destroy r = r\<lparr>rb_start := None, rb_alloc := 0\<rparr>"

definition ring_buf_used :: "ring_buf \<Rightarrow> nat" where
  "ring_buf_used r = u64_sub (rb_head r) (rb_ctail r)"

definition ring_buf_avail :: "ring_buf \<Rightarrow> nat" where
  "ring_buf_avail r = u64_sub (rb_alloc r) (ring_buf_used r)"

text \<open>\<open>memcpy (start + idx, bs, length bs)\<close>.\<close>

definition rb_poke :: "ring_buf \<Rightarrow> nat \<Rightarrow> u8 list \<Rightarrow> ring_buf option" where
  "rb_poke r idx bs =
     (if bs = [] then Some r
      else case rb_start r of
          None \<Rightarrow> None
        | Some b \<Rightarrow> map_option (\<lambda>b'. r\<lparr>rb_start := Some b'\<rparr>) (mem_write b idx bs))"

text \<open>
  The copy both writing loops share: at most up to the end of the allocation.  Returns the
  number of bytes copied.
\<close>

definition rb_copy_chunk :: "ring_buf \<Rightarrow> nat \<Rightarrow> u8 list \<Rightarrow> (nat \<times> ring_buf) option" where
  "rb_copy_chunk r logical_offset buf =
     (if rb_alloc r = 0 then None
      else
        let idx = logical_offset mod rb_alloc r;
            l = rb_alloc r - idx;
            l = (if length buf < l then length buf else l)
        in map_option (\<lambda>r'. (l, r')) (rb_poke r idx (take l buf)))"

fun ring_buf_write_loop :: "nat \<Rightarrow> ring_buf \<Rightarrow> nat \<Rightarrow> u8 list \<Rightarrow> ring_buf option" where
  "ring_buf_write_loop 0 r logical_offset buf = Some r"
| "ring_buf_write_loop (Suc n) r logical_offset buf =
     (if \<not> length buf > 0 then Some r
      else do {
        (l, r) \<leftarrow> rb_copy_chunk r logical_offset buf;
        let r = (if rb_head r < u64_add logical_offset l
                 then r\<lparr>rb_head := u64_add logical_offset l\<rparr> else r);
        ring_buf_write_loop n r (u64_add logical_offset l) (drop l buf)
      })"

definition ring_buf_write_at :: "ring_buf \<Rightarrow> nat \<Rightarrow> u8 list \<Rightarrow> (bool \<times> ring_buf) option" where
  "ring_buf_write_at r logical_offset buf =
     (let avail = ring_buf_avail r;
          (a, err) = safe_addu UINT64_MAX logical_offset (length buf) False;
          (b, err) = safe_addu UINT64_MAX (rb_head r) avail err;
          (c, err) = safe_addu UINT64_MAX (rb_head r) (length buf) err
      in if logical_offset < rb_ctail r \<or> a > b \<or> c > MAX_OFFSET \<or> err then Some (False, r)
         else map_option (\<lambda>r'. (True, r')) (ring_buf_write_loop 2 r logical_offset buf))"

function ring_buf_push_loop :: "ring_buf \<Rightarrow> u8 list \<Rightarrow> nat \<Rightarrow> (nat \<times> ring_buf) option" where
  "ring_buf_push_loop r buf pushed =
     (let avail = ring_buf_avail r;
          buf = (if length buf > avail then take avail buf else buf);
          lim = u64_sub MAX_OFFSET (rb_head r);
          buf = (if length buf > lim then take lim buf else buf)
      in if length buf = 0 then Some (pushed, r)
         else case rb_copy_chunk r (rb_head r) buf of
             None \<Rightarrow> None
           | Some (l, r) \<Rightarrow>
               ring_buf_push_loop (r\<lparr>rb_head := u64_add (rb_head r) l\<rparr>) (drop l buf) (u64_add pushed l))"
  by pat_completeness auto

termination ring_buf_push_loop
proof (relation "measure (\<lambda>(r, buf, pushed). length buf)")
  fix r :: ring_buf and buf pushed avail buf1 lim buf2 lr l r'
  assume buf1: "buf1 = (if avail < length buf then take avail buf else buf)"
    and buf2: "buf2 = (if lim < length buf1 then take lim buf1 else buf1)"
    and ne: "length buf2 \<noteq> 0"
    and chunk: "rb_copy_chunk r (rb_head r) buf2 = Some lr" and lr: "(l, r') = lr"
  have "length buf2 \<le> length buf" using buf1 buf2 by auto
  moreover have "l > 0"
    using chunk lr ne by (auto simp: rb_copy_chunk_def Let_def split: if_splits)
  ultimately show "((r'\<lparr>rb_head := u64_add (rb_head r') l\<rparr>, drop l buf2, u64_add pushed l), r, buf, pushed)
      \<in> measure (\<lambda>(r, buf, pushed). length buf)"
    using ne by (cases buf2) auto
qed simp

definition ring_buf_push :: "ring_buf \<Rightarrow> u8 list \<Rightarrow> (nat \<times> ring_buf) option" where
  "ring_buf_push r buf = ring_buf_push_loop r buf 0"

text \<open>A pointer into the buffer is its index; \<open>None\<close> inside is the null result.\<close>

definition ring_buf_get_ptr :: "ring_buf \<Rightarrow> nat \<Rightarrow> (nat \<times> nat) option option" where
  "ring_buf_get_ptr r logical_offset =
     (if logical_offset \<ge> rb_head r \<or> logical_offset < rb_ctail r then Some None
      else if rb_alloc r = 0 then None
      else
        let idx = logical_offset mod rb_alloc r
        in Some (Some (idx, rb_alloc r - idx)))"

definition ring_buf_get_buf_at :: "ring_buf \<Rightarrow> nat \<Rightarrow> (nat \<times> nat) option" where
  "ring_buf_get_buf_at r logical_offset =
     (if logical_offset > rb_head r \<or> logical_offset < rb_ctail r then None
      else if rb_alloc r = 0 then Some (0, 0)
      else
        let idx = logical_offset mod rb_alloc r;
            l = u64_sub (rb_head r) logical_offset;
            l = (if l > rb_alloc r - idx then rb_alloc r - idx else l)
        in Some (idx, l))"

text \<open>The body of the cleansing branch, for the \<open>l\<close> bytes from the cull tail.\<close>

definition rb_cleanse :: "ring_buf \<Rightarrow> nat \<Rightarrow> ring_buf option" where
  "rb_cleanse r l =
     (let idx = rb_ctail r mod rb_alloc r in do {
        (r, idx, l) \<leftarrow>
          (if l > rb_alloc r - idx then do {
             r' \<leftarrow> rb_poke r idx (replicate (rb_alloc r - idx) 0);
             Some (r', 0, l - (rb_alloc r - idx))
           } else Some (r, idx, l));
        if l > 0 then rb_poke r idx (replicate l 0) else Some r
      })"

definition ring_buf_cpop_range :: "ring_buf \<Rightarrow> nat \<Rightarrow> nat \<Rightarrow> bool \<Rightarrow> ring_buf option" where
  "ring_buf_cpop_range r start end' cleanse =
     (if start > rb_ctail r \<or> end' \<ge> MAX_OFFSET then Some r
      else do {
        r \<leftarrow> (if cleanse \<and> rb_alloc r > 0 \<and> end' > rb_ctail r then
               let cleanse_end = u64_add end' 1;
                   cleanse_end = (if cleanse_end > rb_head r then rb_head r else cleanse_end)
               in rb_cleanse r (u64_sub cleanse_end (rb_ctail r))
             else Some r);
        let r = r\<lparr>rb_ctail := u64_add end' 1\<rparr>;
        Some (if rb_head r < rb_ctail r then r\<lparr>rb_head := rb_ctail r\<rparr> else r)
      })"

partial_function (option) ring_buf_copy_loop ::
    "ring_buf \<Rightarrow> ring_buf \<Rightarrow> nat \<Rightarrow> (bool \<times> ring_buf) option" where
  "ring_buf_copy_loop r rnew copied =
     (case ring_buf_get_buf_at r (u64_add (rb_ctail r) copied) of
        None \<Rightarrow> Some (False, rnew)
      | Some (src, src_len) \<Rightarrow>
          if src_len = 0 then Some (True, rnew)
          else case mem_read (rb_start r) src src_len of
              None \<Rightarrow> None
            | Some bs \<Rightarrow>
                (case ring_buf_push rnew bs of
                   None \<Rightarrow> None
                 | Some (n, rnew) \<Rightarrow>
                     if n \<noteq> src_len then Some (False, rnew)
                     else ring_buf_copy_loop r rnew (u64_add copied src_len)))"

declare ring_buf_copy_loop.simps [code]

definition ring_buf_resize ::
    "(nat \<Rightarrow> object) \<Rightarrow> ring_buf \<Rightarrow> nat \<Rightarrow> (bool \<times> ring_buf) option" where
  "ring_buf_resize malloc r num_bytes =
     (if num_bytes = rb_alloc r then Some (True, r)
      else if num_bytes < ring_buf_used r then Some (False, r)
      else case malloc num_bytes of
          None \<Rightarrow> Some (False, r)
        | Some b \<Rightarrow>
            let h = u64_sub (rb_head r) (ring_buf_used r);
                rnew = \<lparr>rb_start = Some b, rb_alloc = num_bytes, rb_head = h, rb_ctail = h\<rparr>
            in do {
              (ok, rnew) \<leftarrow> ring_buf_copy_loop r rnew 0;
              if ok then Some (True, rnew\<lparr>rb_ctail := rb_ctail r\<rparr>) else Some (False, r)
            })"

section \<open>Well-formedness and contents\<close>

definition rb_mem_ok :: "ring_buf \<Rightarrow> bool" where
  "rb_mem_ok r \<longleftrightarrow>
     (case rb_start r of None \<Rightarrow> rb_alloc r = 0 | Some b \<Rightarrow> rb_alloc r = length b \<and> b \<noteq> [])"

definition ring_buf_wf :: "ring_buf \<Rightarrow> bool" where
  "ring_buf_wf r \<longleftrightarrow>
     rb_mem_ok r \<and> rb_alloc r \<le> PTRDIFF_MAX \<and> rb_ctail r \<le> rb_head r \<and> rb_head r \<le> MAX_OFFSET
     \<and> rb_head r - rb_ctail r \<le> rb_alloc r"

text \<open>The byte at a logical offset, and the retained bytes in stream order.\<close>

definition rb_byte :: "ring_buf \<Rightarrow> nat \<Rightarrow> u8" where
  "rb_byte r off = (case rb_start r of None \<Rightarrow> 0 | Some b \<Rightarrow> b ! (off mod rb_alloc r))"

definition ring_buf_data :: "ring_buf \<Rightarrow> u8 list" where
  "ring_buf_data r = map (rb_byte r) [rb_ctail r..<rb_head r]"

text \<open>
  \<open>rb_updates c r off bs r'\<close>: in the window of logical offsets that starts at \<open>c\<close>, the memory
  of \<open>r'\<close> is that of \<open>r\<close> with \<open>bs\<close> stored at the logical offset \<open>off\<close>.
\<close>

definition rb_updates :: "nat \<Rightarrow> ring_buf \<Rightarrow> nat \<Rightarrow> u8 list \<Rightarrow> ring_buf \<Rightarrow> bool" where
  "rb_updates c r off bs r' \<longleftrightarrow>
     rb_mem_ok r' \<and> rb_alloc r' = rb_alloc r \<and>
     (\<forall>x. c \<le> x \<and> x < c + rb_alloc r \<longrightarrow>
        rb_byte r' x = (if off \<le> x \<and> x < off + length bs then bs ! (x - off) else rb_byte r x))"

lemma ring_index_in:
  fixes a :: nat
  assumes "off mod a + l \<le> a" "off \<le> x" "x < off + l"
  shows "x mod a = off mod a + (x - off)"
proof -
  have "(off + (x - off)) mod a = (off mod a + (x - off)) mod a" by (simp add: mod_add_left_eq)
  moreover have "off mod a + (x - off) < a" using assms by linarith
  ultimately show ?thesis using assms(2) by simp
qed

lemma ring_index_out:
  fixes a :: nat
  assumes "0 < a" "off mod a + l \<le> a" "c \<le> off" "off + l \<le> c + a" "c \<le> x" "x < c + a"
    and out: "\<not> (off \<le> x \<and> x < off + l)"
  shows "\<not> (off mod a \<le> x mod a \<and> x mod a < off mod a + l)"
proof
  assume *: "off mod a \<le> x mod a \<and> x mod a < off mod a + l"
  define d where "d = x mod a - off mod a"
  have d: "d < l" "x mod a = (off + d) mod a"
    using * ring_index_in [of off a l "off + d"] assms(2) by (auto simp: d_def)
  have "off + d < c + a" "c \<le> off + d" using d(1) assms by linarith+
  have "x = off + d"
  proof (rule ccontr)
    assume ne: "x \<noteq> off + d"
    show False
    proof (cases "x < off + d")
      case True
      then have "a dvd off + d - x" using d(2) by (metis mod_eq_dvd_iff_nat less_imp_le_nat)
      moreover have "0 < off + d - x" "off + d - x < a" using True \<open>off + d < c + a\<close> assms by linarith+
      ultimately show False using nat_dvd_not_less by blast
    next
      case False
      then have "a dvd x - (off + d)" using d(2) by (metis mod_eq_dvd_iff_nat not_less)
      moreover have "0 < x - (off + d)" "x - (off + d) < a" using False ne \<open>c \<le> off + d\<close> assms by linarith+
      ultimately show False using nat_dvd_not_less by blast
    qed
  qed
  with out d(1) show False by simp
qed

lemma rb_poke_updates:
  assumes ok: "rb_mem_ok r" and a: "0 < rb_alloc r"
    and fit: "off mod rb_alloc r + length bs \<le> rb_alloc r"
    and win: "c \<le> off" "off + length bs \<le> c + rb_alloc r"
  obtains r' where "rb_poke r (off mod rb_alloc r) bs = Some r'" "rb_updates c r off bs r'"
    "rb_head r' = rb_head r" "rb_ctail r' = rb_ctail r"
proof -
  obtain b where b: "rb_start r = Some b" "rb_alloc r = length b" "b \<noteq> []"
    using ok a by (auto simp: rb_mem_ok_def split: option.splits)
  let ?i = "off mod rb_alloc r"
  obtain b' where b': "mem_write b ?i bs = Some b'"
    using fit b(2) mem_write_in_bounds by metis
  have len: "length b' = length b" using b' by (rule length_mem_write)
  let ?r = "r\<lparr>rb_start := Some b'\<rparr>"
  have "rb_byte ?r x = (if off \<le> x \<and> x < off + length bs then bs ! (x - off) else rb_byte r x)"
    if x: "c \<le> x" "x < c + rb_alloc r" for x
  proof -
    have "x mod rb_alloc r < length b" using a b by simp
    note nth = mem_write_nth [OF b' this]
    show ?thesis
    proof (cases "off \<le> x \<and> x < off + length bs")
      case True
      then have "x mod rb_alloc r = off mod rb_alloc r + (x - off)" by (intro ring_index_in [OF fit]) auto
      with nth True show ?thesis by (simp add: rb_byte_def) linarith
    next
      case False
      note ring_index_out [OF a fit win x False]
      with nth False show ?thesis by (auto simp: rb_byte_def b(1))
    qed
  qed
  then have "rb_updates c r off bs ?r"
    using len b by (auto simp: rb_updates_def rb_mem_ok_def)
  moreover have "rb_poke r ?i bs = Some (if bs = [] then r else ?r)"
    using b b' by (simp add: rb_poke_def)
  moreover have "rb_updates c r off [] r"
    using ok by (auto simp: rb_updates_def)
  ultimately show thesis using that by (cases "bs = []") auto
qed

lemma rb_updates_trans:
  assumes "rb_updates c r off bs1 r1" "rb_updates c r1 (off + length bs1) bs2 r2"
  shows "rb_updates c r off (bs1 @ bs2) r2"
  using assms by (auto simp: rb_updates_def nth_append)

lemma rb_copy_chunk_updates:
  assumes ok: "rb_mem_ok r" and a: "0 < rb_alloc r"
    and win: "c \<le> off" "off + length buf \<le> c + rb_alloc r"
    and l: "l = min (length buf) (rb_alloc r - off mod rb_alloc r)"
  obtains r' where "rb_copy_chunk r off buf = Some (l, r')" "rb_updates c r off (take l buf) r'"
    "rb_head r' = rb_head r" "rb_ctail r' = rb_ctail r"
proof -
  have "off mod rb_alloc r < rb_alloc r" using a by simp
  then have l': "off mod rb_alloc r + l \<le> rb_alloc r" "l \<le> length buf" using l by linarith+
  then have "off mod rb_alloc r + length (take l buf) \<le> rb_alloc r"
      "off + length (take l buf) \<le> c + rb_alloc r" using win by auto
  then obtain r' where r': "rb_poke r (off mod rb_alloc r) (take l buf) = Some r'"
    "rb_updates c r off (take l buf) r'" "rb_head r' = rb_head r" "rb_ctail r' = rb_ctail r"
    using rb_poke_updates [OF ok a _ win(1)] by metis
  have "l = (if length buf < rb_alloc r - off mod rb_alloc r then length buf else rb_alloc r - off mod rb_alloc r)"
    using l by simp
  then have "rb_copy_chunk r off buf = map_option (\<lambda>r'. (l, r')) (rb_poke r (off mod rb_alloc r) (take l buf))"
    using a by (simp add: rb_copy_chunk_def Let_def)
  with r' that show thesis by simp
qed

lemma rb_updates_alloc: "rb_updates c r off bs r' \<Longrightarrow> rb_alloc r' = rb_alloc r \<and> rb_mem_ok r'"
  by (simp add: rb_updates_def)

lemma rb_updates_head [simp]:
  "rb_updates c r off bs (r'\<lparr>rb_head := h\<rparr>) = rb_updates c r off bs r'"
  "rb_updates c (r\<lparr>rb_head := h\<rparr>) off bs r' = rb_updates c r off bs r'"
  by (simp_all add: rb_updates_def rb_byte_def rb_mem_ok_def cong: option.case_cong)

lemma rb_updates_ctail [simp]:
  "rb_updates c r off bs (r'\<lparr>rb_ctail := h\<rparr>) = rb_updates c r off bs r'"
  "rb_updates c (r\<lparr>rb_ctail := h\<rparr>) off bs r' = rb_updates c r off bs r'"
  by (simp_all add: rb_updates_def rb_byte_def rb_mem_ok_def cong: option.case_cong)

lemma rb_mem_ok_simps [simp]:
  "rb_mem_ok (r\<lparr>rb_head := h\<rparr>) = rb_mem_ok r" "rb_mem_ok (r\<lparr>rb_ctail := h\<rparr>) = rb_mem_ok r"
  by (simp_all add: rb_mem_ok_def cong: option.case_cong)

lemma rb_byte_simps [simp]:
  "rb_byte (r\<lparr>rb_head := h\<rparr>) = rb_byte r" "rb_byte (r\<lparr>rb_ctail := h\<rparr>) = rb_byte r"
  by (simp_all add: rb_byte_def fun_eq_iff cong: option.case_cong)

lemma rb_updates_refl: "rb_mem_ok r \<Longrightarrow> rb_updates c r off [] r"
  by (auto simp: rb_updates_def)

lemma u64_add_max_offset: "a + b < U64 \<Longrightarrow> u64_add a b = a + b"
  by (rule u64_add_exact)

lemma mod_add_to_end:
  fixes a :: nat
  assumes "0 < a" shows "(off + (a - off mod a)) mod a = 0"
proof -
  have "off mod a \<le> a" using assms by (simp add: less_imp_le)
  then have "off + (a - off mod a) = (off div a) * a + a"
    using div_mult_mod_eq [of off a] by linarith
  then show ?thesis by simp
qed

lemma write_loop_step:
  assumes "buf \<noteq> []" "rb_copy_chunk r off buf = Some (l, r1)" "off + l < U64"
  shows "ring_buf_write_loop (Suc n) r off buf =
    ring_buf_write_loop n (r1\<lparr>rb_head := max (rb_head r1) (off + l)\<rparr>) (off + l) (drop l buf)"
proof -
  have "(if rb_head r1 < off + l then r1\<lparr>rb_head := off + l\<rparr> else r1) = r1\<lparr>rb_head := max (rb_head r1) (off + l)\<rparr>"
    by (simp add: max_def)
  with assms show ?thesis by (simp add: u64_add_exact Let_def)
qed

lemma write_loop_Nil [simp]: "ring_buf_write_loop n r off [] = Some r"
  by (cases n) simp_all

declare ring_buf_write_loop.simps(2) [simp del]

lemma write_loop_fits:
  assumes ok: "rb_mem_ok r" and a: "0 < rb_alloc r" and fit: "off mod rb_alloc r + length buf \<le> rb_alloc r"
    and win: "c \<le> off" "off + length buf \<le> c + rb_alloc r" and u64: "off + length buf < U64" and ne: "buf \<noteq> []"
  shows "\<exists>r'. ring_buf_write_loop (Suc n) r off buf = Some r' \<and> rb_updates c r off buf r'
     \<and> rb_head r' = max (rb_head r) (off + length buf) \<and> rb_ctail r' = rb_ctail r"
proof -
  have l: "length buf = min (length buf) (rb_alloc r - off mod rb_alloc r)" using fit by simp
  obtain r' where r': "rb_copy_chunk r off buf = Some (length buf, r')"
    "rb_updates c r off (take (length buf) buf) r'" "rb_head r' = rb_head r" "rb_ctail r' = rb_ctail r"
    using rb_copy_chunk_updates [OF ok a win l] by metis
  with write_loop_step [OF ne r'(1) u64, of n] show ?thesis by simp
qed

lemma write_loop_spec:
  assumes ok: "rb_mem_ok r" and a: "0 < rb_alloc r"
    and win: "c \<le> off" "off + length buf \<le> c + rb_alloc r" and len: "length buf \<le> rb_alloc r"
    and u64: "off + length buf < U64" and ne: "buf \<noteq> []"
  shows "\<exists>r'. ring_buf_write_loop 2 r off buf = Some r' \<and> rb_updates c r off buf r'
     \<and> rb_head r' = max (rb_head r) (off + length buf) \<and> rb_ctail r' = rb_ctail r"
proof (cases "off mod rb_alloc r + length buf \<le> rb_alloc r")
  case True
  from write_loop_fits [OF ok a True win u64 ne, of 1] show ?thesis by (simp add: numeral_2_eq_2)
next
  case False
  define l where "l = rb_alloc r - off mod rb_alloc r"
  have lm: "l = min (length buf) (rb_alloc r - off mod rb_alloc r)" using False by (simp add: l_def)
  have l: "0 < l" "l < length buf" using False a by (auto simp: l_def not_le less_diff_conv2 less_diff_conv)
  obtain r1 where r1: "rb_copy_chunk r off buf = Some (l, r1)"
    "rb_updates c r off (take l buf) r1" "rb_head r1 = rb_head r" "rb_ctail r1 = rb_ctail r"
    using rb_copy_chunk_updates [OF ok a win lm] by metis
  let ?r1 = "r1\<lparr>rb_head := max (rb_head r1) (off + l)\<rparr>"
  have ok1: "rb_mem_ok ?r1" "rb_alloc ?r1 = rb_alloc r"
    using rb_updates_alloc [OF r1(2)] by simp_all
  have len2: "length buf - l \<le> rb_alloc r" using len by linarith
  have "(off + l) mod rb_alloc r = 0" unfolding l_def using a by (rule mod_add_to_end)
  then obtain r2 where r2: "ring_buf_write_loop (Suc 0) ?r1 (off + l) (drop l buf) = Some r2"
    "rb_updates c ?r1 (off + l) (drop l buf) r2"
    "rb_head r2 = max (rb_head ?r1) (off + l + length (drop l buf))" "rb_ctail r2 = rb_ctail ?r1"
    using write_loop_fits [OF ok1(1), of "off + l" "drop l buf" c 0] ok1(2) a win len2 l u64 by auto
  have "rb_updates c r off (take l buf @ drop l buf) r2"
    using rb_updates_trans [OF r1(2), of "drop l buf" r2] r2(2) l by simp
  moreover have "rb_head r2 = max (rb_head r) (off + length buf)"
    using r2(3) r1(3) l by simp
  moreover have "ring_buf_write_loop 2 r off buf = Some r2"
    using write_loop_step [OF ne r1(1), of "Suc 0"] r2(1) l u64 by (simp add: numeral_2_eq_2)
  ultimately show ?thesis using r2(4) r1(4) by simp
qed

section \<open>Writing\<close>

lemma ring_buf_used_wf: "ring_buf_wf r \<Longrightarrow> ring_buf_used r = rb_head r - rb_ctail r"
  by (simp add: ring_buf_used_def ring_buf_wf_def u64_sub_exact)

lemma ring_buf_avail_wf: "ring_buf_wf r \<Longrightarrow> ring_buf_avail r = rb_alloc r - (rb_head r - rb_ctail r)"
  by (simp add: ring_buf_avail_def ring_buf_used_wf u64_sub_exact ring_buf_wf_def)

lemma ring_buf_wf_alloc: "ring_buf_wf r \<Longrightarrow> rb_head r + ring_buf_avail r = rb_ctail r + rb_alloc r"
  using ring_buf_avail_wf [of r] by (auto simp: ring_buf_wf_def)

lemma ring_buf_data_append:
  assumes "rb_updates (rb_ctail r) r (rb_head r) bs r'" "ring_buf_wf r"
    "rb_head r' = rb_head r + length bs" "rb_ctail r' = rb_ctail r" "length bs \<le> ring_buf_avail r"
  shows "ring_buf_data r' = ring_buf_data r @ bs"
proof -
  have *: "rb_byte r' x = (if rb_head r \<le> x \<and> x < rb_head r + length bs then bs ! (x - rb_head r) else rb_byte r x)"
    if "rb_ctail r \<le> x" "x < rb_head r + length bs" for x
    using assms(1,5) that ring_buf_wf_alloc [OF assms(2)] by (simp add: rb_updates_def)
  have "rb_ctail r \<le> rb_head r" using assms(2) by (simp add: ring_buf_wf_def)
  then have "ring_buf_data r' = map (rb_byte r') [rb_ctail r..<rb_head r] @ map (rb_byte r') [rb_head r..<rb_head r + length bs]"
    unfolding ring_buf_data_def assms(3,4)
    by (subst upt_add_eq_append) simp_all
  moreover have "map (rb_byte r') [rb_ctail r..<rb_head r] = ring_buf_data r"
    unfolding ring_buf_data_def by (rule map_cong [OF refl], subst *) auto
  moreover have "map (rb_byte r') [rb_head r..<rb_head r + length bs] = bs"
    using \<open>rb_ctail r \<le> rb_head r\<close> by (intro nth_equalityI) (simp_all add: *)
  ultimately show ?thesis by simp
qed

declare ring_buf_push_loop.simps [simp del]

lemma if_length_take: "(if length xs > k then take k xs else xs) = take k xs"
  by simp

lemma push_loop_unfold:
  assumes "ring_buf_wf r" and n: "n = min (length buf) (min (ring_buf_avail r) (MAX_OFFSET - rb_head r))"
  shows "ring_buf_push_loop r buf pushed =
     (if n = 0 then Some (pushed, r)
      else case rb_copy_chunk r (rb_head r) (take n buf) of
             None \<Rightarrow> None
           | Some (l, r) \<Rightarrow>
               ring_buf_push_loop (r\<lparr>rb_head := u64_add (rb_head r) l\<rparr>) (drop l (take n buf)) (u64_add pushed l))"
proof -
  have lim: "u64_sub MAX_OFFSET (rb_head r) = MAX_OFFSET - rb_head r"
    using assms(1) by (intro u64_sub_exact) (simp_all add: ring_buf_wf_def)
  have "take (MAX_OFFSET - rb_head r) (take (ring_buf_avail r) buf) = take n buf"
    by (simp add: n min.commute min_def)
  moreover have "length (take n buf) = n" by (simp add: n)
  ultimately show ?thesis
    by (subst ring_buf_push_loop.simps) (simp only: Let_def lim if_length_take)
qed

lemma push_loop_spec:
  assumes "ring_buf_wf r" "pushed + length buf < U64"
    "n = min (length buf) (min (ring_buf_avail r) (MAX_OFFSET - rb_head r))"
  shows "\<exists>r'. ring_buf_push_loop r buf pushed = Some (pushed + n, r') \<and> ring_buf_wf r'
    \<and> rb_updates (rb_ctail r) r (rb_head r) (take n buf) r'
    \<and> rb_head r' = rb_head r + n \<and> rb_ctail r' = rb_ctail r"
  using assms
proof (induction "length buf" arbitrary: r buf pushed n rule: less_induct)
  case less
  have wf: "rb_mem_ok r" "rb_ctail r \<le> rb_head r" "rb_head r \<le> MAX_OFFSET" "rb_alloc r \<le> PTRDIFF_MAX"
    using less.prems(1) by (simp_all add: ring_buf_wf_def)
  note room = ring_buf_wf_alloc [OF less.prems(1)]
  have n: "n \<le> length buf" "n \<le> ring_buf_avail r" "rb_head r + n \<le> MAX_OFFSET"
    using less.prems(3) wf(3) by linarith+
  show ?case
  proof (cases "n = 0")
    case True
    with push_loop_unfold [OF less.prems(1,3)] less.prems(1) wf(1) show ?thesis
      by (simp add: rb_updates_refl)
  next
    case False
    have a: "0 < rb_alloc r" using False n(2) room wf(2) by linarith
    define l where "l = min (length (take n buf)) (rb_alloc r - rb_head r mod rb_alloc r)"
    have "rb_head r mod rb_alloc r < rb_alloc r" using a by simp
    then have l: "0 < l" "l \<le> n" using False n(1) by (auto simp: l_def)
    have win: "rb_ctail r \<le> rb_head r" "rb_head r + length (take n buf) \<le> rb_ctail r + rb_alloc r"
      using wf n room by auto
    obtain r1 where r1: "rb_copy_chunk r (rb_head r) (take n buf) = Some (l, r1)"
      "rb_updates (rb_ctail r) r (rb_head r) (take l (take n buf)) r1"
      "rb_head r1 = rb_head r" "rb_ctail r1 = rb_ctail r"
      using rb_copy_chunk_updates [OF wf(1) a win l_def] by metis
    let ?r1 = "r1\<lparr>rb_head := rb_head r + l\<rparr>" and ?buf = "drop l (take n buf)"
    have r1': "rb_alloc r1 = rb_alloc r" "rb_mem_ok r1"
      using rb_updates_alloc [OF r1(2)] by simp_all
    have wf1: "ring_buf_wf ?r1"
      using wf r1 r1' l n room by (simp add: ring_buf_wf_def)
    have len: "length ?buf = n - l" "length ?buf < length buf" using n(1) l by simp_all
    have "n - l \<le> ring_buf_avail ?r1" "n - l \<le> MAX_OFFSET - rb_head ?r1"
      using n l ring_buf_wf_alloc [OF wf1] room r1(4) r1'(1) by simp_all
    then have n1: "n - l = min (length ?buf) (min (ring_buf_avail ?r1) (MAX_OFFSET - rb_head ?r1))"
      unfolding len(1) by simp
    have fit: "pushed + l + length ?buf < U64" unfolding len(1) using less.prems(2) n(1) l by linarith
    obtain r2 where r2: "ring_buf_push_loop ?r1 ?buf (pushed + l) = Some (pushed + l + (n - l), r2)" "ring_buf_wf r2"
      "rb_updates (rb_ctail r) r1 (rb_head r + l) (take (n - l) ?buf) r2"
      "rb_head r2 = rb_head r + l + (n - l)" "rb_ctail r2 = rb_ctail r"
      using less.hyps [OF len(2) wf1 fit n1] r1(4) by auto
    have u64: "u64_add (rb_head r1) l = rb_head r + l" "u64_add pushed l = pushed + l"
      using r1(3) n l less.prems(2) by (simp_all add: u64_add_exact)
    have "ring_buf_push_loop r buf pushed = ring_buf_push_loop ?r1 ?buf (pushed + l)"
      by (simp only: push_loop_unfold [OF less.prems(1,3), of pushed] False r1(1) u64 if_False option.case prod.case)
    moreover have "rb_updates (rb_ctail r) r (rb_head r) (take l (take n buf) @ take (n - l) ?buf) r2"
      using r2(3) l n(1) by (intro rb_updates_trans [OF r1(2)]) simp
    moreover have "take l (take n buf) @ take (n - l) ?buf = take n buf"
      using len(1) by (simp del: take_take)
    ultimately show ?thesis using r2 l by auto
  qed
qed

lemma ring_buf_push_spec:
  assumes "ring_buf_wf r" "length buf < U64"
  defines "n \<equiv> min (length buf) (min (ring_buf_avail r) (MAX_OFFSET - rb_head r))"
  obtains r' where "ring_buf_push r buf = Some (n, r')" "ring_buf_wf r'"
    "ring_buf_data r' = ring_buf_data r @ take n buf"
    "rb_head r' = rb_head r + n" "rb_ctail r' = rb_ctail r" "rb_alloc r' = rb_alloc r"
proof -
  have len: "length (take n buf) = n" by (simp add: n_def)
  obtain r' where r': "ring_buf_push_loop r buf 0 = Some (0 + n, r')" "ring_buf_wf r'"
    "rb_updates (rb_ctail r) r (rb_head r) (take n buf) r'"
    "rb_head r' = rb_head r + n" "rb_ctail r' = rb_ctail r"
    using push_loop_spec [OF assms(1), of 0 buf n] assms(2) by (auto simp: n_def)
  moreover have "ring_buf_data r' = ring_buf_data r @ take n buf"
    using r' len by (intro ring_buf_data_append [OF r'(3) assms(1)]) (simp_all add: n_def)
  ultimately show thesis
    using that rb_updates_alloc [OF r'(3)] by (simp add: ring_buf_push_def)
qed

lemma ring_buf_write_at_spec:
  assumes wf: "ring_buf_wf r" and u64: "off < U64" "length buf < U64"
  defines "ok \<equiv> rb_ctail r \<le> off \<and> off + length buf \<le> rb_ctail r + rb_alloc r
      \<and> rb_head r + length buf \<le> MAX_OFFSET"
  obtains r' where "ring_buf_write_at r off buf = Some (ok, r')"
    "ok \<Longrightarrow> rb_updates (rb_ctail r) r off buf r'"
    "ok \<Longrightarrow> rb_head r' = (if buf = [] then rb_head r else max (rb_head r) (off + length buf))"
    "rb_ctail r' = rb_ctail r" "\<not> ok \<Longrightarrow> r' = r"
proof -
  have w: "rb_mem_ok r" "rb_alloc r \<le> PTRDIFF_MAX" "rb_ctail r \<le> rb_head r" "rb_head r \<le> MAX_OFFSET"
    using wf by (simp_all add: ring_buf_wf_def)
  have room: "rb_head r + ring_buf_avail r = rb_ctail r + rb_alloc r"
    using wf by (rule ring_buf_wf_alloc)
  have guard: "(let (a, err) = safe_addu UINT64_MAX off (length buf) False;
          (b, err) = safe_addu UINT64_MAX (rb_head r) (ring_buf_avail r) err;
          (c, err) = safe_addu UINT64_MAX (rb_head r) (length buf) err
      in off < rb_ctail r \<or> a > b \<or> c > MAX_OFFSET \<or> err) \<longleftrightarrow> \<not> ok"
  proof (cases "off + length buf < U64 \<and> rb_head r + length buf < U64")
    case True
    with w room show ?thesis by (auto simp: safe_addu_def ok_def)
  next
    case False
    then have "\<not> ok" using w by (auto simp: ok_def)
    moreover have "UINT64_MAX - x < length buf" if "\<not> x + length buf < U64" "x < U64" for x
      using that by linarith
    then have "UINT64_MAX - off < length buf \<or> UINT64_MAX - rb_head r < length buf"
      using False u64(1) w(4) by (cases "off + length buf < U64") simp_all
    ultimately show ?thesis by (auto simp: safe_addu_def Let_def)
  qed
  show thesis
  proof (cases "ok \<and> buf \<noteq> []")
    case True
    then have "0 < length buf" by simp
    with True have a: "0 < rb_alloc r" unfolding ok_def by linarith
    from True have ok: "rb_ctail r \<le> off" "off + length buf \<le> rb_ctail r + rb_alloc r"
      "length buf \<le> rb_alloc r" "off + length buf < U64"
      using w by (auto simp: ok_def)
    from write_loop_spec [OF w(1) a ok] True obtain r' where
      "ring_buf_write_loop 2 r off buf = Some r'" "rb_updates (rb_ctail r) r off buf r'"
      "rb_head r' = max (rb_head r) (off + length buf)" "rb_ctail r' = rb_ctail r"
      by auto
    with that [of r'] True guard show thesis
      by (simp add: ring_buf_write_at_def Let_def case_prod_beta)
  next
    case False
    with that [of r] guard w(1) show thesis
      by (cases ok) (auto simp: ring_buf_write_at_def Let_def case_prod_beta rb_updates_refl)
  qed
qed

section \<open>Reading\<close>

lemma ring_buf_get_buf_at_spec:
  assumes wf: "ring_buf_wf r" and off: "rb_ctail r \<le> off" "off \<le> rb_head r"
  obtains idx l where "ring_buf_get_buf_at r off = Some (idx, l)" "off + l \<le> rb_head r"
    "l = 0 \<longleftrightarrow> off = rb_head r" "l \<le> rb_alloc r"
    "mem_read (rb_start r) idx l = Some (map (rb_byte r) [off..<off + l])"
    "0 < rb_alloc r \<Longrightarrow> l = min (rb_head r - off) (rb_alloc r - off mod rb_alloc r)"
proof (cases "rb_alloc r = 0")
  case True
  with wf off have "off = rb_head r" by (auto simp: ring_buf_wf_def)
  with True off that [of 0 0] show thesis by (simp add: ring_buf_get_buf_at_def mem_read_def)
next
  case False
  then obtain b where b: "rb_start r = Some b" "rb_alloc r = length b"
    using wf by (auto simp: ring_buf_wf_def rb_mem_ok_def split: option.splits)
  define idx where "idx = off mod rb_alloc r"
  define l where "l = min (rb_head r - off) (rb_alloc r - idx)"
  have idx: "idx < rb_alloc r" using False by (simp add: idx_def)
  then have l: "idx + l \<le> rb_alloc r" "l \<le> rb_head r - off" "l = 0 \<longleftrightarrow> off = rb_head r"
    using off by (auto simp: l_def)
  have sub: "u64_sub (rb_head r) off = rb_head r - off"
    using wf off by (intro u64_sub_exact) (simp_all add: ring_buf_wf_def)
  have get: "ring_buf_get_buf_at r off = Some (idx, l)"
    using False off unfolding ring_buf_get_buf_at_def sub idx_def [symmetric] Let_def
    by (simp add: l_def min_def)
  have "take l (drop idx b) = map (rb_byte r) [off..<off + l]"
  proof (rule nth_equalityI)
    show "length (take l (drop idx b)) = length (map (rb_byte r) [off..<off + l])" using l b by simp
    fix i assume i: "i < length (take l (drop idx b))"
    then have "(off + i) mod rb_alloc r = idx + i"
      using ring_index_in [of off "rb_alloc r" l "off + i"] l by (simp add: idx_def)
    with i l b show "take l (drop idx b) ! i = map (rb_byte r) [off..<off + l] ! i"
      by (simp add: rb_byte_def)
  qed
  with get l b off that [of idx l] show thesis by (auto simp: mem_read_def l_def idx_def)
qed

section \<open>Culling\<close>

lemma rb_cleanse_spec:
  assumes ok: "rb_mem_ok r" and a: "0 < rb_alloc r" and l: "l \<le> rb_alloc r"
  obtains r' where "rb_cleanse r l = Some r'" "rb_updates (rb_ctail r) r (rb_ctail r) (replicate l 0) r'"
    "rb_head r' = rb_head r" "rb_ctail r' = rb_ctail r"
proof (cases "l > rb_alloc r - rb_ctail r mod rb_alloc r")
  case False
  then have "rb_ctail r mod rb_alloc r + length (replicate l (0 :: u8)) \<le> rb_alloc r"
    using a by (simp add: not_less less_imp_le le_diff_conv2 mod_less_divisor add.commute)
  from rb_poke_updates [OF ok a this, of "rb_ctail r"] l obtain r' where r':
    "rb_poke r (rb_ctail r mod rb_alloc r) (replicate l 0) = Some r'"
    "rb_updates (rb_ctail r) r (rb_ctail r) (replicate l 0) r'" "rb_head r' = rb_head r" "rb_ctail r' = rb_ctail r"
    by auto
  moreover have "rb_cleanse r l = Some r'"
    using r'(1) False unfolding rb_cleanse_def Let_def by (cases "l = 0") (simp_all add: rb_poke_def)
  ultimately show thesis using that by blast
next
  case True
  define l1 where "l1 = rb_alloc r - rb_ctail r mod rb_alloc r"
  have m: "rb_ctail r mod rb_alloc r < rb_alloc r" using a by simp
  have l1: "0 < l1" "l1 < l" "rb_ctail r mod rb_alloc r + l1 = rb_alloc r"
    using True m by (simp_all add: l1_def)
  obtain r1 where r1: "rb_poke r (rb_ctail r mod rb_alloc r) (replicate l1 0) = Some r1"
    "rb_updates (rb_ctail r) r (rb_ctail r) (replicate l1 0) r1" "rb_head r1 = rb_head r" "rb_ctail r1 = rb_ctail r"
    using rb_poke_updates [OF ok a, of "rb_ctail r" "replicate l1 0" "rb_ctail r"] l1 l by auto
  have "(rb_ctail r + l1) mod rb_alloc r = 0" unfolding l1_def using a by (rule mod_add_to_end)
  moreover have "l - l1 \<le> rb_alloc r" using l by linarith
  ultimately obtain r2 where r2: "rb_poke r1 0 (replicate (l - l1) 0) = Some r2"
    "rb_updates (rb_ctail r) r1 (rb_ctail r + l1) (replicate (l - l1) 0) r2"
    "rb_head r2 = rb_head r" "rb_ctail r2 = rb_ctail r"
    using rb_poke_updates [of r1 "rb_ctail r + l1" "replicate (l - l1) 0" "rb_ctail r"]
      rb_updates_alloc [OF r1(2)] a l l1 r1(3,4) by auto
  have "rb_updates (rb_ctail r) r (rb_ctail r) (replicate l1 0 @ replicate (l - l1) 0) r2"
    using rb_updates_trans [OF r1(2)] r2(2) by simp
  moreover have "replicate l1 (0 :: u8) @ replicate (l - l1) 0 = replicate l 0"
    using l1(2) by (metis le_add_diff_inverse less_imp_le replicate_add)
  moreover have "rb_cleanse r l = Some r2"
    using r1(1) r2(1) l1 unfolding rb_cleanse_def l1_def [symmetric] Let_def by simp
  ultimately show thesis using that r2(3,4) by simp
qed

lemma ring_buf_cpop_range_spec:
  assumes wf: "ring_buf_wf r" and pop: "start \<le> rb_ctail r" "end' < MAX_OFFSET" "rb_ctail r \<le> end' + 1"
  obtains r' where "ring_buf_cpop_range r start end' cleanse = Some r'" "ring_buf_wf r'"
    "rb_ctail r' = end' + 1" "rb_head r' = max (rb_head r) (end' + 1)" "rb_alloc r' = rb_alloc r"
    "\<And>x. end' + 1 \<le> x \<Longrightarrow> x < rb_ctail r + rb_alloc r \<Longrightarrow> rb_byte r' x = rb_byte r x"
    "\<And>x. cleanse \<Longrightarrow> rb_ctail r < end' \<Longrightarrow> rb_ctail r \<le> x \<Longrightarrow> x \<le> end' \<Longrightarrow> x < rb_head r \<Longrightarrow> rb_byte r' x = 0"
proof -
  have w: "rb_mem_ok r" "rb_ctail r \<le> rb_head r" "rb_head r \<le> MAX_OFFSET" "rb_head r - rb_ctail r \<le> rb_alloc r"
    using wf by (simp_all add: ring_buf_wf_def)
  define cl where "cl \<longleftrightarrow> cleanse \<and> rb_alloc r > 0 \<and> end' > rb_ctail r"
  define l where "l = (if cl then min (end' + 1) (rb_head r) - rb_ctail r else 0)"
  have l: "cl \<Longrightarrow> l \<le> rb_alloc r" "rb_ctail r + l \<le> max (rb_ctail r) (min (end' + 1) (rb_head r))"
    using w pop by (auto simp: l_def)
  obtain r1 where r1: "(if cl then rb_cleanse r l else Some r) = Some r1"
      "rb_updates (rb_ctail r) r (rb_ctail r) (replicate l 0) r1" "rb_head r1 = rb_head r" "rb_ctail r1 = rb_ctail r"
  proof (cases cl)
    case True
    with rb_cleanse_spec [OF w(1)] l(1) that show thesis by (auto simp: cl_def)
  next
    case False
    with that [of r] w(1) show thesis by (simp add: l_def rb_updates_refl)
  qed
  have e: "u64_add end' 1 = end' + 1" using pop(2) by (simp add: u64_add_def)
  have sub: "u64_sub (if end' + 1 > rb_head r then rb_head r else end' + 1) (rb_ctail r) = l" if cl
  proof -
    have "(if end' + 1 > rb_head r then rb_head r else end' + 1) = min (end' + 1) (rb_head r)" by simp
    then show ?thesis using that w pop by (simp add: l_def u64_sub_exact)
  qed
  let ?r' = "r1\<lparr>rb_ctail := end' + 1, rb_head := max (rb_head r) (end' + 1)\<rparr>"
  have "ring_buf_cpop_range r start end' cleanse =
      (do { r \<leftarrow> (if cl then rb_cleanse r l else Some r);
            let r = r\<lparr>rb_ctail := end' + 1\<rparr>;
            Some (if rb_head r < rb_ctail r then r\<lparr>rb_head := rb_ctail r\<rparr> else r) })"
    using pop sub by (simp add: ring_buf_cpop_range_def e cl_def Let_def)
  also have "\<dots> = Some ?r'" using r1 by (simp add: max_def Let_def)
  finally have res: "ring_buf_cpop_range r start end' cleanse = Some ?r'" .
  have up: "rb_byte r1 x = (if rb_ctail r \<le> x \<and> x < rb_ctail r + l then 0 else rb_byte r x)"
    if "rb_ctail r \<le> x" "x < rb_ctail r + rb_alloc r" for x
    using r1(2) that by (simp add: rb_updates_def)
  have al: "rb_alloc r1 = rb_alloc r" "rb_mem_ok r1" using rb_updates_alloc [OF r1(2)] by simp_all
  show thesis
  proof (rule that [OF res])
    show "ring_buf_wf ?r'" using wf al pop by (auto simp: ring_buf_wf_def)
    show "rb_byte ?r' x = rb_byte r x" if "end' + 1 \<le> x" "x < rb_ctail r + rb_alloc r" for x
      using up [of x] that pop(3) l(2) by (simp add: max_def min_def split: if_splits)
    show "rb_byte ?r' x = 0" if "cleanse" "rb_ctail r < end'" "rb_ctail r \<le> x" "x \<le> end'" "x < rb_head r" for x
      using up [of x] that w by (simp add: l_def cl_def)
  qed (simp_all add: al)
qed

lemma ring_buf_data_drop:
  assumes "ring_buf_wf r" "ring_buf_wf r'" "rb_ctail r \<le> rb_ctail r'" "rb_head r' = max (rb_head r) (rb_ctail r')"
    "\<And>x. rb_ctail r' \<le> x \<Longrightarrow> x < rb_head r \<Longrightarrow> rb_byte r' x = rb_byte r x"
  shows "ring_buf_data r' = drop (rb_ctail r' - rb_ctail r) (ring_buf_data r)"
proof -
  have "ring_buf_data r' = map (rb_byte r') [rb_ctail r'..<rb_head r]"
    using assms(4) by (cases "rb_head r \<le> rb_ctail r'") (auto simp: ring_buf_data_def)
  also have "\<dots> = map (rb_byte r) [rb_ctail r'..<rb_head r]" using assms(5) by simp
  also have "\<dots> = drop (rb_ctail r' - rb_ctail r) (ring_buf_data r)"
    using assms(3) by (simp add: ring_buf_data_def drop_map)
  finally show ?thesis .
qed

section \<open>Resizing\<close>

lemma copy_loop_spec:
  assumes r: "ring_buf_wf r" and "ring_buf_wf rnew" "rb_ctail rnew = rb_ctail r"
    "rb_head rnew = rb_ctail r + copied" "rb_ctail r + copied \<le> rb_head r"
    "rb_head r - rb_ctail r \<le> rb_alloc rnew" "ring_buf_data rnew = take copied (ring_buf_data r)"
  shows "\<exists>r'. ring_buf_copy_loop r rnew copied = Some (True, r') \<and> ring_buf_wf r' \<and> rb_head r' = rb_head r
    \<and> rb_ctail r' = rb_ctail r \<and> rb_alloc r' = rb_alloc rnew \<and> ring_buf_data r' = ring_buf_data r"
  using assms(2-)
proof (induction "rb_head r - (rb_ctail r + copied)" arbitrary: rnew copied rule: less_induct)
  case less
  let ?off = "rb_ctail r + copied"
  have h: "rb_head r \<le> MAX_OFFSET" "rb_ctail r \<le> rb_head r" using r by (simp_all add: ring_buf_wf_def)
  have off: "u64_add (rb_ctail r) copied = ?off" using less.prems(4) h by (simp add: u64_add_exact)
  have lend: "length (ring_buf_data r) = rb_head r - rb_ctail r" by (simp add: ring_buf_data_def)
  obtain src l where get: "ring_buf_get_buf_at r ?off = Some (src, l)" "?off + l \<le> rb_head r"
    "l = 0 \<longleftrightarrow> ?off = rb_head r" "mem_read (rb_start r) src l = Some (map (rb_byte r) [?off..<?off + l])"
    using ring_buf_get_buf_at_spec [OF r le_add1 less.prems(4)] by metis
  show ?case
  proof (cases "l = 0")
    case True
    then have "copied = rb_head r - rb_ctail r" using get(3) by linarith
    with True get(1,3) off less.prems lend show ?thesis
      by (subst ring_buf_copy_loop.simps) simp
  next
    case False
    let ?bs = "map (rb_byte r) [?off..<?off + l]"
    have n: "l = min (length ?bs) (min (ring_buf_avail rnew) (MAX_OFFSET - rb_head rnew))"
      using ring_buf_wf_alloc [OF less.prems(1)] less.prems(2-5) get(2) h by simp
    have "length ?bs < U64" using get(2) h by simp
    then obtain r1 where r1: "ring_buf_push rnew ?bs = Some (l, r1)" "ring_buf_wf r1"
      "ring_buf_data r1 = ring_buf_data rnew @ take l ?bs"
      "rb_head r1 = rb_head rnew + l" "rb_ctail r1 = rb_ctail rnew" "rb_alloc r1 = rb_alloc rnew"
      using ring_buf_push_spec [OF less.prems(1), of ?bs, folded n] by metis
    have "?bs = take l (drop copied (ring_buf_data r))"
      using get(2) by (simp add: ring_buf_data_def take_map drop_map)
    then have "ring_buf_data r1 = take (copied + l) (ring_buf_data r)"
      using r1(3) less.prems(6) by (simp add: take_add)
    moreover have "rb_head r - (rb_ctail r + (copied + l)) < rb_head r - (rb_ctail r + copied)"
      using get(2) False by linarith
    ultimately obtain r' where r': "ring_buf_copy_loop r r1 (copied + l) = Some (True, r')" "ring_buf_wf r'"
      "rb_head r' = rb_head r" "rb_ctail r' = rb_ctail r" "rb_alloc r' = rb_alloc r1" "ring_buf_data r' = ring_buf_data r"
      using less.hyps [of "copied + l" r1] r1 less.prems get(2,3) False by auto
    have "u64_add copied l = copied + l" using get(2) h by (simp add: u64_add_exact)
    with get(1,4) r1(1) r' False off r1(6) show ?thesis
      by (subst ring_buf_copy_loop.simps) simp
  qed
qed

lemma ring_buf_resize_spec:
  fixes num_bytes :: nat
  assumes wf: "ring_buf_wf r" and m: "malloc_ok malloc"
  defines "ok \<equiv> num_bytes = rb_alloc r \<or> rb_head r - rb_ctail r \<le> num_bytes \<and> malloc num_bytes \<noteq> None"
  obtains r' where "ring_buf_resize malloc r num_bytes = Some (ok, r')" "ring_buf_wf r'"
    "rb_head r' = rb_head r" "rb_ctail r' = rb_ctail r" "ring_buf_data r' = ring_buf_data r"
    "rb_alloc r' = (if ok then num_bytes else rb_alloc r)" "\<not> ok \<Longrightarrow> r' = r"
proof (cases "num_bytes = rb_alloc r \<or> num_bytes < rb_head r - rb_ctail r \<or> malloc num_bytes = None")
  case True
  with that [of r] wf show thesis
    by (auto simp: ring_buf_resize_def ok_def ring_buf_used_wf)
next
  case False
  then obtain b where b: "malloc num_bytes = Some b" by auto
  let ?new = "\<lparr>rb_start = Some b, rb_alloc = num_bytes, rb_head = rb_ctail r, rb_ctail = rb_ctail r\<rparr>"
  have "length b = num_bytes" "0 < num_bytes" "num_bytes \<le> PTRDIFF_MAX"
    using m b by (auto simp: malloc_ok_def)
  moreover have w: "rb_ctail r \<le> rb_head r" "rb_head r \<le> MAX_OFFSET" using wf by (simp_all add: ring_buf_wf_def)
  ultimately have "ring_buf_wf ?new" by (auto simp: ring_buf_wf_def rb_mem_ok_def)
  then obtain r' where r': "ring_buf_copy_loop r ?new 0 = Some (True, r')" "ring_buf_wf r'"
      "rb_head r' = rb_head r" "rb_ctail r' = rb_ctail r" "rb_alloc r' = num_bytes" "ring_buf_data r' = ring_buf_data r"
    using copy_loop_spec [OF wf, of ?new 0] False w by (auto simp: ring_buf_data_def)
  have "u64_sub (rb_head r) (rb_head r - rb_ctail r) = rb_ctail r" using w by (simp add: u64_sub_exact)
  moreover have "r'\<lparr>rb_ctail := rb_ctail r\<rparr> = r'" using r'(4) by simp
  ultimately have "ring_buf_resize malloc r num_bytes = Some (True, r')"
    using False b r'(1) by (simp add: ring_buf_resize_def ring_buf_used_wf [OF wf])
  with that [of r'] r' False b show thesis by (simp add: ok_def)
qed

section \<open>The interface\<close>

text \<open>
  What a stream relies on: a window of its bytes that starts at \<open>base\<close>, grows by pushes while there is room, and is culled
  from the front.  The client lemmas: with \<open>sent\<close> the bytes accepted so far, the contents stay those from \<open>base\<close> on.
\<close>

locale byte_stream =
  fixes wf :: "'r \<Rightarrow> bool"
    and content :: "'r \<Rightarrow> u8 list"
    and base :: "'r \<Rightarrow> nat"
    and room :: "'r \<Rightarrow> nat"
    and push :: "'r \<Rightarrow> u8 list \<Rightarrow> nat \<times> 'r"
    and cull :: "'r \<Rightarrow> nat \<Rightarrow> 'r"
  assumes push_law: "wf r \<Longrightarrow> length bs < U64 \<Longrightarrow> push r bs = (n, r') \<Longrightarrow>
      n = min (length bs) (room r) \<and> wf r' \<and> content r' = content r @ take n bs \<and> base r' = base r"
    and cull_law: "wf r \<Longrightarrow> base r \<le> e \<Longrightarrow> e \<le> base r + length (content r) \<Longrightarrow>
      wf (cull r e) \<and> content (cull r e) = drop (e - base r) (content r) \<and> base (cull r e) = e"
begin

definition retains :: "'r \<Rightarrow> u8 list \<Rightarrow> bool" where
  "retains r sent \<longleftrightarrow> wf r \<and> base r \<le> length sent \<and> content r = drop (base r) sent"

lemma push_retains: "retains r sent \<Longrightarrow> length bs < U64 \<Longrightarrow> push r bs = (n, r') \<Longrightarrow> retains r' (sent @ take n bs)"
  using push_law [of r bs n r'] by (auto simp: retains_def)

lemma cull_retains: "retains r sent \<Longrightarrow> base r \<le> e \<Longrightarrow> e \<le> length sent \<Longrightarrow> retains (cull r e) sent"
  using cull_law [of r e] by (auto simp: retains_def)

end

definition ring_buf_push' :: "ring_buf \<Rightarrow> u8 list \<Rightarrow> nat \<times> ring_buf" where
  "ring_buf_push' r bs = (case ring_buf_push r bs of None \<Rightarrow> (0, r) | Some x \<Rightarrow> x)"

text \<open>Culling everything before \<open>e\<close>.  The start of the range only matters when it is beyond the cull tail.\<close>

definition ring_buf_cull :: "bool \<Rightarrow> ring_buf \<Rightarrow> nat \<Rightarrow> ring_buf" where
  "ring_buf_cull cleanse r e =
     (if e = 0 then r else case ring_buf_cpop_range r 0 (e - 1) cleanse of None \<Rightarrow> r | Some r' \<Rightarrow> r')"

lemma length_ring_buf_data: "length (ring_buf_data r) = rb_head r - rb_ctail r"
  by (simp add: ring_buf_data_def)

lemma ring_buf_cull_spec:
  assumes wf: "ring_buf_wf r" and e: "rb_ctail r \<le> e" "e \<le> rb_head r"
  shows "ring_buf_wf (ring_buf_cull cleanse r e) \<and> rb_ctail (ring_buf_cull cleanse r e) = e
    \<and> ring_buf_data (ring_buf_cull cleanse r e) = drop (e - rb_ctail r) (ring_buf_data r)"
proof (cases "e = 0")
  case True
  with e wf show ?thesis by (simp add: ring_buf_cull_def)
next
  case False
  have h: "rb_head r \<le> MAX_OFFSET" "rb_head r \<le> rb_ctail r + rb_alloc r" using wf by (auto simp: ring_buf_wf_def)
  have p: "0 \<le> rb_ctail r" "e - 1 < MAX_OFFSET" "rb_ctail r \<le> e - 1 + 1" using e h False by linarith+
  obtain r' where r': "ring_buf_cpop_range r 0 (e - 1) cleanse = Some r'" "ring_buf_wf r'"
    "rb_ctail r' = e - 1 + 1" "rb_head r' = max (rb_head r) (e - 1 + 1)"
    "\<And>x. e - 1 + 1 \<le> x \<Longrightarrow> x < rb_ctail r + rb_alloc r \<Longrightarrow> rb_byte r' x = rb_byte r x"
    by (rule ring_buf_cpop_range_spec [OF wf p, of cleanse]) blast
  have e': "rb_ctail r' = e" "rb_head r' = max (rb_head r) e" using r'(3,4) False by simp_all
  have "ring_buf_data r' = drop (rb_ctail r' - rb_ctail r) (ring_buf_data r)"
    using e e' h False r'(5) by (intro ring_buf_data_drop [OF wf r'(2)]) simp_all
  with r'(1,2) e' False show ?thesis by (simp add: ring_buf_cull_def)
qed

interpretation rb: byte_stream ring_buf_wf ring_buf_data rb_ctail
    "\<lambda>r. min (ring_buf_avail r) (MAX_OFFSET - rb_head r)" ring_buf_push' "ring_buf_cull cleanse" for cleanse
proof
  fix r bs n r'
  assume *: "ring_buf_wf r" "length bs < U64" "ring_buf_push' r bs = (n, r')"
  obtain r1 where "ring_buf_push r bs = Some (min (length bs) (min (ring_buf_avail r) (MAX_OFFSET - rb_head r)), r1)"
    "ring_buf_wf r1" "rb_ctail r1 = rb_ctail r" "ring_buf_data r1 =
       ring_buf_data r @ take (min (length bs) (min (ring_buf_avail r) (MAX_OFFSET - rb_head r))) bs"
    by (rule ring_buf_push_spec [OF *(1,2)])
  with *(3) show "n = min (length bs) (min (ring_buf_avail r) (MAX_OFFSET - rb_head r)) \<and> ring_buf_wf r'
      \<and> ring_buf_data r' = ring_buf_data r @ take n bs \<and> rb_ctail r' = rb_ctail r"
    by (simp add: ring_buf_push'_def)
next
  fix r e
  assume "ring_buf_wf r" "rb_ctail r \<le> e" "e \<le> rb_ctail r + length (ring_buf_data r)"
  then show "ring_buf_wf (ring_buf_cull cleanse r e)
      \<and> ring_buf_data (ring_buf_cull cleanse r e) = drop (e - rb_ctail r) (ring_buf_data r)
      \<and> rb_ctail (ring_buf_cull cleanse r e) = e"
    using ring_buf_cull_spec [of r e cleanse] by (auto simp: length_ring_buf_data ring_buf_wf_def)
qed

section \<open>Properties\<close>

text \<open>
  C15. Pushing onto a well-formed ring buffer never leaves the allocation and always returns: it
  appends as many bytes as there is room for below the stream size limit, returns their number,
  and keeps everything it holds.
\<close>

theorem ring_buf_push_appends:
  assumes "ring_buf_wf r" "length buf < U64"
  shows "\<exists>n r'. ring_buf_push r buf = Some (n, r') \<and> ring_buf_wf r'
    \<and> n = min (length buf) (min (rb_alloc r - (rb_head r - rb_ctail r)) (MAX_OFFSET - rb_head r))
    \<and> ring_buf_data r' = ring_buf_data r @ take n buf \<and> rb_head r' = rb_head r + n \<and> rb_ctail r' = rb_ctail r"
  by (rule ring_buf_push_spec [OF assms, unfolded ring_buf_avail_wf [OF assms(1)]]) blast

definition example_ring :: ring_buf where
  "example_ring = \<lparr>rb_start = Some [5, 6, 3, 4], rb_alloc = 4, rb_head = 6, rb_ctail = 3\<rparr>"

theorem ring_buf_push_appends_witness:
  "ring_buf_push example_ring [7, 8, 9] = Some (1, example_ring\<lparr>rb_start := Some [5, 6, 7, 4], rb_head := 7\<rparr>)
   \<and> ring_buf_data (example_ring\<lparr>rb_start := Some [5, 6, 7, 4], rb_head := 7\<rparr>) = ring_buf_data example_ring @ [7]"
proof -
  have "ring_buf_wf example_ring" by code_simp
  then have *: "\<exists>n r'. ring_buf_push example_ring [7, 8, 9] = Some (n, r') \<and> ring_buf_wf r'
    \<and> n = min (length [7, 8, 9 :: u8]) (min (rb_alloc example_ring - (rb_head example_ring - rb_ctail example_ring))
        (MAX_OFFSET - rb_head example_ring))
    \<and> ring_buf_data r' = ring_buf_data example_ring @ take n [7, 8, 9]
    \<and> rb_head r' = rb_head example_ring + n \<and> rb_ctail r' = rb_ctail example_ring"
    by (rule ring_buf_push_appends) simp
  have "ring_buf_push example_ring [7, 8, 9] = Some (1, example_ring\<lparr>rb_start := Some [5, 6, 7, 4], rb_head := 7\<rparr>)"
    by code_simp
  with * show ?thesis by (auto simp: take_Cons')
qed

text \<open>
  C16. A write at a logical offset succeeds exactly when the bytes lie in the window that starts
  at the cull tail and the stream limit allows them; then the bytes are stored at their offsets,
  every other byte of the window is unchanged and the head moves to the end of the write if that
  is further.  Otherwise nothing changes.
\<close>

theorem ring_buf_write_at_window:
  assumes "ring_buf_wf r" "off < U64" "length buf < U64"
  shows "\<exists>ok r'. ring_buf_write_at r off buf = Some (ok, r')
    \<and> (ok \<longleftrightarrow> rb_ctail r \<le> off \<and> off + length buf \<le> rb_ctail r + rb_alloc r
         \<and> rb_head r + length buf \<le> MAX_OFFSET)
    \<and> (\<not> ok \<longrightarrow> r' = r)
    \<and> (ok \<longrightarrow> rb_head r' = (if buf = [] then rb_head r else max (rb_head r) (off + length buf))
        \<and> (\<forall>x. rb_ctail r \<le> x \<and> x < rb_ctail r + rb_alloc r \<longrightarrow>
             rb_byte r' x = (if off \<le> x \<and> x < off + length buf then buf ! (x - off) else rb_byte r x)))"
  by (rule ring_buf_write_at_spec [OF assms, unfolded rb_updates_def]) blast

theorem ring_buf_write_at_window_witness:
  "\<exists>r'. ring_buf_write_at example_ring 4 [8, 9, 10] = Some (True, r') \<and> rb_head r' = 7
     \<and> map (rb_byte r') [3, 4, 5, 6] = [4, 8, 9, 10]"
proof -
  have wf: "ring_buf_wf example_ring" by code_simp
  obtain ok r' where r': "ring_buf_write_at example_ring 4 [8, 9, 10] = Some (ok, r')"
    and ok: "ok = (rb_ctail example_ring \<le> 4 \<and> 4 + length [8, 9, 10 :: u8] \<le> rb_ctail example_ring + rb_alloc example_ring
       \<and> rb_head example_ring + length [8, 9, 10 :: u8] \<le> MAX_OFFSET)"
    and eff: "ok \<longrightarrow> rb_head r' = (if [8, 9, 10 :: u8] = [] then rb_head example_ring
          else max (rb_head example_ring) (4 + length [8, 9, 10 :: u8]))
        \<and> (\<forall>x. rb_ctail example_ring \<le> x \<and> x < rb_ctail example_ring + rb_alloc example_ring \<longrightarrow>
           rb_byte r' x = (if 4 \<le> x \<and> x < 4 + length [8, 9, 10 :: u8] then [8, 9, 10] ! (x - 4) else rb_byte example_ring x))"
    using ring_buf_write_at_window [OF wf, of 4 "[8, 9, 10]"] by auto
  have ok by (simp add: ok example_ring_def)
  moreover have "rb_byte example_ring 3 = 4" by code_simp
  ultimately show ?thesis using r' eff by (simp add: example_ring_def)
qed

text \<open>
  C17. Resizing succeeds exactly when the size is unchanged, or the retained bytes fit and the
  allocation succeeds; it terminates without leaving either allocation and keeps the retained
  bytes and both offsets, and when it fails it changes nothing.
\<close>

theorem ring_buf_resize_preserves:
  assumes "ring_buf_wf r" "malloc_ok malloc"
  shows "\<exists>ok r'. ring_buf_resize malloc r num_bytes = Some (ok, r')
    \<and> (ok \<longleftrightarrow> num_bytes = rb_alloc r \<or> rb_head r - rb_ctail r \<le> num_bytes \<and> malloc num_bytes \<noteq> None)
    \<and> ring_buf_wf r' \<and> ring_buf_data r' = ring_buf_data r \<and> rb_head r' = rb_head r \<and> rb_ctail r' = rb_ctail r
    \<and> rb_alloc r' = (if ok then num_bytes else rb_alloc r) \<and> (\<not> ok \<longrightarrow> r' = r)"
  by (rule ring_buf_resize_spec [OF assms, of num_bytes]) blast

theorem ring_buf_resize_preserves_witness:
  "\<exists>r'. ring_buf_resize (\<lambda>n. if n = 0 \<or> n > 100 then None else Some (replicate n 0)) example_ring 10 = Some (True, r')
     \<and> ring_buf_data r' = [4, 5, 6] \<and> rb_alloc r' = 10"
proof -
  let ?m = "\<lambda>n. if n = 0 \<or> n > 100 then None else Some (replicate n 0) :: object"
  have "ring_buf_wf example_ring" by code_simp
  moreover have "malloc_ok ?m" by (simp add: malloc_ok_def)
  ultimately have "\<exists>ok r'. ring_buf_resize ?m example_ring 10 = Some (ok, r')
    \<and> (ok \<longleftrightarrow> 10 = rb_alloc example_ring \<or> rb_head example_ring - rb_ctail example_ring \<le> 10 \<and> ?m 10 \<noteq> None)
    \<and> ring_buf_wf r' \<and> ring_buf_data r' = ring_buf_data example_ring \<and> rb_head r' = rb_head example_ring
    \<and> rb_ctail r' = rb_ctail example_ring
    \<and> rb_alloc r' = (if ok then 10 else rb_alloc example_ring) \<and> (\<not> ok \<longrightarrow> r' = example_ring)"
    by (rule ring_buf_resize_preserves)
  moreover have "ring_buf_data example_ring = [4, 5, 6]" by code_simp
  ultimately show ?thesis by (auto simp: example_ring_def)
qed

text \<open>
  C18. Culling up to \<open>end\<close> keeps the buffer well formed and the bytes after \<open>end\<close>, moves the cull
  tail behind \<open>end\<close>, and with cleansing requested zeroes every culled byte, provided more than one
  byte is culled.
\<close>

theorem ring_buf_cpop_range_cleanses:
  assumes "ring_buf_wf r" "start \<le> rb_ctail r" "end' < MAX_OFFSET" "rb_ctail r \<le> end' + 1"
  shows "\<exists>r'. ring_buf_cpop_range r start end' cleanse = Some r' \<and> ring_buf_wf r' \<and> rb_ctail r' = end' + 1
    \<and> ring_buf_data r' = drop (end' + 1 - rb_ctail r) (ring_buf_data r)
    \<and> (cleanse \<and> rb_ctail r < end' \<longrightarrow>
         (\<forall>x. rb_ctail r \<le> x \<and> x \<le> end' \<and> x < rb_head r \<longrightarrow> rb_byte r' x = 0))"
proof -
  have h: "rb_head r \<le> rb_ctail r + rb_alloc r" using assms(1) by (auto simp: ring_buf_wf_def)
  show ?thesis
  proof (rule ring_buf_cpop_range_spec [OF assms, of cleanse])
    fix r'
    assume *: "ring_buf_cpop_range r start end' cleanse = Some r'" "ring_buf_wf r'"
      "rb_ctail r' = end' + 1" "rb_head r' = max (rb_head r) (end' + 1)"
      "\<And>x. end' + 1 \<le> x \<Longrightarrow> x < rb_ctail r + rb_alloc r \<Longrightarrow> rb_byte r' x = rb_byte r x"
      "\<And>x. cleanse \<Longrightarrow> rb_ctail r < end' \<Longrightarrow> rb_ctail r \<le> x \<Longrightarrow> x \<le> end' \<Longrightarrow> x < rb_head r \<Longrightarrow> rb_byte r' x = 0"
    have "ring_buf_data r' = drop (rb_ctail r' - rb_ctail r) (ring_buf_data r)"
      using * assms(4) h by (intro ring_buf_data_drop [OF assms(1)]) simp_all
    with * show ?thesis by auto
  qed
qed

theorem ring_buf_cpop_range_cleanses_witness:
  "\<exists>r'. ring_buf_cpop_range example_ring 0 4 True = Some r' \<and> ring_buf_data r' = [6]
     \<and> rb_byte r' 3 = 0 \<and> rb_byte r' 4 = 0"
proof -
  have "ring_buf_wf example_ring" by code_simp
  from ring_buf_cpop_range_cleanses [OF this, of 0 4 True]
  obtain r' where "ring_buf_cpop_range example_ring 0 4 True = Some r'"
    "ring_buf_data r' = drop (4 + 1 - rb_ctail example_ring) (ring_buf_data example_ring)"
    "\<forall>x. rb_ctail example_ring \<le> x \<and> x \<le> 4 \<and> x < rb_head example_ring \<longrightarrow> rb_byte r' x = 0"
    by (auto simp: example_ring_def)
  moreover have "drop (4 + 1 - rb_ctail example_ring) (ring_buf_data example_ring) = [6]" by code_simp
  ultimately show ?thesis by (simp add: example_ring_def)
qed

text \<open>
  What the owner of a ring buffer does with it: data are pushed, the front of what it holds is culled, and it is given
  another size, whether or not there is memory for that.  \<open>sent\<close> are the bytes the pushes have accepted.
\<close>

inductive ring_history :: "ring_buf \<Rightarrow> u8 list \<Rightarrow> bool" where
  init: "ring_history ring_buf_init []"
| push: "ring_history r sent \<Longrightarrow> length bs < U64 \<Longrightarrow> ring_buf_push r bs = Some (n, r') \<Longrightarrow> ring_history r' (sent @ take n bs)"
| cull: "ring_history r sent \<Longrightarrow> rb_ctail r \<le> end' + 1 \<Longrightarrow> end' < rb_head r
    \<Longrightarrow> ring_buf_cpop_range r start end' cleanse = Some r' \<Longrightarrow> ring_history r' sent"
| resize: "ring_history r sent \<Longrightarrow> malloc_ok malloc \<Longrightarrow> ring_buf_resize malloc r num_bytes = Some (ok, r') \<Longrightarrow> ring_history r' sent"

lemma retains_head:
  assumes "rb.retains r sent"
  shows "rb_head r = length sent"
proof -
  have "length (ring_buf_data r) = length sent - rb_ctail r" "rb_ctail r \<le> rb_head r" "rb_ctail r \<le> length sent"
    using assms by (simp_all add: rb.retains_def ring_buf_wf_def)
  then show ?thesis by (simp add: length_ring_buf_data)
qed

lemma cpop_range_cull:
  assumes "ring_buf_cpop_range r start end' cleanse = Some r'"
  shows "r' = (if rb_ctail r < start \<or> MAX_OFFSET \<le> end' then r else ring_buf_cull cleanse r (end' + 1))"
proof (cases "rb_ctail r < start \<or> MAX_OFFSET \<le> end'")
  case True
  then show ?thesis using assms by (auto simp: ring_buf_cpop_range_def)
next
  case False
  then have "ring_buf_cpop_range r 0 end' cleanse = Some r'" using assms by (simp add: ring_buf_cpop_range_def)
  with False show ?thesis by (simp add: ring_buf_cull_def)
qed

lemma ring_history_retains: "ring_history r sent \<Longrightarrow> rb.retains r sent"
proof (induction rule: ring_history.induct)
  case init
  show ?case unfolding rb.retains_def by (simp add: ring_buf_init_def ring_buf_wf_def rb_mem_ok_def ring_buf_data_def)
next
  case (push r sent bs n r')
  then show ?case by (intro rb.push_retains [of r]) (simp_all add: ring_buf_push'_def)
next
  case (cull r sent end' start cleanse r')
  have "rb.retains (ring_buf_cull cleanse r (end' + 1)) sent"
    using cull.hyps(2,3) cull.IH retains_head by (intro rb.cull_retains) auto
  then show ?case using cull.IH cpop_range_cull [OF cull.hyps(4)] by simp
next
  case (resize r sent malloc num_bytes ok r')
  have "ring_buf_wf r" using resize.IH by (simp add: rb.retains_def)
  then obtain r'' where "ring_buf_resize malloc r num_bytes =
      Some (num_bytes = rb_alloc r \<or> rb_head r - rb_ctail r \<le> num_bytes \<and> malloc num_bytes \<noteq> None, r'')" "ring_buf_wf r''"
    "rb_ctail r'' = rb_ctail r" "ring_buf_data r'' = ring_buf_data r"
    by (rule ring_buf_resize_spec [OF _ resize.hyps(2)])
  then show ?case using resize.IH resize.hyps(3) by (simp add: rb.retains_def)
qed

text \<open>
  C8. A ring buffer is used by pushing data, culling ranges that end within the data it holds, and changing its size, in
  any order and with any failures of the allocation: its contents are the accepted bytes from the cull tail on, its head
  is their number, and further pushes, culls and resizes are defined.
\<close>

theorem ring_buf_stream_history:
  assumes hist: "ring_history r sent"
  shows "ring_buf_wf r \<and> ring_buf_data r = drop (rb_ctail r) sent \<and> rb_head r = length sent
    \<and> (\<forall>bs. length bs < U64 \<longrightarrow> ring_buf_push r bs \<noteq> None)
    \<and> (\<forall>start end' cleanse. rb_ctail r \<le> end' + 1 \<longrightarrow> end' < rb_head r \<longrightarrow> ring_buf_cpop_range r start end' cleanse \<noteq> None)
    \<and> (\<forall>malloc n. malloc_ok malloc \<longrightarrow> ring_buf_resize malloc r n \<noteq> None)"
proof -
  note ret = ring_history_retains [OF hist]
  then have wf: "ring_buf_wf r" and data: "ring_buf_data r = drop (rb_ctail r) sent" by (simp_all add: rb.retains_def)
  have "ring_buf_push r bs \<noteq> None" if "length bs < U64" for bs
    by (rule ring_buf_push_spec [OF wf that]) simp
  moreover have "ring_buf_cpop_range r start end' cleanse \<noteq> None" if e: "rb_ctail r \<le> end' + 1" "end' < rb_head r" for start end' cleanse
  proof (cases "rb_ctail r < start")
    case True
    then show ?thesis by (simp add: ring_buf_cpop_range_def)
  next
    case False
    have "end' < MAX_OFFSET" "start \<le> rb_ctail r" using e(2) wf False by (simp_all add: ring_buf_wf_def)
    then obtain r' where "ring_buf_cpop_range r start end' cleanse = Some r'"
      using ring_buf_cpop_range_spec [OF wf _ _ e(1), of start cleanse] by blast
    then show ?thesis by simp
  qed
  moreover have "ring_buf_resize malloc r n \<noteq> None" if "malloc_ok malloc" for malloc n
    by (rule ring_buf_resize_spec [OF wf that, of n]) simp
  ultimately show ?thesis using wf data retains_head [OF ret] by blast
qed

definition example_alloc :: "nat \<Rightarrow> object" where
  "example_alloc n = (if n = 0 \<or> n > 100 then None else Some (replicate n 0))"

definition example_rb1 :: ring_buf where "example_rb1 = snd (the (ring_buf_resize example_alloc ring_buf_init 4))"
definition example_rb2 :: ring_buf where "example_rb2 = snd (the (ring_buf_push example_rb1 [1, 2, 3, 4, 5]))"
definition example_rb3 :: ring_buf where "example_rb3 = the (ring_buf_cpop_range example_rb2 0 1 True)"

lemma example_rb3_history: "ring_history example_rb3 [1, 2, 3, 4]"
proof -
  have some: "ring_buf_resize example_alloc ring_buf_init 4 = Some (True, example_rb1)"
    "ring_buf_push example_rb1 [1, 2, 3, 4, 5] = Some (4, example_rb2)" "ring_buf_cpop_range example_rb2 0 1 True = Some example_rb3"
    "rb_ctail example_rb2 \<le> 1 + 1" "1 < rb_head example_rb2"
    by code_simp+
  have "malloc_ok example_alloc" by (auto simp: malloc_ok_def example_alloc_def)
  from ring_history.resize [OF ring_history.init this some(1)] have "ring_history example_rb1 []" .
  from ring_history.push [OF this _ some(2)] have "ring_history example_rb2 [1, 2, 3, 4]" by simp
  from ring_history.cull [OF this some(4,5,3)] show ?thesis .
qed

theorem ring_buf_stream_history_witness:
  "ring_buf_data example_rb3 = [3, 4] \<and> rb_head example_rb3 = 4 \<and> ring_buf_push example_rb3 [9] \<noteq> None
   \<and> ring_buf_cpop_range example_rb3 0 2 True \<noteq> None \<and> ring_buf_resize example_alloc example_rb3 2 \<noteq> None"
proof -
  have m: "malloc_ok example_alloc" by (auto simp: malloc_ok_def example_alloc_def)
  have "rb_ctail example_rb3 = 2" "rb_head example_rb3 = 4" by code_simp+
  with ring_buf_stream_history [OF example_rb3_history] m show ?thesis by auto
qed

text \<open>
  Two limits of the buffer.  Culling a single byte with cleansing requested leaves the byte in
  memory; and a write beyond the head is checked against the stream limit with the head instead of
  its own offset, so that it can move the head past the limit.
\<close>

theorem ring_buf_limits:
  "ring_buf_cpop_range example_ring 0 3 True = Some (example_ring\<lparr>rb_ctail := 4\<rparr>)
   \<and> rb_byte (example_ring\<lparr>rb_ctail := 4\<rparr>) 3 = 4
   \<and> ring_buf_wf (example_ring\<lparr>rb_ctail := MAX_OFFSET - 2, rb_head := MAX_OFFSET - 2\<rparr>)
   \<and> map_option (\<lambda>(ok, r'). (ok, rb_head r'))
       (ring_buf_write_at (example_ring\<lparr>rb_ctail := MAX_OFFSET - 2, rb_head := MAX_OFFSET - 2\<rparr>) (MAX_OFFSET - 1) [1, 2])
     = Some (True, MAX_OFFSET + 1)"
  by code_simp

end
