(* ===== verification/Uint_Set.thy ===== *)
theory Uint_Set
  imports Ossl_Prelude
begin

text \<open>
  Sets of 64-bit integers kept as a sorted list of inclusive ranges: \<open>ssl/quic/uint_set.c\<close>.

  The doubly linked list of \<open>UINT_SET_ITEM\<close>s is the list of its ranges in list order.  A loop
  that walks backwards from an item is a recursion over the reversed list of the items up to
  it (\<open>z # prevs\<close>, so that \<open>hd prevs\<close> is \<open>zprev\<close>) and the list of the items after it.  The one
  allocation a call can make is a boolean argument: whether \<open>OPENSSL_malloc\<close> succeeds.
\<close>

section \<open>The program\<close>

record uint_range =
  ur_start :: nat
  ur_end :: nat

type_synonym uint_set = "uint_range list"

abbreviation urange :: "nat \<Rightarrow> nat \<Rightarrow> uint_range" where
  "urange a b \<equiv> \<lparr>ur_start = a, ur_end = b\<rparr>"

definition ossl_uint_set_init :: uint_set where
  "ossl_uint_set_init = []"

definition u64_min :: "nat \<Rightarrow> nat \<Rightarrow> nat" where
  "u64_min x y = (if x < y then x else y)"

definition u64_max :: "nat \<Rightarrow> nat \<Rightarrow> nat" where
  "u64_max x y = (if x > y then x else y)"

definition uint_range_overlaps :: "uint_range \<Rightarrow> uint_range \<Rightarrow> bool" where
  "uint_range_overlaps a b \<longleftrightarrow>
     u64_min (ur_end a) (ur_end b) \<ge> u64_max (ur_start a) (ur_start b)"

definition create_set_item :: "bool \<Rightarrow> nat \<Rightarrow> nat \<Rightarrow> uint_range option" where
  "create_set_item mem start end' = (if mem then Some (urange start end') else None)"

text \<open>\<open>uint_set_merge_adjacent s x\<close> with the items before \<open>x\<close> (nearest first) and after it.\<close>

definition uint_set_merge_adjacent :: "uint_set \<Rightarrow> uint_range \<Rightarrow> uint_set \<Rightarrow> uint_set" where
  "uint_set_merge_adjacent prevs x after =
     (case prevs of
        [] \<Rightarrow> x # after
      | xprev # prevs' \<Rightarrow>
          if u64_sub (ur_start x) 1 \<noteq> ur_end xprev then rev prevs @ x # after
          else rev prevs' @ x\<lparr>ur_start := ur_start xprev\<rparr> # after)"

text \<open>The inner loop of the overlap case: the earliest overlapping range and what precedes it.\<close>

fun earliest_overlap :: "uint_range \<Rightarrow> uint_range \<Rightarrow> uint_set \<Rightarrow> uint_range \<times> uint_set" where
  "earliest_overlap rng z [] = (z, [])"
| "earliest_overlap rng z (zprev # prevs) =
     (if uint_range_overlaps zprev rng then earliest_overlap rng zprev prevs
      else (z, zprev # prevs))"

fun uint_set_insert_walk ::
    "bool \<Rightarrow> uint_range \<Rightarrow> uint_set \<Rightarrow> uint_set \<Rightarrow> bool \<times> uint_set" where
  "uint_set_insert_walk mem rng [] after = (True, after)"
| "uint_set_insert_walk mem rng (z # prevs) after =
     (let start = ur_start rng; end' = ur_end rng in
      if ur_start z \<le> start \<and> ur_end z \<ge> end' then (True, rev prevs @ z # after)
      else if uint_range_overlaps z rng then
        (let ovend = z\<lparr>ur_end := u64_max end' (ur_end z)\<rparr>;
             (z', prevs') = earliest_overlap rng z prevs
         in (True, rev prevs' @ ovend\<lparr>ur_start := u64_min start (ur_start z')\<rparr> # after))
      else if end' < ur_start z \<and> (prevs = [] \<or> start > ur_end (hd prevs)) then
        (if ur_start z = u64_add end' 1 then
           (True, uint_set_merge_adjacent prevs (z\<lparr>ur_start := start\<rparr>) after)
         else if prevs \<noteq> [] \<and> u64_add (ur_end (hd prevs)) 1 = start then
           (True, uint_set_merge_adjacent ((hd prevs)\<lparr>ur_end := end'\<rparr> # tl prevs) z after)
         else case create_set_item mem start end' of
             None \<Rightarrow> (False, rev prevs @ z # after)
           | Some x \<Rightarrow> (True, rev prevs @ x # z # after))
      else uint_set_insert_walk mem rng prevs (z # after))"

definition ossl_uint_set_insert :: "bool \<Rightarrow> uint_set \<Rightarrow> uint_range \<Rightarrow> bool \<times> uint_set" where
  "ossl_uint_set_insert mem s rng =
     (let start = ur_start rng; end' = ur_end rng in
      if \<not> start \<le> end' then (False, s)
      else if s = [] then
        (case create_set_item mem start end' of None \<Rightarrow> (False, s) | Some x \<Rightarrow> (True, [x]))
      else
        (let z = last s; f = hd s in
         if start > ur_end z then
           (if u64_add (ur_end z) 1 = start then (True, butlast s @ [z\<lparr>ur_end := end'\<rparr>])
            else case create_set_item mem start end' of
                None \<Rightarrow> (False, s)
              | Some x \<Rightarrow> (True, s @ [x]))
         else if start \<le> ur_start f \<and> end' \<ge> ur_end z then
           (True, [f\<lparr>ur_start := start, ur_end := end'\<rparr>])
         else if end' < ur_start f then uint_set_insert_walk mem rng [f] (tl s)
         else uint_set_insert_walk mem rng (rev s) []))"

text \<open>
  The removal loop; the result is undefined behaviour (\<open>None\<close>) when a range has to be cut in
  two and the allocation of the second half fails, since the code links the null item.
\<close>

fun uint_set_remove_walk ::
    "bool \<Rightarrow> uint_range \<Rightarrow> uint_set \<Rightarrow> uint_set \<Rightarrow> uint_set option" where
  "uint_set_remove_walk mem rng [] after = Some after"
| "uint_set_remove_walk mem rng (z # prevs) after =
     (let start = ur_start rng; end' = ur_end rng in
      if start > ur_end z then Some (rev prevs @ z # after)
      else if start \<le> ur_start z \<and> end' \<ge> ur_end z then
        uint_set_remove_walk mem rng prevs after
      else if start \<le> ur_start z \<and> end' \<ge> ur_start z then
        uint_set_remove_walk mem rng prevs (z\<lparr>ur_start := u64_add end' 1\<rparr> # after)
      else if end' \<ge> ur_end z then
        Some (rev prevs @ z\<lparr>ur_end := u64_sub start 1\<rparr> # after)
      else if start > ur_start z \<and> end' < ur_end z then
        (case create_set_item mem (u64_add end' 1) (ur_end z) of
           None \<Rightarrow> None
         | Some y \<Rightarrow> Some (rev prevs @ z\<lparr>ur_end := u64_sub start 1\<rparr> # y # after))
      else uint_set_remove_walk mem rng prevs (z # after))"

definition ossl_uint_set_remove ::
    "bool \<Rightarrow> uint_set \<Rightarrow> uint_range \<Rightarrow> (bool \<times> uint_set) option" where
  "ossl_uint_set_remove mem s rng =
     (if \<not> ur_start rng \<le> ur_end rng then Some (False, s)
      else case uint_set_remove_walk mem rng (rev s) [] of
          None \<Rightarrow> None
        | Some s' \<Rightarrow> Some (True, s'))"

fun uint_set_query_walk :: "uint_set \<Rightarrow> nat \<Rightarrow> bool" where
  "uint_set_query_walk [] v = False"
| "uint_set_query_walk (x # prevs) v =
     (if ur_start x \<le> v \<and> ur_end x \<ge> v then True
      else if ur_end x < v then False
      else uint_set_query_walk prevs v)"

definition ossl_uint_set_query :: "uint_set \<Rightarrow> nat \<Rightarrow> bool" where
  "ossl_uint_set_query s v = (if s = [] then False else uint_set_query_walk (rev s) v)"

declare uint_set_insert_walk.simps(2) [simp del] uint_set_remove_walk.simps(2) [simp del]

section \<open>Abstraction and invariants\<close>

text \<open>
  The invariant the code keeps on every call (sorted, disjoint, no empty range) and the
  stronger one its comment states (in addition no two ranges border one another).
\<close>

definition uint_set_elems :: "uint_set \<Rightarrow> nat set" where
  "uint_set_elems s = (\<Union>x\<in>set s. {ur_start x..ur_end x})"

definition range_wf :: "uint_range \<Rightarrow> bool" where
  "range_wf x \<longleftrightarrow> ur_start x \<le> ur_end x \<and> ur_end x < U64"

definition uint_set_wf :: "uint_set \<Rightarrow> bool" where
  "uint_set_wf s \<longleftrightarrow>
     list_all range_wf s \<and> sorted_wrt (\<lambda>x y. ur_end x < ur_start y) s"

definition uint_set_strict :: "uint_set \<Rightarrow> bool" where
  "uint_set_strict s \<longleftrightarrow>
     list_all range_wf s \<and> sorted_wrt (\<lambda>x y. ur_end x + 1 < ur_start y) s"

lemma uint_set_elems_simps [simp]:
  "uint_set_elems [] = {}"
  "uint_set_elems (x # s) = {ur_start x..ur_end x} \<union> uint_set_elems s"
  "uint_set_elems (s @ t) = uint_set_elems s \<union> uint_set_elems t"
  "uint_set_elems (rev s) = uint_set_elems s"
  by (auto simp: uint_set_elems_def)

lemma uint_set_wf_Nil [simp]: "uint_set_wf []"
  by (simp add: uint_set_wf_def)

lemma uint_set_wf_range: "uint_set_wf s \<Longrightarrow> x \<in> set s \<Longrightarrow> ur_start x \<le> ur_end x \<and> ur_end x < U64"
  by (auto simp: uint_set_wf_def list_all_iff range_wf_def)

lemma uint_set_wf_append:
  "uint_set_wf (s @ t) \<longleftrightarrow>
     uint_set_wf s \<and> uint_set_wf t \<and> (\<forall>x\<in>set s. \<forall>y\<in>set t. ur_end x < ur_start y)"
  by (auto simp: uint_set_wf_def sorted_wrt_append)

lemma uint_set_wf_Cons:
  "uint_set_wf (x # t) \<longleftrightarrow> range_wf x \<and> uint_set_wf t \<and> (\<forall>y\<in>set t. ur_end x < ur_start y)"
  by (auto simp: uint_set_wf_def)

lemma uint_set_strict_append:
  "uint_set_strict (s @ t) \<longleftrightarrow>
     uint_set_strict s \<and> uint_set_strict t \<and> (\<forall>x\<in>set s. \<forall>y\<in>set t. ur_end x + 1 < ur_start y)"
  by (auto simp: uint_set_strict_def sorted_wrt_append)

lemma uint_set_strict_Cons:
  "uint_set_strict (x # t) \<longleftrightarrow>
     range_wf x \<and> uint_set_strict t \<and> (\<forall>y\<in>set t. ur_end x + 1 < ur_start y)"
  by (auto simp: uint_set_strict_def)

lemma uint_set_strict_Nil [simp]: "uint_set_strict []"
  by (simp add: uint_set_strict_def)

lemma uint_set_strict_wf: "uint_set_strict s \<Longrightarrow> uint_set_wf s"
  unfolding uint_set_strict_def uint_set_wf_def
  by (auto elim: sorted_wrt_mono_rel [rotated])

lemmas uint_set_wf_simps = uint_set_wf_append uint_set_wf_Cons range_wf_def

lemmas uint_set_strict_simps = uint_set_strict_append uint_set_strict_Cons range_wf_def

lemma uint_range_overlaps_iff:
  "uint_range_overlaps a b \<longleftrightarrow>
     ur_start a \<le> ur_end a \<and> ur_start b \<le> ur_end b
       \<and> ur_start a \<le> ur_end b \<and> ur_start b \<le> ur_end a"
  by (auto simp: uint_range_overlaps_def u64_min_def u64_max_def)

lemma uint_set_elems_below:
  "uint_set_wf (s @ [x]) \<Longrightarrow> v \<in> uint_set_elems s \<Longrightarrow> v < ur_start x"
  by (fastforce simp: uint_set_elems_def uint_set_wf_append)

section \<open>Insertion\<close>

lemma earliest_overlap_spec:
  assumes "earliest_overlap rng z prevs = (z', prevs')"
    and "uint_set_wf (rev prevs @ [z])" and "uint_range_overlaps z rng"
  shows "uint_set_wf (rev prevs' @ [z'])" and "uint_range_overlaps z' rng"
    and "ur_start z' \<le> ur_start z"
    and "\<forall>p\<in>set prevs'. ur_end p < ur_start rng"
    and "uint_set_elems prevs' \<union> {u64_min (ur_start rng) (ur_start z')..u64_max (ur_end rng) (ur_end z)}
           = uint_set_elems prevs \<union> {ur_start z..ur_end z} \<union> {ur_start rng..ur_end rng}"
proof -
  have "uint_set_wf (rev prevs' @ [z']) \<and> uint_range_overlaps z' rng
      \<and> ur_start z' \<le> ur_start z \<and> (\<forall>p\<in>set prevs'. ur_end p < ur_start rng)
      \<and> uint_set_elems prevs' \<union> {u64_min (ur_start rng) (ur_start z')..u64_max (ur_end rng) (ur_end z)}
           = uint_set_elems prevs \<union> {ur_start z..ur_end z} \<union> {ur_start rng..ur_end rng}"
    using assms
  proof (induction rng z prevs rule: earliest_overlap.induct)
    case (1 rng z)
    then show ?case
      by (auto simp: uint_range_overlaps_iff u64_min_def u64_max_def)
  next
    case (2 rng z zprev prevs)
    show ?case
    proof (cases "uint_range_overlaps zprev rng")
      case True
      with 2 have IH: "uint_set_wf (rev prevs' @ [z'])" "uint_range_overlaps z' rng"
        "ur_start z' \<le> ur_start zprev" "\<forall>p\<in>set prevs'. ur_end p < ur_start rng"
        "uint_set_elems prevs' \<union> {u64_min (ur_start rng) (ur_start z')..u64_max (ur_end rng) (ur_end zprev)}
           = uint_set_elems prevs \<union> {ur_start zprev..ur_end zprev} \<union> {ur_start rng..ur_end rng}"
        by (simp_all add: uint_set_wf_append uint_set_wf_Cons)
      have z: "ur_end zprev < ur_start z" "ur_start z \<le> ur_end z" "ur_start zprev \<le> ur_end zprev"
        using 2(3) by (auto simp: uint_set_wf_simps)
      have "{u64_min (ur_start rng) (ur_start z')..u64_max (ur_end rng) (ur_end z)}
          = {u64_min (ur_start rng) (ur_start z')..u64_max (ur_end rng) (ur_end zprev)} \<union> {ur_start z..ur_end z}"
        using True 2(4) z IH(3) by (auto simp: uint_range_overlaps_iff u64_min_def u64_max_def)
      then show ?thesis
        using IH z by auto
    next
      case False
      with 2 have "z' = z" "prevs' = zprev # prevs" by simp_all
      moreover have "ur_end zprev < ur_start rng"
        using False 2(3,4) by (auto simp: uint_range_overlaps_iff uint_set_wf_simps)
      moreover have "\<forall>p\<in>set prevs. ur_end p < ur_start rng"
        using 2(3) calculation(3) by (fastforce simp: uint_set_wf_simps)
      moreover have "{u64_min (ur_start rng) (ur_start z)..u64_max (ur_end rng) (ur_end z)}
          = {ur_start z..ur_end z} \<union> {ur_start rng..ur_end rng}"
        using 2(4) by (auto simp: uint_range_overlaps_iff u64_min_def u64_max_def)
      ultimately show ?thesis using 2(3,4) by auto
    qed
  qed
  then show "uint_set_wf (rev prevs' @ [z'])" and "uint_range_overlaps z' rng"
    and "ur_start z' \<le> ur_start z"
    and "\<forall>p\<in>set prevs'. ur_end p < ur_start rng"
    and "uint_set_elems prevs' \<union> {u64_min (ur_start rng) (ur_start z')..u64_max (ur_end rng) (ur_end z)}
           = uint_set_elems prevs \<union> {ur_start z..ur_end z} \<union> {ur_start rng..ur_end rng}"
    by blast+
qed

lemma merge_adjacent_spec:
  assumes "uint_set_wf (rev prevs @ x # after)"
  shows "uint_set_wf (uint_set_merge_adjacent prevs x after)"
    and "uint_set_elems (uint_set_merge_adjacent prevs x after) = uint_set_elems (rev prevs @ x # after)"
proof (atomize (full), cases prevs)
  case Nil
  with assms show "uint_set_wf (uint_set_merge_adjacent prevs x after) \<and>
      uint_set_elems (uint_set_merge_adjacent prevs x after) = uint_set_elems (rev prevs @ x # after)"
    by (simp add: uint_set_merge_adjacent_def)
next
  case (Cons xprev ps)
  with assms have "ur_end xprev < ur_start x" "ur_start x < U64" "ur_start xprev \<le> ur_end xprev"
    by (auto simp: uint_set_wf_simps)
  moreover from calculation have "u64_sub (ur_start x) 1 = ur_start x - 1" by (simp add: u64_arith)
  ultimately have "{ur_start xprev..ur_end x} = {ur_start xprev..ur_end xprev} \<union> {ur_start x..ur_end x}"
    if "u64_sub (ur_start x) 1 = ur_end xprev" using that assms Cons by (auto simp: uint_set_wf_simps)
  then show "uint_set_wf (uint_set_merge_adjacent prevs x after) \<and>
      uint_set_elems (uint_set_merge_adjacent prevs x after) = uint_set_elems (rev prevs @ x # after)"
    using assms Cons by (auto simp: uint_set_merge_adjacent_def uint_set_wf_simps)
qed

lemma overlap_branch_spec:
  assumes wf: "uint_set_wf (rev prevs @ z # after)" and "range_wf rng"
    and "uint_range_overlaps z rng" "\<forall>a\<in>set after. ur_end rng < ur_start a"
    and "earliest_overlap rng z prevs = (z', prevs')"
  defines "x \<equiv> urange (u64_min (ur_start rng) (ur_start z')) (u64_max (ur_end rng) (ur_end z))"
  shows "uint_set_wf (rev prevs' @ x # after)"
    and "uint_set_elems (rev prevs' @ x # after)
           = uint_set_elems (rev prevs @ z # after) \<union> {ur_start rng..ur_end rng}"
proof -
  have "uint_set_wf (rev prevs @ [z])" using wf by (simp add: uint_set_wf_simps)
  note eo = earliest_overlap_spec [OF assms(5) this assms(3)]
  have z: "range_wf z" "\<forall>a\<in>set after. ur_end z < ur_start a" "uint_set_wf after"
    using wf by (simp_all add: uint_set_wf_append uint_set_wf_Cons)
  have "range_wf x"
    using eo(2,3) assms(2,3) z(1)
    by (simp add: x_def range_wf_def uint_range_overlaps_iff u64_min_def u64_max_def)
  moreover have "\<forall>p\<in>set prevs'. ur_end p < ur_start x"
    using eo(1,4) by (simp add: x_def u64_min_def uint_set_wf_append)
  moreover have "\<forall>a\<in>set after. ur_end x < ur_start a"
    using z(2) assms(4) by (simp add: x_def u64_max_def)
  moreover have "\<forall>p\<in>set prevs'. \<forall>a\<in>set after. ur_end p < ur_start a"
    using eo(4) assms(2,4) by (fastforce simp: range_wf_def)
  ultimately show "uint_set_wf (rev prevs' @ x # after)"
    using eo(1) z(3) by (simp add: uint_set_wf_append uint_set_wf_Cons)
  show "uint_set_elems (rev prevs' @ x # after)
           = uint_set_elems (rev prevs @ z # after) \<union> {ur_start rng..ur_end rng}"
    using eo(5) by (auto simp: x_def)
qed

lemma prevs_below:
  assumes "uint_set_wf (rev prevs)" "prevs = [] \<or> ur_end (hd prevs) < v"
  shows "\<forall>q\<in>set prevs. ur_end q < v"
proof (cases prevs)
  case (Cons p ps)
  with assms have "ur_end p < v" "ur_start p \<le> ur_end p" "\<forall>q\<in>set ps. ur_end q < ur_start p"
    by (simp_all add: uint_set_wf_simps)
  then have "\<forall>q\<in>set ps. ur_end q < v" by fastforce
  with Cons \<open>ur_end p < v\<close> show ?thesis by simp
qed simp

lemma insert_between_spec:
  assumes "uint_set_wf (rev prevs @ z # after)" "range_wf rng"
    and "ur_end rng < ur_start z" "prevs = [] \<or> ur_start rng > ur_end (hd prevs)"
  shows "uint_set_wf (rev prevs @ rng # z # after)"
proof -
  have "\<forall>q\<in>set prevs. ur_end q < ur_start rng"
    using assms(1,4) by (intro prevs_below) (auto simp: uint_set_wf_append)
  moreover have "\<forall>a\<in>set (z # after). ur_end rng < ur_start a"
    using assms(1,3) by (fastforce simp: uint_set_wf_append uint_set_wf_Cons range_wf_def)
  ultimately show ?thesis using assms(1,2) by (simp add: uint_set_wf_append uint_set_wf_Cons)
qed

text \<open>
  The walk starts (and continues) at an item whose end is not before the start of the new
  range, with every later item entirely after the range; so it never runs off the list.
\<close>

lemma gap_branch_spec:
  assumes wf: "uint_set_wf (rev prevs @ z # after)" and rng: "range_wf rng"
    and gap: "ur_end rng < ur_start z" "prevs = [] \<or> ur_start rng > ur_end (hd prevs)"
  defines "elems \<equiv> uint_set_elems (rev prevs @ z # after) \<union> {ur_start rng..ur_end rng}"
  shows "ur_start z = u64_add (ur_end rng) 1 \<Longrightarrow>
           uint_set_wf (uint_set_merge_adjacent prevs (z\<lparr>ur_start := ur_start rng\<rparr>) after)
           \<and> uint_set_elems (uint_set_merge_adjacent prevs (z\<lparr>ur_start := ur_start rng\<rparr>) after) = elems"
    and "prevs \<noteq> [] \<Longrightarrow> u64_add (ur_end (hd prevs)) 1 = ur_start rng \<Longrightarrow>
           uint_set_wf (uint_set_merge_adjacent ((hd prevs)\<lparr>ur_end := ur_end rng\<rparr> # tl prevs) z after)
           \<and> uint_set_elems (uint_set_merge_adjacent ((hd prevs)\<lparr>ur_end := ur_end rng\<rparr> # tl prevs) z after) = elems"
    and "uint_set_wf (rev prevs @ rng # z # after)"
    and "uint_set_elems (rev prevs @ rng # z # after) = elems"
proof -
  show mid: "uint_set_wf (rev prevs @ rng # z # after)"
    using insert_between_spec [OF wf rng gap] .
  have bounds: "ur_start z < U64" "ur_start z \<le> ur_end z" "ur_start rng \<le> ur_end rng"
    using wf rng by (simp_all add: uint_set_wf_simps)
  show "uint_set_elems (rev prevs @ rng # z # after) = elems"
    by (auto simp: elems_def)
  {
    assume "ur_start z = u64_add (ur_end rng) 1"
    with gap(1) bounds(1) have z: "ur_start z = ur_end rng + 1"
      using u64_add_1_below by metis
    let ?z = "z\<lparr>ur_start := ur_start rng\<rparr>"
    have "{ur_start rng..ur_end z} = {ur_start rng..ur_end rng} \<union> {ur_start z..ur_end z}"
      using z bounds by auto
    moreover have "uint_set_wf (rev prevs @ ?z # after)"
      using mid z bounds by (simp add: uint_set_wf_append uint_set_wf_Cons range_wf_def)
    ultimately show "uint_set_wf (uint_set_merge_adjacent prevs ?z after)
           \<and> uint_set_elems (uint_set_merge_adjacent prevs ?z after) = elems"
      using merge_adjacent_spec by (auto simp: elems_def)
  next
    assume ne: "prevs \<noteq> []" and "u64_add (ur_end (hd prevs)) 1 = ur_start rng"
    moreover have "ur_end (hd prevs) < ur_start rng" "ur_start rng < U64"
      using ne gap bounds rng by (simp_all add: range_wf_def)
    ultimately have p: "ur_start rng = ur_end (hd prevs) + 1"
      using u64_add_1_below by metis
    let ?p = "(hd prevs)\<lparr>ur_end := ur_end rng\<rparr>"
    obtain q qs where q: "prevs = q # qs" using ne by (cases prevs) auto
    have "{ur_start q..ur_end rng} = {ur_start q..ur_end q} \<union> {ur_start rng..ur_end rng}"
      using p q bounds mid by (auto simp: uint_set_wf_simps)
    moreover have "uint_set_wf (rev (?p # tl prevs) @ z # after)"
      using mid q p by (simp add: uint_set_wf_append uint_set_wf_Cons range_wf_def)
    ultimately show "uint_set_wf (uint_set_merge_adjacent (?p # tl prevs) z after)
           \<and> uint_set_elems (uint_set_merge_adjacent (?p # tl prevs) z after) = elems"
      using merge_adjacent_spec [of "?p # tl prevs" z after] q by (auto simp: elems_def)
  }
qed

text \<open>The three kinds of step of the walk, as equations.\<close>

lemma insert_walk_inside:
  "ur_start z \<le> ur_start rng \<Longrightarrow> ur_end z \<ge> ur_end rng \<Longrightarrow>
     uint_set_insert_walk mem rng (z # prevs) after = (True, rev prevs @ z # after)"
  by (simp add: uint_set_insert_walk.simps(2))

lemma insert_walk_gap:
  assumes "\<not> (ur_start z \<le> ur_start rng \<and> ur_end z \<ge> ur_end rng)" "\<not> uint_range_overlaps z rng"
    and "ur_end rng < ur_start z" "prevs = [] \<or> ur_start rng > ur_end (hd prevs)"
  shows "uint_set_insert_walk mem rng (z # prevs) after =
        (if ur_start z = u64_add (ur_end rng) 1 then
           (True, uint_set_merge_adjacent prevs (z\<lparr>ur_start := ur_start rng\<rparr>) after)
         else if prevs \<noteq> [] \<and> u64_add (ur_end (hd prevs)) 1 = ur_start rng then
           (True, uint_set_merge_adjacent ((hd prevs)\<lparr>ur_end := ur_end rng\<rparr> # tl prevs) z after)
         else if mem then (True, rev prevs @ rng # z # after) else (False, rev prevs @ z # after))"
proof -
  have "rng = urange (ur_start rng) (ur_end rng)" by simp
  then show ?thesis
    by (cases mem) (simp_all only: uint_set_insert_walk.simps(2) Let_def assms simp_thms if_True if_False
          create_set_item_def option.case flip: \<open>rng = urange (ur_start rng) (ur_end rng)\<close>)
qed

lemma insert_walk_skip:
  assumes "range_wf rng" "\<not> (uint_range_overlaps z rng \<or> ur_end rng < ur_start z \<and> ur_start rng > ur_end p)"
    and "ur_start z \<le> ur_end z" "ur_start rng \<le> ur_end z"
  shows "ur_end rng < ur_start z" "ur_start rng \<le> ur_end p"
    and "uint_set_insert_walk mem rng (z # p # prevs) after = uint_set_insert_walk mem rng (p # prevs) (z # after)"
proof -
  show z: "ur_end rng < ur_start z" "ur_start rng \<le> ur_end p"
    using assms by (auto simp: uint_range_overlaps_iff range_wf_def)
  show "uint_set_insert_walk mem rng (z # p # prevs) after = uint_set_insert_walk mem rng (p # prevs) (z # after)"
    using assms z
    by (subst uint_set_insert_walk.simps(2)) (auto simp: range_wf_def simp del: uint_set_insert_walk.simps)
qed

lemma insert_walk_step:
  assumes wf: "uint_set_wf (rev prevs @ z # after)" and rng: "range_wf rng"
    and after: "\<forall>a\<in>set after. ur_end rng < ur_start a"
    and stop: "uint_range_overlaps z rng
       \<or> ur_end rng < ur_start z \<and> (prevs = [] \<or> ur_start rng > ur_end (hd prevs))"
    and walk: "uint_set_insert_walk mem rng (z # prevs) after = (ok, s')"
  shows "uint_set_wf s' \<and>
     (if ok then uint_set_elems s' = uint_set_elems (rev prevs @ z # after) \<union> {ur_start rng..ur_end rng}
      else \<not> mem \<and> s' = rev prevs @ z # after)"
proof -
  consider (inside) "ur_start z \<le> ur_start rng" "ur_end z \<ge> ur_end rng"
    | (over) "\<not> (ur_start z \<le> ur_start rng \<and> ur_end z \<ge> ur_end rng)" "uint_range_overlaps z rng"
    | (gap) "\<not> (ur_start z \<le> ur_start rng \<and> ur_end z \<ge> ur_end rng)" "\<not> uint_range_overlaps z rng"
        "ur_end rng < ur_start z" "prevs = [] \<or> ur_start rng > ur_end (hd prevs)"
    using stop by blast
  then show ?thesis
  proof cases
    case inside
    with walk wf insert_walk_inside [OF inside, of mem prevs after] show ?thesis by auto
  next
    case over
    obtain z' prevs' where eo: "earliest_overlap rng z prevs = (z', prevs')" by fastforce
    with walk over have "ok" "s' = rev prevs' @ urange (u64_min (ur_start rng) (ur_start z'))
        (u64_max (ur_end rng) (ur_end z)) # after"
      by (auto simp: uint_set_insert_walk.simps(2) Let_def)
    with overlap_branch_spec [OF wf rng over(2) after eo] show ?thesis by simp
  next
    case gap
    note eq = insert_walk_gap [OF gap, of mem after, unfolded walk]
    note branch = gap_branch_spec [OF wf rng gap(3,4)]
    consider "ur_start z = u64_add (ur_end rng) 1"
      | "ur_start z \<noteq> u64_add (ur_end rng) 1" "prevs \<noteq> []" "u64_add (ur_end (hd prevs)) 1 = ur_start rng"
      | "ur_start z \<noteq> u64_add (ur_end rng) 1" "\<not> (prevs \<noteq> [] \<and> u64_add (ur_end (hd prevs)) 1 = ur_start rng)"
      by blast
    then show ?thesis
    proof cases
      case 1
      with eq branch(1) show ?thesis by simp
    next
      case 2
      with eq branch(2) show ?thesis by simp
    next
      case 3
      with eq branch(3,4) wf show ?thesis by (simp split: if_splits)
    qed
  qed
qed

text \<open>Every walk comes to an item where it inserts.\<close>

lemma insert_walk_stops:
  assumes "uint_set_wf (rev prevs @ z # after)" "range_wf rng" "ur_start rng \<le> ur_end z"
    "\<forall>a\<in>set after. ur_end rng < ur_start a"
  obtains z1 prevs1 after1 where "rev prevs @ z # after = rev prevs1 @ z1 # after1"
    "\<forall>a\<in>set after1. ur_end rng < ur_start a" "set (z1 # prevs1) \<subseteq> set (z # prevs)"
    "uint_range_overlaps z1 rng \<or> ur_end rng < ur_start z1 \<and> (prevs1 = [] \<or> ur_start rng > ur_end (hd prevs1))"
    "uint_set_insert_walk mem rng (z # prevs) after = uint_set_insert_walk mem rng (z1 # prevs1) after1"
  using assms
proof (induction prevs arbitrary: z after thesis)
  case Nil
  then have "uint_range_overlaps z rng \<or> ur_end rng < ur_start z"
    by (auto simp: uint_range_overlaps_iff uint_set_wf_Cons range_wf_def)
  with Nil.prems show ?case by (intro Nil.prems(1) [of "[]" z after]) simp_all
next
  case (Cons p prevs)
  show ?case
  proof (cases "uint_range_overlaps z rng \<or> ur_end rng < ur_start z \<and> ur_start rng > ur_end p")
    case True
    with Cons.prems(5) show ?thesis by (intro Cons.prems(1) [of "p # prevs" z after]) simp_all
  next
    case False
    have "ur_start z \<le> ur_end z" using Cons.prems(2) by (simp add: uint_set_wf_simps)
    note skip = insert_walk_skip [OF Cons.prems(3) False this Cons.prems(4)]
    show ?thesis
    proof (rule Cons.IH [of p "z # after"])
      fix z1 prevs1 after1
      assume "rev prevs @ p # z # after = rev prevs1 @ z1 # after1"
        "\<forall>a\<in>set after1. ur_end rng < ur_start a" "set (z1 # prevs1) \<subseteq> set (p # prevs)"
        "uint_range_overlaps z1 rng \<or> ur_end rng < ur_start z1 \<and> (prevs1 = [] \<or> ur_start rng > ur_end (hd prevs1))"
        "uint_set_insert_walk mem rng (p # prevs) (z # after) = uint_set_insert_walk mem rng (z1 # prevs1) after1"
      with skip(3) [of mem prevs after] show ?thesis by (intro Cons.prems(1)) auto
    qed (use Cons.prems skip in auto)
  qed
qed

lemma insert_walk_spec:
  assumes "uint_set_wf (rev prevs @ z # after)" "range_wf rng"
    and "ur_start rng \<le> ur_end z" "\<forall>a\<in>set after. ur_end rng < ur_start a"
    and "uint_set_insert_walk mem rng (z # prevs) after = (ok, s')"
  shows "uint_set_wf s' \<and>
     (if ok then uint_set_elems s' = uint_set_elems (rev prevs @ z # after) \<union> {ur_start rng..ur_end rng}
      else \<not> mem \<and> s' = rev prevs @ z # after)"
proof -
  obtain z1 prevs1 after1 where *: "rev prevs @ z # after = rev prevs1 @ z1 # after1"
    "\<forall>a\<in>set after1. ur_end rng < ur_start a"
    "uint_range_overlaps z1 rng \<or> ur_end rng < ur_start z1 \<and> (prevs1 = [] \<or> ur_start rng > ur_end (hd prevs1))"
    "uint_set_insert_walk mem rng (z1 # prevs1) after1 = (ok, s')"
    using insert_walk_stops [OF assms(1-4), of mem] assms(5) by metis
  from insert_walk_step [OF _ assms(2) *(2-4)] assms(1) show ?thesis unfolding *(1) by simp
qed

lemma uint_set_first_last:
  assumes "uint_set_wf s" "s \<noteq> []"
  shows "ur_start (hd s) \<le> ur_start (last s)" "ur_end (hd s) \<le> ur_end (last s)"
    and "uint_set_elems s \<subseteq> {ur_start (hd s)..ur_end (last s)}"
proof -
  have "ur_start x \<le> ur_start (last s) \<and> ur_end x \<le> ur_end (last s)" if "x \<in> set s" for x
  proof -
    obtain t z where "s = t @ [z]" using assms(2) by (cases s rule: rev_cases) auto
    moreover from this assms(1) have "\<forall>y\<in>set t. ur_start y \<le> ur_end y \<and> ur_end y < ur_start z"
      by (auto simp: uint_set_wf_append uint_set_wf_Cons dest: uint_set_wf_range)
    moreover have "ur_start z \<le> ur_end z"
      using uint_set_wf_range [OF assms(1), of z] calculation(1) by simp
    ultimately show ?thesis using that by (cases "x = z") fastforce+
  qed
  moreover have "ur_start (hd s) \<le> ur_start x" if "x \<in> set s" for x
    using assms that by (cases s) (fastforce simp: uint_set_wf_Cons range_wf_def)+
  ultimately show "ur_start (hd s) \<le> ur_start (last s)" "ur_end (hd s) \<le> ur_end (last s)"
    "uint_set_elems s \<subseteq> {ur_start (hd s)..ur_end (last s)}"
    using assms(2) by (fastforce simp: uint_set_elems_def)+
qed

lemma uint_set_append_end:
  assumes "uint_set_wf s" "s \<noteq> []" "range_wf rng" "ur_end (last s) < ur_start rng"
  shows "uint_set_wf (s @ [rng])"
    and "u64_add (ur_end (last s)) 1 = ur_start rng \<Longrightarrow>
       uint_set_wf (butlast s @ [(last s)\<lparr>ur_end := ur_end rng\<rparr>])
       \<and> uint_set_elems (butlast s @ [(last s)\<lparr>ur_end := ur_end rng\<rparr>])
           = uint_set_elems s \<union> {ur_start rng..ur_end rng}"
proof -
  obtain t z where s: "s = t @ [z]" using assms(2) by (cases s rule: rev_cases) auto
  from assms(1) have "\<forall>x\<in>set t. ur_end x < ur_end z"
    by (fastforce simp: s uint_set_wf_append uint_set_wf_Cons range_wf_def)
  with assms show "uint_set_wf (s @ [rng])"
    by (fastforce simp: s uint_set_wf_append uint_set_wf_Cons)
  assume "u64_add (ur_end (last s)) 1 = ur_start rng"
  with assms(3,4) have e: "ur_start rng = ur_end z + 1"
    using u64_add_1_below [of "ur_end z" "ur_start rng"] by (simp add: s range_wf_def)
  have "{ur_start z..ur_end rng} = {ur_start z..ur_end z} \<union> {ur_start rng..ur_end rng}"
    using e assms(1,3) by (auto simp: s uint_set_wf_append uint_set_wf_Cons range_wf_def)
  with e assms(1,3) show "uint_set_wf (butlast s @ [(last s)\<lparr>ur_end := ur_end rng\<rparr>])
       \<and> uint_set_elems (butlast s @ [(last s)\<lparr>ur_end := ur_end rng\<rparr>])
           = uint_set_elems s \<union> {ur_start rng..ur_end rng}"
    by (auto simp: s uint_set_wf_append uint_set_wf_Cons range_wf_def)
qed

text \<open>The branches of the function body, as equations.\<close>

lemma uint_set_insert_branches:
  assumes "range_wf rng"
  shows insert_empty: "ossl_uint_set_insert mem [] rng = (if mem then (True, [rng]) else (False, []))"
    and insert_tail: "s \<noteq> [] \<Longrightarrow> ur_start rng > ur_end (last s) \<Longrightarrow>
      ossl_uint_set_insert mem s rng = (if u64_add (ur_end (last s)) 1 = ur_start rng
        then (True, butlast s @ [(last s)\<lparr>ur_end := ur_end rng\<rparr>])
        else if mem then (True, s @ [rng]) else (False, s))"
    and insert_dwarf: "s \<noteq> [] \<Longrightarrow> \<not> ur_start rng > ur_end (last s) \<Longrightarrow>
      ur_start rng \<le> ur_start (hd s) \<Longrightarrow> ur_end rng \<ge> ur_end (last s) \<Longrightarrow>
      ossl_uint_set_insert mem s rng = (True, [rng])"
    and insert_from_head: "\<not> ur_start rng > ur_end (last (f # t)) \<Longrightarrow>
      \<not> (ur_start rng \<le> ur_start f \<and> ur_end rng \<ge> ur_end (last (f # t))) \<Longrightarrow> ur_end rng < ur_start f \<Longrightarrow>
      ossl_uint_set_insert mem (f # t) rng = uint_set_insert_walk mem rng [f] t"
    and insert_from_tail: "\<not> ur_start rng > ur_end z \<Longrightarrow>
      \<not> (ur_start rng \<le> ur_start (hd (rev ps @ [z])) \<and> ur_end rng \<ge> ur_end z) \<Longrightarrow>
      \<not> ur_end rng < ur_start (hd (rev ps @ [z])) \<Longrightarrow>
      ossl_uint_set_insert mem (rev ps @ [z]) rng = uint_set_insert_walk mem rng (z # ps) []"
proof -
  have r: "ur_start rng \<le> ur_end rng" "urange (ur_start rng) (ur_end rng) = rng"
    using assms by (simp_all add: range_wf_def)
  then show "ossl_uint_set_insert mem [] rng = (if mem then (True, [rng]) else (False, []))"
    by (simp add: ossl_uint_set_insert_def create_set_item_def)
  show "ossl_uint_set_insert mem s rng = (if u64_add (ur_end (last s)) 1 = ur_start rng
        then (True, butlast s @ [(last s)\<lparr>ur_end := ur_end rng\<rparr>])
        else if mem then (True, s @ [rng]) else (False, s))"
    if "s \<noteq> []" "ur_start rng > ur_end (last s)"
    using that r by (simp add: ossl_uint_set_insert_def create_set_item_def Let_def)
  show "ossl_uint_set_insert mem s rng = (True, [rng])"
    if "s \<noteq> []" "\<not> ur_start rng > ur_end (last s)" "ur_start rng \<le> ur_start (hd s)" "ur_end rng \<ge> ur_end (last s)"
    using that r by (simp add: ossl_uint_set_insert_def Let_def)
  show "ossl_uint_set_insert mem (f # t) rng = uint_set_insert_walk mem rng [f] t"
    if "\<not> ur_start rng > ur_end (last (f # t))"
      "\<not> (ur_start rng \<le> ur_start f \<and> ur_end rng \<ge> ur_end (last (f # t)))" "ur_end rng < ur_start f"
    by (simp only: ossl_uint_set_insert_def Let_def list.sel that r list.distinct simp_thms if_True if_False)
  show "ossl_uint_set_insert mem (rev ps @ [z]) rng = uint_set_insert_walk mem rng (z # ps) []"
    if "\<not> ur_start rng > ur_end z"
      "\<not> (ur_start rng \<le> ur_start (hd (rev ps @ [z])) \<and> ur_end rng \<ge> ur_end z)"
      "\<not> ur_end rng < ur_start (hd (rev ps @ [z]))"
    by (simp only: ossl_uint_set_insert_def Let_def that r last_snoc snoc_eq_iff_butlast
        append_is_Nil_conv not_Cons_self2 list.distinct rev_append rev_rev_ident rev.simps append.simps simp_thms if_True if_False)
qed

text \<open>Case distinction on the branch taken by a call on a non-empty set.\<close>

lemma uint_set_insert_branch_cases:
  assumes "s \<noteq> []" "uint_set_wf s" "range_wf rng"
  obtains (tail) "ur_start rng > ur_end (last s)"
  | (dwarf) "\<not> ur_start rng > ur_end (last s)" "ur_start rng \<le> ur_start (hd s)" "ur_end rng \<ge> ur_end (last s)"
  | (walk) z prevs after where "s = rev prevs @ z # after" "ur_start rng \<le> ur_end z"
      "\<forall>a\<in>set after. ur_end rng < ur_start a"
      "\<And>mem. ossl_uint_set_insert mem s rng = uint_set_insert_walk mem rng (z # prevs) after"
proof -
  consider "ur_start rng > ur_end (last s)"
    | "\<not> ur_start rng > ur_end (last s)" "ur_start rng \<le> ur_start (hd s)" "ur_end rng \<ge> ur_end (last s)"
    | (head) "\<not> ur_start rng > ur_end (last s)"
        "\<not> (ur_start rng \<le> ur_start (hd s) \<and> ur_end rng \<ge> ur_end (last s))" "ur_end rng < ur_start (hd s)"
    | (last) "\<not> ur_start rng > ur_end (last s)"
        "\<not> (ur_start rng \<le> ur_start (hd s) \<and> ur_end rng \<ge> ur_end (last s))" "\<not> ur_end rng < ur_start (hd s)"
    by blast
  then show thesis
  proof cases
    case head
    obtain f t where s: "s = f # t" using assms(1) by (cases s) auto
    have "ur_start rng \<le> ur_end f" "\<forall>a\<in>set t. ur_end rng < ur_start a"
      using head(3) assms(2,3) s by (fastforce simp: uint_set_wf_Cons range_wf_def)+
    with head s insert_from_head [OF assms(3)] walk [of "[]" f t] show thesis by simp
  next
    case last
    obtain ps z where s: "s = rev ps @ [z]"
      using assms(1) by (metis append_butlast_last_id rev_rev_ident)
    with last insert_from_tail [OF assms(3)] walk [of ps z "[]"] show thesis by simp
  qed (use tail dwarf in blast)+
qed

lemma uint_set_insert_spec:
  assumes wf: "uint_set_wf s" and rng: "range_wf rng"
    and ins: "ossl_uint_set_insert mem s rng = (ok, s')"
  shows "uint_set_wf s' \<and>
     (if ok then uint_set_elems s' = uint_set_elems s \<union> {ur_start rng..ur_end rng}
      else \<not> mem \<and> s' = s)"
proof (cases "s = []")
  case True
  with ins insert_empty [OF rng, of mem] rng show ?thesis
    by (cases mem) (auto simp: uint_set_wf_Cons)
next
  case False
  from False wf rng show ?thesis
  proof (cases rule: uint_set_insert_branch_cases)
    case tail
    with ins insert_tail [OF rng False, of mem] uint_set_append_end [OF wf False rng] wf show ?thesis
      by (cases "u64_add (ur_end (last s)) 1 = ur_start rng"; cases mem) simp_all
  next
    case dwarf
    with ins insert_dwarf [OF rng False, of mem] uint_set_first_last [OF wf False] rng show ?thesis
      by (auto simp: uint_set_wf_Cons)
  next
    case (walk z prevs after)
    with ins wf insert_walk_spec [of prevs z after rng mem ok s'] rng show ?thesis by simp
  qed
qed

section \<open>Query\<close>

lemma query_walk_spec:
  "uint_set_wf (rev s) \<Longrightarrow> uint_set_query_walk s v \<longleftrightarrow> v \<in> uint_set_elems s"
proof (induction s)
  case (Cons x s)
  have "v < ur_start x" if "v \<in> uint_set_elems s"
    using Cons.prems that uint_set_elems_below [of "rev s" x v] by simp
  moreover have "ur_start x \<le> ur_end x" using Cons.prems by (simp add: uint_set_wf_simps)
  moreover have "uint_set_query_walk s v \<longleftrightarrow> v \<in> uint_set_elems s"
    using Cons by (simp add: uint_set_wf_append)
  ultimately show ?case by auto
qed simp

lemma uint_set_query_spec:
  "uint_set_wf s \<Longrightarrow> ossl_uint_set_query s v \<longleftrightarrow> v \<in> uint_set_elems s"
  using query_walk_spec [of "rev s" v] by (simp add: ossl_uint_set_query_def)

section \<open>Removal\<close>

text \<open>Both invariants at once: the gap between neighbours is more than \<open>k\<close>.\<close>

definition uint_set_gap :: "nat \<Rightarrow> uint_set \<Rightarrow> bool" where
  "uint_set_gap k s \<longleftrightarrow>
     list_all range_wf s \<and> sorted_wrt (\<lambda>x y. ur_end x + k < ur_start y) s"

lemma uint_set_wf_gap: "uint_set_wf s = uint_set_gap 0 s"
  by (simp add: uint_set_wf_def uint_set_gap_def)

lemma uint_set_strict_gap: "uint_set_strict s = uint_set_gap 1 s"
  by (simp add: uint_set_strict_def uint_set_gap_def)

lemma uint_set_gap_simps:
  "uint_set_gap k []"
  "uint_set_gap k (s @ t) \<longleftrightarrow>
     uint_set_gap k s \<and> uint_set_gap k t \<and> (\<forall>x\<in>set s. \<forall>y\<in>set t. ur_end x + k < ur_start y)"
  "uint_set_gap k (x # t) \<longleftrightarrow>
     range_wf x \<and> uint_set_gap k t \<and> (\<forall>y\<in>set t. ur_end x + k < ur_start y)"
  by (auto simp: uint_set_gap_def sorted_wrt_append)

lemma elems_above: "\<forall>a\<in>set s. v < ur_start a \<Longrightarrow> x \<in> uint_set_elems s \<Longrightarrow> v < x"
  by (fastforce simp: uint_set_elems_def)

lemma elems_below: "\<forall>a\<in>set s. ur_end a < v \<Longrightarrow> x \<in> uint_set_elems s \<Longrightarrow> x < v"
  by (fastforce simp: uint_set_elems_def)

lemma remove_walk_spec:
  assumes "k \<le> 1" "uint_set_gap k (rev prevs @ after)" "range_wf rng"
    and "\<forall>a\<in>set after. ur_end rng < ur_start a"
  shows "case uint_set_remove_walk mem rng prevs after of
      None \<Rightarrow> \<not> mem
    | Some s' \<Rightarrow> uint_set_gap k s' \<and>
        uint_set_elems s' = (uint_set_elems prevs \<union> uint_set_elems after) - {ur_start rng..ur_end rng}"
  using assms(2-)
proof (induction prevs arbitrary: after)
  case Nil
  then show ?case using elems_above [of after "ur_end rng"] by fastforce
next
  case (Cons z prevs)
  have z: "ur_start z \<le> ur_end z" "ur_end z < U64" "range_wf z" "uint_set_gap k (rev prevs @ after)"
    "\<forall>a\<in>set after. ur_end z + k < ur_start a" "\<forall>p\<in>set prevs. ur_end p + k < ur_start z"
    using Cons.prems(1) by (auto simp: uint_set_gap_simps range_wf_def)
  have rng: "ur_start rng \<le> ur_end rng" "ur_end rng < U64"
    using Cons.prems(2) by (simp_all add: range_wf_def)
  have below: "v < ur_start z" if "v \<in> uint_set_elems prevs" for v
    by (rule elems_below [OF _ that]) (use z(6) in fastforce)
  have above: "ur_end rng < v" if "v \<in> uint_set_elems after" for v
    using elems_above [OF Cons.prems(3) that] .
  note walk = uint_set_remove_walk.simps(2) [of mem rng z prevs after]
  let ?r = "uint_set_remove_walk mem rng (z # prevs) after"
  let ?e = "uint_set_elems (z # prevs) \<union> uint_set_elems after - {ur_start rng..ur_end rng}"
  consider
      (stop) "ur_start rng > ur_end z"
    | (drop) "ur_start rng \<le> ur_start z" "ur_end rng \<ge> ur_end z"
    | (cut_start) "ur_start rng \<le> ur_start z" "ur_end rng \<ge> ur_start z" "ur_end rng < ur_end z"
    | (cut_end) "ur_start z < ur_start rng" "ur_start rng \<le> ur_end z" "ur_end rng \<ge> ur_end z"
    | (split) "ur_start z < ur_start rng" "ur_end rng < ur_end z"
    | (skip) "ur_end rng < ur_start z"
    using rng(1) by linarith
  then show ?case
  proof cases
    case stop
    then have "?r = Some (rev prevs @ z # after)" by (simp add: walk)
    moreover have "uint_set_elems (rev prevs @ z # after) = ?e"
      using stop z(1) below above by fastforce
    ultimately show ?thesis using Cons.prems(1) by simp
  next
    case drop
    then have "?r = uint_set_remove_walk mem rng prevs after" using z(1) by (simp add: walk)
    moreover have "?e = (uint_set_elems prevs \<union> uint_set_elems after) - {ur_start rng..ur_end rng}"
      using drop by auto
    ultimately show ?thesis using Cons.IH [OF z(4) Cons.prems(2,3)] by (simp split: option.splits)
  next
    case cut_start
    let ?z = "z\<lparr>ur_start := ur_end rng + 1\<rparr>"
    have "u64_add (ur_end rng) 1 = ur_end rng + 1" using cut_start(3) z(2) by (rule u64_add_1_below)
    then have "?r = uint_set_remove_walk mem rng prevs (?z # after)"
      using cut_start rng(1) by (simp add: walk)
    moreover have "?e = uint_set_elems prevs \<union> uint_set_elems (?z # after) - {ur_start rng..ur_end rng}"
      using cut_start by auto
    moreover have "uint_set_gap k (rev prevs @ ?z # after)"
      using z cut_start by (fastforce simp: uint_set_gap_simps range_wf_def)
    ultimately show ?thesis using Cons.IH [of "?z # after"] Cons.prems(2,3)
      by (simp split: option.splits)
  next
    case cut_end
    let ?z = "z\<lparr>ur_end := ur_start rng - 1\<rparr>"
    have "u64_sub (ur_start rng) 1 = ur_start rng - 1" using cut_end rng by (simp add: u64_arith)
    then have "?r = Some (rev prevs @ ?z # after)" using cut_end by (simp add: walk)
    moreover have "uint_set_elems (rev prevs @ ?z # after) = ?e"
      using cut_end below above by fastforce
    moreover have "uint_set_gap k (rev prevs @ ?z # after)"
      using z cut_end by (fastforce simp: uint_set_gap_simps range_wf_def)
    ultimately show ?thesis by simp
  next
    case split
    let ?z = "z\<lparr>ur_end := ur_start rng - 1\<rparr>" and ?y = "urange (ur_end rng + 1) (ur_end z)"
    have "u64_sub (ur_start rng) 1 = ur_start rng - 1" using split rng by (simp add: u64_arith)
    moreover have "u64_add (ur_end rng) 1 = ur_end rng + 1" using split(2) z(2) by (rule u64_add_1_below)
    ultimately have "?r = (if mem then Some (rev prevs @ ?z # ?y # after) else None)"
      using split rng(1) by (simp add: walk create_set_item_def)
    moreover have "uint_set_elems (rev prevs @ ?z # ?y # after) = ?e"
      using split rng below above by fastforce
    moreover have "uint_set_gap k (rev prevs @ ?z # ?y # after)"
      using z split rng assms(1) by (fastforce simp: uint_set_gap_simps range_wf_def)
    ultimately show ?thesis by simp
  next
    case skip
    then have "?r = uint_set_remove_walk mem rng prevs (z # after)"
      using rng z(1) by (simp add: walk)
    moreover have "?e = uint_set_elems prevs \<union> uint_set_elems (z # after) - {ur_start rng..ur_end rng}"
      by auto
    ultimately show ?thesis using Cons.IH [of "z # after"] Cons.prems skip
      by (simp split: option.splits)
  qed
qed

section \<open>The invariant of the comment\<close>

text \<open>
  Insertion keeps ranges from bordering one another as long as every range that overlaps the
  new one already contains it; in particular for single integers and for new ranges.
\<close>

definition no_partial_overlap :: "uint_set \<Rightarrow> uint_range \<Rightarrow> bool" where
  "no_partial_overlap s rng \<longleftrightarrow>
     list_all (\<lambda>x. uint_range_overlaps x rng \<longrightarrow> ur_start x \<le> ur_start rng \<and> ur_end rng \<le> ur_end x) s"

lemma merge_adjacent_strict:
  assumes "uint_set_wf (rev prevs @ x # after)" "uint_set_strict (rev prevs)" "uint_set_strict (x # after)"
  shows "uint_set_strict (uint_set_merge_adjacent prevs x after)"
proof (cases prevs)
  case Nil
  with assms show ?thesis by (simp add: uint_set_merge_adjacent_def)
next
  case (Cons p ps)
  have x: "ur_end p < ur_start x" "ur_start x < U64" "ur_start p \<le> ur_end p" "ur_start x \<le> ur_end x"
    using assms(1) Cons by (auto simp: uint_set_wf_simps)
  then have sub: "u64_sub (ur_start x) 1 = ur_start x - 1" by (simp add: u64_arith)
  have ps: "uint_set_strict (rev ps)" "\<forall>q\<in>set ps. ur_end q + 1 < ur_start p"
    using assms(2) Cons by (auto simp: uint_set_strict_append uint_set_strict_Cons)
  have after: "uint_set_strict after" "\<forall>a\<in>set after. ur_end x + 1 < ur_start a" "range_wf x"
    using assms(3) by (auto simp: uint_set_strict_Cons)
  have far: "ur_end q + 1 < ur_start a" if "q \<in> set ps" "a \<in> set (x # after)" for q a
    using ps(2) after(2) that x by fastforce
  show ?thesis
  proof (cases "ur_start x - 1 = ur_end p")
    case True
    with Cons ps after x far show ?thesis
      by (simp add: uint_set_merge_adjacent_def sub uint_set_strict_append uint_set_strict_Cons range_wf_def)
  next
    case False
    with x have "ur_end p + 1 < ur_start x" by simp
    with Cons ps after x far False assms show ?thesis
      by (fastforce simp: uint_set_merge_adjacent_def sub uint_set_strict_append uint_set_strict_Cons range_wf_def)
  qed
qed

lemma gap_branch_strict:
  assumes strict: "uint_set_strict (rev prevs @ z # after)" and rng: "range_wf rng"
    and gap: "ur_end rng < ur_start z" "prevs = [] \<or> ur_start rng > ur_end (hd prevs)"
  shows "ur_start z = u64_add (ur_end rng) 1 \<Longrightarrow>
           uint_set_strict (uint_set_merge_adjacent prevs (z\<lparr>ur_start := ur_start rng\<rparr>) after)"
    and "prevs \<noteq> [] \<Longrightarrow> u64_add (ur_end (hd prevs)) 1 = ur_start rng \<Longrightarrow>
           uint_set_strict (uint_set_merge_adjacent ((hd prevs)\<lparr>ur_end := ur_end rng\<rparr> # tl prevs) z after)"
    and "ur_start z \<noteq> u64_add (ur_end rng) 1 \<Longrightarrow>
         \<not> (prevs \<noteq> [] \<and> u64_add (ur_end (hd prevs)) 1 = ur_start rng) \<Longrightarrow>
           uint_set_strict (rev prevs @ rng # z # after)"
proof -
  have mid: "uint_set_wf (rev prevs @ rng # z # after)"
    using insert_between_spec [OF uint_set_strict_wf [OF strict] rng gap] .
  have parts: "uint_set_strict (rev prevs)" "uint_set_strict (z # after)" "ur_start z < U64"
    "ur_start rng \<le> ur_end rng" "ur_end rng < U64"
    using strict rng by (auto simp: uint_set_strict_append uint_set_strict_Cons range_wf_def)
  have zr: "u64_add (ur_end rng) 1 = ur_end rng + 1"
    using gap(1) parts(3) by (rule u64_add_1_below)
  have pr: "u64_add (ur_end (hd prevs)) 1 = ur_end (hd prevs) + 1" if "prevs \<noteq> []"
    using that gap(2) parts(4,5) by (intro u64_add_1_below [of _ "ur_start rng"]) auto
  {
    assume "ur_start z = u64_add (ur_end rng) 1"
    then have "uint_set_wf (rev prevs @ z\<lparr>ur_start := ur_start rng\<rparr> # after)"
      using mid zr by (simp add: uint_set_wf_append uint_set_wf_Cons range_wf_def)
    moreover have "uint_set_strict (z\<lparr>ur_start := ur_start rng\<rparr> # after)"
      using parts gap(1) by (simp add: uint_set_strict_Cons range_wf_def)
    ultimately show "uint_set_strict (uint_set_merge_adjacent prevs (z\<lparr>ur_start := ur_start rng\<rparr>) after)"
      using parts(1) by (intro merge_adjacent_strict)
  next
    assume ne: "prevs \<noteq> []" and e: "u64_add (ur_end (hd prevs)) 1 = ur_start rng"
    then obtain p ps where p: "prevs = p # ps" "ur_end p + 1 = ur_start rng"
      using pr by (cases prevs) auto
    then have "uint_set_wf (rev (p\<lparr>ur_end := ur_end rng\<rparr> # ps) @ z # after)"
      using mid by (simp add: uint_set_wf_append uint_set_wf_Cons range_wf_def)
    moreover have "uint_set_strict (rev (p\<lparr>ur_end := ur_end rng\<rparr> # ps))"
      using p parts by (auto simp: uint_set_strict_append uint_set_strict_Cons range_wf_def)
    ultimately show "uint_set_strict (uint_set_merge_adjacent ((hd prevs)\<lparr>ur_end := ur_end rng\<rparr> # tl prevs) z after)"
      using p(1) parts(2) by (simp only: list.sel) (intro merge_adjacent_strict)
  next
    assume "ur_start z \<noteq> u64_add (ur_end rng) 1"
      and "\<not> (prevs \<noteq> [] \<and> u64_add (ur_end (hd prevs)) 1 = ur_start rng)"
    then have z: "ur_end rng + 1 < ur_start z" and "prevs = [] \<or> ur_end (hd prevs) < ur_start rng - 1"
      using zr pr gap by force+
    then have "\<forall>q\<in>set prevs. ur_end q < ur_start rng - 1"
      using uint_set_strict_wf [OF parts(1)] by (intro prevs_below)
    moreover have "\<forall>a\<in>set after. ur_end rng + 1 < ur_start a"
      using z parts(2) by (fastforce simp: uint_set_strict_Cons range_wf_def)
    ultimately show "uint_set_strict (rev prevs @ rng # z # after)"
      using z strict rng by (fastforce simp: uint_set_strict_append uint_set_strict_Cons)
  }
qed

lemma insert_walk_strict_step:
  assumes strict: "uint_set_strict (rev prevs @ z # after)" and rng: "range_wf rng"
    and npo: "no_partial_overlap (z # prevs) rng"
    and stop: "uint_range_overlaps z rng
       \<or> ur_end rng < ur_start z \<and> (prevs = [] \<or> ur_start rng > ur_end (hd prevs))"
    and walk: "uint_set_insert_walk mem rng (z # prevs) after = (ok, s')"
  shows "uint_set_strict s'"
proof (cases "ur_start z \<le> ur_start rng \<and> ur_end z \<ge> ur_end rng")
  case True
  with walk insert_walk_inside strict show ?thesis by fastforce
next
  case False
  with npo stop have gap: "\<not> uint_range_overlaps z rng"
    "ur_end rng < ur_start z" "prevs = [] \<or> ur_start rng > ur_end (hd prevs)"
    by (auto simp: no_partial_overlap_def)
  note branch = gap_branch_strict [OF strict rng gap(2,3)]
  have "(ok, s') = (if ur_start z = u64_add (ur_end rng) 1 then
           (True, uint_set_merge_adjacent prevs (z\<lparr>ur_start := ur_start rng\<rparr>) after)
         else if prevs \<noteq> [] \<and> u64_add (ur_end (hd prevs)) 1 = ur_start rng then
           (True, uint_set_merge_adjacent ((hd prevs)\<lparr>ur_end := ur_end rng\<rparr> # tl prevs) z after)
         else if mem then (True, rev prevs @ rng # z # after) else (False, rev prevs @ z # after))"
    using insert_walk_gap [OF False gap, of mem after] walk by simp
  then show ?thesis using branch strict by (simp split: if_splits)
qed

lemma insert_walk_strict:
  assumes "uint_set_strict (rev prevs @ z # after)" "range_wf rng"
    and "ur_start rng \<le> ur_end z" "\<forall>a\<in>set after. ur_end rng < ur_start a" "no_partial_overlap (z # prevs) rng"
    and "uint_set_insert_walk mem rng (z # prevs) after = (ok, s')"
  shows "uint_set_strict s'"
proof -
  obtain z1 prevs1 after1 where *: "rev prevs @ z # after = rev prevs1 @ z1 # after1"
    "set (z1 # prevs1) \<subseteq> set (z # prevs)"
    "uint_range_overlaps z1 rng \<or> ur_end rng < ur_start z1 \<and> (prevs1 = [] \<or> ur_start rng > ur_end (hd prevs1))"
    "uint_set_insert_walk mem rng (z1 # prevs1) after1 = (ok, s')"
    using insert_walk_stops [OF uint_set_strict_wf [OF assms(1)] assms(2-4), of mem] assms(6) by metis
  have "no_partial_overlap (z1 # prevs1) rng"
    using assms(5) *(2) unfolding no_partial_overlap_def list_all_iff by blast
  from insert_walk_strict_step [OF _ assms(2) this *(3,4)] assms(1) show ?thesis unfolding *(1) by simp
qed

lemma uint_set_insert_strict_spec:
  assumes strict: "uint_set_strict s" and rng: "range_wf rng" and npo: "no_partial_overlap s rng"
    and ins: "ossl_uint_set_insert mem s rng = (ok, s')"
  shows "uint_set_strict s'"
proof (cases "s = []")
  case True
  with ins insert_empty [OF rng, of mem] rng show ?thesis
    by (cases mem) (auto simp: uint_set_strict_Cons)
next
  case False
  note wf = uint_set_strict_wf [OF strict]
  from False wf rng show ?thesis
  proof (cases rule: uint_set_insert_branch_cases)
    case tail
    obtain t z where s: "s = t @ [z]" using False by (cases s rule: rev_cases) auto
    have add: "u64_add (ur_end z) 1 = ur_end z + 1"
      using tail rng s by (intro u64_add_1_below [of _ "ur_start rng"]) (auto simp: range_wf_def)
    have t: "\<forall>x\<in>set t. ur_end x + 1 < ur_start rng" "uint_set_strict t"
      "\<forall>x\<in>set t. ur_end x + 1 < ur_start z" "range_wf z"
      using strict tail by (fastforce simp: s uint_set_strict_append uint_set_strict_Cons range_wf_def)+
    have "(ok, s') = (if ur_end z + 1 = ur_start rng then (True, t @ [z\<lparr>ur_end := ur_end rng\<rparr>])
        else if mem then (True, t @ [z, rng]) else (False, t @ [z]))"
      using ins insert_tail [OF rng False tail, of mem] add by (simp add: s)
    with t tail rng show ?thesis
      by (auto simp: s uint_set_strict_append uint_set_strict_Cons range_wf_def split: if_splits)
  next
    case dwarf
    with ins insert_dwarf [OF rng False, of mem] rng show ?thesis
      by (auto simp: uint_set_strict_Cons)
  next
    case (walk z prevs after)
    moreover have "no_partial_overlap (z # prevs) rng"
      using npo walk(1) by (simp add: no_partial_overlap_def)
    ultimately show ?thesis
      using ins strict insert_walk_strict [of prevs z after rng mem ok s'] rng by simp
  qed
qed

lemma uint_set_remove_spec:
  assumes "k \<le> 1" "uint_set_gap k s" "range_wf rng"
  shows "case ossl_uint_set_remove mem s rng of
      None \<Rightarrow> \<not> mem
    | Some (ok, s') \<Rightarrow> ok \<and> uint_set_gap k s' \<and>
        uint_set_elems s' = uint_set_elems s - {ur_start rng..ur_end rng}"
  using remove_walk_spec [OF assms(1), of "rev s" "[]" rng mem] assms(2,3)
  by (auto simp: ossl_uint_set_remove_def range_wf_def split: option.splits)

section \<open>Ranges only grow\<close>

text \<open>No range is ever split by an insertion: each is contained in a range of the result.\<close>

definition uint_set_covers :: "uint_set \<Rightarrow> uint_set \<Rightarrow> bool" where
  "uint_set_covers s s' \<longleftrightarrow>
     (\<forall>x\<in>set s. \<exists>y\<in>set s'. ur_start y \<le> ur_start x \<and> ur_end x \<le> ur_end y)"

lemma covers_same: "set s \<subseteq> set s' \<Longrightarrow> uint_set_covers s s'"
  by (auto simp: uint_set_covers_def)

lemma covers_trans: "uint_set_covers s t \<Longrightarrow> uint_set_covers t u \<Longrightarrow> uint_set_covers s u"
  unfolding uint_set_covers_def by (meson le_trans)

lemma covers_replace:
  "ur_start y \<le> ur_start x \<Longrightarrow> ur_end x \<le> ur_end y \<Longrightarrow> uint_set_covers (s @ x # t) (s @ y # t)"
  by (auto simp: uint_set_covers_def)

lemma merge_adjacent_covers:
  assumes "prevs = [] \<or> ur_start (hd prevs) \<le> ur_start x \<and> ur_end (hd prevs) \<le> ur_end x"
  shows "uint_set_covers (rev prevs @ x # after) (uint_set_merge_adjacent prevs x after)"
proof (cases prevs)
  case (Cons p ps)
  with assms show ?thesis
    by (auto simp: uint_set_merge_adjacent_def uint_set_covers_def)
qed (simp add: uint_set_merge_adjacent_def covers_same)

lemma earliest_overlap_covers:
  assumes "earliest_overlap rng z prevs = (z', prevs')" "uint_set_wf (rev prevs @ [z])" "p \<in> set prevs"
  shows "p \<in> set prevs' \<or> ur_start z' \<le> ur_start p \<and> ur_end p \<le> ur_end z"
    and "ur_start z' \<le> ur_start z"
proof -
  have "(\<forall>p\<in>set prevs. p \<in> set prevs' \<or> ur_start z' \<le> ur_start p \<and> ur_end p \<le> ur_end z) \<and> ur_start z' \<le> ur_start z"
    using assms(1,2)
  proof (induction rng z prevs rule: earliest_overlap.induct)
    case (2 rng z q prevs)
    have q: "ur_start q \<le> ur_end q" "ur_end q < ur_start z" "ur_start z \<le> ur_end z" "uint_set_wf (rev prevs @ [q])"
      using 2(3) by (auto simp: uint_set_wf_append uint_set_wf_Cons range_wf_def)
    show ?case
    proof (cases "uint_range_overlaps q rng")
      case True
      with 2(1) 2(2) q show ?thesis by fastforce
    next
      case False
      with 2(2) show ?thesis by auto
    qed
  qed auto
  with assms(3) show "p \<in> set prevs' \<or> ur_start z' \<le> ur_start p \<and> ur_end p \<le> ur_end z"
    and "ur_start z' \<le> ur_start z" by auto
qed

lemma overlap_branch_covers:
  assumes wf: "uint_set_wf (rev prevs @ z # after)" and eo: "earliest_overlap rng z prevs = (z', prevs')"
    and x: "ur_start x \<le> ur_start z'" "ur_end z \<le> ur_end x"
  shows "uint_set_covers (rev prevs @ z # after) (rev prevs' @ x # after)"
proof -
  have wf': "uint_set_wf (rev prevs @ [z])" using wf by (simp add: uint_set_wf_append uint_set_wf_Cons)
  have "ur_start z' \<le> ur_start z"
    using eo earliest_overlap_covers(2) [OF eo wf'] by (cases prevs) auto
  moreover have "p \<in> set prevs' \<or> ur_start x \<le> ur_start p \<and> ur_end p \<le> ur_end x" if "p \<in> set prevs" for p
    using earliest_overlap_covers(1) [OF eo wf' that] x by auto
  ultimately show ?thesis
    using x unfolding uint_set_covers_def by fastforce
qed

lemma gap_branch_covers:
  assumes wf: "uint_set_wf (rev prevs @ z # after)" and rng: "range_wf rng"
    and gap: "ur_end rng < ur_start z" "prevs = [] \<or> ur_start rng > ur_end (hd prevs)"
  shows "uint_set_covers (rev prevs @ z # after)
           (uint_set_merge_adjacent prevs (z\<lparr>ur_start := ur_start rng\<rparr>) after)" (is ?A)
    and "prevs \<noteq> [] \<Longrightarrow> uint_set_covers (rev prevs @ z # after)
           (uint_set_merge_adjacent ((hd prevs)\<lparr>ur_end := ur_end rng\<rparr> # tl prevs) z after)"
proof -
  have r: "ur_start rng \<le> ur_end rng" "ur_start z \<le> ur_end z"
    using wf rng by (simp_all add: uint_set_wf_simps)
  have p: "ur_start (hd prevs) \<le> ur_end (hd prevs)" if "prevs \<noteq> []"
    using uint_set_wf_range [OF wf, of "hd prevs"] that by simp
  let ?z = "z\<lparr>ur_start := ur_start rng\<rparr>"
  have "uint_set_covers (rev prevs @ z # after) (rev prevs @ ?z # after)"
    using gap r by (intro covers_replace) simp_all
  moreover have "uint_set_covers (rev prevs @ ?z # after) (uint_set_merge_adjacent prevs ?z after)"
    using gap r p by (intro merge_adjacent_covers) auto
  ultimately show ?A by (rule covers_trans)
  assume ne: "prevs \<noteq> []"
  let ?p = "(hd prevs)\<lparr>ur_end := ur_end rng\<rparr>"
  have "uint_set_covers (rev (tl prevs) @ hd prevs # z # after) (rev (tl prevs) @ ?p # z # after)"
    using ne gap r by (intro covers_replace) simp_all
  then have "uint_set_covers (rev prevs @ z # after) (rev (?p # tl prevs) @ z # after)"
    using ne by (cases prevs) simp_all
  moreover have "uint_set_covers (rev (?p # tl prevs) @ z # after) (uint_set_merge_adjacent (?p # tl prevs) z after)"
    using ne gap r p by (intro merge_adjacent_covers) auto
  ultimately show "uint_set_covers (rev prevs @ z # after) (uint_set_merge_adjacent (?p # tl prevs) z after)"
    by (rule covers_trans)
qed

lemma insert_walk_covers_step:
  assumes wf: "uint_set_wf (rev prevs @ z # after)" and rng: "range_wf rng"
    and stop: "uint_range_overlaps z rng
       \<or> ur_end rng < ur_start z \<and> (prevs = [] \<or> ur_start rng > ur_end (hd prevs))"
    and walk: "uint_set_insert_walk mem rng (z # prevs) after = (ok, s')"
  shows "uint_set_covers (rev prevs @ z # after) s'"
proof -
  consider (inside) "ur_start z \<le> ur_start rng" "ur_end z \<ge> ur_end rng"
    | (over) "\<not> (ur_start z \<le> ur_start rng \<and> ur_end z \<ge> ur_end rng)" "uint_range_overlaps z rng"
    | (gap) "\<not> (ur_start z \<le> ur_start rng \<and> ur_end z \<ge> ur_end rng)" "\<not> uint_range_overlaps z rng"
        "ur_end rng < ur_start z" "prevs = [] \<or> ur_start rng > ur_end (hd prevs)"
    using stop by blast
  then show ?thesis
  proof cases
    case inside
    with walk insert_walk_inside [OF inside, of mem prevs after] show ?thesis by (simp add: covers_same)
  next
    case over
    obtain z' prevs' where eo: "earliest_overlap rng z prevs = (z', prevs')" by fastforce
    with walk over have s': "s' = rev prevs' @ urange (u64_min (ur_start rng) (ur_start z'))
        (u64_max (ur_end rng) (ur_end z)) # after"
      by (auto simp: uint_set_insert_walk.simps(2) Let_def)
    show ?thesis
      unfolding s' by (rule overlap_branch_covers [OF wf eo]) (simp_all add: u64_min_def u64_max_def)
  next
    case gap
    have "(ok, s') = (if ur_start z = u64_add (ur_end rng) 1 then
           (True, uint_set_merge_adjacent prevs (z\<lparr>ur_start := ur_start rng\<rparr>) after)
         else if prevs \<noteq> [] \<and> u64_add (ur_end (hd prevs)) 1 = ur_start rng then
           (True, uint_set_merge_adjacent ((hd prevs)\<lparr>ur_end := ur_end rng\<rparr> # tl prevs) z after)
         else if mem then (True, rev prevs @ rng # z # after) else (False, rev prevs @ z # after))"
      using insert_walk_gap [OF gap, of mem after] walk by simp
    moreover have "uint_set_covers (rev prevs @ z # after) (rev prevs @ rng # z # after)"
      by (rule covers_same) auto
    ultimately show ?thesis
      using gap_branch_covers [OF wf rng gap(3,4)] by (simp add: covers_same split: if_splits)
  qed
qed

lemma insert_walk_covers:
  assumes "uint_set_wf (rev prevs @ z # after)" "range_wf rng" "ur_start rng \<le> ur_end z"
    "\<forall>a\<in>set after. ur_end rng < ur_start a"
    and "uint_set_insert_walk mem rng (z # prevs) after = (ok, s')"
  shows "uint_set_covers (rev prevs @ z # after) s'"
proof -
  obtain z1 prevs1 after1 where *: "rev prevs @ z # after = rev prevs1 @ z1 # after1"
    "uint_range_overlaps z1 rng \<or> ur_end rng < ur_start z1 \<and> (prevs1 = [] \<or> ur_start rng > ur_end (hd prevs1))"
    "uint_set_insert_walk mem rng (z1 # prevs1) after1 = (ok, s')"
    using insert_walk_stops [OF assms(1-4), of mem] assms(5) by metis
  from insert_walk_covers_step [OF _ assms(2) *(2,3)] assms(1) show ?thesis unfolding *(1) by simp
qed

lemma uint_set_insert_covers:
  assumes "uint_set_wf s" "range_wf rng" "ossl_uint_set_insert mem s rng = (ok, s')"
  shows "uint_set_covers s s'"
proof (cases "s = []")
  case True
  then show ?thesis by (simp add: uint_set_covers_def)
next
  case False
  from False assms(1,2) show ?thesis
  proof (cases rule: uint_set_insert_branch_cases)
    case tail
    obtain t z where "s = t @ [z]" using False by (cases s rule: rev_cases) auto
    moreover have "ur_end z < ur_end rng" using calculation tail assms(2) by (simp add: range_wf_def)
    ultimately show ?thesis
      using assms(3) insert_tail [OF assms(2) False tail, of mem]
      by (auto simp: uint_set_covers_def split: if_splits)
  next
    case dwarf
    have "ur_start rng \<le> ur_start x \<and> ur_end x \<le> ur_end rng" if "x \<in> set s" for x
      using uint_set_first_last(3) [OF assms(1) False] uint_set_wf_range [OF assms(1) that] that dwarf
      by (force simp: uint_set_elems_def)
    with assms(3) insert_dwarf [OF assms(2) False dwarf, of mem] show ?thesis
      by (auto simp: uint_set_covers_def)
  next
    case (walk z prevs after)
    with assms insert_walk_covers [of prevs z after rng mem ok s'] show ?thesis by simp
  qed
qed

section \<open>The interface\<close>

text \<open>
  What users of an integer set rely on: an invariant, an abstraction to a set of integers,
  and the effect of each operation on it.
\<close>

datatype range_op = Insert_Range uint_range | Remove_Range uint_range

fun range_op_wf :: "range_op \<Rightarrow> bool" where
  "range_op_wf (Insert_Range r) = range_wf r"
| "range_op_wf (Remove_Range r) = range_wf r"

text \<open>Whether \<open>v\<close> is a member after a history of operations, for one integer at a time.\<close>

fun history_step :: "nat \<Rightarrow> range_op \<Rightarrow> bool \<Rightarrow> bool" where
  "history_step v (Insert_Range r) b = (b \<or> ur_start r \<le> v \<and> v \<le> ur_end r)"
| "history_step v (Remove_Range r) b = (b \<and> \<not> (ur_start r \<le> v \<and> v \<le> ur_end r))"

locale range_set =
  fixes empty :: 's
    and insert_range :: "'s \<Rightarrow> uint_range \<Rightarrow> 's"
    and remove_range :: "'s \<Rightarrow> uint_range \<Rightarrow> 's"
    and query :: "'s \<Rightarrow> nat \<Rightarrow> bool"
    and elems :: "'s \<Rightarrow> nat set"
    and invar :: "'s \<Rightarrow> bool"
  assumes empty: "invar empty" "elems empty = {}"
    and insert_invar: "invar s \<Longrightarrow> range_wf r \<Longrightarrow> invar (insert_range s r)"
    and insert_elems: "invar s \<Longrightarrow> range_wf r \<Longrightarrow>
          elems (insert_range s r) = elems s \<union> {ur_start r..ur_end r}"
    and remove_invar: "invar s \<Longrightarrow> range_wf r \<Longrightarrow> invar (remove_range s r)"
    and remove_elems: "invar s \<Longrightarrow> range_wf r \<Longrightarrow>
          elems (remove_range s r) = elems s - {ur_start r..ur_end r}"
    and query_elems: "invar s \<Longrightarrow> query s v \<longleftrightarrow> v \<in> elems s"
begin

fun apply_op :: "range_op \<Rightarrow> 's \<Rightarrow> 's" where
  "apply_op (Insert_Range r) s = insert_range s r"
| "apply_op (Remove_Range r) s = remove_range s r"

lemma apply_op_invar: "invar s \<Longrightarrow> range_op_wf x \<Longrightarrow> invar (apply_op x s)"
  by (cases x) (simp_all add: insert_invar remove_invar)

lemma apply_op_elems:
  "invar s \<Longrightarrow> range_op_wf x \<Longrightarrow> v \<in> elems (apply_op x s) \<longleftrightarrow> history_step v x (v \<in> elems s)"
  by (cases x) (simp_all add: insert_elems remove_elems)

lemma fold_apply_op:
  "invar s \<Longrightarrow> list_all range_op_wf xs \<Longrightarrow>
     invar (fold apply_op xs s)
     \<and> (v \<in> elems (fold apply_op xs s) \<longleftrightarrow> fold (history_step v) xs (v \<in> elems s))"
  by (induction xs arbitrary: s) (simp_all add: apply_op_invar apply_op_elems)

lemma history_query:
  "list_all range_op_wf xs \<Longrightarrow>
     query (fold apply_op xs empty) v \<longleftrightarrow> fold (history_step v) xs False"
  using fold_apply_op [of empty xs v] empty by (simp add: query_elems)

end

text \<open>The operations of \<open>uint_set.c\<close> when allocations succeed provide that interface.\<close>

definition uint_set_insert' :: "uint_set \<Rightarrow> uint_range \<Rightarrow> uint_set" where
  "uint_set_insert' s r = snd (ossl_uint_set_insert True s r)"

definition uint_set_remove' :: "uint_set \<Rightarrow> uint_range \<Rightarrow> uint_set" where
  "uint_set_remove' s r = (case ossl_uint_set_remove True s r of None \<Rightarrow> s | Some (ok, s') \<Rightarrow> s')"

interpretation us: range_set ossl_uint_set_init uint_set_insert' uint_set_remove'
    ossl_uint_set_query uint_set_elems uint_set_wf
proof
  fix s :: uint_set and r :: uint_range
  assume wf: "uint_set_wf s" "range_wf r"
  obtain ok s' where ins: "ossl_uint_set_insert True s r = (ok, s')" by fastforce
  with uint_set_insert_spec [OF wf ins]
  show "uint_set_wf (uint_set_insert' s r)"
    and "uint_set_elems (uint_set_insert' s r) = uint_set_elems s \<union> {ur_start r..ur_end r}"
    by (simp_all add: uint_set_insert'_def split: if_splits)
  from uint_set_remove_spec [of 0 s r True] wf
  show "uint_set_wf (uint_set_remove' s r)"
    and "uint_set_elems (uint_set_remove' s r) = uint_set_elems s - {ur_start r..ur_end r}"
    by (simp_all add: uint_set_wf_gap uint_set_remove'_def split: option.splits prod.splits)
qed (simp_all add: ossl_uint_set_init_def uint_set_query_spec)

section \<open>Properties\<close>

lemmas uint_set_eval = ossl_uint_set_insert_def uint_set_insert_walk.simps(2) ossl_uint_set_remove_def
  uint_set_remove_walk.simps(2) create_set_item_def uint_set_merge_adjacent_def uint_range_overlaps_iff
  u64_add_def u64_sub_def u64_min_def u64_max_def uint_set_strict_def range_wf_def

text \<open>
  C13. Inserting a range into a well-formed set keeps it sorted and disjoint.  When it returns 1
  the set of integers is the union with the range; it returns 0 only if an allocation failed,
  and then the set is unchanged.
\<close>

theorem uint_set_insert_correct:
  assumes "uint_set_wf s" "range_wf rng" "ossl_uint_set_insert mem s rng = (ok, s')"
  shows "uint_set_wf s' \<and>
     (if ok then uint_set_elems s' = uint_set_elems s \<union> {ur_start rng..ur_end rng}
      else \<not> mem \<and> s' = s)"
  using uint_set_insert_spec [OF assms] .

theorem uint_set_insert_correct_witness:
  "uint_set_wf [urange 0 4, urange 10 20, urange 30 40, urange 50 60]
   \<and> ossl_uint_set_insert True [urange 0 4, urange 10 20, urange 30 40, urange 50 60] (urange 12 35)
       = (True, [urange 0 4, urange 10 40, urange 50 60])
   \<and> uint_set_elems [urange 0 4, urange 10 40, urange 50 60]
       = uint_set_elems [urange 0 4, urange 10 20, urange 30 40, urange 50 60] \<union> {12..35}"
proof -
  have wf: "uint_set_wf [urange 0 4, urange 10 20, urange 30 40, urange 50 60]"
    by (simp add: uint_set_wf_def range_wf_def)
  have ins: "ossl_uint_set_insert True [urange 0 4, urange 10 20, urange 30 40, urange 50 60] (urange 12 35)
       = (True, [urange 0 4, urange 10 40, urange 50 60])"
    by (simp add: uint_set_eval)
  from uint_set_insert_correct [OF wf _ ins] wf ins show ?thesis by (simp add: range_wf_def)
qed

text \<open>
  C14. Removing a range never goes wrong when allocations succeed, returns 1, removes exactly the
  integers of the range, and keeps both the ordering and, if the set had it, the absence of
  bordering ranges.  Its only failure is a failed allocation when a range has to be cut in two.
\<close>

theorem uint_set_remove_correct:
  assumes "uint_set_wf s" "range_wf rng"
  shows "case ossl_uint_set_remove mem s rng of
      None \<Rightarrow> \<not> mem
    | Some (ok, s') \<Rightarrow> ok \<and> uint_set_wf s' \<and> (uint_set_strict s \<longrightarrow> uint_set_strict s') \<and>
        uint_set_elems s' = uint_set_elems s - {ur_start rng..ur_end rng}"
  using uint_set_remove_spec [of 0 s rng mem] uint_set_remove_spec [of 1 s rng mem] assms
  by (auto simp: uint_set_wf_gap uint_set_strict_gap split: option.splits)

theorem uint_set_remove_correct_witness:
  "ossl_uint_set_remove True [urange 0 9, urange 20 29] (urange 5 22) = Some (True, [urange 0 4, urange 23 29])
   \<and> uint_set_elems [urange 0 4, urange 23 29] = uint_set_elems [urange 0 9, urange 20 29] - {5..22}"
proof -
  have "uint_set_wf [urange 0 9, urange 20 29]" "range_wf (urange 5 22)"
    by (simp_all add: uint_set_wf_def range_wf_def)
  note * = uint_set_remove_correct [OF this, of True]
  have "ossl_uint_set_remove True [urange 0 9, urange 20 29] (urange 5 22) = Some (True, [urange 0 4, urange 23 29])"
    by (simp add: uint_set_eval)
  with * show ?thesis by simp
qed

text \<open>
  C9. After any history of insertions and removals on an initially empty set, with allocations
  that succeed, the query answers exactly whether the last operation covering the integer was
  an insertion.
\<close>

theorem uint_set_history_query:
  assumes "list_all range_op_wf ops"
  shows "ossl_uint_set_query (fold us.apply_op ops ossl_uint_set_init) v \<longleftrightarrow> fold (history_step v) ops False"
  using us.history_query [OF assms] .

theorem uint_set_history_query_witness:
  "\<not> ossl_uint_set_query (fold us.apply_op [Insert_Range (urange 0 9), Remove_Range (urange 3 5)] ossl_uint_set_init) 4
   \<and> ossl_uint_set_query (fold us.apply_op [Insert_Range (urange 0 9), Remove_Range (urange 3 5)] ossl_uint_set_init) 6"
proof -
  have "list_all range_op_wf [Insert_Range (urange 0 9), Remove_Range (urange 3 5)]"
    by (simp add: range_wf_def)
  note * = uint_set_history_query [OF this]
  show ?thesis using * [of 4] * [of 6] by simp
qed

text \<open>
  The stated invariant that no two ranges border one another is kept by an insertion for
  which every range overlapping the new one already contains it: for single integers, and for
  ranges none of whose integers are in the set.
\<close>

theorem uint_set_insert_keeps_gaps:
  assumes "uint_set_strict s" "range_wf rng" "no_partial_overlap s rng"
  shows "uint_set_strict (snd (ossl_uint_set_insert mem s rng))"
  using uint_set_insert_strict_spec [OF assms, of mem] by (metis surjective_pairing)

theorem uint_set_insert_keeps_gaps_witness:
  "uint_set_strict (snd (ossl_uint_set_insert False [urange 0 4, urange 6 9] (urange 5 5)))
   \<and> snd (ossl_uint_set_insert False [urange 0 4, urange 6 9] (urange 5 5)) = [urange 0 9]"
proof
  have "uint_set_strict [urange 0 4, urange 6 9]" "range_wf (urange 5 5)"
    "no_partial_overlap [urange 0 4, urange 6 9] (urange 5 5)"
    by (simp_all add: uint_set_strict_def range_wf_def no_partial_overlap_def uint_range_overlaps_iff)
  then show "uint_set_strict (snd (ossl_uint_set_insert False [urange 0 4, urange 6 9] (urange 5 5)))"
    by (rule uint_set_insert_keeps_gaps)
  show "snd (ossl_uint_set_insert False [urange 0 4, urange 6 9] (urange 5 5)) = [urange 0 9]"
    by (simp add: uint_set_eval)
qed

text \<open>
  The overlap case of the insertion does not merge with a range it comes to border: from a
  set without bordering ranges, inserting a range that overlaps one range and touches its
  neighbour leaves two bordering ranges, on either side.
\<close>

theorem uint_set_insert_borders:
  "uint_set_strict [urange 0 4, urange 10 20]
   \<and> ossl_uint_set_insert True [urange 0 4, urange 10 20] (urange 5 12) = (True, [urange 0 4, urange 5 20])
   \<and> uint_set_strict [urange 0 10, urange 21 30]
   \<and> ossl_uint_set_insert True [urange 0 10, urange 21 30] (urange 5 20) = (True, [urange 0 20, urange 21 30])
   \<and> \<not> uint_set_strict [urange 0 4, urange 5 20] \<and> \<not> uint_set_strict [urange 0 20, urange 21 30]"
  by (simp add: uint_set_eval)

end
