(* ===== verification/Quic_Sstream.thy ===== *)
theory Quic_Sstream
  imports Ring_Buf Uint_Set
begin

text \<open>
  The send part of a QUIC stream: \<open>ssl/quic/quic_sstream.c\<close>.

  The state is the ring buffer of retained bytes and two integer sets over stream offsets:
  the bytes to transmit (\<open>new_set\<close>) and the bytes acknowledged (\<open>acked_set\<close>).  Functions that
  allocate take what the allocator does as an argument: a boolean for the one item an integer
  set may need, and a function from sizes to blocks for the ring buffer.  \<open>None\<close> is undefined
  behaviour; \<open>iov\<close> entries point into the ring buffer by index.
\<close>

section \<open>The program\<close>

record quic_sstream =
  ss_ring_buf :: ring_buf
  ss_new_set :: uint_set
  ss_acked_set :: uint_set
  ss_have_final_size :: bool
  ss_sent_final_size :: bool
  ss_acked_final_size :: bool
  ss_cleanse :: bool

record stream_hdr =
  sh_offset :: nat
  sh_len :: nat
  sh_is_fin :: bool

record qtx_iovec =
  iov_buf :: nat
  iov_len :: nat

abbreviation mk_iov :: "nat \<Rightarrow> nat \<Rightarrow> qtx_iovec" where
  "mk_iov b n \<equiv> \<lparr>iov_buf = b, iov_len = n\<rparr>"

definition ossl_quic_sstream_new ::
    "bool \<Rightarrow> (nat \<Rightarrow> object) \<Rightarrow> nat \<Rightarrow> quic_sstream option option" where
  "ossl_quic_sstream_new mem malloc init_buf_size =
     (if \<not> mem then Some None
      else do {
        (ok, rb) \<leftarrow> ring_buf_resize malloc ring_buf_init init_buf_size;
        if \<not> ok then Some None
        else Some (Some \<lparr>ss_ring_buf = rb, ss_new_set = ossl_uint_set_init, ss_acked_set = ossl_uint_set_init,
                         ss_have_final_size = False, ss_sent_final_size = False,
                         ss_acked_final_size = False, ss_cleanse = False\<rparr>)
      })"

text \<open>
  The loop that fills the iovecs.  Its result is \<open>Some (Some (total_len, iov))\<close>, \<open>Some None\<close> when
  the ring buffer does not hold the range, and \<open>None\<close> when it would store beyond the caller's
  array of \<open>num_iov\<close> entries.
\<close>

function get_stream_frame_loop ::
    "ring_buf \<Rightarrow> nat \<Rightarrow> nat \<Rightarrow> nat \<Rightarrow> nat \<Rightarrow> qtx_iovec list \<Rightarrow> (nat \<times> qtx_iovec list) option option" where
  "get_stream_frame_loop rb start max_len num_iov total_len iov =
     (if total_len \<ge> max_len then Some (Some (total_len, iov))
      else case ring_buf_get_buf_at rb (u64_add start total_len) of
          None \<Rightarrow> Some None
        | Some (src, src_len) \<Rightarrow>
            if src_len = 0 then Some (Some (total_len, iov))
            else if num_iov \<le> length iov then None
            else
              let src_len = (if u64_add total_len src_len > max_len then max_len - total_len else src_len)
              in get_stream_frame_loop rb start max_len num_iov (u64_add total_len src_len)
                   (iov @ [mk_iov src src_len]))"
  by pat_completeness auto

termination get_stream_frame_loop
  by (relation "measure (\<lambda>(rb, start, max_len, num_iov, total_len, iov). num_iov - length iov)") auto

definition ossl_quic_sstream_get_stream_frame ::
    "quic_sstream \<Rightarrow> nat \<Rightarrow> nat \<Rightarrow> (stream_hdr \<times> qtx_iovec list) option option" where
  "ossl_quic_sstream_get_stream_frame qss skip num_iov =
     (if num_iov < 2 then Some None
      else case drop skip (ss_new_set qss) of
          [] \<Rightarrow>
            if length (ss_new_set qss) < skip then Some None
            else if \<not> ss_have_final_size qss \<or> ss_sent_final_size qss then Some None
            else Some (Some (\<lparr>sh_offset = rb_head (ss_ring_buf qss), sh_len = 0, sh_is_fin = True\<rparr>, []))
        | rng # _ \<Rightarrow>
            let max_len = u64_add (u64_sub (ur_end rng) (ur_start rng)) 1
            in do {
              res \<leftarrow> get_stream_frame_loop (ss_ring_buf qss) (ur_start rng) max_len num_iov 0 [];
              Some (case res of
                  None \<Rightarrow> None
                | Some (total_len, iov) \<Rightarrow>
                    Some (\<lparr>sh_offset = ur_start rng, sh_len = total_len,
                           sh_is_fin = (ss_have_final_size qss
                              \<and> u64_add (ur_start rng) total_len = rb_head (ss_ring_buf qss))\<rparr>, iov))
            })"

definition ossl_quic_sstream_has_pending :: "quic_sstream \<Rightarrow> bool option" where
  "ossl_quic_sstream_has_pending qss =
     map_option (\<lambda>res. res \<noteq> None) (ossl_quic_sstream_get_stream_frame qss 0 2)"

definition ossl_quic_sstream_get_cur_size :: "quic_sstream \<Rightarrow> nat" where
  "ossl_quic_sstream_get_cur_size qss = rb_head (ss_ring_buf qss)"

definition ossl_quic_sstream_mark_transmitted ::
    "bool \<Rightarrow> quic_sstream \<Rightarrow> nat \<Rightarrow> nat \<Rightarrow> (bool \<times> quic_sstream) option" where
  "ossl_quic_sstream_mark_transmitted mem qss start end' = do {
     (ok, s) \<leftarrow> ossl_uint_set_remove mem (ss_new_set qss) (urange start end');
     Some (ok, qss\<lparr>ss_new_set := s\<rparr>)
   }"

definition ossl_quic_sstream_mark_transmitted_fin ::
    "quic_sstream \<Rightarrow> nat \<Rightarrow> bool \<times> quic_sstream" where
  "ossl_quic_sstream_mark_transmitted_fin qss final_size =
     (if \<not> ss_have_final_size qss \<or> final_size \<noteq> rb_head (ss_ring_buf qss) then (False, qss)
      else (True, qss\<lparr>ss_sent_final_size := True\<rparr>))"

definition ossl_quic_sstream_mark_lost ::
    "bool \<Rightarrow> quic_sstream \<Rightarrow> nat \<Rightarrow> nat \<Rightarrow> bool \<times> quic_sstream" where
  "ossl_quic_sstream_mark_lost mem qss start end' =
     (let (ok, s) = ossl_uint_set_insert mem (ss_new_set qss) (urange start end')
      in (ok, qss\<lparr>ss_new_set := s\<rparr>))"

definition ossl_quic_sstream_mark_lost_fin :: "quic_sstream \<Rightarrow> bool \<times> quic_sstream" where
  "ossl_quic_sstream_mark_lost_fin qss =
     (if ss_acked_final_size qss then (False, qss) else (True, qss\<lparr>ss_sent_final_size := False\<rparr>))"

definition qss_cull :: "quic_sstream \<Rightarrow> quic_sstream option" where
  "qss_cull qss =
     (case ss_acked_set qss of
        [] \<Rightarrow> Some qss
      | h # _ \<Rightarrow> do {
          rb \<leftarrow> ring_buf_cpop_range (ss_ring_buf qss) (ur_start h) (ur_end h) (ss_cleanse qss);
          Some (qss\<lparr>ss_ring_buf := rb\<rparr>)
        })"

definition ossl_quic_sstream_mark_acked ::
    "bool \<Rightarrow> quic_sstream \<Rightarrow> nat \<Rightarrow> nat \<Rightarrow> (bool \<times> quic_sstream) option" where
  "ossl_quic_sstream_mark_acked mem qss start end' =
     (let (ok, s) = ossl_uint_set_insert mem (ss_acked_set qss) (urange start end');
          qss = qss\<lparr>ss_acked_set := s\<rparr>
      in if \<not> ok then Some (False, qss)
         else do { qss \<leftarrow> qss_cull qss; Some (True, qss) })"

definition ossl_quic_sstream_mark_acked_fin :: "quic_sstream \<Rightarrow> bool \<times> quic_sstream" where
  "ossl_quic_sstream_mark_acked_fin qss =
     (if \<not> ss_have_final_size qss then (False, qss) else (True, qss\<lparr>ss_acked_final_size := True\<rparr>))"

definition ossl_quic_sstream_fin :: "quic_sstream \<Rightarrow> quic_sstream" where
  "ossl_quic_sstream_fin qss = (if ss_have_final_size qss then qss else qss\<lparr>ss_have_final_size := True\<rparr>)"

definition ossl_quic_sstream_get_final_size :: "quic_sstream \<Rightarrow> nat option" where
  "ossl_quic_sstream_get_final_size qss =
     (if \<not> ss_have_final_size qss then None else Some (rb_head (ss_ring_buf qss)))"

function append_loop :: "ring_buf \<Rightarrow> u8 list \<Rightarrow> nat \<Rightarrow> (nat \<times> ring_buf) option" where
  "append_loop rb buf consumed =
     (if \<not> length buf > 0 then Some (consumed, rb)
      else case ring_buf_push rb buf of
          None \<Rightarrow> None
        | Some (l, rb) \<Rightarrow>
            if l = 0 then Some (consumed, rb)
            else append_loop rb (drop l buf) (u64_add consumed l))"
  by pat_completeness auto

termination append_loop
  by (relation "measure (\<lambda>(rb, buf, consumed). length buf)") auto

text \<open>
  On a failed insertion the code restores the structure of the old ring buffer; the bytes
  copied behind its head stay in the shared allocation.
\<close>

definition ossl_quic_sstream_append ::
    "bool \<Rightarrow> quic_sstream \<Rightarrow> u8 list \<Rightarrow> (bool \<times> nat \<times> quic_sstream) option" where
  "ossl_quic_sstream_append mem qss buf =
     (let old = ss_ring_buf qss in
      if ss_have_final_size qss then Some (False, 0, qss)
      else do {
        (consumed, rb) \<leftarrow> append_loop old buf 0;
        let qss = qss\<lparr>ss_ring_buf := rb\<rparr>;
        if consumed > 0 then
          (let start = rb_head old;
               end' = u64_sub (u64_add start consumed) 1;
               (ok, s) = ossl_uint_set_insert mem (ss_new_set qss) (urange start end');
               qss = qss\<lparr>ss_new_set := s\<rparr>
           in if \<not> ok then Some (False, 0, qss\<lparr>ss_ring_buf := rb\<lparr>rb_head := rb_head old, rb_ctail := rb_ctail old\<rparr>\<rparr>)
              else Some (True, consumed, qss))
        else Some (True, consumed, qss)
      })"

definition ossl_quic_sstream_set_buffer_size ::
    "(nat \<Rightarrow> object) \<Rightarrow> quic_sstream \<Rightarrow> nat \<Rightarrow> (bool \<times> quic_sstream) option" where
  "ossl_quic_sstream_set_buffer_size malloc qss num_bytes = do {
     (ok, rb) \<leftarrow> ring_buf_resize malloc (ss_ring_buf qss) num_bytes;
     Some (ok, qss\<lparr>ss_ring_buf := rb\<rparr>)
   }"

definition ossl_quic_sstream_get_buffer_size :: "quic_sstream \<Rightarrow> nat" where
  "ossl_quic_sstream_get_buffer_size qss = rb_alloc (ss_ring_buf qss)"

definition ossl_quic_sstream_get_buffer_used :: "quic_sstream \<Rightarrow> nat" where
  "ossl_quic_sstream_get_buffer_used qss = ring_buf_used (ss_ring_buf qss)"

definition ossl_quic_sstream_get_buffer_avail :: "quic_sstream \<Rightarrow> nat" where
  "ossl_quic_sstream_get_buffer_avail qss = ring_buf_avail (ss_ring_buf qss)"

definition ossl_quic_sstream_is_totally_acked :: "quic_sstream \<Rightarrow> bool" where
  "ossl_quic_sstream_is_totally_acked qss =
     (if ss_have_final_size qss \<and> \<not> ss_acked_final_size qss then False
      else if ossl_quic_sstream_get_cur_size qss = 0 then True
      else case ss_acked_set qss of
          [r] \<Rightarrow> ur_start r = 0 \<and> u64_add (ur_end r) 1 = rb_head (ss_ring_buf qss)
        | _ \<Rightarrow> False)"

fun adjust_iov_loop :: "nat \<Rightarrow> nat \<Rightarrow> qtx_iovec list \<Rightarrow> qtx_iovec list" where
  "adjust_iov_loop len running [] = []"
| "adjust_iov_loop len running (v # iov) =
     (if running \<ge> len then v\<lparr>iov_len := 0\<rparr>
      else if u64_add running (iov_len v) > len then v\<lparr>iov_len := len - running\<rparr>
      else v) # adjust_iov_loop len (u64_add running (iov_len v)) iov"

definition ossl_quic_sstream_adjust_iov :: "nat \<Rightarrow> qtx_iovec list \<Rightarrow> qtx_iovec list" where
  "ossl_quic_sstream_adjust_iov len iov = adjust_iov_loop len 0 iov"

definition ossl_quic_sstream_set_cleanse :: "quic_sstream \<Rightarrow> bool \<Rightarrow> quic_sstream" where
  "ossl_quic_sstream_set_cleanse qss cleanse = qss\<lparr>ss_cleanse := cleanse\<rparr>"

section \<open>The invariant\<close>

text \<open>
  \<open>sent\<close> is the list of all bytes accepted so far.  The ring buffer holds its tail; every byte
  before the cull tail is acknowledged; no byte is both to be sent and acknowledged.
\<close>

definition culled_acked :: "nat \<Rightarrow> uint_set \<Rightarrow> bool" where
  "culled_acked ctail acked \<longleftrightarrow>
     (0 < ctail \<longrightarrow> acked \<noteq> [] \<and> ur_start (hd acked) = 0 \<and> ctail \<le> ur_end (hd acked) + 1)"

definition sstream_inv :: "u8 list \<Rightarrow> quic_sstream \<Rightarrow> bool" where
  "sstream_inv sent qss \<longleftrightarrow>
     ring_buf_wf (ss_ring_buf qss) \<and> rb_head (ss_ring_buf qss) = length sent
     \<and> ring_buf_data (ss_ring_buf qss) = drop (rb_ctail (ss_ring_buf qss)) sent
     \<and> uint_set_wf (ss_new_set qss) \<and> uint_set_wf (ss_acked_set qss)
     \<and> uint_set_elems (ss_new_set qss) \<subseteq> {..<length sent}
     \<and> uint_set_elems (ss_acked_set qss) \<subseteq> {..<length sent}
     \<and> uint_set_elems (ss_new_set qss) \<inter> uint_set_elems (ss_acked_set qss) = {}
     \<and> culled_acked (rb_ctail (ss_ring_buf qss)) (ss_acked_set qss)"

lemma uint_set_hd_in: "uint_set_wf s \<Longrightarrow> s \<noteq> [] \<Longrightarrow> ur_end (hd s) \<in> uint_set_elems s"
  by (cases s) (auto simp: uint_set_wf_Cons range_wf_def)

lemma culled_acked_elems: "culled_acked ctail acked \<Longrightarrow> {..<ctail} \<subseteq> uint_set_elems acked"
  by (cases acked) (auto simp: culled_acked_def)

text \<open>The first range of a set that starts at 0 keeps starting there and does not shrink.\<close>

lemma uint_set_insert_first:
  assumes wf: "uint_set_wf s" and rng: "range_wf rng" and ins: "ossl_uint_set_insert mem s rng = (ok, s')"
    and s: "s \<noteq> []" "ur_start (hd s) = 0"
  shows "s' \<noteq> [] \<and> ur_start (hd s') = 0 \<and> ur_end (hd s) \<le> ur_end (hd s')"
proof -
  have wf': "uint_set_wf s'" using uint_set_insert_spec [OF wf rng ins] by simp
  obtain y where y: "y \<in> set s'" "ur_start y = 0" "ur_end (hd s) \<le> ur_end y"
    using uint_set_insert_covers [OF wf rng ins] s unfolding uint_set_covers_def
    by (metis hd_in_set le_zero_eq)
  obtain h t where h: "s' = h # t" using y(1) by (cases s') auto
  have "y = h"
    using y wf' unfolding h by (auto simp: uint_set_wf_Cons)
  with y h show ?thesis by simp
qed

lemma culled_acked_insert:
  assumes "culled_acked ctail s" "uint_set_wf s" "range_wf rng" "ossl_uint_set_insert mem s rng = (ok, s')"
  shows "culled_acked ctail s'"
  using assms(1) uint_set_insert_first [OF assms(2-4)] by (auto simp: culled_acked_def)

lemma sstream_inv_ring: "sstream_inv sent qss \<Longrightarrow> length sent \<le> MAX_OFFSET"
  by (auto simp: sstream_inv_def ring_buf_wf_def)

section \<open>Operations keep the invariant\<close>

lemma sstream_new_inv:
  assumes "malloc_ok malloc"
  shows "\<exists>res. ossl_quic_sstream_new mem malloc n = Some res \<and> (case res of None \<Rightarrow> True | Some qss \<Rightarrow> sstream_inv [] qss)"
proof -
  have "ring_buf_wf ring_buf_init" by (simp add: ring_buf_wf_def ring_buf_init_def rb_mem_ok_def)
  then obtain r where "ring_buf_resize malloc ring_buf_init n =
      Some (n = rb_alloc ring_buf_init \<or> rb_head ring_buf_init - rb_ctail ring_buf_init \<le> n \<and> malloc n \<noteq> None, r)"
    "ring_buf_wf r" "rb_head r = rb_head ring_buf_init" "rb_ctail r = rb_ctail ring_buf_init"
    "ring_buf_data r = ring_buf_data ring_buf_init"
    using ring_buf_resize_spec [OF _ assms] by metis
  then show ?thesis
    by (auto simp: ossl_quic_sstream_new_def sstream_inv_def ring_buf_init_def ring_buf_data_def
        ossl_uint_set_init_def culled_acked_def)
qed

lemma sstream_transmitted_inv:
  assumes inv: "sstream_inv sent qss" and r: "start \<le> end'" "end' < U64"
    and run: "ossl_quic_sstream_mark_transmitted mem qss start end' = Some (ok, qss')"
  shows "\<exists>s. ok \<and> sstream_inv sent qss' \<and> qss' = qss\<lparr>ss_new_set := s\<rparr>
    \<and> uint_set_elems s = uint_set_elems (ss_new_set qss) - {start..end'}"
proof -
  from run obtain s where s: "ossl_uint_set_remove mem (ss_new_set qss) (urange start end') = Some (ok, s)"
      "qss' = qss\<lparr>ss_new_set := s\<rparr>"
    by (auto simp: ossl_quic_sstream_mark_transmitted_def Option.bind_eq_Some_conv)
  have "ok \<and> uint_set_wf s \<and> uint_set_elems s = uint_set_elems (ss_new_set qss) - {start..end'}"
    using uint_set_remove_spec [of 0 "ss_new_set qss" "urange start end'" mem] s(1) inv r
    by (simp add: sstream_inv_def uint_set_wf_gap range_wf_def)
  then show ?thesis using inv s(2) by (auto simp: sstream_inv_def)
qed

lemma sstream_lost_inv:
  assumes inv: "sstream_inv sent qss" and r: "start \<le> end'" "end' < length sent"
    and fresh: "{start..end'} \<inter> uint_set_elems (ss_acked_set qss) = {}"
    and run: "ossl_quic_sstream_mark_lost mem qss start end' = (ok, qss')"
  shows "sstream_inv sent qss' \<and> (ok \<longrightarrow>
      uint_set_elems (ss_new_set qss') = uint_set_elems (ss_new_set qss) \<union> {start..end'}) \<and> (\<not> ok \<longrightarrow> \<not> mem \<and> qss' = qss)"
proof -
  from run obtain s where s: "ossl_uint_set_insert mem (ss_new_set qss) (urange start end') = (ok, s)"
      "qss' = qss\<lparr>ss_new_set := s\<rparr>"
    by (auto simp: ossl_quic_sstream_mark_lost_def split: prod.splits)
  have wf: "uint_set_wf (ss_new_set qss)" "range_wf (urange start end')"
    using inv r sstream_inv_ring [OF inv] by (auto simp: sstream_inv_def range_wf_def)
  from uint_set_insert_spec [OF wf s(1)] have "uint_set_wf s" "ok \<longrightarrow> uint_set_elems s = uint_set_elems (ss_new_set qss) \<union> {start..end'}"
    "\<not> ok \<longrightarrow> \<not> mem \<and> s = ss_new_set qss" by (auto split: if_splits)
  then show ?thesis using inv s(2) r fresh by (cases ok) (auto simp: sstream_inv_def)
qed

lemma qss_cull_inv:
  assumes inv: "sstream_inv sent qss"
  shows "\<exists>rb. qss_cull qss = Some (qss\<lparr>ss_ring_buf := rb\<rparr>) \<and> sstream_inv sent (qss\<lparr>ss_ring_buf := rb\<rparr>)"
proof (cases "ss_acked_set qss")
  case Nil
  have "qss = qss\<lparr>ss_ring_buf := ss_ring_buf qss\<rparr>" by simp
  then show ?thesis using inv Nil unfolding qss_cull_def by (metis list.case(1))
next
  case (Cons h t)
  let ?rb = "ss_ring_buf qss"
  have wf: "ring_buf_wf ?rb" and head: "rb_head ?rb = length sent" using inv by (simp_all add: sstream_inv_def)
  show ?thesis
  proof (cases "ur_start h > rb_ctail ?rb")
    case True
    then have "qss_cull qss = Some (qss\<lparr>ss_ring_buf := ?rb\<rparr>)"
      by (simp add: qss_cull_def Cons ring_buf_cpop_range_def)
    moreover have "sstream_inv sent (qss\<lparr>ss_ring_buf := ?rb\<rparr>)" using inv by simp
    ultimately show ?thesis by blast
  next
    case False
    have "ur_end h \<in> uint_set_elems (ss_acked_set qss)"
      using uint_set_hd_in [of "ss_acked_set qss"] inv Cons by (simp add: sstream_inv_def)
    then have eh: "ur_end h < length sent" using inv by (auto simp: sstream_inv_def)
    have h0: "ur_start h = 0" "rb_ctail ?rb \<le> ur_end h + 1"
      using inv Cons False by (auto simp: sstream_inv_def culled_acked_def)
    have pop: "ur_start h \<le> rb_ctail ?rb" "ur_end h < MAX_OFFSET"
      using False eh sstream_inv_ring [OF inv] by auto
    obtain r' where r': "ring_buf_cpop_range ?rb (ur_start h) (ur_end h) (ss_cleanse qss) = Some r'"
      "ring_buf_wf r'" "rb_ctail r' = ur_end h + 1" "rb_head r' = max (rb_head ?rb) (ur_end h + 1)"
      "\<And>x. ur_end h + 1 \<le> x \<Longrightarrow> x < rb_ctail ?rb + rb_alloc ?rb \<Longrightarrow> rb_byte r' x = rb_byte ?rb x"
      by (rule ring_buf_cpop_range_spec [OF wf pop h0(2)]) blast
    have fits: "rb_head ?rb \<le> rb_ctail ?rb + rb_alloc ?rb" using wf by (auto simp: ring_buf_wf_def)
    have "ring_buf_data r' = drop (rb_ctail r' - rb_ctail ?rb) (ring_buf_data ?rb)"
      using r'(3-5) h0(2) fits by (intro ring_buf_data_drop [OF wf r'(2)]) simp_all
    then have "ring_buf_data r' = drop (rb_ctail r') sent"
      using inv r'(3) h0(2) by (simp add: sstream_inv_def)
    moreover have "rb_head r' = length sent" using r'(4) eh head by simp
    ultimately have "sstream_inv sent (qss\<lparr>ss_ring_buf := r'\<rparr>)"
      using inv r'(2,3) h0(1) Cons by (simp add: sstream_inv_def culled_acked_def)
    then show ?thesis using r'(1) by (auto simp: qss_cull_def Cons)
  qed
qed

lemma sstream_acked_inv:
  assumes inv: "sstream_inv sent qss" and r: "start \<le> end'" "end' < length sent"
    and fresh: "{start..end'} \<inter> uint_set_elems (ss_new_set qss) = {}"
  shows "\<exists>ok qss'. ossl_quic_sstream_mark_acked mem qss start end' = Some (ok, qss') \<and> sstream_inv sent qss'
    \<and> ss_new_set qss' = ss_new_set qss
    \<and> (ok \<longrightarrow> uint_set_elems (ss_acked_set qss') = uint_set_elems (ss_acked_set qss) \<union> {start..end'})
    \<and> (\<not> ok \<longrightarrow> \<not> mem \<and> qss' = qss)"
proof -
  obtain ok s where s: "ossl_uint_set_insert mem (ss_acked_set qss) (urange start end') = (ok, s)" by fastforce
  let ?q = "qss\<lparr>ss_acked_set := s\<rparr>"
  have wf: "uint_set_wf (ss_acked_set qss)" "range_wf (urange start end')"
    using inv r sstream_inv_ring [OF inv] by (auto simp: sstream_inv_def range_wf_def)
  from uint_set_insert_spec [OF wf s] have s': "uint_set_wf s"
    "ok \<longrightarrow> uint_set_elems s = uint_set_elems (ss_acked_set qss) \<union> {start..end'}"
    "\<not> ok \<longrightarrow> \<not> mem \<and> s = ss_acked_set qss" by (auto split: if_splits)
  have "culled_acked (rb_ctail (ss_ring_buf qss)) s"
    using culled_acked_insert [OF _ wf s] inv by (simp add: sstream_inv_def)
  with inv s' r fresh have inv': "sstream_inv sent ?q" by (cases ok) (auto simp: sstream_inv_def)
  show ?thesis
  proof (cases ok)
    case True
    obtain rb where "qss_cull ?q = Some (?q\<lparr>ss_ring_buf := rb\<rparr>)" "sstream_inv sent (?q\<lparr>ss_ring_buf := rb\<rparr>)"
      using qss_cull_inv [OF inv'] by blast
    with True s s' show ?thesis by (auto simp: ossl_quic_sstream_mark_acked_def)
  next
    case False
    with s s' inv' show ?thesis by (auto simp: ossl_quic_sstream_mark_acked_def)
  qed
qed

declare append_loop.simps [simp del] get_stream_frame_loop.simps [simp del]

lemma append_loop_spec:
  assumes "ring_buf_wf r" "c + length buf < U64"
    "n = min (length buf) (min (ring_buf_avail r) (MAX_OFFSET - rb_head r))"
  shows "\<exists>r'. append_loop r buf c = Some (c + n, r') \<and> ring_buf_wf r' \<and> ring_buf_data r' = ring_buf_data r @ take n buf
    \<and> rb_head r' = rb_head r + n \<and> rb_ctail r' = rb_ctail r \<and> rb_alloc r' = rb_alloc r"
  using assms
proof (induction "length buf" arbitrary: r buf c n rule: less_induct)
  case less
  show ?case
  proof (cases "buf = []")
    case True
    with less.prems show ?thesis by (simp add: append_loop.simps)
  next
    case False
    have "length buf < U64" using less.prems(2) by linarith
    then obtain r1 where r1: "ring_buf_push r buf = Some (n, r1)" "ring_buf_wf r1"
      "ring_buf_data r1 = ring_buf_data r @ take n buf" "rb_head r1 = rb_head r + n" "rb_ctail r1 = rb_ctail r"
      "rb_alloc r1 = rb_alloc r"
      using ring_buf_push_spec [OF less.prems(1), of buf, folded less.prems(3)] by metis
    have room: "rb_head r + ring_buf_avail r = rb_ctail r + rb_alloc r"
      "rb_head r1 + ring_buf_avail r1 = rb_ctail r1 + rb_alloc r1"
      using ring_buf_wf_alloc less.prems(1) r1(2) by blast+
    show ?thesis
    proof (cases "n = 0")
      case True
      with r1 False show ?thesis by (simp add: append_loop.simps [of r buf c])
    next
      case n: False
      have len: "length (drop n buf) < length buf" using n False by simp
      have "0 = min (length (drop n buf)) (min (ring_buf_avail r1) (MAX_OFFSET - rb_head r1))"
        using less.prems(3) room r1(4-6) by (simp add: min_def split: if_splits)
      moreover have "c + n + length (drop n buf) < U64" using less.prems(2,3) by simp
      ultimately obtain r2 where r2: "append_loop r1 (drop n buf) (c + n) = Some (c + n + 0, r2)" "ring_buf_wf r2"
        "ring_buf_data r2 = ring_buf_data r1 @ take 0 (drop n buf)" "rb_head r2 = rb_head r1 + 0"
        "rb_ctail r2 = rb_ctail r1" "rb_alloc r2 = rb_alloc r1"
        using less.hyps [OF len r1(2)] by blast
      have "u64_add c n = c + n" using less.prems(2,3) by (simp add: u64_add_exact)
      with r1 r2 n False show ?thesis by (simp add: append_loop.simps [of r buf c])
    qed
  qed
qed

lemma sstream_append_inv:
  assumes inv: "sstream_inv sent qss" and len: "length buf < U64"
  defines "rb \<equiv> ss_ring_buf qss"
  defines "n \<equiv> min (length buf) (min (ring_buf_avail rb) (MAX_OFFSET - rb_head rb))"
  shows "\<exists>ok consumed qss'. ossl_quic_sstream_append mem qss buf = Some (ok, consumed, qss')
    \<and> sstream_inv (sent @ take consumed buf) qss'
    \<and> ss_acked_set qss' = ss_acked_set qss \<and> rb_ctail (ss_ring_buf qss') = rb_ctail rb
    \<and> (ok \<longrightarrow> \<not> ss_have_final_size qss \<and> consumed = n \<and>
        uint_set_elems (ss_new_set qss') = uint_set_elems (ss_new_set qss) \<union> {length sent..<length sent + n})
    \<and> (\<not> ok \<longrightarrow> (ss_have_final_size qss \<or> \<not> mem) \<and> consumed = 0 \<and> ss_new_set qss' = ss_new_set qss)"
proof (cases "ss_have_final_size qss")
  case True
  with inv show ?thesis by (auto simp: ossl_quic_sstream_append_def rb_def)
next
  case fin: False
  have i: "ring_buf_wf rb" "rb_head rb = length sent" "ring_buf_data rb = drop (rb_ctail rb) sent"
      "uint_set_wf (ss_new_set qss)" "uint_set_elems (ss_new_set qss) \<subseteq> {..<length sent}"
      "uint_set_elems (ss_acked_set qss) \<subseteq> {..<length sent}"
    using inv by (simp_all add: sstream_inv_def rb_def)
  have ct: "rb_ctail rb \<le> length sent" using i(1,2) by (simp add: ring_buf_wf_def)
  obtain r1 where r1: "append_loop rb buf 0 = Some (n, r1)" "ring_buf_wf r1"
      "ring_buf_data r1 = ring_buf_data rb @ take n buf" "rb_head r1 = rb_head rb + n" "rb_ctail r1 = rb_ctail rb"
      "rb_alloc r1 = rb_alloc rb"
    using append_loop_spec [OF i(1), of 0 buf n] len by (auto simp: n_def)
  have n: "n \<le> length buf" "length sent + n \<le> MAX_OFFSET"
    using i(1,2) by (auto simp: n_def ring_buf_wf_def)
  have data1: "ring_buf_data r1 = drop (rb_ctail r1) (sent @ take n buf)" using r1(3,5) i(3) ct by simp
  show ?thesis
  proof (cases "n = 0")
    case True
    have "sstream_inv sent (qss\<lparr>ss_ring_buf := r1\<rparr>)"
      using inv r1 True by (simp add: sstream_inv_def rb_def)
    with r1 fin True show ?thesis by (auto simp: ossl_quic_sstream_append_def rb_def)
  next
    case False
    let ?rng = "urange (length sent) (length sent + n - 1)"
    have e: "u64_sub (u64_add (rb_head rb) n) 1 = length sent + n - 1"
      using n(2) i(2) False by (simp add: u64_add_exact u64_sub_exact)
    have rng: "range_wf ?rng" using False n(2) unfolding range_wf_def by simp linarith
    obtain ok s where s: "ossl_uint_set_insert mem (ss_new_set qss) ?rng = (ok, s)" by fastforce
    have atl: "{length sent..length sent + n - 1} = {length sent..<length sent + n}" using False by auto
    from uint_set_insert_spec [OF i(4) rng s] have s': "uint_set_wf s"
      "ok \<longrightarrow> uint_set_elems s = uint_set_elems (ss_new_set qss) \<union> {length sent..<length sent + n}"
      "\<not> ok \<longrightarrow> \<not> mem \<and> s = ss_new_set qss" by (auto simp: atl split: if_splits)
    show ?thesis
    proof (cases ok)
      case True
      let ?q = "qss\<lparr>ss_ring_buf := r1, ss_new_set := s\<rparr>"
      have "sstream_inv (sent @ take n buf) ?q"
        using inv r1 s' True n data1 i by (auto simp: sstream_inv_def rb_def)
      moreover have "ossl_quic_sstream_append mem qss buf = Some (True, n, ?q)"
        using r1(1) fin False s True e i(2) by (simp add: ossl_quic_sstream_append_def rb_def)
      ultimately show ?thesis using r1(5) s' True fin by auto
    next
      case nok: False
      let ?r = "r1\<lparr>rb_head := rb_head rb, rb_ctail := rb_ctail rb\<rparr>"
      let ?q = "qss\<lparr>ss_ring_buf := ?r, ss_new_set := s\<rparr>"
      have "ring_buf_wf ?r" using i(1) r1(2,6) by (simp add: ring_buf_wf_def)
      moreover have "ring_buf_data ?r = ring_buf_data rb"
      proof -
        have "ring_buf_data ?r = take (rb_head rb - rb_ctail rb) (ring_buf_data r1)"
          using r1(4,5) ct i(2) by (simp add: ring_buf_data_def take_map take_upt)
        then show ?thesis using r1(3) by (simp add: length_ring_buf_data)
      qed
      ultimately have "sstream_inv sent ?q"
        using inv s' nok i by (simp add: sstream_inv_def rb_def)
      moreover have "ossl_quic_sstream_append mem qss buf = Some (False, 0, ?q)"
        using r1(1) fin False s nok e i(2) by (simp add: ossl_quic_sstream_append_def rb_def)
      ultimately show ?thesis using s' nok by (auto simp: rb_def)
    qed
  qed
qed

lemma sstream_set_buffer_size_inv:
  assumes inv: "sstream_inv sent qss" and m: "malloc_ok malloc"
  shows "\<exists>ok qss'. ossl_quic_sstream_set_buffer_size malloc qss n = Some (ok, qss') \<and> sstream_inv sent qss'
    \<and> qss' = qss\<lparr>ss_ring_buf := ss_ring_buf qss'\<rparr>"
proof -
  have "ring_buf_wf (ss_ring_buf qss)" using inv by (simp add: sstream_inv_def)
  then obtain ok r where "ring_buf_resize malloc (ss_ring_buf qss) n = Some (ok, r)" "ring_buf_wf r"
    "rb_head r = rb_head (ss_ring_buf qss)" "rb_ctail r = rb_ctail (ss_ring_buf qss)"
    "ring_buf_data r = ring_buf_data (ss_ring_buf qss)"
    by (rule ring_buf_resize_spec [OF _ m, of _ n]) blast
  with inv show ?thesis
    by (auto simp: ossl_quic_sstream_set_buffer_size_def sstream_inv_def)
qed

section \<open>The frames it produces\<close>

fun iov_data :: "ring_buf \<Rightarrow> qtx_iovec list \<Rightarrow> u8 list option" where
  "iov_data rb [] = Some []"
| "iov_data rb (v # vs) = do {
     bs \<leftarrow> mem_read (rb_start rb) (iov_buf v) (iov_len v);
     rest \<leftarrow> iov_data rb vs;
     Some (bs @ rest)
   }"

lemma get_stream_frame_loop_last:
  assumes "ring_buf_get_buf_at rb (u64_add start t) = Some (idx, l)" "t < max_len" "max_len \<le> t + l" "t + l < U64"
    "length iov < num_iov"
  shows "get_stream_frame_loop rb start max_len num_iov t iov = Some (Some (max_len, iov @ [mk_iov idx (max_len - t)]))"
proof -
  have add: "u64_add t l = t + l" "u64_add t (max_len - t) = max_len"
    using assms(2-4) by (simp_all add: u64_add_exact)
  have l: "(if t + l > max_len then max_len - t else l) = max_len - t" "l \<noteq> 0" using assms(2,3) by auto
  have "get_stream_frame_loop rb start max_len num_iov t iov =
      get_stream_frame_loop rb start max_len num_iov max_len (iov @ [mk_iov idx (max_len - t)])"
    using assms by (subst get_stream_frame_loop.simps) (simp only: add l Let_def option.case prod.case not_le if_False if_not_P)
  then show ?thesis by (simp add: get_stream_frame_loop.simps)
qed

lemma get_stream_frame_loop_spec:
  assumes wf: "ring_buf_wf rb" and s: "rb_ctail rb \<le> start" "start + len \<le> rb_head rb" "0 < len" and iov: "2 \<le> num_iov"
  shows "\<exists>iov. get_stream_frame_loop rb start len num_iov 0 [] = Some (Some (len, iov))
    \<and> length iov \<le> 2 \<and> sum_list (map iov_len iov) = len \<and> iov_data rb iov = Some (map (rb_byte rb) [start..<start + len])"
proof -
  have h: "rb_head rb \<le> MAX_OFFSET" "rb_head rb - rb_ctail rb \<le> rb_alloc rb" "rb_ctail rb \<le> rb_head rb"
    using wf by (simp_all add: ring_buf_wf_def)
  have a: "0 < rb_alloc rb" using s h by linarith
  have start: "start \<le> rb_head rb" "u64_add start 0 = start" using s h by simp_all
  obtain i l where g: "ring_buf_get_buf_at rb start = Some (i, l)" "start + l \<le> rb_head rb"
    "mem_read (rb_start rb) i l = Some (map (rb_byte rb) [start..<start + l])"
    "l = min (rb_head rb - start) (rb_alloc rb - start mod rb_alloc rb)"
    using ring_buf_get_buf_at_spec [OF wf s(1) start(1)] a by metis
  have lu: "l < U64" using g(2) h by linarith
  show ?thesis
  proof (cases "len \<le> l")
    case True
    then have "get_stream_frame_loop rb start len num_iov 0 [] = Some (Some (len, [] @ [mk_iov i (len - 0)]))"
      using g(1) s(3) lu iov start(2) by (intro get_stream_frame_loop_last) simp_all
    moreover have "mem_read (rb_start rb) i len = Some (map (rb_byte rb) [start..<start + len])"
      using mem_read_prefix [OF g(3) True] True by (simp add: take_map)
    ultimately show ?thesis by simp
  next
    case False
    have l: "l = rb_alloc rb - start mod rb_alloc rb" "0 < l"
      using False g(4) s(2) a by (auto simp: min_def split: if_splits)
    have m: "(start + l) mod rb_alloc rb = 0" using mod_add_to_end [OF a, of start] l(1) by simp
    have u: "u64_add start l = start + l" "u64_add 0 l = l" using g(2) h by (simp_all add: u64_add_exact)
    have "rb_ctail rb \<le> start + l" using s(1) by simp
    then obtain i2 l2 where g2: "ring_buf_get_buf_at rb (start + l) = Some (i2, l2)" "start + l + l2 \<le> rb_head rb"
      "mem_read (rb_start rb) i2 l2 = Some (map (rb_byte rb) [start + l..<start + l + l2])"
      "l2 = min (rb_head rb - (start + l)) (rb_alloc rb - (start + l) mod rb_alloc rb)"
      using ring_buf_get_buf_at_spec [OF wf _ g(2)] a by metis
    have len2: "len - l \<le> l2" "len \<le> l + l2" using g2(4) m s h False by auto
    have lu2: "l + l2 < U64" using g2(2) h by linarith
    have "get_stream_frame_loop rb start len num_iov 0 [] = get_stream_frame_loop rb start len num_iov l [mk_iov i l]"
      using g(1) start(2) s(3) False iov u l(2) by (subst get_stream_frame_loop.simps) (simp add: Let_def)
    also have "\<dots> = Some (Some (len, [mk_iov i l] @ [mk_iov i2 (len - l)]))"
      using g2(1) u False len2 lu2 iov by (intro get_stream_frame_loop_last) simp_all
    finally have run: "get_stream_frame_loop rb start len num_iov 0 [] = Some (Some (len, [mk_iov i l, mk_iov i2 (len - l)]))"
      by simp
    have "mem_read (rb_start rb) i2 (len - l) = Some (map (rb_byte rb) [start + l..<start + len])"
      using mem_read_prefix [OF g2(3) len2(1)] len2 False by (simp add: take_map)
    moreover have "[start..<start + l] @ [start + l..<start + len] = [start..<start + len]"
      using False upt_add_eq_append [of start "start + l" "len - l"] by simp
    ultimately show ?thesis using run g(3) False by (auto simp flip: map_append)
  qed
qed

section \<open>Streams as state machines over bytes\<close>

text \<open>
  The abstract view of the comment in the source: a stream is the list of the states of its bytes.
  \<open>sstream_call\<close> are the calls that change a stream, \<open>do_call\<close> dispatches to the functions above and
  returns the result, the number of bytes consumed and the new state; \<open>call_ok\<close> is what the callers
  guarantee: ranges are non-empty and within the stream, a byte is not reported lost after it was
  acknowledged, nor acknowledged while it is still to be sent.
\<close>

datatype byte_state = B_New | B_In_Flight | B_Acked

definition byte_state_at :: "quic_sstream \<Rightarrow> nat \<Rightarrow> byte_state" where
  "byte_state_at qss x =
     (if ossl_uint_set_query (ss_new_set qss) x then B_New
      else if ossl_uint_set_query (ss_acked_set qss) x then B_Acked
      else B_In_Flight)"

definition byte_states :: "quic_sstream \<Rightarrow> byte_state list" where
  "byte_states qss = map (byte_state_at qss) [0..<rb_head (ss_ring_buf qss)]"

datatype sstream_call =
    C_Append "u8 list"
  | C_Transmitted nat nat
  | C_Transmitted_Fin nat
  | C_Lost nat nat
  | C_Lost_Fin
  | C_Acked nat nat
  | C_Acked_Fin
  | C_Fin
  | C_Set_Buffer_Size nat
  | C_Set_Cleanse bool

fun do_call :: "bool \<Rightarrow> (nat \<Rightarrow> object) \<Rightarrow> sstream_call \<Rightarrow> quic_sstream \<Rightarrow> (bool \<times> nat \<times> quic_sstream) option" where
  "do_call mem malloc (C_Append buf) qss = ossl_quic_sstream_append mem qss buf"
| "do_call mem malloc (C_Transmitted a b) qss =
     map_option (\<lambda>(ok, q). (ok, 0, q)) (ossl_quic_sstream_mark_transmitted mem qss a b)"
| "do_call mem malloc (C_Transmitted_Fin n) qss =
     (let (ok, q) = ossl_quic_sstream_mark_transmitted_fin qss n in Some (ok, 0, q))"
| "do_call mem malloc (C_Lost a b) qss =
     (let (ok, q) = ossl_quic_sstream_mark_lost mem qss a b in Some (ok, 0, q))"
| "do_call mem malloc C_Lost_Fin qss =
     (let (ok, q) = ossl_quic_sstream_mark_lost_fin qss in Some (ok, 0, q))"
| "do_call mem malloc (C_Acked a b) qss =
     map_option (\<lambda>(ok, q). (ok, 0, q)) (ossl_quic_sstream_mark_acked mem qss a b)"
| "do_call mem malloc C_Acked_Fin qss =
     (let (ok, q) = ossl_quic_sstream_mark_acked_fin qss in Some (ok, 0, q))"
| "do_call mem malloc C_Fin qss = Some (True, 0, ossl_quic_sstream_fin qss)"
| "do_call mem malloc (C_Set_Buffer_Size n) qss =
     map_option (\<lambda>(ok, q). (ok, 0, q)) (ossl_quic_sstream_set_buffer_size malloc qss n)"
| "do_call mem malloc (C_Set_Cleanse b) qss = Some (True, 0, ossl_quic_sstream_set_cleanse qss b)"

fun call_ok :: "quic_sstream \<Rightarrow> sstream_call \<Rightarrow> bool" where
  "call_ok qss (C_Append buf) = (length buf < U64)"
| "call_ok qss (C_Transmitted a b) = (a \<le> b \<and> b < U64)"
| "call_ok qss (C_Lost a b) =
     (a \<le> b \<and> b < rb_head (ss_ring_buf qss) \<and> list_all (\<lambda>x. byte_state_at qss x \<noteq> B_Acked) [a..<Suc b])"
| "call_ok qss (C_Acked a b) =
     (a \<le> b \<and> b < rb_head (ss_ring_buf qss) \<and> list_all (\<lambda>x. byte_state_at qss x \<noteq> B_New) [a..<Suc b])"
| "call_ok qss _ = True"

fun call_bytes :: "sstream_call \<Rightarrow> u8 list" where
  "call_bytes (C_Append buf) = buf"
| "call_bytes _ = []"

text \<open>The effect of a successful call on the states of the bytes.\<close>

definition map_range :: "nat \<Rightarrow> nat \<Rightarrow> ('a \<Rightarrow> 'a) \<Rightarrow> 'a list \<Rightarrow> 'a list" where
  "map_range a b f xs = map (\<lambda>i. if a \<le> i \<and> i \<le> b then f (xs ! i) else xs ! i) [0..<length xs]"

fun abs_call :: "sstream_call \<Rightarrow> nat \<Rightarrow> byte_state list \<Rightarrow> byte_state list" where
  "abs_call (C_Append buf) consumed xs = xs @ replicate consumed B_New"
| "abs_call (C_Transmitted a b) consumed xs = map_range a b (\<lambda>s. if s = B_New then B_In_Flight else s) xs"
| "abs_call (C_Lost a b) consumed xs = map_range a b (\<lambda>_. B_New) xs"
| "abs_call (C_Acked a b) consumed xs = map_range a b (\<lambda>_. B_Acked) xs"
| "abs_call _ consumed xs = xs"

inductive sstream_reach :: "u8 list \<Rightarrow> quic_sstream \<Rightarrow> bool" where
  reach_new: "malloc_ok malloc \<Longrightarrow> ossl_quic_sstream_new mem malloc n = Some (Some qss) \<Longrightarrow> sstream_reach [] qss"
| reach_call: "sstream_reach sent qss \<Longrightarrow> malloc_ok malloc \<Longrightarrow> call_ok qss c \<Longrightarrow>
    do_call mem malloc c qss = Some (ok, consumed, qss') \<Longrightarrow>
    sstream_reach (sent @ take consumed (call_bytes c)) qss'"

inductive_cases sstream_reach_cases: "sstream_reach sent qss"

lemma byte_state_at_inv:
  assumes "sstream_inv sent qss"
  shows "byte_state_at qss x = (if x \<in> uint_set_elems (ss_new_set qss) then B_New
      else if x \<in> uint_set_elems (ss_acked_set qss) then B_Acked else B_In_Flight)"
  using assms by (simp add: byte_state_at_def sstream_inv_def us.query_elems)

lemma byte_states_eqI:
  assumes "length xs = rb_head (ss_ring_buf qss)" "\<And>i. i < length xs \<Longrightarrow> byte_state_at qss i = xs ! i"
  shows "byte_states qss = xs"
  using assms by (intro nth_equalityI) (simp_all add: byte_states_def)

lemma length_byte_states: "length (byte_states qss) = rb_head (ss_ring_buf qss)"
  by (simp add: byte_states_def)

lemma nth_byte_states: "i < rb_head (ss_ring_buf qss) \<Longrightarrow> byte_states qss ! i = byte_state_at qss i"
  by (simp add: byte_states_def)

lemma map_range_nth: "i < length xs \<Longrightarrow> map_range a b f xs ! i = (if a \<le> i \<and> i \<le> b then f (xs ! i) else xs ! i)"
  by (simp add: map_range_def)

lemma length_map_range [simp]: "length (map_range a b f xs) = length xs"
  by (simp add: map_range_def)

lemmas byte_states_simps = length_byte_states nth_byte_states map_range_nth

text \<open>One lemma per kind of call: it is defined, keeps the invariant and acts as \<open>abs_call\<close>.\<close>

definition call_refines :: "u8 list \<Rightarrow> sstream_call \<Rightarrow> quic_sstream \<Rightarrow> bool \<times> nat \<times> quic_sstream \<Rightarrow> bool" where
  "call_refines sent c qss = (\<lambda>(ok, consumed, qss').
     sstream_inv (sent @ take consumed (call_bytes c)) qss'
     \<and> byte_states qss' = (if ok then abs_call c consumed (byte_states qss) else byte_states qss))"

lemma inv_head: "sstream_inv sent qss \<Longrightarrow> rb_head (ss_ring_buf qss) = length sent"
  by (simp add: sstream_inv_def)

lemma inv_disjoint: "sstream_inv sent qss \<Longrightarrow> x \<in> uint_set_elems (ss_new_set qss) \<Longrightarrow> x \<notin> uint_set_elems (ss_acked_set qss)"
  by (auto simp: sstream_inv_def)

lemma inv_below:
  "sstream_inv sent qss \<Longrightarrow> x \<in> uint_set_elems (ss_new_set qss) \<Longrightarrow> x < length sent"
  "sstream_inv sent qss \<Longrightarrow> x \<in> uint_set_elems (ss_acked_set qss) \<Longrightarrow> x < length sent"
  by (auto simp: sstream_inv_def)

lemma inv_update:
  "sstream_inv sent (qss\<lparr>ss_have_final_size := f\<rparr>) = sstream_inv sent qss"
  "sstream_inv sent (qss\<lparr>ss_sent_final_size := f\<rparr>) = sstream_inv sent qss"
  "sstream_inv sent (qss\<lparr>ss_acked_final_size := f\<rparr>) = sstream_inv sent qss"
  "sstream_inv sent (qss\<lparr>ss_cleanse := f\<rparr>) = sstream_inv sent qss"
  by (simp_all add: sstream_inv_def)

lemma append_refines:
  assumes inv: "sstream_inv sent qss" and ok: "call_ok qss (C_Append buf)"
  shows "\<exists>r. do_call mem malloc (C_Append buf) qss = Some r \<and> call_refines sent (C_Append buf) qss r"
proof -
  obtain res n q where q: "ossl_quic_sstream_append mem qss buf = Some (res, n, q)"
    "sstream_inv (sent @ take n buf) q" "ss_acked_set q = ss_acked_set qss"
    "res \<longrightarrow> n \<le> length buf \<and> uint_set_elems (ss_new_set q) = uint_set_elems (ss_new_set qss) \<union> {length sent..<length sent + n}"
    "\<not> res \<longrightarrow> n = 0 \<and> ss_new_set q = ss_new_set qss"
    using sstream_append_inv [OF inv, of buf mem] ok by auto
  have new: "x \<in> uint_set_elems (ss_new_set q) \<longleftrightarrow>
      x \<in> uint_set_elems (ss_new_set qss) \<or> length sent \<le> x \<and> x < length sent + n" for x
    using q(4,5) by (cases res) auto
  have below: "\<not> (length sent \<le> x \<and> x < length sent + n)" if "x < length sent" for x using that by simp
  have "byte_states q = byte_states qss @ replicate n B_New"
    using q(4,5) inv_below [OF inv] inv_head [OF inv] inv_head [OF q(2)]
    by (intro byte_states_eqI)
      (auto simp: byte_states_simps byte_state_at_inv [OF inv] byte_state_at_inv [OF q(2)] nth_append new q(3))
  with q(1,2,5) show ?thesis by (cases res) (simp_all add: call_refines_def)
qed

lemma transmitted_refines:
  assumes inv: "sstream_inv sent qss" and ok: "call_ok qss (C_Transmitted a b)"
    and run: "do_call mem malloc (C_Transmitted a b) qss = Some r"
  shows "call_refines sent (C_Transmitted a b) qss r"
proof -
  obtain res q where r: "r = (res, 0, q)" "ossl_quic_sstream_mark_transmitted mem qss a b = Some (res, q)"
    using run by auto
  obtain s where q: "res" "sstream_inv sent q" "uint_set_elems s = uint_set_elems (ss_new_set qss) - {a..b}"
    "q = qss\<lparr>ss_new_set := s\<rparr>"
    using sstream_transmitted_inv [OF inv _ _ r(2)] ok by auto
  have new: "x \<in> uint_set_elems (ss_new_set q) \<longleftrightarrow> x \<in> uint_set_elems (ss_new_set qss) \<and> \<not> (a \<le> x \<and> x \<le> b)"
    and same: "ss_acked_set q = ss_acked_set qss" "ss_ring_buf q = ss_ring_buf qss" for x
    using q(3,4) by auto
  have "byte_states q = map_range a b (\<lambda>s. if s = B_New then B_In_Flight else s) (byte_states qss)"
    using inv_disjoint [OF inv]
    by (intro byte_states_eqI)
      (auto simp: byte_states_simps byte_state_at_inv [OF inv] byte_state_at_inv [OF q(2)] new same)
  with q(1,2) r show ?thesis by (simp add: call_refines_def)
qed

lemma call_range:
  assumes inv: "sstream_inv sent qss"
  shows "call_ok qss (C_Lost a b) \<Longrightarrow>
      a \<le> b \<and> b < length sent \<and> {a..b} \<inter> uint_set_elems (ss_acked_set qss) = {}"
    and "call_ok qss (C_Acked a b) \<Longrightarrow>
      a \<le> b \<and> b < length sent \<and> {a..b} \<inter> uint_set_elems (ss_new_set qss) = {}"
proof -
  assume ok: "call_ok qss (C_Lost a b)"
  have "x \<notin> uint_set_elems (ss_acked_set qss)" if "a \<le> x" "x \<le> b" for x
  proof -
    have "x \<in> set [a..<Suc b]" using that by auto
    with ok have "byte_state_at qss x \<noteq> B_Acked" unfolding call_ok.simps list_all_iff by blast
    with inv_disjoint [OF inv, of x] show ?thesis
      by (auto simp: byte_state_at_inv [OF inv] split: if_splits)
  qed
  with ok inv_head [OF inv] show "a \<le> b \<and> b < length sent \<and> {a..b} \<inter> uint_set_elems (ss_acked_set qss) = {}" by auto
next
  assume ok: "call_ok qss (C_Acked a b)"
  have "x \<notin> uint_set_elems (ss_new_set qss)" if "a \<le> x" "x \<le> b" for x
  proof -
    have "x \<in> set [a..<Suc b]" using that by auto
    with ok have "byte_state_at qss x \<noteq> B_New" unfolding call_ok.simps list_all_iff by blast
    then show ?thesis by (auto simp: byte_state_at_inv [OF inv] split: if_splits)
  qed
  with ok inv_head [OF inv] show "a \<le> b \<and> b < length sent \<and> {a..b} \<inter> uint_set_elems (ss_new_set qss) = {}" by auto
qed

lemma lost_refines:
  assumes inv: "sstream_inv sent qss" and ok: "call_ok qss (C_Lost a b)"
  shows "\<exists>r. do_call mem malloc (C_Lost a b) qss = Some r \<and> call_refines sent (C_Lost a b) qss r"
proof -
  obtain res q where run: "ossl_quic_sstream_mark_lost mem qss a b = (res, q)" by fastforce
  then have same: "ss_acked_set q = ss_acked_set qss" "ss_ring_buf q = ss_ring_buf qss"
    by (auto simp: ossl_quic_sstream_mark_lost_def split: prod.splits)
  have ab: "a \<le> b" "b < length sent" "{a..b} \<inter> uint_set_elems (ss_acked_set qss) = {}"
    using call_range(1) [OF inv ok] by auto
  from sstream_lost_inv [OF inv ab run] have q: "sstream_inv sent q"
    "res \<longrightarrow> uint_set_elems (ss_new_set q) = uint_set_elems (ss_new_set qss) \<union> {a..b}" "\<not> res \<longrightarrow> q = qss" by auto
  show ?thesis
  proof (cases res)
    case True
    then have new: "x \<in> uint_set_elems (ss_new_set q) \<longleftrightarrow> x \<in> uint_set_elems (ss_new_set qss) \<or> (a \<le> x \<and> x \<le> b)" for x
      using q(2) by auto
    have "byte_states q = map_range a b (\<lambda>_. B_New) (byte_states qss)"
      by (intro byte_states_eqI)
        (auto simp: byte_states_simps byte_state_at_inv [OF inv] byte_state_at_inv [OF q(1)] new same)
    with q(1) run True show ?thesis by (simp add: call_refines_def)
  next
    case False
    with q run inv show ?thesis by (simp add: call_refines_def)
  qed
qed

lemma acked_refines:
  assumes inv: "sstream_inv sent qss" and ok: "call_ok qss (C_Acked a b)"
  shows "\<exists>r. do_call mem malloc (C_Acked a b) qss = Some r \<and> call_refines sent (C_Acked a b) qss r"
proof -
  have ab: "a \<le> b" "b < length sent" "{a..b} \<inter> uint_set_elems (ss_new_set qss) = {}"
    using call_range(2) [OF inv ok] by auto
  obtain res q where q: "ossl_quic_sstream_mark_acked mem qss a b = Some (res, q)" "sstream_inv sent q"
    "ss_new_set q = ss_new_set qss"
    "res \<longrightarrow> uint_set_elems (ss_acked_set q) = uint_set_elems (ss_acked_set qss) \<union> {a..b}" "\<not> res \<longrightarrow> q = qss"
    using sstream_acked_inv [OF inv ab, of mem] by blast
  show ?thesis
  proof (cases res)
    case True
    then have acked: "x \<in> uint_set_elems (ss_acked_set q) \<longleftrightarrow> x \<in> uint_set_elems (ss_acked_set qss) \<or> (a \<le> x \<and> x \<le> b)" for x
      using q(4) by auto
    have new: "x \<notin> uint_set_elems (ss_new_set qss)" if "a \<le> x" "x \<le> b" for x using ab(3) that by auto
    have "byte_states q = map_range a b (\<lambda>_. B_Acked) (byte_states qss)"
      using inv_head [OF inv] inv_head [OF q(2)]
      by (intro byte_states_eqI)
        (auto simp: byte_states_simps byte_state_at_inv [OF inv] byte_state_at_inv [OF q(2)] acked q(3) new)
    with q(1,2) True show ?thesis by (simp add: call_refines_def)
  next
    case False
    with q inv show ?thesis by (simp add: call_refines_def)
  qed
qed

lemma set_buffer_size_refines:
  assumes inv: "sstream_inv sent qss" and m: "malloc_ok malloc"
  shows "\<exists>r. do_call mem malloc (C_Set_Buffer_Size n) qss = Some r \<and> call_refines sent (C_Set_Buffer_Size n) qss r"
proof -
  obtain res q rb where q: "ossl_quic_sstream_set_buffer_size malloc qss n = Some (res, q)" "sstream_inv sent q"
    "q = qss\<lparr>ss_ring_buf := rb\<rparr>"
    using sstream_set_buffer_size_inv [OF inv m, of n] by blast
  have "byte_states q = byte_states qss"
    using q(3) inv_head [OF inv] inv_head [OF q(2)] by (simp add: byte_states_def byte_state_at_def)
  with q show ?thesis by (simp add: call_refines_def)
qed

text \<open>Every call the callers may make is defined, except that cutting a range in two needs memory.\<close>

lemma do_call_defined:
  assumes "sstream_inv sent qss" "malloc_ok malloc" "call_ok qss c"
  shows "do_call mem malloc c qss = None \<Longrightarrow> \<not> mem \<and> (\<exists>a b. c = C_Transmitted a b)"
proof (cases c)
  case (C_Append buf)
  then show "do_call mem malloc c qss = None \<Longrightarrow> ?thesis" using append_refines [OF assms(1), of buf mem malloc] assms(3) by auto
next
  case (C_Transmitted a b)
  moreover have "uint_set_gap 0 (ss_new_set qss)" using assms(1) by (simp add: sstream_inv_def uint_set_wf_gap)
  moreover have "range_wf (urange a b)" using assms(3) C_Transmitted by (simp add: range_wf_def)
  ultimately show "do_call mem malloc c qss = None \<Longrightarrow> ?thesis"
    using uint_set_remove_spec [of 0 "ss_new_set qss" "urange a b" mem]
    by (auto simp: ossl_quic_sstream_mark_transmitted_def split: option.splits Option.bind_splits)
next
  case (C_Lost a b)
  then show "do_call mem malloc c qss = None \<Longrightarrow> ?thesis" using lost_refines [OF assms(1), of a b mem malloc] assms(3) by auto
next
  case (C_Acked a b)
  then show "do_call mem malloc c qss = None \<Longrightarrow> ?thesis" using acked_refines [OF assms(1), of a b mem malloc] assms(3) by auto
next
  case (C_Set_Buffer_Size n)
  then show "do_call mem malloc c qss = None \<Longrightarrow> ?thesis"
    using set_buffer_size_refines [OF assms(1,2), of mem n] by auto
qed (simp_all split: prod.splits)

lemma do_call_refines:
  assumes "sstream_inv sent qss" "malloc_ok malloc" "call_ok qss c" "do_call mem malloc c qss = Some r"
  shows "call_refines sent c qss r"
proof (cases c)
  case (C_Append buf)
  then show ?thesis using append_refines [OF assms(1), of buf mem malloc] assms(3,4) by auto
next
  case (C_Transmitted a b)
  then show ?thesis using transmitted_refines [OF assms(1)] assms(3,4) by blast
next
  case (C_Lost a b)
  then show ?thesis using lost_refines [OF assms(1), of a b mem malloc] assms(3,4) by auto
next
  case (C_Acked a b)
  then show ?thesis using acked_refines [OF assms(1), of a b mem malloc] assms(3,4) by auto
next
  case (C_Set_Buffer_Size n)
  then show ?thesis using set_buffer_size_refines [OF assms(1,2), of mem n] assms(4) by auto
qed (use assms(1,4) in \<open>auto simp: call_refines_def inv_update ossl_quic_sstream_mark_transmitted_fin_def
  ossl_quic_sstream_mark_lost_fin_def ossl_quic_sstream_mark_acked_fin_def ossl_quic_sstream_fin_def
  ossl_quic_sstream_set_cleanse_def byte_states_def byte_state_at_def split: if_splits\<close>)

lemma sstream_reach_inv: "sstream_reach sent qss \<Longrightarrow> sstream_inv sent qss"
proof (induction rule: sstream_reach.induct)
  case (reach_new malloc mem n qss)
  then show ?case using sstream_new_inv [of malloc mem n] by auto
next
  case (reach_call sent qss malloc c mem ok consumed qss')
  from do_call_refines [OF reach_call.IH reach_call.hyps(2-4)] show ?case by (simp add: call_refines_def)
qed

lemma inv_byte:
  assumes inv: "sstream_inv sent qss" and x: "x < length sent" "x \<notin> uint_set_elems (ss_acked_set qss)"
  shows "rb_ctail (ss_ring_buf qss) \<le> x \<and> rb_byte (ss_ring_buf qss) x = sent ! x"
proof -
  let ?rb = "ss_ring_buf qss"
  have i: "culled_acked (rb_ctail ?rb) (ss_acked_set qss)" "rb_head ?rb = length sent"
    "ring_buf_data ?rb = drop (rb_ctail ?rb) sent" using inv by (simp_all add: sstream_inv_def)
  have c: "rb_ctail ?rb \<le> x" using culled_acked_elems [OF i(1)] x(2) by (meson leI lessThan_iff subsetD)
  have "ring_buf_data ?rb ! (x - rb_ctail ?rb) = rb_byte ?rb x"
    using c x(1) i(2) by (simp add: ring_buf_data_def)
  with c x(1) i(3) show ?thesis by simp
qed

lemma inv_new_range:
  assumes inv: "sstream_inv sent qss" and r: "rng \<in> set (ss_new_set qss)"
  shows "rb_ctail (ss_ring_buf qss) \<le> ur_start rng" "ur_start rng \<le> ur_end rng" "ur_end rng < length sent"
    and "map (rb_byte (ss_ring_buf qss)) [ur_start rng..<ur_end rng + 1] = take (ur_end rng + 1 - ur_start rng) (drop (ur_start rng) sent)"
proof -
  show se: "ur_start rng \<le> ur_end rng"
    using inv r uint_set_wf_range by (auto simp: sstream_inv_def)
  have el: "x \<in> uint_set_elems (ss_new_set qss)" if "ur_start rng \<le> x" "x \<le> ur_end rng" for x
    using r that by (auto simp: uint_set_elems_def)
  show e: "ur_end rng < length sent" using inv_below(1) [OF inv el [OF se order_refl]] .
  have byte: "rb_ctail (ss_ring_buf qss) \<le> x \<and> rb_byte (ss_ring_buf qss) x = sent ! x"
    if "ur_start rng \<le> x" "x \<le> ur_end rng" for x
    using inv_byte [OF inv _ inv_disjoint [OF inv el [OF that]]] that e by simp
  from byte [OF order_refl se] show "rb_ctail (ss_ring_buf qss) \<le> ur_start rng" by simp
  show "map (rb_byte (ss_ring_buf qss)) [ur_start rng..<ur_end rng + 1] = take (ur_end rng + 1 - ur_start rng) (drop (ur_start rng) sent)"
    using byte e se by (intro nth_equalityI) auto
qed

lemma get_stream_frame_inv:
  assumes inv: "sstream_inv sent qss" and skip: "skip < length (ss_new_set qss)" and "2 \<le> num_iov"
  defines "rng \<equiv> ss_new_set qss ! skip"
  defines "len \<equiv> ur_end rng + 1 - ur_start rng"
  shows "\<exists>iov. ossl_quic_sstream_get_stream_frame qss skip num_iov =
      Some (Some (\<lparr>sh_offset = ur_start rng, sh_len = len,
        sh_is_fin = (ss_have_final_size qss \<and> ur_end rng + 1 = length sent)\<rparr>, iov))
    \<and> length iov \<le> 2 \<and> sum_list (map iov_len iov) = len
    \<and> iov_data (ss_ring_buf qss) iov = Some (take len (drop (ur_start rng) sent))"
proof -
  have "rng \<in> set (ss_new_set qss)" using skip by (simp add: rng_def)
  note r = inv_new_range [OF inv this]
  have len: "0 < len" "ur_start rng + len = ur_end rng + 1" using r(2) by (auto simp: len_def)
  have u: "u64_add (u64_sub (ur_end rng) (ur_start rng)) 1 = len" "u64_add (ur_start rng) len = ur_end rng + 1"
    using r(2,3) sstream_inv_ring [OF inv] len by (simp_all add: u64_sub_exact u64_add_exact len_def)
  have wf: "ring_buf_wf (ss_ring_buf qss)" "rb_head (ss_ring_buf qss) = length sent"
    using inv by (simp_all add: sstream_inv_def)
  obtain iov where iov: "get_stream_frame_loop (ss_ring_buf qss) (ur_start rng) len num_iov 0 [] = Some (Some (len, iov))"
    "length iov \<le> 2" "sum_list (map iov_len iov) = len"
    "iov_data (ss_ring_buf qss) iov = Some (map (rb_byte (ss_ring_buf qss)) [ur_start rng..<ur_start rng + len])"
    using get_stream_frame_loop_spec [OF wf(1) r(1), of len num_iov] len r(3) wf(2) assms(3) by auto
  have "drop skip (ss_new_set qss) = rng # drop (Suc skip) (ss_new_set qss)"
    using skip by (simp add: rng_def Cons_nth_drop_Suc)
  then have "ossl_quic_sstream_get_stream_frame qss skip num_iov =
      Some (Some (\<lparr>sh_offset = ur_start rng, sh_len = len,
        sh_is_fin = (ss_have_final_size qss \<and> ur_end rng + 1 = length sent)\<rparr>, iov))"
    using assms(3) iov(1) by (simp add: ossl_quic_sstream_get_stream_frame_def u wf(2))
  with iov r(4) len(2) show ?thesis by (simp add: len_def)
qed

lemma is_totally_acked_inv:
  assumes inv: "sstream_inv sent qss"
  shows "ossl_quic_sstream_is_totally_acked qss \<Longrightarrow> {..<length sent} = uint_set_elems (ss_acked_set qss)"
    and "uint_set_strict (ss_acked_set qss) \<Longrightarrow> {..<length sent} = uint_set_elems (ss_acked_set qss) \<Longrightarrow>
      (ss_have_final_size qss \<longrightarrow> ss_acked_final_size qss) \<Longrightarrow> ossl_quic_sstream_is_totally_acked qss"
proof -
  have head: "rb_head (ss_ring_buf qss) = length sent" "length sent \<le> MAX_OFFSET"
    using inv_head [OF inv] sstream_inv_ring [OF inv] by simp_all
  have acked: "uint_set_elems (ss_acked_set qss) \<subseteq> {..<length sent}" using inv by (simp add: sstream_inv_def)
  have suc: "u64_add (ur_end r) 1 = ur_end r + 1" if "ss_acked_set qss = [r]" for r
    using that acked head(2) inv
    by (intro u64_add_exact) (auto simp: sstream_inv_def uint_set_wf_Cons range_wf_def)
  show "{..<length sent} = uint_set_elems (ss_acked_set qss)" if "ossl_quic_sstream_is_totally_acked qss"
    using that suc head acked
    by (auto simp: ossl_quic_sstream_is_totally_acked_def ossl_quic_sstream_get_cur_size_def split: list.splits if_splits)
  assume strict: "uint_set_strict (ss_acked_set qss)" and all: "{..<length sent} = uint_set_elems (ss_acked_set qss)"
    and fin: "ss_have_final_size qss \<longrightarrow> ss_acked_final_size qss"
  show "ossl_quic_sstream_is_totally_acked qss"
  proof (cases "length sent = 0")
    case True
    with fin head show ?thesis
      by (simp add: ossl_quic_sstream_is_totally_acked_def ossl_quic_sstream_get_cur_size_def)
  next
    case False
    then have "0 \<in> uint_set_elems (ss_acked_set qss)" using all by auto
    then obtain r rs where rs: "ss_acked_set qss = r # rs" by (cases "ss_acked_set qss") auto
    have wf: "range_wf r" "uint_set_strict rs" "\<forall>y\<in>set rs. ur_end r + 1 < ur_start y"
      using strict by (simp_all add: rs uint_set_strict_Cons)
    have start: "ur_start r = 0"
      using \<open>0 \<in> uint_set_elems (ss_acked_set qss)\<close> wf(3) by (auto simp: rs uint_set_elems_def)
    have "ur_end r + 1 \<notin> uint_set_elems (ss_acked_set qss)"
      using wf(3) by (fastforce simp: rs uint_set_elems_def)
    moreover have "ur_end r \<in> uint_set_elems (ss_acked_set qss)" using wf(1) by (simp add: rs range_wf_def)
    ultimately have e: "ur_end r + 1 = length sent" by (auto simp: all [symmetric])
    have "rs = []"
    proof (rule ccontr)
      assume "rs \<noteq> []"
      then obtain y ys where y: "rs = y # ys" by (cases rs) auto
      have "ur_start y \<in> uint_set_elems (ss_acked_set qss)" "ur_end r + 1 < ur_start y"
        using wf by (auto simp: rs y uint_set_strict_Cons range_wf_def)
      then show False unfolding all [symmetric] e [symmetric] by simp
    qed
    with start e fin head suc rs False show ?thesis
      by (simp add: ossl_quic_sstream_is_totally_acked_def ossl_quic_sstream_get_cur_size_def)
  qed
qed

lemma adjust_iov_loop_data:
  assumes "iov_data rb iov = Some bs" "running + length bs < U64" "running + length bs \<le> M" 
  shows "iov_data rb (adjust_iov_loop len running iov) = Some (take (len - running) bs)"
  using assms
proof (induction iov arbitrary: running bs)
  case (Cons v iov)
  obtain b1 b2 where b: "mem_read (rb_start rb) (iov_buf v) (iov_len v) = Some b1" "iov_data rb iov = Some b2" "bs = b1 @ b2"
    using Cons.prems(1) by (auto simp: Option.bind_eq_Some_conv)
  have l: "length b1 = iov_len v" using length_mem_read [OF b(1)] .
  have add: "u64_add running (iov_len v) = running + iov_len v" using Cons.prems(2) b(3) l by (simp add: u64_add_exact)
  have IH: "iov_data rb (adjust_iov_loop len (running + iov_len v) iov) = Some (take (len - (running + iov_len v)) b2)"
    using Cons.IH [OF b(2), of "running + iov_len v"] Cons.prems(2,3) b(3) l by simp
  have z: "mem_read ob off 0 = Some []" for ob off by (simp add: mem_read_def)
  show ?case
    using IH mem_read_prefix [OF b(1), of "len - running"] b(1,3) l by (auto simp: add z)
qed simp

section \<open>Properties\<close>

definition example_malloc :: "nat \<Rightarrow> object" where
  "example_malloc n = (if n = 0 \<or> n > 100 then None else Some (replicate n 0))"

lemma example_malloc_ok: "malloc_ok example_malloc"
  by (simp add: malloc_ok_def example_malloc_def)

text \<open>A stream with a buffer of four bytes on which a list of calls is made.\<close>

fun run_calls :: "sstream_call list \<Rightarrow> quic_sstream \<Rightarrow> quic_sstream option" where
  "run_calls [] qss = Some qss"
| "run_calls (c # cs) qss =
     (if call_ok qss c then
        case do_call True example_malloc c qss of None \<Rightarrow> None | Some (ok, n, qss') \<Rightarrow> run_calls cs qss'
      else None)"

definition example_stream :: "sstream_call list \<Rightarrow> quic_sstream option" where
  "example_stream cs =
     (case ossl_quic_sstream_new True example_malloc 4 of Some (Some qss) \<Rightarrow> run_calls cs qss | _ \<Rightarrow> None)"

lemma run_calls_reach: "sstream_reach sent qss \<Longrightarrow> run_calls cs qss = Some qss' \<Longrightarrow> \<exists>sent'. sstream_reach sent' qss'"
proof (induction cs arbitrary: sent qss)
  case (Cons c cs)
  then obtain ok n q where "call_ok qss c" "do_call True example_malloc c qss = Some (ok, n, q)" "run_calls cs q = Some qss'"
    by (auto split: if_splits option.splits)
  with Cons.IH reach_call [OF Cons.prems(1) example_malloc_ok] show ?case by metis
qed auto

lemma example_stream_reach: "example_stream cs = Some qss \<Longrightarrow> \<exists>sent. sstream_reach sent qss"
  using run_calls_reach [OF reach_new [OF example_malloc_ok, of True 4]]
  by (simp add: example_stream_def split: option.splits)

definition example_calls :: "sstream_call list" where
  "example_calls = [C_Append [1, 2, 3, 4, 5], C_Transmitted 0 3, C_Acked 0 1, C_Append [5, 6], C_Lost 3 3]"

text \<open>
  C2. The send stream refines the state machine over bytes that its documentation describes: in
  every reachable state, a successful call changes the list of byte states exactly as the abstract
  call does (append adds bytes to be sent, transmission moves them in flight, loss makes them
  sendable again, an acknowledgement is final), and a failing call leaves it unchanged.
\<close>

theorem sstream_refines_byte_states:
  assumes "sstream_reach sent qss" "malloc_ok malloc" "call_ok qss c"
    and "do_call mem malloc c qss = Some (ok, consumed, qss')"
  shows "byte_states qss' = (if ok then abs_call c consumed (byte_states qss) else byte_states qss)"
  using do_call_refines [OF sstream_reach_inv [OF assms(1)] assms(2-4)] by (simp add: call_refines_def)

theorem sstream_refines_byte_states_witness:
  "\<exists>qss qss'. example_stream example_calls = Some qss
     \<and> do_call True example_malloc (C_Transmitted 3 4) qss = Some (True, 0, qss')
     \<and> byte_states qss = [B_Acked, B_Acked, B_In_Flight, B_New, B_New, B_New]
     \<and> byte_states qss' = [B_Acked, B_Acked, B_In_Flight, B_In_Flight, B_In_Flight, B_New]"
proof -
  have ev: "map_option (\<lambda>qss. (byte_states qss, call_ok qss (C_Transmitted 3 4),
        map_option (\<lambda>(ok, n, q). (ok, n)) (do_call True example_malloc (C_Transmitted 3 4) qss))) (example_stream example_calls)
      = Some ([B_Acked, B_Acked, B_In_Flight, B_New, B_New, B_New], True, Some (True, 0))"
    by code_simp
  then obtain qss qss' where q: "example_stream example_calls = Some qss"
      "byte_states qss = [B_Acked, B_Acked, B_In_Flight, B_New, B_New, B_New]" "call_ok qss (C_Transmitted 3 4)"
      "do_call True example_malloc (C_Transmitted 3 4) qss = Some (True, 0, qss')"
    by (auto simp del: do_call.simps call_ok.simps)
  obtain sent where "sstream_reach sent qss" using example_stream_reach [OF q(1)] by blast
  from sstream_refines_byte_states [OF this example_malloc_ok q(3,4)]
  have "byte_states qss' = abs_call (C_Transmitted 3 4) 0 (byte_states qss)" by simp
  also have "\<dots> = [B_Acked, B_Acked, B_In_Flight, B_In_Flight, B_In_Flight, B_New]"
    unfolding q(2) by code_simp
  finally show ?thesis using q by blast
qed

text \<open>
  C7. No data is lost: in every reachable state the stream size is the number of bytes accepted,
  no byte is both to be sent and acknowledged, and every byte not yet acknowledged is still in the
  ring buffer with the value it was appended with.
\<close>

theorem sstream_retains_unacked:
  assumes "sstream_reach sent qss"
  shows "ossl_quic_sstream_get_cur_size qss = length sent
    \<and> \<not> (ossl_uint_set_query (ss_new_set qss) x \<and> ossl_uint_set_query (ss_acked_set qss) x)
    \<and> (x < length sent \<and> byte_state_at qss x \<noteq> B_Acked \<longrightarrow>
         rb_ctail (ss_ring_buf qss) \<le> x \<and> x < rb_head (ss_ring_buf qss) \<and> rb_byte (ss_ring_buf qss) x = sent ! x)"
proof -
  note inv = sstream_reach_inv [OF assms]
  have "x \<notin> uint_set_elems (ss_acked_set qss)" if "byte_state_at qss x \<noteq> B_Acked"
    using that inv_disjoint [OF inv, of x] by (auto simp: byte_state_at_inv [OF inv] split: if_splits)
  then show ?thesis
    using inv_byte [OF inv, of x] inv_disjoint [OF inv, of x] inv
    by (auto simp: ossl_quic_sstream_get_cur_size_def sstream_inv_def us.query_elems)
qed

theorem sstream_retains_unacked_witness:
  "\<exists>qss. example_stream example_calls = Some qss \<and> rb_ctail (ss_ring_buf qss) \<le> 2
     \<and> \<not> (ossl_uint_set_query (ss_new_set qss) 2 \<and> ossl_uint_set_query (ss_acked_set qss) 2)"
proof -
  have "map_option (\<lambda>qss. (byte_state_at qss 2, ossl_quic_sstream_get_cur_size qss)) (example_stream example_calls)
      = Some (B_In_Flight, 6)" by code_simp
  then obtain qss where q: "example_stream example_calls = Some qss" "byte_state_at qss 2 = B_In_Flight"
    "ossl_quic_sstream_get_cur_size qss = 6" by auto
  obtain sent where "sstream_reach sent qss" using example_stream_reach [OF q(1)] by blast
  from sstream_retains_unacked [OF this, of 2] q show ?thesis by auto
qed

text \<open>
  C19. The frame returned for a range to be sent never needs more than two entries, never fails on
  a reachable stream, and its entries read together are exactly the accepted bytes of the range;
  the FIN flag is set exactly when the frame ends a finished stream.
\<close>

theorem sstream_frame_content:
  assumes "sstream_reach sent qss" "skip < length (ss_new_set qss)" "2 \<le> num_iov"
  shows "\<exists>hdr iov. ossl_quic_sstream_get_stream_frame qss skip num_iov = Some (Some (hdr, iov))
    \<and> sh_offset hdr = ur_start (ss_new_set qss ! skip)
    \<and> sh_offset hdr + sh_len hdr = ur_end (ss_new_set qss ! skip) + 1
    \<and> (sh_is_fin hdr \<longleftrightarrow> ss_have_final_size qss \<and> sh_offset hdr + sh_len hdr = length sent)
    \<and> length iov \<le> 2 \<and> sum_list (map iov_len iov) = sh_len hdr
    \<and> iov_data (ss_ring_buf qss) iov = Some (take (sh_len hdr) (drop (sh_offset hdr) sent))"
proof -
  note inv = sstream_reach_inv [OF assms(1)]
  have "ss_new_set qss ! skip \<in> set (ss_new_set qss)" using assms(2) by simp
  note r = inv_new_range [OF inv this]
  from get_stream_frame_inv [OF inv assms(2,3)] r(2) show ?thesis by fastforce
qed

theorem sstream_frame_content_witness:
  "\<exists>qss hdr iov. example_stream example_calls = Some qss
     \<and> ossl_quic_sstream_get_stream_frame qss 0 2 = Some (Some (hdr, iov))
     \<and> sh_offset hdr = 3 \<and> sh_len hdr = 3 \<and> length iov \<le> 2 \<and> \<not> sh_is_fin hdr"
proof -
  have "map_option (\<lambda>qss. (ss_new_set qss, ss_have_final_size qss)) (example_stream example_calls)
      = Some ([urange 3 5], False)" by code_simp
  then obtain qss where q: "example_stream example_calls = Some qss" "ss_new_set qss = [urange 3 5]"
    "\<not> ss_have_final_size qss" by auto
  obtain sent where "sstream_reach sent qss" using example_stream_reach [OF q(1)] by blast
  from sstream_frame_content [OF this, of 0 2] q
  obtain hdr iov where "ossl_quic_sstream_get_stream_frame qss 0 2 = Some (Some (hdr, iov))" "length iov \<le> 2"
    "sh_offset hdr = 3" "sh_offset hdr + sh_len hdr = 5 + 1" "\<not> sh_is_fin hdr" by auto
  with q(1) show ?thesis by auto
qed

text \<open>
  C20. On a reachable stream no call of the callers has undefined behaviour, whatever the allocator
  does, with one exception: marking bytes transmitted can dereference a null pointer when a range
  has to be cut in two and no memory is left.
\<close>

theorem sstream_calls_defined:
  assumes "sstream_reach sent qss" "malloc_ok malloc" "call_ok qss c"
    and "mem \<or> (\<forall>a b. c \<noteq> C_Transmitted a b)"
  shows "do_call mem malloc c qss \<noteq> None"
  using do_call_defined [OF sstream_reach_inv [OF assms(1)] assms(2,3), of mem] assms(4) by blast

theorem sstream_calls_defined_witness:
  "\<exists>qss. example_stream example_calls = Some qss \<and> do_call False example_malloc (C_Acked 2 2) qss \<noteq> None
     \<and> do_call False example_malloc (C_Transmitted 4 4) qss = None"
proof -
  have "map_option (\<lambda>qss. (call_ok qss (C_Acked 2 2), do_call False example_malloc (C_Transmitted 4 4) qss)) (example_stream example_calls)
      = Some (True, None)" by code_simp
  then obtain qss where q: "example_stream example_calls = Some qss" "call_ok qss (C_Acked 2 2)"
    "do_call False example_malloc (C_Transmitted 4 4) qss = None" by (auto simp del: do_call.simps call_ok.simps)
  obtain sent where "sstream_reach sent qss" using example_stream_reach [OF q(1)] by blast
  from sstream_calls_defined [OF this example_malloc_ok q(2), of False] q show ?thesis by blast
qed

text \<open>
  C21. The test for a fully acknowledged stream is sound: when it succeeds every byte (and the FIN of
  a finished stream) is acknowledged.  It is complete only while no two acknowledged ranges border.
\<close>

theorem sstream_totally_acked:
  assumes "sstream_reach sent qss"
  shows "(ossl_quic_sstream_is_totally_acked qss \<longrightarrow>
            list_all (\<lambda>s. s = B_Acked) (byte_states qss) \<and> (ss_have_final_size qss \<longrightarrow> ss_acked_final_size qss))
    \<and> (uint_set_strict (ss_acked_set qss) \<and> list_all (\<lambda>s. s = B_Acked) (byte_states qss)
         \<and> (ss_have_final_size qss \<longrightarrow> ss_acked_final_size qss) \<longrightarrow> ossl_quic_sstream_is_totally_acked qss)"
proof -
  note inv = sstream_reach_inv [OF assms]
  have all: "list_all (\<lambda>s. s = B_Acked) (byte_states qss) \<longleftrightarrow> {..<length sent} = uint_set_elems (ss_acked_set qss)"
  proof -
    have "byte_state_at qss x = B_Acked \<longleftrightarrow> x \<in> uint_set_elems (ss_acked_set qss)" for x
      using inv_disjoint [OF inv, of x] by (auto simp: byte_state_at_inv [OF inv])
    then have "list_all (\<lambda>s. s = B_Acked) (byte_states qss) \<longleftrightarrow> {..<length sent} \<subseteq> uint_set_elems (ss_acked_set qss)"
      using inv_head [OF inv] by (auto simp: byte_states_def list_all_iff)
    moreover have "uint_set_elems (ss_acked_set qss) \<subseteq> {..<length sent}" using inv_below(2) [OF inv] by auto
    ultimately show ?thesis by (metis order_antisym order_refl)
  qed
  have "ossl_quic_sstream_is_totally_acked qss \<longrightarrow> (ss_have_final_size qss \<longrightarrow> ss_acked_final_size qss)"
    by (auto simp: ossl_quic_sstream_is_totally_acked_def)
  with is_totally_acked_inv [OF inv] show ?thesis by (simp add: all)
qed

theorem sstream_totally_acked_witness:
  "\<exists>qss. example_stream [C_Append [1, 2, 3], C_Transmitted 0 2, C_Acked 0 2] = Some qss
     \<and> ossl_quic_sstream_is_totally_acked qss"
proof -
  have "map_option (\<lambda>qss. (uint_set_strict (ss_acked_set qss), byte_states qss, ss_have_final_size qss))
      (example_stream [C_Append [1, 2, 3], C_Transmitted 0 2, C_Acked 0 2])
    = Some (True, [B_Acked, B_Acked, B_Acked], False)" by code_simp
  then obtain qss where q: "example_stream [C_Append [1, 2, 3], C_Transmitted 0 2, C_Acked 0 2] = Some qss"
    "uint_set_strict (ss_acked_set qss)" "byte_states qss = [B_Acked, B_Acked, B_Acked]" "\<not> ss_have_final_size qss" by auto
  obtain sent where "sstream_reach sent qss" using example_stream_reach [OF q(1)] by blast
  from sstream_totally_acked [OF this] q show ?thesis by auto
qed

text \<open>
  A stream all of whose bytes are acknowledged can be reported as not fully acknowledged, and its
  buffer space is then not recycled: acknowledgements that arrive as the ranges 0-1, 3-3 and 2-3
  leave two bordering ranges.
\<close>

theorem sstream_acked_not_detected:
  "map_option (\<lambda>qss. (byte_states qss, ss_acked_set qss, ossl_quic_sstream_is_totally_acked qss,
       ossl_quic_sstream_get_buffer_used qss))
     (example_stream [C_Append [1, 2, 3, 4], C_Transmitted 0 3, C_Acked 0 1, C_Acked 3 3, C_Acked 2 3])
   = Some ([B_Acked, B_Acked, B_Acked, B_Acked], [urange 0 1, urange 2 3], False, 2)"
  by code_simp

text \<open>
  Adjusting the entries of a frame to a shorter length leaves entries that read together are
  the first bytes of what they read before.
\<close>

theorem sstream_adjust_iov_prefix:
  assumes "iov_data rb iov = Some bs" "length bs < U64"
  shows "iov_data rb (ossl_quic_sstream_adjust_iov len iov) = Some (take len bs)"
  using adjust_iov_loop_data [OF assms(1), of 0 "length bs" len] assms(2)
  by (simp add: ossl_quic_sstream_adjust_iov_def)

theorem sstream_adjust_iov_prefix_witness:
  "iov_data example_ring (ossl_quic_sstream_adjust_iov 2 [mk_iov 3 1, mk_iov 0 2]) = Some [4, 5]"
proof -
  have "iov_data example_ring [mk_iov 3 1, mk_iov 0 2] = Some [4, 5, 6]" by code_simp
  from sstream_adjust_iov_prefix [OF this, of 2] show ?thesis by (simp add: take_Cons')
qed

end
