(* ===== verification/Buf_Mem.thy ===== *)
theory Buf_Mem
  imports Ossl_Prelude
begin

text \<open>
  The growable byte buffer \<open>BUF_MEM\<close> of \<open>crypto/buffer/buffer.c\<close>, with the reallocation functions of
  \<open>crypto/mem.c\<close> it calls (their default implementation, without custom allocators).

  \<open>data\<close> is the whole allocation, of size \<open>max\<close>; \<open>length\<close> of its bytes are in use.
\<close>

section \<open>Reallocation\<close>

text \<open>\<open>realloc\<close> of the C library: a new block with the old contents up to the smaller size.\<close>

definition CRYPTO_realloc :: "(nat \<Rightarrow> object) \<Rightarrow> object \<Rightarrow> nat \<Rightarrow> object" where
  "CRYPTO_realloc malloc str num =
     (case str of
        None \<Rightarrow> malloc num
      | Some old \<Rightarrow>
          if num = 0 then None
          else map_option (\<lambda>new. take num old @ drop (length old) new) (malloc num))"

definition CRYPTO_clear_realloc :: "(nat \<Rightarrow> object) \<Rightarrow> object \<Rightarrow> nat \<Rightarrow> nat \<Rightarrow> object option" where
  "CRYPTO_clear_realloc malloc str old_len num =
     (case str of
        None \<Rightarrow> Some (malloc num)
      | Some old \<Rightarrow>
          if num = 0 then Some None
          else if num < old_len
          then map_option Some (mem_write old num (replicate (old_len - num) 0))
          else case malloc num of
              None \<Rightarrow> Some None
            | Some ret \<Rightarrow> do {
                bs \<leftarrow> mem_read (Some old) 0 old_len;
                ret \<leftarrow> mem_write ret 0 bs;
                Some (Some ret) })"

section \<open>The buffer\<close>

record BUF_MEM =
  bm_length :: nat
  bm_data :: object
  bm_max :: nat
  bm_secure :: bool

definition LIMIT_BEFORE_EXPANSION :: nat where
  "LIMIT_BEFORE_EXPANSION = 0x5ffffffc"

definition BUF_MEM_new :: "bool \<Rightarrow> BUF_MEM option" where
  "BUF_MEM_new mem =
     (if \<not> mem then None
      else Some \<lparr>bm_length = 0, bm_data = None, bm_max = 0, bm_secure = False\<rparr>)"

definition BUF_MEM_new_ex :: "bool \<Rightarrow> bool \<Rightarrow> BUF_MEM option" where
  "BUF_MEM_new_ex mem secure = map_option (\<lambda>ret. ret\<lparr>bm_secure := secure\<rparr>) (BUF_MEM_new mem)"

text \<open>The new block and \<open>str\<close>, whose data has been freed if it was copied.\<close>

definition sec_alloc_realloc :: "(nat \<Rightarrow> object) \<Rightarrow> BUF_MEM \<Rightarrow> nat \<Rightarrow> (object \<times> BUF_MEM) option" where
  "sec_alloc_realloc smalloc str len =
     (case bm_data str of
        None \<Rightarrow> Some (smalloc len, str)
      | Some old \<Rightarrow>
          case smalloc len of
            None \<Rightarrow> Some (None, str)
          | Some ret \<Rightarrow> do {
              bs \<leftarrow> mem_read (Some old) 0 (bm_length str);
              ret \<leftarrow> mem_write ret 0 bs;
              Some (Some ret, str\<lparr>bm_data := None\<rparr>) })"

text \<open>\<open>memset(&str->data[off], 0, n)\<close>.\<close>

definition bm_zero :: "BUF_MEM \<Rightarrow> nat \<Rightarrow> nat \<Rightarrow> BUF_MEM option" where
  "bm_zero str off n =
     (if n = 0 then Some str
      else case bm_data str of
          None \<Rightarrow> None
        | Some d \<Rightarrow> map_option (\<lambda>d'. str\<lparr>bm_data := Some d'\<rparr>) (mem_write d off (replicate n 0)))"

text \<open>The end both growing functions share, from the reallocation on.\<close>

definition bm_install :: "nat \<Rightarrow> nat \<Rightarrow> object \<times> BUF_MEM \<Rightarrow> (nat \<times> BUF_MEM) option" where
  "bm_install len n = (\<lambda>(ret, str).
     case ret of
       None \<Rightarrow> Some (0, str)
     | Some r \<Rightarrow> do {
         let str = str\<lparr>bm_data := Some r, bm_max := n\<rparr>;
         str \<leftarrow> bm_zero str (bm_length str) (len - bm_length str);
         Some (len, str\<lparr>bm_length := len\<rparr>) })"

definition BUF_MEM_grow ::
    "(nat \<Rightarrow> object) \<Rightarrow> (nat \<Rightarrow> object) \<Rightarrow> nat \<Rightarrow> BUF_MEM \<Rightarrow> (nat \<times> BUF_MEM) option" where
  "BUF_MEM_grow malloc smalloc len str =
     (if bm_length str \<ge> len then Some (len, str\<lparr>bm_length := len\<rparr>)
      else if bm_max str \<ge> len then do {
        str \<leftarrow> (if bm_data str \<noteq> None then bm_zero str (bm_length str) (len - bm_length str) else Some str);
        Some (len, str\<lparr>bm_length := len\<rparr>) }
      else if len > LIMIT_BEFORE_EXPANSION then Some (0, str)
      else
        let n = (len + 3) div 3 * 4
        in if bm_secure str then do {
             r \<leftarrow> sec_alloc_realloc smalloc str n;
             bm_install len n r }
           else bm_install len n (CRYPTO_realloc malloc (bm_data str) n, str))"

definition BUF_MEM_grow_clean ::
    "(nat \<Rightarrow> object) \<Rightarrow> (nat \<Rightarrow> object) \<Rightarrow> nat \<Rightarrow> BUF_MEM \<Rightarrow> (nat \<times> BUF_MEM) option" where
  "BUF_MEM_grow_clean malloc smalloc len str =
     (if bm_length str \<ge> len then do {
        str \<leftarrow> (if bm_data str \<noteq> None then bm_zero str len (bm_length str - len) else Some str);
        Some (len, str\<lparr>bm_length := len\<rparr>) }
      else if bm_max str \<ge> len then do {
        str \<leftarrow> bm_zero str (bm_length str) (len - bm_length str);
        Some (len, str\<lparr>bm_length := len\<rparr>) }
      else if len > LIMIT_BEFORE_EXPANSION then Some (0, str)
      else
        let n = (len + 3) div 3 * 4
        in if bm_secure str then do {
             r \<leftarrow> sec_alloc_realloc smalloc str n;
             bm_install len n r }
           else do {
             ret \<leftarrow> CRYPTO_clear_realloc malloc (bm_data str) (bm_max str) n;
             bm_install len n (ret, str) })"

section \<open>Reversal\<close>

text \<open>The copying loop: \<open>q\<close> is the index \<open>out\<close> points to after \<open>out += size - 1\<close>, counted from one.\<close>

fun BUF_reverse_copy :: "u8 list \<Rightarrow> u8 list \<Rightarrow> nat \<Rightarrow> u8 list option" where
  "BUF_reverse_copy out [] q = Some out"
| "BUF_reverse_copy out (c # cs) q =
     (if q = 0 then None
      else case mem_write out (q - 1) [c] of
          None \<Rightarrow> None
        | Some out \<Rightarrow> BUF_reverse_copy out cs (q - 1))"

text \<open>The swapping loop, \<open>n\<close> rounds from the indices \<open>i\<close> and \<open>q\<close>.\<close>

fun BUF_reverse_swap :: "nat \<Rightarrow> u8 list \<Rightarrow> nat \<Rightarrow> nat \<Rightarrow> u8 list option" where
  "BUF_reverse_swap 0 out i q = Some out"
| "BUF_reverse_swap (Suc n) out i q =
     (if i < length out \<and> q < length out
      then BUF_reverse_swap n (out[q := out ! i, i := out ! q]) (i + 1) (q - 1)
      else None)"

definition BUF_reverse :: "u8 list \<Rightarrow> u8 list option \<Rightarrow> nat \<Rightarrow> u8 list option" where
  "BUF_reverse out inp size' =
     (case inp of
        Some src \<Rightarrow> do {
          bs \<leftarrow> mem_read (Some src) 0 size';
          BUF_reverse_copy out bs size' }
      | None \<Rightarrow> BUF_reverse_swap (size' div 2) out 0 (size' - 1))"

section \<open>Invariant and correctness\<close>

definition buf_mem_wf :: "BUF_MEM \<Rightarrow> bool" where
  "buf_mem_wf b \<longleftrightarrow>
     bm_length b \<le> bm_max b \<and> bm_max b \<le> PTRDIFF_MAX
     \<and> (case bm_data b of None \<Rightarrow> bm_max b = 0 | Some d \<Rightarrow> length d = bm_max b)"

definition buf_mem_bytes :: "BUF_MEM \<Rightarrow> u8 list" where
  "buf_mem_bytes b = (case bm_data b of None \<Rightarrow> [] | Some d \<Rightarrow> take (bm_length b) d)"

lemma length_buf_mem_bytes: "buf_mem_wf b \<Longrightarrow> length (buf_mem_bytes b) = bm_length b"
  by (auto simp: buf_mem_wf_def buf_mem_bytes_def split: option.splits)

text \<open>What growing means on the contents: a shorter length truncates, a longer one appends zeros.\<close>

definition grown :: "nat \<Rightarrow> u8 list \<Rightarrow> u8 list" where
  "grown len bs = take len bs @ replicate (len - length bs) 0"

lemma bm_zero_grow:
  assumes "bm_data b = Some d" "length d = bm_max b" "bm_length b \<le> len" "len \<le> bm_max b"
  shows "bm_zero b (bm_length b) (len - bm_length b) =
    Some (b\<lparr>bm_data := Some (take (bm_length b) d @ replicate (len - bm_length b) 0 @ drop len d)\<rparr>)"
proof (cases "len = bm_length b")
  case True
  with assms show ?thesis by (simp add: bm_zero_def)
next
  case False
  with assms show ?thesis by (simp add: bm_zero_def mem_write_in_bounds)
qed

lemma bm_install_spec:
  assumes "bm_length b \<le> len" "len \<le> n" "n \<le> PTRDIFF_MAX" "length r = n"
  shows "\<exists>b'. bm_install len n (Some r, b) = Some (len, b') \<and> buf_mem_wf b' \<and> bm_length b' = len
    \<and> bm_secure b' = bm_secure b
    \<and> buf_mem_bytes b' = take (bm_length b) r @ replicate (len - bm_length b) 0"
  using assms bm_zero_grow [of "b\<lparr>bm_data := Some r, bm_max := n\<rparr>" r len]
  by (auto simp: bm_install_def buf_mem_wf_def buf_mem_bytes_def Let_def)

lemma expansion_enough: "len \<le> ((len :: nat) + 3) div 3 * 4"
  by presburger

lemma grow_within_max:
  assumes "buf_mem_wf b" "len \<le> bm_max b" "bm_length b < len"
  shows "\<exists>b'. bm_zero b (bm_length b) (len - bm_length b) = Some b'
    \<and> buf_mem_wf (b'\<lparr>bm_length := len\<rparr>) \<and> bm_secure b' = bm_secure b
    \<and> buf_mem_bytes (b'\<lparr>bm_length := len\<rparr>) = grown len (buf_mem_bytes b)"
proof -
  obtain d where d: "bm_data b = Some d" "length d = bm_max b"
    using assms by (auto simp: buf_mem_wf_def split: option.splits)
  with assms bm_zero_grow [OF d, of len] show ?thesis
    by (auto simp: buf_mem_wf_def buf_mem_bytes_def grown_def)
qed

definition alloc_refused :: "(nat \<Rightarrow> object) \<Rightarrow> (nat \<Rightarrow> object) \<Rightarrow> BUF_MEM \<Rightarrow> nat \<Rightarrow> bool" where
  "alloc_refused malloc smalloc b len \<longleftrightarrow>
     len > LIMIT_BEFORE_EXPANSION
     \<or> (if bm_secure b then smalloc ((len + 3) div 3 * 4) else malloc ((len + 3) div 3 * 4)) = None"

lemma sec_alloc_realloc_spec:
  assumes wf: "buf_mem_wf b" and m: "malloc_ok smalloc" and n: "bm_length b \<le> n" and r: "smalloc n = Some r0"
  shows "\<exists>r b'. sec_alloc_realloc smalloc b n = Some (Some r, b') \<and> length r = n \<and> bm_length b' = bm_length b
    \<and> bm_secure b' = bm_secure b \<and> take (bm_length b) r = buf_mem_bytes b"
proof (cases "bm_data b")
  case None
  with wf m r show ?thesis
    by (auto simp: sec_alloc_realloc_def buf_mem_wf_def buf_mem_bytes_def malloc_ok_def)
next
  case (Some d)
  have "length r0 = n" using m r by (simp add: malloc_ok_def)
  with Some wf r n show ?thesis
    by (auto simp: sec_alloc_realloc_def buf_mem_wf_def buf_mem_bytes_def mem_read_def mem_write_in_bounds)
qed

lemma realloc_spec:
  assumes wf: "buf_mem_wf b" and m: "malloc_ok malloc" and n: "bm_max b \<le> n" "0 < n" and r: "malloc n = Some r0"
  shows "\<exists>r. CRYPTO_realloc malloc (bm_data b) n = Some r \<and> length r = n \<and> take (bm_length b) r = buf_mem_bytes b"
    and "\<exists>r. CRYPTO_clear_realloc malloc (bm_data b) (bm_max b) n = Some (Some r) \<and> length r = n
      \<and> take (bm_length b) r = buf_mem_bytes b"
proof -
  have len: "length r0 = n" using m r by (simp add: malloc_ok_def)
  show "\<exists>r. CRYPTO_realloc malloc (bm_data b) n = Some r \<and> length r = n \<and> take (bm_length b) r = buf_mem_bytes b"
    using len wf n r by (auto simp: CRYPTO_realloc_def buf_mem_wf_def buf_mem_bytes_def split: option.splits)
  show "\<exists>r. CRYPTO_clear_realloc malloc (bm_data b) (bm_max b) n = Some (Some r) \<and> length r = n
      \<and> take (bm_length b) r = buf_mem_bytes b"
    using len wf n r by (auto simp: CRYPTO_clear_realloc_def buf_mem_wf_def buf_mem_bytes_def mem_read_def
        mem_write_in_bounds split: option.splits)
qed

lemma realloc_refused:
  assumes "buf_mem_wf b" "bm_max b < n" "malloc n = None"
  shows "CRYPTO_realloc malloc (bm_data b) n = None"
    and "CRYPTO_clear_realloc malloc (bm_data b) (bm_max b) n = Some None"
    and "sec_alloc_realloc malloc b n = Some (None, b)"
  using assms by (auto simp: CRYPTO_realloc_def CRYPTO_clear_realloc_def sec_alloc_realloc_def buf_mem_wf_def
      split: option.splits)

text \<open>The two functions agree on the result; \<open>grow_clean\<close> also clears what it gives up.\<close>

definition grow_result ::
    "(nat \<Rightarrow> object) \<Rightarrow> (nat \<Rightarrow> object) \<Rightarrow> nat \<Rightarrow> BUF_MEM \<Rightarrow> nat \<times> BUF_MEM \<Rightarrow> bool" where
  "grow_result malloc smalloc len b = (\<lambda>(r, b').
     buf_mem_wf b'
     \<and> (if bm_max b < len \<and> alloc_refused malloc smalloc b len then r = 0 \<and> b' = b
        else r = len \<and> bm_length b' = len \<and> bm_secure b' = bm_secure b
             \<and> buf_mem_bytes b' = grown len (buf_mem_bytes b)))"

lemma expansion_bounds:
  assumes "len \<le> LIMIT_BEFORE_EXPANSION"
  shows "len \<le> (len + 3) div 3 * 4" "(len + 3) div 3 * 4 \<le> PTRDIFF_MAX" "0 < (len + 3) div 3 * 4"
  using assms by (auto simp: LIMIT_BEFORE_EXPANSION_def)

lemma install_result:
  assumes b: "buf_mem_wf b" "bm_max b < len" "\<not> alloc_refused malloc smalloc b len"
    and r: "length r = (len + 3) div 3 * 4" "take (bm_length b) r = buf_mem_bytes b"
    and b': "bm_length b' = bm_length b" "bm_secure b' = bm_secure b"
  shows "\<exists>res. bm_install len ((len + 3) div 3 * 4) (Some r, b') = Some res \<and> grow_result malloc smalloc len b res"
proof -
  have limit: "len \<le> LIMIT_BEFORE_EXPANSION" using b(3) by (auto simp: alloc_refused_def)
  have le: "bm_length b < len" using b by (simp add: buf_mem_wf_def)
  from bm_install_spec [of b' len _ r, OF _ expansion_bounds(1,2) [OF limit] r(1)] b le
  obtain b2 where "bm_install len ((len + 3) div 3 * 4) (Some r, b') = Some (len, b2)" "buf_mem_wf b2"
    "bm_length b2 = len" "bm_secure b2 = bm_secure b" "buf_mem_bytes b2 = grown len (buf_mem_bytes b)"
    using b' r(2) length_buf_mem_bytes [OF b(1)] by (auto simp: grown_def)
  with b show ?thesis by (auto simp: grow_result_def)
qed

lemma BUF_MEM_grow_spec:
  assumes wf: "buf_mem_wf b" and m: "malloc_ok malloc" "malloc_ok smalloc"
  shows "\<exists>res. BUF_MEM_grow malloc smalloc len b = Some res \<and> grow_result malloc smalloc len b res"
proof -
  let ?n = "(len + 3) div 3 * 4"
  consider "len \<le> bm_length b" | "bm_length b < len" "len \<le> bm_max b"
    | "bm_max b < len" "alloc_refused malloc smalloc b len"
    | "bm_max b < len" "\<not> alloc_refused malloc smalloc b len" by linarith
  then show ?thesis
  proof cases
    case 1
    with wf show ?thesis
      by (auto simp: BUF_MEM_grow_def grow_result_def buf_mem_wf_def buf_mem_bytes_def grown_def
          split: option.splits)
  next
    case 2
    moreover have "bm_data b \<noteq> None" using 2 wf by (auto simp: buf_mem_wf_def split: option.splits)
    ultimately show ?thesis
      using grow_within_max [OF wf 2(2,1)] by (auto simp: BUF_MEM_grow_def grow_result_def)
  next
    case 3
    have "bm_length b < len" using 3 wf by (simp add: buf_mem_wf_def)
    moreover have "bm_max b < ?n" using 3 by linarith
    ultimately show ?thesis
      using 3 wf realloc_refused [OF wf]
      by (auto simp: BUF_MEM_grow_def alloc_refused_def grow_result_def bm_install_def Let_def split: if_splits)
  next
    case 4
    have lim: "len \<le> LIMIT_BEFORE_EXPANSION" using 4 by (auto simp: alloc_refused_def)
    have lt: "bm_length b < len" using 4 wf by (simp add: buf_mem_wf_def)
    have n: "bm_max b \<le> ?n" "bm_length b \<le> ?n" using 4 lt by linarith+
    show ?thesis
    proof (cases "bm_secure b")
      case True
      then obtain r0 where "smalloc ?n = Some r0" using 4 by (auto simp: alloc_refused_def)
      from sec_alloc_realloc_spec [OF wf m(2) n(2) this] install_result [OF wf 4] True 4(1) lim lt show ?thesis
        by (fastforce simp: BUF_MEM_grow_def Let_def)
    next
      case False
      then obtain r0 where "malloc ?n = Some r0" using 4 by (auto simp: alloc_refused_def)
      from realloc_spec(1) [OF wf m(1) n(1) expansion_bounds(3) [OF lim] this] install_result [OF wf 4]
        False 4(1) lim lt show ?thesis
        by (fastforce simp: BUF_MEM_grow_def Let_def)
    qed
  qed
qed

text \<open>Only the bytes beyond the new length can tell the two functions apart: after
  \<open>grow_clean\<close> to a shorter length they are zero.\<close>

lemma grow_clean_clears:
  assumes "buf_mem_wf b" "len \<le> bm_length b" "bm_data b = Some d"
  shows "BUF_MEM_grow_clean malloc smalloc len b = Some (len, b\<lparr>bm_length := len,
    bm_data := Some (take len d @ replicate (bm_length b - len) 0 @ drop (bm_length b) d)\<rparr>)"
  using assms by (cases "bm_length b = len")
    (auto simp: BUF_MEM_grow_clean_def bm_zero_def buf_mem_wf_def mem_write_in_bounds)

lemma BUF_MEM_grow_clean_spec:
  assumes wf: "buf_mem_wf b" and m: "malloc_ok malloc" "malloc_ok smalloc"
  shows "\<exists>res. BUF_MEM_grow_clean malloc smalloc len b = Some res \<and> grow_result malloc smalloc len b res"
proof -
  let ?n = "(len + 3) div 3 * 4"
  consider "len \<le> bm_length b" | "bm_length b < len" "len \<le> bm_max b"
    | "bm_max b < len" "alloc_refused malloc smalloc b len"
    | "bm_max b < len" "\<not> alloc_refused malloc smalloc b len" by linarith
  then show ?thesis
  proof cases
    case 1
    show ?thesis
    proof (cases "bm_data b")
      case None
      with 1 wf show ?thesis
        by (auto simp: BUF_MEM_grow_clean_def grow_result_def buf_mem_wf_def buf_mem_bytes_def grown_def)
    next
      case (Some d)
      with 1 wf show ?thesis unfolding grow_clean_clears [OF wf 1 Some]
        by (auto simp: grow_result_def buf_mem_wf_def buf_mem_bytes_def grown_def min_def)
    qed
  next
    case 2
    then show ?thesis
      using grow_within_max [OF wf 2(2,1)] by (auto simp: BUF_MEM_grow_clean_def grow_result_def)
  next
    case 3
    have "bm_length b < len" using 3 wf by (simp add: buf_mem_wf_def)
    moreover have "bm_max b < ?n" using 3 expansion_enough [of len] by linarith
    ultimately show ?thesis
      using 3 wf realloc_refused [OF wf]
      by (auto simp: BUF_MEM_grow_clean_def alloc_refused_def grow_result_def bm_install_def Let_def split: if_splits)
  next
    case 4
    have lim: "len \<le> LIMIT_BEFORE_EXPANSION" using 4 by (auto simp: alloc_refused_def)
    have lt: "bm_length b < len" using 4 wf by (simp add: buf_mem_wf_def)
    have n: "bm_max b \<le> ?n" "bm_length b \<le> ?n" using 4 lt by linarith+
    show ?thesis
    proof (cases "bm_secure b")
      case True
      then obtain r0 where "smalloc ?n = Some r0" using 4 by (auto simp: alloc_refused_def)
      from sec_alloc_realloc_spec [OF wf m(2) n(2) this] install_result [OF wf 4] True 4(1) lim lt show ?thesis
        by (fastforce simp: BUF_MEM_grow_clean_def Let_def)
    next
      case False
      then obtain r0 where "malloc ?n = Some r0" using 4 by (auto simp: alloc_refused_def)
      from realloc_spec(2) [OF wf m(1) n(1) expansion_bounds(3) [OF lim] this] install_result [OF wf 4]
        False 4(1) lim lt show ?thesis
        by (fastforce simp: BUF_MEM_grow_clean_def Let_def)
    qed
  qed
qed

lemma BUF_reverse_copy_spec:
  assumes "length bs = q" "q \<le> length out"
  shows "BUF_reverse_copy out bs q = Some (rev bs @ drop q out)"
  using assms
proof (induction bs arbitrary: out q)
  case (Cons c cs)
  have q: "q = Suc (length cs)" using Cons.prems by simp
  have w: "mem_write out (q - 1) [c] = Some (take (length cs) out @ [c] @ drop q out)"
    using Cons.prems by (subst mem_write_in_bounds) (auto simp: q)
  have "BUF_reverse_copy (take (length cs) out @ [c] @ drop q out) cs (length cs)
    = Some (rev cs @ drop (length cs) (take (length cs) out @ [c] @ drop q out))"
    by (rule Cons.IH) (use Cons.prems in auto)
  with w Cons.prems show ?case by (simp add: q)
qed simp

text \<open>After \<open>n\<close> more rounds the \<open>n\<close> bytes from either end of the middle part have changed places.\<close>

lemma BUF_reverse_swap_spec:
  assumes "i + 2 * n \<le> q + 1" "q < length out"
  shows "\<exists>out'. BUF_reverse_swap n out i q = Some out' \<and> length out' = length out
    \<and> (\<forall>k < length out. out' ! k =
         (if i \<le> k \<and> k < i + n \<or> q < k + n \<and> k \<le> q then out ! (i + q - k) else out ! k))"
  using assms
proof (induction n arbitrary: out i q)
  case 0
  then show ?case by auto
next
  case (Suc n)
  let ?out = "out[q := out ! i, i := out ! q]"
  have bounds: "i < length out" "q < length out" "i < q" using Suc.prems by auto
  have "i + 1 + 2 * n \<le> q - 1 + 1" "q - 1 < length ?out" using Suc.prems bounds by auto
  from Suc.IH [OF this] obtain out' where o: "BUF_reverse_swap n ?out (i + 1) (q - 1) = Some out'"
    "length out' = length out"
    "\<And>k. k < length out \<Longrightarrow> out' ! k = (if i + 1 \<le> k \<and> k < i + 1 + n \<or> q - 1 < k + n \<and> k \<le> q - 1
        then ?out ! (i + 1 + (q - 1) - k) else ?out ! k)" by auto
  have "out' ! k = (if i \<le> k \<and> k < i + Suc n \<or> q < k + Suc n \<and> k \<le> q then out ! (i + q - k) else out ! k)"
    if "k < length out" for k
  proof -
    have "i + 1 + (q - 1) - k = i + q - k" using bounds by simp
    moreover have "i + q - k \<noteq> i" "i + q - k \<noteq> q" if "k \<noteq> i" "k \<noteq> q" "k \<le> q" using that bounds by linarith+
    ultimately show ?thesis using o(3) [OF that] bounds Suc.prems
      by (cases "k = i"; cases "k = q") (auto simp: nth_list_update)
  qed
  with o bounds show ?case by auto
qed

lemma BUF_reverse_in_place:
  assumes "n \<le> length out"
  shows "BUF_reverse_swap (n div 2) out 0 (n - 1) = Some (rev (take n out) @ drop n out)"
proof (cases "n = 0")
  case False
  have "0 + 2 * (n div 2) \<le> n - 1 + 1" "n - 1 < length out" using False assms by auto
  from BUF_reverse_swap_spec [OF this]
  obtain out' where o: "BUF_reverse_swap (n div 2) out 0 (n - 1) = Some out'" "length out' = length out"
    and nth: "\<forall>k < length out. out' ! k =
       (if 0 \<le> k \<and> k < 0 + n div 2 \<or> n - 1 < k + n div 2 \<and> k \<le> n - 1 then out ! (0 + (n - 1) - k)
        else out ! k)" by blast
  have "out' = rev (take n out) @ drop n out"
  proof (rule nth_equalityI)
    fix k assume "k < length out'"
    then have k: "k < length out" using o by simp
    have "k = n - 1 - k" if "k < n" "\<not> k < n div 2" "\<not> n - 1 < k + n div 2" using that by linarith
    then show "out' ! k = (rev (take n out) @ drop n out) ! k"
      using assms nth k by (auto simp: nth_append rev_nth One_nat_def)
  qed (use o assms in simp)
  with o show ?thesis by simp
qed simp

section \<open>Properties\<close>

text \<open>
  C26.  Growing a buffer.  On a well-formed buffer both functions are memory safe and either
  refuse, leaving the buffer as it was (only when the size exceeds the allocation and the
  limit of \<open>0x5ffffffc\<close> or the allocator refuses), or set the length, keep the contents up to
  it and append zero bytes.
\<close>

theorem buf_mem_grow_correct:
  assumes "buf_mem_wf b" "malloc_ok malloc" "malloc_ok smalloc"
    and "grow \<in> {BUF_MEM_grow malloc smalloc, BUF_MEM_grow_clean malloc smalloc}"
  shows "\<exists>r b'. grow len b = Some (r, b') \<and> buf_mem_wf b'
    \<and> (if bm_max b < len \<and> alloc_refused malloc smalloc b len then r = 0 \<and> b' = b
        else r = len \<and> bm_length b' = len \<and> bm_secure b' = bm_secure b
             \<and> buf_mem_bytes b' = take len (buf_mem_bytes b) @ replicate (len - bm_length b) 0)"
proof -
  have "\<exists>res. grow len b = Some res \<and> grow_result malloc smalloc len b res"
    using assms BUF_MEM_grow_spec BUF_MEM_grow_clean_spec by blast
  then obtain r b' where "grow len b = Some (r, b')" "grow_result malloc smalloc len b (r, b')"
    by (metis surj_pair)
  then show ?thesis
    using length_buf_mem_bytes [OF assms(1)] by (intro exI [of _ r] exI [of _ b']) (simp add: grow_result_def grown_def)
qed

theorem buf_mem_grow_correct_witness:
  "\<exists>b'. BUF_MEM_grow (\<lambda>n. if n = 4 then Some [9, 9, 9, 9] else None) (\<lambda>_. None) 2
      \<lparr>bm_length = 1, bm_data = Some [7], bm_max = 1, bm_secure = False\<rparr> = Some (2, b')
    \<and> buf_mem_wf b' \<and> buf_mem_bytes b' = [7, 0]"
proof -
  let ?b = "\<lparr>bm_length = 1, bm_data = Some [7], bm_max = 1, bm_secure = False\<rparr> :: BUF_MEM"
  let ?m = "\<lambda>n. if n = 4 then Some [9, 9, 9, 9] else None :: object"
  have wf: "buf_mem_wf ?b" by code_simp
  have m: "malloc_ok ?m" "malloc_ok (\<lambda>_. None)" by (simp_all add: malloc_ok_def)
  have ok: "\<not> alloc_refused ?m (\<lambda>_. None) ?b 2" by code_simp
  have bytes: "buf_mem_bytes ?b = [7]" by code_simp
  have app: "take 2 [7 :: u8] @ replicate (2 - 1) 0 = [7, 0]" by (simp add: One_nat_def)
  have len: "bm_length ?b = 1" by simp
  have refused: "\<not> (bm_max ?b < 2 \<and> alloc_refused ?m (\<lambda>_. None) ?b 2)" using ok by (rule contrapos_nn) (rule conjunct2)
  have "BUF_MEM_grow ?m (\<lambda>_. None) \<in> {BUF_MEM_grow ?m (\<lambda>_. None), BUF_MEM_grow_clean ?m (\<lambda>_. None)}"
    by (rule insertI1)
  from buf_mem_grow_correct [OF wf m this, of 2, unfolded if_not_P [OF refused] bytes len app]
  show ?thesis by blast
qed

text \<open>
  C31.  \<open>BUF_reverse\<close> reverses the first \<open>size\<close> bytes: of the source into the output, or of the output
  in place when there is no source; the rest of the output is untouched.
\<close>

theorem buf_reverse_correct:
  assumes "n \<le> length out" "n \<le> length (case inp of None \<Rightarrow> out | Some src \<Rightarrow> src)"
  shows "BUF_reverse out inp n =
    Some (rev (take n (case inp of None \<Rightarrow> out | Some src \<Rightarrow> src)) @ drop n out)"
proof (cases inp)
  case None
  with assms show ?thesis by (simp add: BUF_reverse_def BUF_reverse_in_place)
next
  case (Some src)
  moreover from this have "mem_read (Some src) 0 n = Some (take n src)" using assms by (simp add: mem_read_def)
  ultimately show ?thesis
    using assms by (simp add: BUF_reverse_def BUF_reverse_copy_spec)
qed

theorem buf_reverse_correct_witness: "BUF_reverse [1, 2, 3, 4] None 3 = Some [3, 2, 1, 4]"
  using buf_reverse_correct [of 3 "[1, 2, 3, 4]" None] by (simp add: numeral_3_eq_3)

end
