(* ===== verification/Quic_Vlint.thy ===== *)
theory Quic_Vlint
  imports Ossl_Prelude
begin

text \<open>
  QUIC variable-length integers: \<open>include/internal/quic_vlint.h\<close> and \<open>crypto/quic_vlint.c\<close>.

  Values are 64-bit words.  A function that stores into \<open>buf\<close> is the list of the bytes it
  stores at \<open>buf[0]\<close>, \<open>buf[1]\<close>, ...; a function that reads from \<open>buf\<close> is \<open>None\<close> when it reads
  beyond its end.  The first section has the big-endian view of words the proofs go through.
\<close>

section \<open>Words and big-endian byte lists\<close>

definition bytes_of_word :: "nat \<Rightarrow> u64 \<Rightarrow> u8 list" where
  "bytes_of_word n v = map (\<lambda>i. ucast (drop_bit (8 * (n - 1 - i)) v)) [0..<n]"

definition word_of_bytes :: "u8 list \<Rightarrow> u64" where
  "word_of_bytes bs = foldl (\<lambda>a b. push_bit 8 a OR ucast b) 0 bs"

lemma length_bytes_of_word [simp]: "length (bytes_of_word n v) = n"
  by (simp add: bytes_of_word_def)

lemma word_of_bytes_snoc [simp]: "word_of_bytes (bs @ [b]) = push_bit 8 (word_of_bytes bs) OR ucast b"
  by (simp add: word_of_bytes_def)

lemma word_of_bytes_Nil [simp]: "word_of_bytes [] = 0"
  by (simp add: word_of_bytes_def)

lemma bytes_of_word_0 [simp]: "bytes_of_word 0 v = []"
  by (simp add: bytes_of_word_def)

lemma bytes_of_word_Suc: "bytes_of_word (Suc n) v = bytes_of_word n (drop_bit 8 v) @ [ucast v]"
proof (rule nth_equalityI)
  fix i assume "i < length (bytes_of_word (Suc n) v)"
  then consider "i < n" | "i = n" by fastforce
  then show "bytes_of_word (Suc n) v ! i = (bytes_of_word n (drop_bit 8 v) @ [ucast v]) ! i"
  proof cases
    case 1
    then have "8 * (n - i) = 8 * (n - 1 - i) + 8" by simp
    with 1 show ?thesis by (simp add: bytes_of_word_def nth_append add.commute)
  qed (simp add: bytes_of_word_def nth_append)
qed simp

lemma word_of_bytes_of_word:
  "n \<le> 8 \<Longrightarrow> word_of_bytes (bytes_of_word n v) = take_bit (8 * n) v"
proof (induction n arbitrary: v)
  case (Suc n)
  have "push_bit 8 (take_bit (8 * n) (drop_bit 8 v)) OR ucast (ucast v :: u8) = take_bit (8 * Suc n) v"
    by (rule bit_word_eqI) (auto simp: bit_simps)
  with Suc show ?case by (simp add: bytes_of_word_Suc)
qed simp

lemma word_of_bytes_take_bit: "take_bit (8 * length bs) (word_of_bytes bs) = word_of_bytes bs"
proof (induction bs rule: rev_induct)
  case (snoc b bs)
  then have "bit (word_of_bytes bs) n \<Longrightarrow> n < 8 * length bs" for n
    by (metis bit_take_bit_iff)
  then show ?case
    by (intro bit_word_eqI) (fastforce simp: bit_simps dest: bit_imp_le_length)
qed simp

lemma word_of_bytes_bound: "length bs < 8 \<Longrightarrow> unat (word_of_bytes bs) < 2 ^ (8 * length bs)"
  by (metis word_of_bytes_take_bit unsigned_take_bit_eq take_bit_nat_less_exp)

lemma bytes_of_word_of_bytes:
  "length bs \<le> 8 \<Longrightarrow> bytes_of_word (length bs) (word_of_bytes bs) = bs"
proof (induction bs rule: rev_induct)
  case (snoc b bs)
  have small: "n < 56" if "bit (word_of_bytes bs) n" for n
  proof -
    have "n < 8 * length bs" using that by (metis word_of_bytes_take_bit bit_take_bit_iff)
    with snoc.prems show ?thesis by simp
  qed
  have "drop_bit 8 (push_bit 8 (word_of_bytes bs) OR ucast b) = word_of_bytes bs"
    by (rule bit_word_eqI) (auto simp: bit_simps dest: bit_imp_le_length small)
  moreover have "ucast (push_bit 8 (word_of_bytes bs) OR ucast b) = b"
    by (rule bit_word_eqI) (auto simp: bit_simps)
  ultimately show ?case
    using snoc by (simp add: bytes_of_word_Suc)
qed simp

section \<open>The header: lengths\<close>

definition OSSL_QUIC_VLINT_8B_MAX :: u64 where
  "OSSL_QUIC_VLINT_8B_MAX = push_bit 62 1 - 1"

definition ossl_quic_vlint_encode_len :: "u64 \<Rightarrow> nat" where
  "ossl_quic_vlint_encode_len v =
     (if v < 64 then 1
      else if v < 16384 then 2
      else if v < 1073741824 then 4
      else if v \<le> OSSL_QUIC_VLINT_8B_MAX then 8
      else 0)"

definition ossl_quic_vlint_decode_len :: "u8 \<Rightarrow> nat" where
  "ossl_quic_vlint_decode_len first_byte = push_bit (unat (drop_bit 6 (first_byte AND 0xC0))) 1"

section \<open>Encoding and decoding\<close>

definition ossl_quic_vlint_encode_n :: "u64 \<Rightarrow> nat \<Rightarrow> u8 list" where
  "ossl_quic_vlint_encode_n v n =
     (if n = 1 then [ucast v]
      else if n = 2 then [0x40 OR (ucast (drop_bit 8 v) AND 0x3F), ucast v]
      else if n = 4 then
        [0x80 OR (ucast (drop_bit 24 v) AND 0x3F), ucast (drop_bit 16 v), ucast (drop_bit 8 v),
         ucast v]
      else
        [0xC0 OR (ucast (drop_bit 56 v) AND 0x3F), ucast (drop_bit 48 v), ucast (drop_bit 40 v),
         ucast (drop_bit 32 v), ucast (drop_bit 24 v), ucast (drop_bit 16 v), ucast (drop_bit 8 v),
         ucast v])"

definition ossl_quic_vlint_encode :: "u64 \<Rightarrow> u8 list" where
  "ossl_quic_vlint_encode v = ossl_quic_vlint_encode_n v (ossl_quic_vlint_encode_len v)"

definition ossl_quic_vlint_decode_unchecked :: "object \<Rightarrow> nat \<Rightarrow> u64 option" where
  "ossl_quic_vlint_decode_unchecked ob buf = do {
     first_byte \<leftarrow> mem_byte ob buf;
     let sz = ossl_quic_vlint_decode_len first_byte;
     (if sz = 1 then Some (ucast (first_byte AND 0x3F))
      else if sz = 2 then do {
        b1 \<leftarrow> mem_byte ob (buf + 1);
        Some (push_bit 8 (ucast (first_byte AND 0x3F)) OR ucast b1) }
      else if sz = 4 then do {
        b1 \<leftarrow> mem_byte ob (buf + 1);
        b2 \<leftarrow> mem_byte ob (buf + 2);
        b3 \<leftarrow> mem_byte ob (buf + 3);
        Some (push_bit 24 (ucast (first_byte AND 0x3F)) OR push_bit 16 (ucast b1)
              OR push_bit 8 (ucast b2) OR ucast b3) }
      else do {
        b1 \<leftarrow> mem_byte ob (buf + 1);
        b2 \<leftarrow> mem_byte ob (buf + 2);
        b3 \<leftarrow> mem_byte ob (buf + 3);
        b4 \<leftarrow> mem_byte ob (buf + 4);
        b5 \<leftarrow> mem_byte ob (buf + 5);
        b6 \<leftarrow> mem_byte ob (buf + 6);
        b7 \<leftarrow> mem_byte ob (buf + 7);
        Some (push_bit 56 (ucast (first_byte AND 0x3F)) OR push_bit 48 (ucast b1)
              OR push_bit 40 (ucast b2) OR push_bit 32 (ucast b3) OR push_bit 24 (ucast b4)
              OR push_bit 16 (ucast b5) OR push_bit 8 (ucast b6) OR ucast b7) }) }"

text \<open>The inner \<open>None\<close> is the return value 0; \<open>Some (v, n)\<close> is \<open>*v = v; return n\<close>.\<close>

definition ossl_quic_vlint_decode :: "object \<Rightarrow> nat \<Rightarrow> nat \<Rightarrow> (u64 \<times> nat) option option" where
  "ossl_quic_vlint_decode ob buf buf_len =
     (if buf_len < 1 then Some None
      else do {
        b0 \<leftarrow> mem_byte ob buf;
        let dec_len = ossl_quic_vlint_decode_len b0;
        (if buf_len < dec_len then Some None
         else do {
           x \<leftarrow> ossl_quic_vlint_decode_unchecked ob buf;
           Some (Some (x, dec_len)) }) })"

section \<open>What the code computes\<close>

text \<open>The two top bits of the first byte give the length, the others and the following bytes
  the value, big-endian.\<close>

definition vlint_dec :: "u8 list \<Rightarrow> (u64 \<times> u8 list) option" where
  "vlint_dec bs =
     (case bs of [] \<Rightarrow> None
      | b # _ \<Rightarrow>
          let n = ossl_quic_vlint_decode_len b
          in if length bs < n then None
             else Some (take_bit (8 * n - 2) (word_of_bytes (take n bs)), drop n bs))"

lemma and_0x3F: "(b :: u8) AND 0x3F = take_bit 6 b"
  by (simp add: take_bit_eq_mask mask_eq_exp_minus_1)

lemma and_0xC0: "(b :: u8) AND 0xC0 = push_bit 6 (drop_bit 6 b)"
proof -
  have "(0xC0 :: u8) = push_bit 6 (mask 2)" by (simp add: push_bit_eq_mult mask_eq_exp_minus_1)
  note c0 = this
  show ?thesis
    unfolding c0 by (rule bit_word_eqI) (auto simp: bit_simps)
qed

lemma or_bits_6_7:
  "(0x40 :: u8) = push_bit 6 1" "(0x80 :: u8) = push_bit 7 1" "(0xC0 :: u8) = push_bit 7 1 OR push_bit 6 1"
  by (simp_all add: push_bit_eq_mult)

lemma decode_len_cases:
  obtains "ossl_quic_vlint_decode_len b = 1" "\<not> bit b 7" "\<not> bit b 6"
  | "ossl_quic_vlint_decode_len b = 2" "\<not> bit b 7" "bit b 6"
  | "ossl_quic_vlint_decode_len b = 4" "bit b 7" "\<not> bit b 6"
  | "ossl_quic_vlint_decode_len b = 8" "bit b 7" "bit b 6"
proof -
  have eq: "drop_bit 6 (b AND 0xC0) = (if bit b 7 then push_bit 1 (1 :: u8) else 0) OR (if bit b 6 then 1 else 0)"
    unfolding and_0xC0
  proof (rule bit_word_eqI)
    fix n assume "n < LENGTH(8)"
    then have "n = 0 \<or> n = 1 \<or> (2 \<le> n \<and> n < 8)" by auto
    then show "bit (drop_bit 6 (push_bit 6 (drop_bit 6 b))) n =
       bit ((if bit b 7 then push_bit 1 (1 :: u8) else 0) OR (if bit b 6 then 1 else 0)) n"
      by (auto simp: bit_simps dest: bit_imp_le_length)
  qed
  show ?thesis
    using that eq by (cases "bit b 7"; cases "bit b 6") (simp_all add: ossl_quic_vlint_decode_len_def)
qed

lemma bit_u8_less: "bit (b :: u8) n \<Longrightarrow> n < 8"
  using bit_imp_le_length [of b n] by simp

lemma take_nth: "n \<le> length bs \<Longrightarrow> take n bs = map ((!) bs) [0..<n]"
  by (rule nth_equalityI) auto

lemma upt_lengths:
  "[0..<1] = [0]" "[0..<2] = [0, 1]" "[0..<3] = [0, 1, 2]" "[0..<4] = [0, 1, 2, 3]"
  "[0..<8] = [0, 1, 2, 3, 4, 5, 6, 7]"
  by (simp_all add: upt_rec)

lemma word_of_bytes_lengths:
  "word_of_bytes [b0] = ucast b0"
  "word_of_bytes [b0, b1] = push_bit 8 (ucast b0) OR ucast b1"
  "word_of_bytes [b0, b1, b2] = push_bit 16 (ucast b0) OR push_bit 8 (ucast b1) OR ucast b2"
  "word_of_bytes [b0, b1, b2, b3] =
     push_bit 24 (ucast b0) OR push_bit 16 (ucast b1) OR push_bit 8 (ucast b2) OR ucast b3"
  "word_of_bytes [b0, b1, b2, b3, b4, b5, b6, b7] =
     push_bit 56 (ucast b0) OR push_bit 48 (ucast b1) OR push_bit 40 (ucast b2)
     OR push_bit 32 (ucast b3) OR push_bit 24 (ucast b4) OR push_bit 16 (ucast b5)
     OR push_bit 8 (ucast b6) OR ucast b7"
  by (simp_all add: word_of_bytes_def or.assoc)

lemma push_bit_and_0x3F:
  "n < 58 \<Longrightarrow> push_bit n (ucast (b AND 0x3F :: u8) :: u64) = take_bit (n + 6) (push_bit n (ucast b))"
  unfolding and_0x3F by (rule bit_word_eqI) (auto simp: bit_simps)

lemma take_bit_push_bit_u8 [simp]:
  "n + 8 \<le> m \<Longrightarrow> take_bit m (push_bit n (ucast (b :: u8) :: u64)) = push_bit n (ucast b)"
  by (rule bit_word_eqI) (auto simp: bit_simps dest: bit_u8_less)

lemma take_bit_ucast_u8 [simp]: "8 \<le> m \<Longrightarrow> take_bit m (ucast (b :: u8) :: u64) = ucast b"
  using take_bit_push_bit_u8 [of 0 m b] by simp

lemma vlint_dec_decode_unchecked:
  assumes "vlint_dec bs = Some (v, rest)" "mem_read ob off (length bs) = Some bs"
  shows "ossl_quic_vlint_decode_unchecked ob off = Some v"
proof -
  have byte: "mem_byte ob (off + i) = Some (bs ! i)" if "i < length bs" for i
    using mem_byte_read [OF assms(2) that] .
  obtain b where b: "bs ! 0 = b" "bs \<noteq> []"
    and len: "ossl_quic_vlint_decode_len b \<le> length bs"
    and v: "v = take_bit (8 * ossl_quic_vlint_decode_len b - 2)
                 (word_of_bytes (map ((!) bs) [0..<ossl_quic_vlint_decode_len b]))"
    using assms(1) by (auto simp: vlint_dec_def Let_def take_nth split: list.splits if_splits)
  have first: "mem_byte ob off = Some b" using byte [of 0] b by simp
  show ?thesis
    using first v b len push_bit_and_0x3F [of _ b] push_bit_and_0x3F [of 0 b] byte
    by (cases b rule: decode_len_cases)
      (simp_all add: ossl_quic_vlint_decode_unchecked_def upt_lengths word_of_bytes_lengths)
qed

lemma decode_len_eq:
  "ossl_quic_vlint_decode_len b = (if bit b 7 then if bit b 6 then 8 else 4 else if bit b 6 then 2 else 1)"
  by (cases b rule: decode_len_cases) simp_all

lemma decode_len_pos [simp]: "ossl_quic_vlint_decode_len b > 0"
  by (simp add: decode_len_eq)

lemma decode_len_le_8: "ossl_quic_vlint_decode_len b \<le> 8"
  by (simp add: decode_len_eq)

lemma length_encode_n:
  "n \<in> {1, 2, 4, 8} \<Longrightarrow> length (ossl_quic_vlint_encode_n v n) = n"
  by (auto simp: ossl_quic_vlint_encode_n_def)

lemma decode_len_first_byte:
  "ossl_quic_vlint_decode_len (take_bit 6 x) = 1"
  "ossl_quic_vlint_decode_len (0x40 OR take_bit 6 x) = 2"
  "ossl_quic_vlint_decode_len (0x80 OR take_bit 6 x) = 4"
  "ossl_quic_vlint_decode_len (0xC0 OR take_bit 6 x) = 8"
  by (simp_all add: decode_len_eq bit_simps One_nat_def)

lemma take_bit_word_of_bytes_Cons:
  "length bs < 8 \<Longrightarrow>
     take_bit (8 * length bs + 6) (word_of_bytes (b # bs)) = word_of_bytes (take_bit 6 b # bs)"
proof (induction bs rule: rev_induct)
  case Nil
  have "take_bit 6 (ucast b) = (ucast (take_bit 6 b) :: u64)"
    by (rule bit_word_eqI) (auto simp: bit_simps)
  then show ?case by (simp add: word_of_bytes_lengths)
next
  case (snoc c bs)
  have "8 * length (bs @ [c]) + 6 = (8 * length bs + 6) + 8" by simp
  then have "take_bit (8 * length (bs @ [c]) + 6) (word_of_bytes ((b # bs) @ [c]))
      = push_bit 8 (take_bit (8 * length bs + 6) (word_of_bytes (b # bs))) OR ucast c"
    unfolding word_of_bytes_snoc by (simp add: take_bit_push_bit add.commute)
  also have "\<dots> = word_of_bytes ((take_bit 6 b # bs) @ [c])"
    using snoc unfolding word_of_bytes_snoc by simp
  finally show ?case by simp
qed

lemma vlint_dec_first_byte:
  assumes "ossl_quic_vlint_decode_len b = Suc (length bs)"
  shows "vlint_dec (b # bs @ rest) = Some (word_of_bytes (take_bit 6 b # bs), rest)"
proof -
  have "length bs < 8" using assms decode_len_le_8 [of b] by simp
  from take_bit_word_of_bytes_Cons [OF this, of b] show ?thesis
    by (simp add: vlint_dec_def assms add.commute)
qed

lemma first_byte_small:
  assumes "take_bit (8 * n + 6) (v :: u64) = v"
  shows "take_bit 6 (ucast (drop_bit (8 * n) v) :: u8) = ucast (drop_bit (8 * n) v)"
proof -
  have "bit v i \<Longrightarrow> i < 8 * n + 6" for i using assms by (metis bit_take_bit_iff)
  then show ?thesis by (intro bit_word_eqI) (fastforce simp: bit_simps)
qed

lemma bytes_of_word_lengths:
  "bytes_of_word 1 v = [ucast v]"
  "bytes_of_word 2 v = [ucast (drop_bit 8 v), ucast v]"
  "bytes_of_word 3 v = [ucast (drop_bit 16 v), ucast (drop_bit 8 v), ucast v]"
  "bytes_of_word 4 v = [ucast (drop_bit 24 v), ucast (drop_bit 16 v), ucast (drop_bit 8 v), ucast v]"
  "bytes_of_word 8 v = [ucast (drop_bit 56 v), ucast (drop_bit 48 v), ucast (drop_bit 40 v),
     ucast (drop_bit 32 v), ucast (drop_bit 24 v), ucast (drop_bit 16 v), ucast (drop_bit 8 v), ucast v]"
  by (simp_all add: bytes_of_word_def upt_lengths)

lemma vlint_dec_encode_n:
  assumes n: "n \<in> {1, 2, 4, 8}" and v: "take_bit (8 * n - 2) v = v"
  shows "vlint_dec (ossl_quic_vlint_encode_n v n @ rest) = Some (v, rest)"
proof -
  have "take_bit (8 * n) v = v"
    using v by (metis take_bit_take_bit min_absorb2 diff_le_self)
  then have id: "word_of_bytes (bytes_of_word n v) = v"
    using n word_of_bytes_of_word [of n v] by auto
  have first: "take_bit 6 (ucast (drop_bit (8 * (n - 1)) v) :: u8) = ucast (drop_bit (8 * (n - 1)) v)"
    by (rule first_byte_small) (use n v in auto)
  have tops: "take_bit 6 (0x40 :: u8) = 0" "take_bit 6 (0x80 :: u8) = 0" "take_bit 6 (0xC0 :: u8) = 0"
    by simp_all
  note dec = vlint_dec_first_byte [where bs = "[_, _, _, _, _, _, _]", simplified]
    vlint_dec_first_byte [where bs = "[_, _, _]", simplified]
    vlint_dec_first_byte [where bs = "[_]", simplified] vlint_dec_first_byte [where bs = "[]", simplified]
  have one: "ossl_quic_vlint_decode_len (ucast v) = 1" if "n = 1"
    using that first decode_len_first_byte(1) [of "ucast v"] by simp
  from n id first tops one show ?thesis
    by (auto simp: ossl_quic_vlint_encode_n_def and_0x3F bytes_of_word_lengths dec decode_len_first_byte)
qed

text \<open>The thresholds of \<open>encode_len\<close> are the capacities of the four forms.\<close>

lemma take_bit_eq_self_unat: "n < 64 \<Longrightarrow> take_bit n (v :: u64) = v \<longleftrightarrow> unat v < 2 ^ n"
  by (metis take_bit_nat_eq_self_iff unsigned_take_bit_eq unsigned_word_eqI)

lemma encode_len_unat:
  "ossl_quic_vlint_encode_len v =
     (if unat v < 2 ^ 6 then 1 else if unat v < 2 ^ 14 then 2 else if unat v < 2 ^ 30 then 4
      else if unat v < 2 ^ 62 then 8 else 0)"
  by (simp add: ossl_quic_vlint_encode_len_def OSSL_QUIC_VLINT_8B_MAX_def word_less_nat_alt word_le_nat_alt)

lemma encode_len_forms:
  "unat v < 2 ^ 62 \<Longrightarrow> ossl_quic_vlint_encode_len v \<in> {1, 2, 4, 8}"
  "unat v < 2 ^ 62 \<Longrightarrow> take_bit (8 * ossl_quic_vlint_encode_len v - 2) v = v"
  by (simp_all add: encode_len_unat take_bit_eq_self_unat)

lemma vlint_dec_encode: "unat v < 2 ^ 62 \<Longrightarrow> vlint_dec (ossl_quic_vlint_encode v @ rest) = Some (v, rest)"
  unfolding ossl_quic_vlint_encode_def by (rule vlint_dec_encode_n) (rule encode_len_forms, assumption)+

lemma length_encode:
  "unat v < 2 ^ 62 \<Longrightarrow> length (ossl_quic_vlint_encode v) = ossl_quic_vlint_encode_len v"
  unfolding ossl_quic_vlint_encode_def by (rule length_encode_n) (rule encode_len_forms)

lemma vlint_dec_SomeD:
  assumes "vlint_dec bs = Some (v, rest)"
  shows "\<exists>b. ossl_quic_vlint_decode_len b \<le> length bs
    \<and> v = take_bit (8 * ossl_quic_vlint_decode_len b - 2)
            (word_of_bytes (take (ossl_quic_vlint_decode_len b) bs))
    \<and> rest = drop (ossl_quic_vlint_decode_len b) bs"
proof (cases bs)
  case (Cons b bs')
  with assms show ?thesis by (intro exI [of _ b]) (auto simp: vlint_dec_def Let_def split: if_splits)
qed (use assms in \<open>simp add: vlint_dec_def\<close>)

lemma vlint_dec_bound:
  assumes "vlint_dec bs = Some (v, rest)"
  shows "unat v < 2 ^ 62" "ossl_quic_vlint_encode_len v \<le> length bs - length rest" "length rest < length bs"
    "\<exists>n \<in> {1, 2, 4, 8}. length bs = n + length rest"
proof -
  obtain b where len: "ossl_quic_vlint_decode_len b \<le> length bs"
    and v: "v = take_bit (8 * ossl_quic_vlint_decode_len b - 2)
                 (word_of_bytes (take (ossl_quic_vlint_decode_len b) bs))"
    and rest: "rest = drop (ossl_quic_vlint_decode_len b) bs"
    using vlint_dec_SomeD [OF assms] by blast
  let ?n = "ossl_quic_vlint_decode_len b"
  have n: "?n \<in> {1, 2, 4, 8}" by (simp add: decode_len_eq)
  have small: "unat v < 2 ^ (8 * ?n - 2)"
    unfolding v unsigned_take_bit_eq by (rule take_bit_nat_less_exp)
  with n show "unat v < 2 ^ 62" by (auto simp del: power_Suc)
  from n small show "ossl_quic_vlint_encode_len v \<le> length bs - length rest"
    using len rest by (auto simp: encode_len_unat)
  show "length rest < length bs" using len rest decode_len_pos [of b] by (simp del: decode_len_pos)
  show "\<exists>n \<in> {1, 2, 4, 8}. length bs = n + length rest" using n len rest by auto
qed

text \<open>The checked decoder never reads outside its buffer and agrees with \<open>vlint_dec\<close>.\<close>

lemma vlint_decode_spec:
  assumes "mem_read ob off len = Some bs"
  shows "ossl_quic_vlint_decode ob off len =
    Some (map_option (\<lambda>(v, rest). (v, length bs - length rest)) (vlint_dec bs))"
proof (cases bs)
  case Nil
  with assms have "len = 0" by (auto dest: length_mem_read)
  with Nil show ?thesis by (simp add: ossl_quic_vlint_decode_def vlint_dec_def)
next
  case (Cons b bs')
  have len: "len = length bs" using assms length_mem_read by metis
  have b: "mem_byte ob off = Some b" using mem_byte_read [OF assms, of 0] Cons len by simp
  show ?thesis
  proof (cases "vlint_dec bs")
    case None
    then have "length bs < ossl_quic_vlint_decode_len b"
      using Cons by (auto simp: vlint_dec_def Let_def split: if_splits)
    with None b len Cons show ?thesis by (simp add: ossl_quic_vlint_decode_def)
  next
    case (Some r)
    obtain v rest where r: "r = (v, rest)" by (cases r)
    have "ossl_quic_vlint_decode_len b \<le> length bs" "rest = drop (ossl_quic_vlint_decode_len b) bs"
      using Some r Cons by (auto simp: vlint_dec_def Let_def split: if_splits)
    moreover have "ossl_quic_vlint_decode_unchecked ob off = Some v"
      using vlint_dec_decode_unchecked Some r assms len by metis
    ultimately show ?thesis
      using Some r b len Cons by (simp add: ossl_quic_vlint_decode_def)
  qed
qed

section \<open>Properties\<close>

text \<open>
  C22.  Decoding what was encoded.  A value below \<open>2^62\<close> is encoded into \<open>encode_len\<close> bytes, and
  decoding a buffer that continues with arbitrary bytes gives back the value and that length.
\<close>

theorem vlint_roundtrip:
  assumes "unat v < 2 ^ 62"
  shows "length (ossl_quic_vlint_encode v) = ossl_quic_vlint_encode_len v
    \<and> ossl_quic_vlint_decode (Some (pre @ ossl_quic_vlint_encode v @ rest)) (length pre)
          (length (ossl_quic_vlint_encode v) + length rest)
        = Some (Some (v, ossl_quic_vlint_encode_len v))"
proof -
  have "mem_read (Some (pre @ ossl_quic_vlint_encode v @ rest)) (length pre)
      (length (ossl_quic_vlint_encode v) + length rest) = Some (ossl_quic_vlint_encode v @ rest)"
    by (simp add: mem_read_def)
  from vlint_decode_spec [OF this] show ?thesis
    using assms by (simp add: vlint_dec_encode length_encode)
qed

theorem vlint_roundtrip_witness:
  "length (ossl_quic_vlint_encode 494878333) = 4
    \<and> ossl_quic_vlint_decode (Some ([7] @ ossl_quic_vlint_encode 494878333 @ [1, 2])) 1 6
        = Some (Some (494878333, 4))"
  using vlint_roundtrip [of 494878333 "[7]" "[1, 2]"]
  by (simp add: encode_len_unat length_encode One_nat_def)

text \<open>
  C23.  On any readable buffer the decoder stays within bounds and either refuses (the buffer
  is shorter than the first byte announces) or returns a value below \<open>2^62\<close>, consuming 1, 2, 4
  or 8 of the available bytes and at least as many as the encoder would have used.
\<close>

theorem vlint_decode_bounds:
  assumes "mem_read ob off len = Some bs"
  shows "ossl_quic_vlint_decode ob off len \<noteq> None
    \<and> (\<forall>v n. ossl_quic_vlint_decode ob off len = Some (Some (v, n)) \<longrightarrow>
         unat v < 2 ^ 62 \<and> n \<in> {1, 2, 4, 8} \<and> n \<le> len \<and> ossl_quic_vlint_encode_len v \<le> n)"
proof (intro conjI allI impI)
  show "ossl_quic_vlint_decode ob off len \<noteq> None" by (simp add: vlint_decode_spec [OF assms])
next
  fix v n assume "ossl_quic_vlint_decode ob off len = Some (Some (v, n))"
  then obtain rest where dec: "vlint_dec bs = Some (v, rest)" and n: "n = length bs - length rest"
    by (auto simp: vlint_decode_spec [OF assms])
  have len: "len = length bs" using assms length_mem_read by metis
  show "unat v < 2 ^ 62" by (rule vlint_dec_bound(1) [OF dec])
  show "n \<in> {1, 2, 4, 8}" using vlint_dec_bound(4) [OF dec] n by auto
  show "n \<le> len" using n len by simp
  show "ossl_quic_vlint_encode_len v \<le> n" using vlint_dec_bound(2) [OF dec] n by simp
qed

theorem vlint_decode_bounds_witness:
  "mem_read (Some [0x40, 5, 9]) 0 3 = Some [0x40, 5, 9]
    \<and> ossl_quic_vlint_decode (Some [0x40, 5, 9]) 0 3 = Some (Some (5, 2))
    \<and> ossl_quic_vlint_encode_len 5 \<le> 2"
proof -
  have read: "mem_read (Some [0x40, 5, 9]) 0 3 = Some [0x40, 5, 9]" by code_simp
  moreover have "ossl_quic_vlint_decode (Some [0x40, 5, 9]) 0 3 = Some (Some (5, 2))" by code_simp
  ultimately show ?thesis using vlint_decode_bounds [OF read] by blast
qed

end
