(* ===== verification/Packet.thy ===== *)
theory Packet
  imports Quic_Vlint
begin

text \<open>
  \<open>PACKET\<close>, the bounded reader over a byte buffer that every parser of the library uses:
  \<open>include/internal/packet.h\<close>, the QUIC readers of \<open>include/internal/packet_quic.h\<close> and the
  \<open>memdup\<close>/\<open>strndup\<close> helpers of \<open>crypto/o_str.c\<close> it calls.

  A reader is a function \<open>PACKET \<Rightarrow> ('a option \<times> PACKET) option\<close>: the outer \<open>None\<close> is an access
  outside the buffer, the inner \<open>None\<close> is the return value 0.  \<open>reads\<close> relates a reader to a
  function on byte lists; it is shown for every reader and is closed under sequencing.
\<close>

section \<open>The reader\<close>

record PACKET =
  pkt_curr :: cptr
  pkt_remaining :: nat

definition packet_forward :: "PACKET \<Rightarrow> nat \<Rightarrow> PACKET" where
  "packet_forward pkt len =
     pkt\<lparr>pkt_curr := ptr_add (pkt_curr pkt) len, pkt_remaining := u64_sub (pkt_remaining pkt) len\<rparr>"

definition PACKET_remaining :: "PACKET \<Rightarrow> nat" where
  "PACKET_remaining pkt = pkt_remaining pkt"

definition PACKET_end :: "PACKET \<Rightarrow> cptr" where
  "PACKET_end pkt = ptr_add (pkt_curr pkt) (pkt_remaining pkt)"

definition PACKET_data :: "PACKET \<Rightarrow> cptr" where
  "PACKET_data pkt = pkt_curr pkt"

text \<open>\<open>None\<close> is the return value 0, which leaves the packet unset.\<close>

definition PACKET_buf_init :: "cptr \<Rightarrow> nat \<Rightarrow> PACKET option" where
  "PACKET_buf_init buf len =
     (if len > SIZE_MAX div 2 then None else Some \<lparr>pkt_curr = buf, pkt_remaining = len\<rparr>)"

definition PACKET_null_init :: PACKET where
  "PACKET_null_init = \<lparr>pkt_curr = NULL, pkt_remaining = 0\<rparr>"

definition PACKET_equal :: "PACKET \<Rightarrow> cptr \<Rightarrow> nat \<Rightarrow> bool option" where
  "PACKET_equal pkt ptr num =
     (if PACKET_remaining pkt \<noteq> num then Some False
      else do {
        a \<leftarrow> ptr_read (pkt_curr pkt) num;
        b \<leftarrow> ptr_read ptr num;
        Some (a = b) })"

definition PACKET_peek_sub_packet :: "nat \<Rightarrow> PACKET \<Rightarrow> PACKET option option" where
  "PACKET_peek_sub_packet len pkt =
     (if PACKET_remaining pkt < len then Some None
      else Some (PACKET_buf_init (pkt_curr pkt) len))"

text \<open>The shape of the \<open>get\<close> functions: \<open>if (!peek(pkt, data)) return 0; packet_forward(pkt, n);\<close>.\<close>

definition peek_then_forward ::
    "(PACKET \<Rightarrow> 'a option option) \<Rightarrow> nat \<Rightarrow> PACKET \<Rightarrow> ('a option \<times> PACKET) option" where
  "peek_then_forward peek n pkt =
     (case peek pkt of
        None \<Rightarrow> None
      | Some None \<Rightarrow> Some (None, pkt)
      | Some (Some data) \<Rightarrow> Some (Some data, packet_forward pkt n))"

definition PACKET_get_sub_packet :: "nat \<Rightarrow> PACKET \<Rightarrow> (PACKET option \<times> PACKET) option" where
  "PACKET_get_sub_packet len = peek_then_forward (PACKET_peek_sub_packet len) len"

subsection \<open>Integers\<close>

text \<open>The results of type \<open>unsigned int\<close>, \<open>unsigned long\<close> and \<open>uint64_t\<close> are 64-bit words; no shift
  of the code leaves the narrower types.\<close>

definition PACKET_peek_net_2 :: "PACKET \<Rightarrow> u64 option option" where
  "PACKET_peek_net_2 pkt =
     (if PACKET_remaining pkt < 2 then Some None
      else do {
        b0 \<leftarrow> ptr_byte (pkt_curr pkt) 0;
        b1 \<leftarrow> ptr_byte (pkt_curr pkt) 1;
        Some (Some (push_bit 8 (ucast b0) OR ucast b1)) })"

definition PACKET_get_net_2 :: "PACKET \<Rightarrow> (u64 option \<times> PACKET) option" where
  "PACKET_get_net_2 = peek_then_forward PACKET_peek_net_2 2"

definition cast_result :: "('a \<Rightarrow> 'b) \<Rightarrow> ('a option \<times> PACKET) option \<Rightarrow> ('b option \<times> PACKET) option" where
  "cast_result f = map_option (\<lambda>(r, pkt). (map_option f r, pkt))"

definition PACKET_get_net_2_len :: "PACKET \<Rightarrow> (nat option \<times> PACKET) option" where
  "PACKET_get_net_2_len pkt = cast_result unat (PACKET_get_net_2 pkt)"

definition PACKET_peek_net_3 :: "PACKET \<Rightarrow> u64 option option" where
  "PACKET_peek_net_3 pkt =
     (if PACKET_remaining pkt < 3 then Some None
      else do {
        b0 \<leftarrow> ptr_byte (pkt_curr pkt) 0;
        b1 \<leftarrow> ptr_byte (pkt_curr pkt) 1;
        b2 \<leftarrow> ptr_byte (pkt_curr pkt) 2;
        Some (Some (push_bit 16 (ucast b0) OR push_bit 8 (ucast b1) OR ucast b2)) })"

definition PACKET_get_net_3 :: "PACKET \<Rightarrow> (u64 option \<times> PACKET) option" where
  "PACKET_get_net_3 = peek_then_forward PACKET_peek_net_3 3"

definition PACKET_get_net_3_len :: "PACKET \<Rightarrow> (nat option \<times> PACKET) option" where
  "PACKET_get_net_3_len pkt = cast_result unat (PACKET_get_net_3 pkt)"

definition PACKET_peek_net_4 :: "PACKET \<Rightarrow> u64 option option" where
  "PACKET_peek_net_4 pkt =
     (if PACKET_remaining pkt < 4 then Some None
      else do {
        b0 \<leftarrow> ptr_byte (pkt_curr pkt) 0;
        b1 \<leftarrow> ptr_byte (pkt_curr pkt) 1;
        b2 \<leftarrow> ptr_byte (pkt_curr pkt) 2;
        b3 \<leftarrow> ptr_byte (pkt_curr pkt) 3;
        Some (Some (push_bit 24 (ucast b0) OR push_bit 16 (ucast b1) OR push_bit 8 (ucast b2)
                    OR ucast b3)) })"

definition PACKET_peek_net_8 :: "PACKET \<Rightarrow> u64 option option" where
  "PACKET_peek_net_8 pkt =
     (if PACKET_remaining pkt < 8 then Some None
      else do {
        b0 \<leftarrow> ptr_byte (pkt_curr pkt) 0;
        b1 \<leftarrow> ptr_byte (pkt_curr pkt) 1;
        b2 \<leftarrow> ptr_byte (pkt_curr pkt) 2;
        b3 \<leftarrow> ptr_byte (pkt_curr pkt) 3;
        b4 \<leftarrow> ptr_byte (pkt_curr pkt) 4;
        b5 \<leftarrow> ptr_byte (pkt_curr pkt) 5;
        b6 \<leftarrow> ptr_byte (pkt_curr pkt) 6;
        b7 \<leftarrow> ptr_byte (pkt_curr pkt) 7;
        Some (Some (push_bit 56 (ucast b0) OR push_bit 48 (ucast b1) OR push_bit 40 (ucast b2)
                    OR push_bit 32 (ucast b3) OR push_bit 24 (ucast b4) OR push_bit 16 (ucast b5)
                    OR push_bit 8 (ucast b6) OR ucast b7)) })"

definition PACKET_get_net_4 :: "PACKET \<Rightarrow> (u64 option \<times> PACKET) option" where
  "PACKET_get_net_4 = peek_then_forward PACKET_peek_net_4 4"

definition PACKET_get_net_4_len :: "PACKET \<Rightarrow> (nat option \<times> PACKET) option" where
  "PACKET_get_net_4_len pkt = cast_result unat (PACKET_get_net_4 pkt)"

definition PACKET_get_net_4_len_u32 :: "PACKET \<Rightarrow> (32 word option \<times> PACKET) option" where
  "PACKET_get_net_4_len_u32 pkt = cast_result of_nat (PACKET_get_net_4_len pkt)"

definition PACKET_get_net_8 :: "PACKET \<Rightarrow> (u64 option \<times> PACKET) option" where
  "PACKET_get_net_8 = peek_then_forward PACKET_peek_net_8 8"

definition PACKET_peek_1 :: "PACKET \<Rightarrow> u64 option option" where
  "PACKET_peek_1 pkt =
     (if PACKET_remaining pkt = 0 then Some None
      else do {
        b0 \<leftarrow> ptr_byte (pkt_curr pkt) 0;
        Some (Some (ucast b0)) })"

definition PACKET_get_1 :: "PACKET \<Rightarrow> (u64 option \<times> PACKET) option" where
  "PACKET_get_1 = peek_then_forward PACKET_peek_1 1"

definition PACKET_get_1_len :: "PACKET \<Rightarrow> (nat option \<times> PACKET) option" where
  "PACKET_get_1_len pkt = cast_result unat (PACKET_get_1 pkt)"

definition PACKET_peek_4 :: "PACKET \<Rightarrow> u64 option option" where
  "PACKET_peek_4 pkt =
     (if PACKET_remaining pkt < 4 then Some None
      else do {
        b0 \<leftarrow> ptr_byte (pkt_curr pkt) 0;
        b1 \<leftarrow> ptr_byte (pkt_curr pkt) 1;
        b2 \<leftarrow> ptr_byte (pkt_curr pkt) 2;
        b3 \<leftarrow> ptr_byte (pkt_curr pkt) 3;
        Some (Some (ucast b0 OR push_bit 8 (ucast b1) OR push_bit 16 (ucast b2)
                    OR push_bit 24 (ucast b3))) })"

definition PACKET_get_4 :: "PACKET \<Rightarrow> (u64 option \<times> PACKET) option" where
  "PACKET_get_4 = peek_then_forward PACKET_peek_4 4"

subsection \<open>Byte strings\<close>

definition PACKET_peek_bytes :: "nat \<Rightarrow> PACKET \<Rightarrow> cptr option option" where
  "PACKET_peek_bytes len pkt =
     (if PACKET_remaining pkt < len then Some None else Some (Some (pkt_curr pkt)))"

definition PACKET_get_bytes :: "nat \<Rightarrow> PACKET \<Rightarrow> (cptr option \<times> PACKET) option" where
  "PACKET_get_bytes len = peek_then_forward (PACKET_peek_bytes len) len"

text \<open>The copies into a caller's buffer \<open>data\<close> return its new contents.\<close>

definition PACKET_peek_copy_bytes :: "u8 list \<Rightarrow> nat \<Rightarrow> PACKET \<Rightarrow> u8 list option option" where
  "PACKET_peek_copy_bytes data len pkt =
     (if PACKET_remaining pkt < len then Some None
      else do {
        bs \<leftarrow> ptr_read (pkt_curr pkt) len;
        data' \<leftarrow> mem_write data 0 bs;
        Some (Some data') })"

definition PACKET_copy_bytes :: "u8 list \<Rightarrow> nat \<Rightarrow> PACKET \<Rightarrow> (u8 list option \<times> PACKET) option" where
  "PACKET_copy_bytes data len = peek_then_forward (PACKET_peek_copy_bytes data len) len"

definition PACKET_copy_all :: "u8 list \<Rightarrow> nat \<Rightarrow> PACKET \<Rightarrow> (bool \<times> nat \<times> u8 list) option" where
  "PACKET_copy_all dest dest_len pkt =
     (if PACKET_remaining pkt > dest_len then Some (False, 0, dest)
      else do {
        bs \<leftarrow> ptr_read (pkt_curr pkt) (pkt_remaining pkt);
        dest' \<leftarrow> mem_write dest 0 bs;
        Some (True, pkt_remaining pkt, dest') })"

definition CRYPTO_memdup :: "(nat \<Rightarrow> object) \<Rightarrow> cptr \<Rightarrow> nat \<Rightarrow> object option" where
  "CRYPTO_memdup malloc data siz =
     (if fst data = None \<or> siz \<ge> INT_MAX then Some None
      else case malloc siz of
          None \<Rightarrow> Some None
        | Some ret \<Rightarrow> do {
            bs \<leftarrow> ptr_read data siz;
            ret' \<leftarrow> mem_write ret 0 bs;
            Some (Some ret') })"

text \<open>The previous \<open>*data\<close> is freed; the result is the return value, \<open>*data\<close> and \<open>*len\<close>.\<close>

definition PACKET_memdup :: "(nat \<Rightarrow> object) \<Rightarrow> PACKET \<Rightarrow> (bool \<times> object \<times> nat) option" where
  "PACKET_memdup malloc pkt =
     (let length' = PACKET_remaining pkt
      in if length' = 0 then Some (True, None, 0)
         else do {
           data \<leftarrow> CRYPTO_memdup malloc (pkt_curr pkt) length';
           (if data = None then Some (False, None, 0) else Some (True, data, length')) })"

fun OPENSSL_strnlen :: "cptr \<Rightarrow> nat \<Rightarrow> nat option" where
  "OPENSSL_strnlen str 0 = Some 0"
| "OPENSSL_strnlen str (Suc maxlen) =
     (case ptr_byte str 0 of
        None \<Rightarrow> None
      | Some c \<Rightarrow> if c = 0 then Some 0
                  else (case OPENSSL_strnlen (ptr_add str 1) maxlen of
                          None \<Rightarrow> None | Some n \<Rightarrow> Some (Suc n)))"

definition CRYPTO_strndup :: "(nat \<Rightarrow> object) \<Rightarrow> cptr \<Rightarrow> nat \<Rightarrow> object option" where
  "CRYPTO_strndup malloc str s =
     (if fst str = None then Some None
      else do {
        maxlen \<leftarrow> OPENSSL_strnlen str s;
        (case malloc (u64_add maxlen 1) of
           None \<Rightarrow> Some None
         | Some ret \<Rightarrow> do {
             bs \<leftarrow> ptr_read str maxlen;
             ret \<leftarrow> mem_write ret 0 bs;
             ret \<leftarrow> mem_write ret maxlen [0];
             Some (Some ret) }) })"

definition PACKET_strndup :: "(nat \<Rightarrow> object) \<Rightarrow> PACKET \<Rightarrow> (bool \<times> object) option" where
  "PACKET_strndup malloc pkt = do {
     data \<leftarrow> CRYPTO_strndup malloc (pkt_curr pkt) (PACKET_remaining pkt);
     Some (data \<noteq> None, data) }"

definition PACKET_contains_zero_byte :: "PACKET \<Rightarrow> bool option" where
  "PACKET_contains_zero_byte pkt = do {
     bs \<leftarrow> ptr_read (pkt_curr pkt) (pkt_remaining pkt);
     Some (0 \<in> set bs) }"

definition PACKET_forward :: "nat \<Rightarrow> PACKET \<Rightarrow> (unit option \<times> PACKET) option" where
  "PACKET_forward len pkt =
     (if PACKET_remaining pkt < len then Some (None, pkt)
      else Some (Some (), packet_forward pkt len))"

subsection \<open>Length-prefixed vectors\<close>

text \<open>\<open>PACKET tmp = *pkt; ... *pkt = tmp;\<close>: the caller's packet is untouched on failure.\<close>

definition on_copy :: "(PACKET \<Rightarrow> ('a option \<times> PACKET) option) \<Rightarrow> PACKET \<Rightarrow> ('a option \<times> PACKET) option" where
  "on_copy f pkt =
     (case f pkt of
        None \<Rightarrow> None
      | Some (None, tmp) \<Rightarrow> Some (None, pkt)
      | Some (Some a, tmp) \<Rightarrow> Some (Some a, tmp))"

definition PACKET_get_length_prefixed_1 :: "PACKET \<Rightarrow> (PACKET option \<times> PACKET) option" where
  "PACKET_get_length_prefixed_1 = on_copy (
     c_bind PACKET_get_1 (\<lambda>length'.
     c_bind (PACKET_get_bytes (unat length')) (\<lambda>data.
     c_ret (Some \<lparr>pkt_curr = data, pkt_remaining = unat length'\<rparr>))))"

definition PACKET_as_length_prefixed_1 :: "PACKET \<Rightarrow> (PACKET option \<times> PACKET) option" where
  "PACKET_as_length_prefixed_1 = on_copy (
     c_bind PACKET_get_1 (\<lambda>length'.
     c_bind (PACKET_get_bytes (unat length')) (\<lambda>data tmp. if PACKET_remaining tmp \<noteq> 0 then Some (None, tmp)
       else Some (Some \<lparr>pkt_curr = data, pkt_remaining = unat length'\<rparr>, tmp))))"

definition PACKET_get_length_prefixed_2 :: "PACKET \<Rightarrow> (PACKET option \<times> PACKET) option" where
  "PACKET_get_length_prefixed_2 = on_copy (
     c_bind PACKET_get_net_2 (\<lambda>length'.
     c_bind (PACKET_get_bytes (unat length')) (\<lambda>data.
     c_ret (Some \<lparr>pkt_curr = data, pkt_remaining = unat length'\<rparr>))))"

definition PACKET_as_length_prefixed_2 :: "PACKET \<Rightarrow> (PACKET option \<times> PACKET) option" where
  "PACKET_as_length_prefixed_2 = on_copy (
     c_bind PACKET_get_net_2 (\<lambda>length'.
     c_bind (PACKET_get_bytes (unat length')) (\<lambda>data tmp. if PACKET_remaining tmp \<noteq> 0 then Some (None, tmp)
       else Some (Some \<lparr>pkt_curr = data, pkt_remaining = unat length'\<rparr>, tmp))))"

definition PACKET_get_length_prefixed_3 :: "PACKET \<Rightarrow> (PACKET option \<times> PACKET) option" where
  "PACKET_get_length_prefixed_3 = on_copy (
     c_bind PACKET_get_net_3 (\<lambda>length'.
     c_bind (PACKET_get_bytes (unat length')) (\<lambda>data.
     c_ret (Some \<lparr>pkt_curr = data, pkt_remaining = unat length'\<rparr>))))"

subsection \<open>QUIC integers\<close>

text \<open>The common part: the length announced by the first byte, if that many bytes remain.\<close>

definition vlint_enclen :: "PACKET \<Rightarrow> nat option option" where
  "vlint_enclen pkt =
     (if PACKET_remaining pkt < 1 then Some None
      else do {
        b0 \<leftarrow> ptr_byte (pkt_curr pkt) 0;
        let enclen = ossl_quic_vlint_decode_len b0;
        (if PACKET_remaining pkt < enclen then Some None else Some (Some enclen)) })"

definition PACKET_get_quic_vlint :: "PACKET \<Rightarrow> (u64 option \<times> PACKET) option" where
  "PACKET_get_quic_vlint pkt =
     (case vlint_enclen pkt of
        None \<Rightarrow> None
      | Some None \<Rightarrow> Some (None, pkt)
      | Some (Some enclen) \<Rightarrow> do {
          data \<leftarrow> ossl_quic_vlint_decode_unchecked (fst (pkt_curr pkt)) (snd (pkt_curr pkt));
          Some (Some data, packet_forward pkt enclen) })"

definition PACKET_peek_quic_vlint_ex :: "PACKET \<Rightarrow> (u64 \<times> bool) option option" where
  "PACKET_peek_quic_vlint_ex pkt =
     (case vlint_enclen pkt of
        None \<Rightarrow> None
      | Some None \<Rightarrow> Some None
      | Some (Some enclen) \<Rightarrow> do {
          data \<leftarrow> ossl_quic_vlint_decode_unchecked (fst (pkt_curr pkt)) (snd (pkt_curr pkt));
          Some (Some (data, enclen = ossl_quic_vlint_encode_len data)) })"

definition PACKET_peek_quic_vlint :: "PACKET \<Rightarrow> u64 option option" where
  "PACKET_peek_quic_vlint pkt = map_option (map_option fst) (PACKET_peek_quic_vlint_ex pkt)"

definition PACKET_skip_quic_vlint :: "PACKET \<Rightarrow> (unit option \<times> PACKET) option" where
  "PACKET_skip_quic_vlint pkt =
     (case vlint_enclen pkt of
        None \<Rightarrow> None
      | Some None \<Rightarrow> Some (None, pkt)
      | Some (Some enclen) \<Rightarrow> Some (Some (), packet_forward pkt enclen))"

definition PACKET_get_quic_length_prefixed :: "PACKET \<Rightarrow> (PACKET option \<times> PACKET) option" where
  "PACKET_get_quic_length_prefixed = on_copy (
     c_bind PACKET_get_quic_vlint (\<lambda>length'.
       if unat length' > SIZE_MAX then c_ret None
       else c_bind (PACKET_get_bytes (unat length')) (\<lambda>data.
         c_ret (Some \<lparr>pkt_curr = data, pkt_remaining = unat length'\<rparr>))))"

section \<open>Well-formed packets and what a reader does\<close>

text \<open>The bytes not yet consumed can be read; this is what \<open>PACKET_buf_init\<close> is called with.\<close>

definition packet_wf :: "PACKET \<Rightarrow> bool" where
  "packet_wf pkt \<longleftrightarrow> ptr_read (pkt_curr pkt) (pkt_remaining pkt) \<noteq> None
     \<and> pkt_remaining pkt \<le> SIZE_MAX div 2"

definition packet_bytes :: "PACKET \<Rightarrow> u8 list" where
  "packet_bytes pkt = (case ptr_read (pkt_curr pkt) (pkt_remaining pkt) of None \<Rightarrow> [] | Some bs \<Rightarrow> bs)"

lemma packet_wf_read:
  "packet_wf p \<Longrightarrow> ptr_read (pkt_curr p) (pkt_remaining p) = Some (packet_bytes p)"
  by (auto simp: packet_wf_def packet_bytes_def)

lemma packet_wfI:
  "ptr_read (pkt_curr p) (pkt_remaining p) = Some bs \<Longrightarrow> pkt_remaining p \<le> SIZE_MAX div 2
     \<Longrightarrow> packet_wf p \<and> packet_bytes p = bs"
  by (simp add: packet_wf_def packet_bytes_def)

lemma length_packet_bytes: "packet_wf p \<Longrightarrow> length (packet_bytes p) = pkt_remaining p"
  by (metis packet_wf_read length_ptr_read)

lemma packet_remaining_bound: "packet_wf p \<Longrightarrow> pkt_remaining p < U64"
  by (simp add: packet_wf_def)

lemma packet_byte: "packet_wf p \<Longrightarrow> i < pkt_remaining p \<Longrightarrow> ptr_byte (pkt_curr p) i = Some (packet_bytes p ! i)"
  by (metis packet_wf_read ptr_byte_read)

lemma packet_read_prefix:
  "packet_wf p \<Longrightarrow> n \<le> pkt_remaining p \<Longrightarrow> ptr_read (pkt_curr p) n = Some (take n (packet_bytes p))"
  by (metis packet_wf_read ptr_read_prefix)

lemma packet_forward_spec:
  assumes "packet_wf p" "n \<le> pkt_remaining p"
  shows "packet_wf (packet_forward p n) \<and> packet_bytes (packet_forward p n) = drop n (packet_bytes p)"
  using assms ptr_read_drop [OF packet_wf_read]
  by (intro packet_wfI) (auto simp: packet_forward_def u64_sub_exact packet_remaining_bound packet_wf_def)

lemma packet_forward_end:
  "packet_wf p \<Longrightarrow> n \<le> pkt_remaining p \<Longrightarrow> PACKET_end (packet_forward p n) = PACKET_end p"
  by (simp add: PACKET_end_def packet_forward_def ptr_add_def u64_sub_exact packet_remaining_bound)

text \<open>
  \<open>reads f op spec\<close>: on a well-formed packet \<open>op\<close> accesses only the packet's bytes, keeps the packet
  well-formed and its end in place, and succeeds exactly when \<open>spec\<close> accepts the packet's
  bytes, leaving the bytes \<open>spec\<close> leaves.  \<open>f\<close> maps the result of the code to the value of the
  specification, e.g. a pointer to the bytes read through it; it is \<open>Some\<close> for plain values.
\<close>

definition reads :: "('a \<Rightarrow> 'b option) \<Rightarrow> (PACKET \<Rightarrow> ('a option \<times> PACKET) option)
    \<Rightarrow> (u8 list \<Rightarrow> ('b \<times> u8 list) option) \<Rightarrow> bool" where
  "reads f op spec \<longleftrightarrow>
     (\<forall>p. packet_wf p \<longrightarrow>
       (\<exists>r p'. op p = Some (r, p') \<and> packet_wf p' \<and> PACKET_end p' = PACKET_end p
          \<and> (case spec (packet_bytes p) of
               None \<Rightarrow> r = None
             | Some (b, rest) \<Rightarrow> Option.bind r f = Some b \<and> packet_bytes p' = rest)))"

lemma readsI:
  assumes "\<And>p. packet_wf p \<Longrightarrow> spec (packet_bytes p) = None \<Longrightarrow>
      \<exists>p'. op p = Some (None, p') \<and> packet_wf p' \<and> PACKET_end p' = PACKET_end p"
    and "\<And>p b rest. packet_wf p \<Longrightarrow> spec (packet_bytes p) = Some (b, rest) \<Longrightarrow>
      \<exists>a p'. op p = Some (Some a, p') \<and> packet_wf p' \<and> PACKET_end p' = PACKET_end p \<and> f a = Some b
        \<and> packet_bytes p' = rest"
  shows "reads f op spec"
  unfolding reads_def
proof (intro allI impI)
  fix p assume wf: "packet_wf p"
  show "\<exists>r p'. op p = Some (r, p') \<and> packet_wf p' \<and> PACKET_end p' = PACKET_end p
          \<and> (case spec (packet_bytes p) of
               None \<Rightarrow> r = None
             | Some (b, rest) \<Rightarrow> Option.bind r f = Some b \<and> packet_bytes p' = rest)"
  proof (cases "spec (packet_bytes p)")
    case None
    with assms(1) [OF wf] show ?thesis by fastforce
  next
    case (Some br)
    with assms(2) [OF wf, of "fst br" "snd br"] show ?thesis by (cases br) fastforce
  qed
qed

lemma reads_None:
  assumes "reads f op spec" "packet_wf p" "spec (packet_bytes p) = None"
  shows "\<exists>p'. op p = Some (None, p') \<and> packet_wf p' \<and> PACKET_end p' = PACKET_end p"
  using assms unfolding reads_def by fastforce

lemma reads_Some:
  assumes "reads f op spec" "packet_wf p" "spec (packet_bytes p) = Some (b, rest)"
  shows "\<exists>a p'. op p = Some (Some a, p') \<and> packet_wf p' \<and> PACKET_end p' = PACKET_end p \<and> f a = Some b
    \<and> packet_bytes p' = rest"
proof -
  obtain r p' where "op p = Some (r, p')" "packet_wf p'" "PACKET_end p' = PACKET_end p"
    "Option.bind r f = Some b" "packet_bytes p' = rest"
    using assms unfolding reads_def by fastforce
  then show ?thesis by (cases r) auto
qed

text \<open>Sequencing.\<close>

definition p_ret :: "'a \<Rightarrow> u8 list \<Rightarrow> ('a \<times> u8 list) option" where
  "p_ret a bs = Some (a, bs)"

definition p_fail :: "u8 list \<Rightarrow> ('a \<times> u8 list) option" where
  "p_fail bs = None"

definition p_bind ::
    "(u8 list \<Rightarrow> ('a \<times> u8 list) option) \<Rightarrow> ('a \<Rightarrow> u8 list \<Rightarrow> ('b \<times> u8 list) option)
       \<Rightarrow> u8 list \<Rightarrow> ('b \<times> u8 list) option" where
  "p_bind f g bs = (case f bs of None \<Rightarrow> None | Some (a, rest) \<Rightarrow> g a rest)"

lemma reads_ret: "f a = Some b \<Longrightarrow> reads f (c_ret (Some a)) (p_ret b)"
  by (simp add: reads_def c_ret_def p_ret_def)

lemma reads_fail: "reads f (c_ret None) p_fail"
  by (simp add: reads_def c_ret_def p_fail_def)

lemma reads_bind:
  assumes op: "reads f op spec" and g: "\<And>a b. f a = Some b \<Longrightarrow> reads h (g a) (gs b)"
  shows "reads h (c_bind op g) (p_bind spec gs)"
proof (rule readsI)
  fix p assume wf: "packet_wf p" and none: "p_bind spec gs (packet_bytes p) = None"
  show "\<exists>p'. c_bind op g p = Some (None, p') \<and> packet_wf p' \<and> PACKET_end p' = PACKET_end p"
  proof (cases "spec (packet_bytes p)")
    case None
    with reads_None [OF op wf] show ?thesis by (metis c_bind_stop)
  next
    case (Some br)
    then obtain b rest where br: "spec (packet_bytes p) = Some (b, rest)" by (cases br) simp
    with reads_Some [OF op wf br] obtain a p1 where
      a: "op p = Some (Some a, p1)" "packet_wf p1" "PACKET_end p1 = PACKET_end p" "f a = Some b"
        "packet_bytes p1 = rest" by metis
    then have "gs b (packet_bytes p1) = None" using none br by (simp add: p_bind_def)
    from reads_None [OF g [OF a(4)] a(2) this] a show ?thesis by (metis c_bind_step)
  qed
next
  fix p c rest'
  assume wf: "packet_wf p" and some: "p_bind spec gs (packet_bytes p) = Some (c, rest')"
  then obtain b rest where br: "spec (packet_bytes p) = Some (b, rest)" and gs: "gs b rest = Some (c, rest')"
    by (auto simp: p_bind_def split: option.splits)
  from reads_Some [OF op wf br] obtain a p1 where
    a: "op p = Some (Some a, p1)" "packet_wf p1" "PACKET_end p1 = PACKET_end p" "f a = Some b"
      "packet_bytes p1 = rest" by metis
  then have "gs b (packet_bytes p1) = Some (c, rest')" using gs by simp
  from reads_Some [OF g [OF a(4)] a(2) this] a
  show "\<exists>a p'. c_bind op g p = Some (Some a, p') \<and> packet_wf p' \<and> PACKET_end p' = PACKET_end p \<and> h a = Some c
        \<and> packet_bytes p' = rest'"
    by (metis c_bind_step)
qed

lemma reads_bind_plain:
  "reads Some op spec \<Longrightarrow> (\<And>a. reads h (g a) (gs a)) \<Longrightarrow> reads h (c_bind op g) (p_bind spec gs)"
  by (rule reads_bind) auto

lemma reads_on_copy: "reads f op spec \<Longrightarrow> reads f (on_copy op) spec"
  by (fastforce simp: reads_def on_copy_def split: option.splits)

lemma reads_if: "(b \<Longrightarrow> reads f op1 s1) \<Longrightarrow> (\<not> b \<Longrightarrow> reads f op2 s2)
    \<Longrightarrow> reads f (if b then op1 else op2) (if b then s1 else s2)"
  by simp

lemma reads_map:
  assumes "reads Some op spec"
  shows "reads Some (\<lambda>p. cast_result h (op p)) (\<lambda>bs. map_option (\<lambda>(a, rest). (h a, rest)) (spec bs))"
proof (rule readsI)
  fix p assume "packet_wf p" "map_option (\<lambda>(a, rest). (h a, rest)) (spec (packet_bytes p)) = None"
  with reads_None [OF assms] show "\<exists>p'. cast_result h (op p) = Some (None, p') \<and> packet_wf p' \<and> PACKET_end p' = PACKET_end p"
    by (fastforce simp: cast_result_def)
next
  fix p b rest
  assume wf: "packet_wf p" and "map_option (\<lambda>(a, rest). (h a, rest)) (spec (packet_bytes p)) = Some (b, rest)"
  then obtain a where "spec (packet_bytes p) = Some (a, rest)" "b = h a" by auto
  with reads_Some [OF assms wf, of a rest]
  show "\<exists>a p'. cast_result h (op p) = Some (Some a, p') \<and> packet_wf p' \<and> PACKET_end p' = PACKET_end p
      \<and> Some a = Some b \<and> packet_bytes p' = rest"
    by (auto simp: cast_result_def)
qed

section \<open>The readers\<close>

text \<open>A field of \<open>n\<close> bytes, interpreted by \<open>v\<close>.\<close>

definition field_dec :: "nat \<Rightarrow> (u8 list \<Rightarrow> 'a) \<Rightarrow> u8 list \<Rightarrow> ('a \<times> u8 list) option" where
  "field_dec n v bs = (if length bs < n then None else Some (v (take n bs), drop n bs))"

abbreviation net_dec :: "nat \<Rightarrow> u8 list \<Rightarrow> (u64 \<times> u8 list) option" where
  "net_dec n \<equiv> field_dec n word_of_bytes"

abbreviation bytes_dec :: "nat \<Rightarrow> u8 list \<Rightarrow> (u8 list \<times> u8 list) option" where
  "bytes_dec n \<equiv> field_dec n (\<lambda>bs. bs)"

lemma reads_peek_then_forward:
  assumes short: "\<And>p. pkt_remaining p < n \<Longrightarrow> peek p = Some None"
    and enough: "\<And>p. packet_wf p \<Longrightarrow> n \<le> pkt_remaining p \<Longrightarrow>
      \<exists>a. peek p = Some (Some a) \<and> f a = Some (v (take n (packet_bytes p)))"
  shows "reads f (peek_then_forward peek n) (field_dec n v)"
proof (rule readsI)
  fix p assume "packet_wf p" "field_dec n v (packet_bytes p) = None"
  then show "\<exists>p'. peek_then_forward peek n p = Some (None, p') \<and> packet_wf p' \<and> PACKET_end p' = PACKET_end p"
    using short by (auto simp: field_dec_def peek_then_forward_def length_packet_bytes split: if_splits)
next
  fix p b rest assume wf: "packet_wf p" and "field_dec n v (packet_bytes p) = Some (b, rest)"
  then have n: "n \<le> pkt_remaining p" "b = v (take n (packet_bytes p))" "rest = drop n (packet_bytes p)"
    by (auto simp: field_dec_def length_packet_bytes split: if_splits)
  with enough [OF wf] packet_forward_spec [OF wf] packet_forward_end [OF wf]
  show "\<exists>a p'. peek_then_forward peek n p = Some (Some a, p') \<and> packet_wf p' \<and> PACKET_end p' = PACKET_end p
      \<and> f a = Some b \<and> packet_bytes p' = rest"
    by (fastforce simp: peek_then_forward_def)
qed

lemma take_packet_bytes:
  "packet_wf p \<Longrightarrow> n \<le> pkt_remaining p \<Longrightarrow> take n (packet_bytes p) = map ((!) (packet_bytes p)) [0..<n]"
  by (simp add: take_nth length_packet_bytes)

lemmas packet_reader_defs = PACKET_remaining_def packet_byte take_packet_bytes upt_lengths word_of_bytes_lengths

lemma reads_get_1: "reads Some PACKET_get_1 (net_dec 1)"
  unfolding PACKET_get_1_def
  by (rule reads_peek_then_forward) (auto simp: PACKET_peek_1_def packet_reader_defs)

lemma reads_get_net_2: "reads Some PACKET_get_net_2 (net_dec 2)"
  unfolding PACKET_get_net_2_def
  by (rule reads_peek_then_forward) (auto simp: PACKET_peek_net_2_def packet_reader_defs)

lemma reads_get_net_3: "reads Some PACKET_get_net_3 (net_dec 3)"
  unfolding PACKET_get_net_3_def
  by (rule reads_peek_then_forward) (auto simp: PACKET_peek_net_3_def packet_reader_defs)

lemma reads_get_net_4: "reads Some PACKET_get_net_4 (net_dec 4)"
  unfolding PACKET_get_net_4_def
  by (rule reads_peek_then_forward) (auto simp: PACKET_peek_net_4_def packet_reader_defs)

lemma reads_get_net_8: "reads Some PACKET_get_net_8 (net_dec 8)"
  unfolding PACKET_get_net_8_def
  by (rule reads_peek_then_forward) (auto simp: PACKET_peek_net_8_def packet_reader_defs)

lemma reads_get_4: "reads Some PACKET_get_4 (field_dec 4 (\<lambda>bs. word_of_bytes (rev bs)))"
  unfolding PACKET_get_4_def
  by (rule reads_peek_then_forward) (auto simp: PACKET_peek_4_def packet_reader_defs or.commute or.left_commute)

text \<open>The bytes behind a pointer, for the lengths a packet can have.\<close>

definition ptr_view :: "nat \<Rightarrow> cptr \<Rightarrow> u8 list option" where
  "ptr_view n d = (if n \<le> SIZE_MAX div 2 then ptr_read d n else None)"

lemma reads_get_bytes: "reads (ptr_view n) (PACKET_get_bytes n) (bytes_dec n)"
  unfolding PACKET_get_bytes_def
proof (rule reads_peek_then_forward)
  fix p assume "packet_wf p" "n \<le> pkt_remaining p"
  moreover from this have "n \<le> SIZE_MAX div 2" by (simp add: packet_wf_def)
  ultimately show "\<exists>a. PACKET_peek_bytes n p = Some (Some a) \<and> ptr_view n a = Some (take n (packet_bytes p))"
    by (simp add: ptr_view_def PACKET_peek_bytes_def PACKET_remaining_def packet_read_prefix)
qed (simp add: PACKET_peek_bytes_def PACKET_remaining_def)

lemma reads_copy_bytes:
  assumes "n \<le> length data"
  shows "reads Some (PACKET_copy_bytes data n) (field_dec n (\<lambda>bs. bs @ drop n data))"
  unfolding PACKET_copy_bytes_def
  by (rule reads_peek_then_forward)
    (use assms in \<open>auto simp: PACKET_peek_copy_bytes_def PACKET_remaining_def packet_read_prefix
       mem_write_in_bounds length_packet_bytes min_def\<close>)

definition packet_view :: "PACKET \<Rightarrow> u8 list option" where
  "packet_view p = (if packet_wf p then Some (packet_bytes p) else None)"

lemma packet_view_iff: "packet_view p = Some bs \<longleftrightarrow> packet_wf p \<and> packet_bytes p = bs"
  by (auto simp: packet_view_def)

lemma packet_view_ptr:
  "ptr_read d n = Some bs \<Longrightarrow> n \<le> SIZE_MAX div 2 \<Longrightarrow> packet_view \<lparr>pkt_curr = d, pkt_remaining = n\<rparr> = Some bs"
  unfolding packet_view_iff by (rule packet_wfI) auto

lemma reads_get_sub_packet: "reads packet_view (PACKET_get_sub_packet n) (bytes_dec n)"
  unfolding PACKET_get_sub_packet_def
proof (rule reads_peek_then_forward)
  fix p assume p: "packet_wf p" "n \<le> pkt_remaining p"
  then have "n \<le> SIZE_MAX div 2" by (simp add: packet_wf_def)
  with packet_view_ptr [OF packet_read_prefix [OF p]] p
  show "\<exists>a. PACKET_peek_sub_packet n p = Some (Some a) \<and> packet_view a = Some (take n (packet_bytes p))"
    by (auto simp: PACKET_peek_sub_packet_def PACKET_remaining_def PACKET_buf_init_def)
qed (simp add: PACKET_peek_sub_packet_def PACKET_remaining_def)

lemma reads_forward: "reads Some (PACKET_forward n) (field_dec n (\<lambda>_. ()))"
proof -
  have "PACKET_forward n = peek_then_forward (\<lambda>p. Some (if PACKET_remaining p < n then None else Some ())) n"
    by (auto simp: PACKET_forward_def peek_then_forward_def)
  then show ?thesis by (auto intro!: reads_peek_then_forward simp: PACKET_remaining_def)
qed

subsection \<open>Length-prefixed vectors and QUIC integers\<close>

text \<open>A vector whose length is read by \<open>d\<close>.\<close>

definition lp_dec :: "(u8 list \<Rightarrow> (u64 \<times> u8 list) option) \<Rightarrow> u8 list \<Rightarrow> (u8 list \<times> u8 list) option" where
  "lp_dec d = p_bind d (\<lambda>l. bytes_dec (unat l))"

definition at_end :: "'a \<Rightarrow> u8 list \<Rightarrow> ('a \<times> u8 list) option" where
  "at_end a bs = (if bs = [] then Some (a, bs) else None)"

lemma p_bind_ret [simp]: "p_bind f p_ret = f"
  by (rule ext) (simp add: p_bind_def p_ret_def split: option.splits)

lemma sub_packet_view:
  "ptr_view n d = Some bs \<Longrightarrow> packet_view \<lparr>pkt_curr = d, pkt_remaining = n\<rparr> = Some bs"
  by (auto simp: ptr_view_def packet_view_ptr split: if_splits)

lemma reads_length_prefixed:
  assumes "reads Some op d"
  shows "reads packet_view
    (on_copy (c_bind op (\<lambda>l. c_bind (PACKET_get_bytes (unat l))
       (\<lambda>data. c_ret (Some \<lparr>pkt_curr = data, pkt_remaining = unat l\<rparr>))))) (lp_dec d)"
proof -
  have "reads packet_view (c_bind (PACKET_get_bytes n)
       (\<lambda>data. c_ret (Some \<lparr>pkt_curr = data, pkt_remaining = n\<rparr>))) (p_bind (bytes_dec n) p_ret)" for n
    by (intro reads_bind [OF reads_get_bytes] reads_ret sub_packet_view)
  then show ?thesis
    unfolding lp_dec_def by (intro reads_on_copy reads_bind [OF assms]) simp
qed

lemma packet_bytes_Nil_iff: "packet_wf p \<Longrightarrow> packet_bytes p = [] \<longleftrightarrow> pkt_remaining p = 0"
  using length_packet_bytes [of p] by auto

lemma reads_as_length_prefixed:
  assumes "reads Some op d"
  shows "reads packet_view
    (on_copy (c_bind op (\<lambda>l. c_bind (PACKET_get_bytes (unat l))
       (\<lambda>data tmp. if PACKET_remaining tmp \<noteq> 0 then Some (None, tmp)
          else Some (Some \<lparr>pkt_curr = data, pkt_remaining = unat l\<rparr>, tmp)))))
    (p_bind (lp_dec d) at_end)"
proof -
  have fin: "reads packet_view (\<lambda>tmp. if PACKET_remaining tmp \<noteq> 0 then Some (None, tmp)
          else Some (Some \<lparr>pkt_curr = data, pkt_remaining = n\<rparr>, tmp)) (at_end bs)"
    if "ptr_view n data = Some bs" for n data bs
    using sub_packet_view [OF that] packet_bytes_Nil_iff
    by (auto simp: reads_def at_end_def PACKET_remaining_def)
  have "reads packet_view (c_bind (PACKET_get_bytes n)
       (\<lambda>data tmp. if PACKET_remaining tmp \<noteq> 0 then Some (None, tmp)
          else Some (Some \<lparr>pkt_curr = data, pkt_remaining = n\<rparr>, tmp))) (p_bind (bytes_dec n) at_end)" for n
    by (intro reads_bind [OF reads_get_bytes] fin)
  moreover have "p_bind (lp_dec d) at_end = p_bind d (\<lambda>l. p_bind (bytes_dec (unat l)) at_end)"
    by (rule ext) (simp add: lp_dec_def p_bind_def split: option.splits)
  ultimately show ?thesis
    by (simp only:) (intro reads_on_copy reads_bind [OF assms], simp only: option.inject)
qed

lemma reads_get_length_prefixed_1: "reads packet_view PACKET_get_length_prefixed_1 (lp_dec (net_dec 1))"
  unfolding PACKET_get_length_prefixed_1_def by (rule reads_length_prefixed [OF reads_get_1])

lemma reads_get_length_prefixed_2: "reads packet_view PACKET_get_length_prefixed_2 (lp_dec (net_dec 2))"
  unfolding PACKET_get_length_prefixed_2_def by (rule reads_length_prefixed [OF reads_get_net_2])

lemma reads_get_length_prefixed_3: "reads packet_view PACKET_get_length_prefixed_3 (lp_dec (net_dec 3))"
  unfolding PACKET_get_length_prefixed_3_def by (rule reads_length_prefixed [OF reads_get_net_3])

lemma reads_as_length_prefixed_1:
  "reads packet_view PACKET_as_length_prefixed_1 (p_bind (lp_dec (net_dec 1)) at_end)"
  unfolding PACKET_as_length_prefixed_1_def by (rule reads_as_length_prefixed [OF reads_get_1])

lemma reads_as_length_prefixed_2:
  "reads packet_view PACKET_as_length_prefixed_2 (p_bind (lp_dec (net_dec 2)) at_end)"
  unfolding PACKET_as_length_prefixed_2_def by (rule reads_as_length_prefixed [OF reads_get_net_2])

lemma vlint_enclen_spec:
  assumes "packet_wf p"
  shows "vlint_enclen p =
    Some (map_option (\<lambda>(v, rest). length (packet_bytes p) - length rest) (vlint_dec (packet_bytes p)))"
proof (cases "packet_bytes p")
  case Nil
  with length_packet_bytes [OF assms] show ?thesis
    by (simp add: vlint_enclen_def vlint_dec_def PACKET_remaining_def)
next
  case (Cons b bs)
  with length_packet_bytes [OF assms] packet_byte [OF assms, of 0] show ?thesis
    by (auto simp: vlint_enclen_def vlint_dec_def PACKET_remaining_def Let_def)
qed

lemma vlint_dec_drop:
  "vlint_dec bs = Some (v, rest) \<Longrightarrow> rest = drop (length bs - length rest) bs"
  using vlint_dec_SomeD [of bs v rest] by auto

lemma packet_decode_unchecked:
  assumes "packet_wf p" "vlint_dec (packet_bytes p) = Some (v, rest)"
  shows "ossl_quic_vlint_decode_unchecked (fst (pkt_curr p)) (snd (pkt_curr p)) = Some v"
  using vlint_dec_decode_unchecked [OF assms(2)] packet_wf_read [OF assms(1)] length_packet_bytes [OF assms(1)]
  by (simp add: ptr_read_def)

lemma reads_get_quic_vlint: "reads Some PACKET_get_quic_vlint vlint_dec"
proof (rule readsI)
  fix p v rest assume wf: "packet_wf p" and dec: "vlint_dec (packet_bytes p) = Some (v, rest)"
  let ?n = "length (packet_bytes p) - length rest"
  have "?n \<le> pkt_remaining p" using length_packet_bytes [OF wf] by simp
  with packet_forward_spec [OF wf this] packet_forward_end [OF wf this] vlint_dec_drop [OF dec]
    vlint_enclen_spec [OF wf] dec packet_decode_unchecked [OF wf dec]
  show "\<exists>a p'. PACKET_get_quic_vlint p = Some (Some a, p') \<and> packet_wf p' \<and> PACKET_end p' = PACKET_end p
      \<and> Some a = Some v \<and> packet_bytes p' = rest"
    by (simp add: PACKET_get_quic_vlint_def)
qed (simp add: PACKET_get_quic_vlint_def vlint_enclen_spec)

lemma reads_skip_quic_vlint:
  "reads Some PACKET_skip_quic_vlint (\<lambda>bs. map_option (\<lambda>(v, rest). ((), rest)) (vlint_dec bs))"
proof (rule readsI)
  fix p u rest assume wf: "packet_wf p"
    and "map_option (\<lambda>(v, rest). ((), rest)) (vlint_dec (packet_bytes p)) = Some (u, rest)"
  then obtain v where dec: "vlint_dec (packet_bytes p) = Some (v, rest)" by auto
  let ?n = "length (packet_bytes p) - length rest"
  have "?n \<le> pkt_remaining p" using length_packet_bytes [OF wf] by simp
  with packet_forward_spec [OF wf this] packet_forward_end [OF wf this] vlint_dec_drop [OF dec]
    vlint_enclen_spec [OF wf] dec
  show "\<exists>a p'. PACKET_skip_quic_vlint p = Some (Some a, p') \<and> packet_wf p' \<and> PACKET_end p' = PACKET_end p
      \<and> Some a = Some u \<and> packet_bytes p' = rest"
    by (simp add: PACKET_skip_quic_vlint_def)
qed (simp add: PACKET_skip_quic_vlint_def vlint_enclen_spec)

lemma peek_quic_vlint_ex_spec:
  assumes "packet_wf p"
  shows "PACKET_peek_quic_vlint_ex p =
    Some (map_option (\<lambda>(v, rest). (v, length (packet_bytes p) - length rest = ossl_quic_vlint_encode_len v))
      (vlint_dec (packet_bytes p)))"
proof (cases "vlint_dec (packet_bytes p)")
  case (Some vr)
  with packet_decode_unchecked [OF assms, of "fst vr" "snd vr"] show ?thesis
    by (simp add: PACKET_peek_quic_vlint_ex_def vlint_enclen_spec [OF assms] split: prod.splits)
qed (simp add: PACKET_peek_quic_vlint_ex_def vlint_enclen_spec [OF assms])

lemma reads_get_quic_length_prefixed: "reads packet_view PACKET_get_quic_length_prefixed (lp_dec vlint_dec)"
proof -
  have "\<not> unat (l :: u64) > SIZE_MAX" for l
    using unat_u64_less [of l] by simp
  then have "(\<lambda>l. if unat (l :: u64) > SIZE_MAX then c_ret None
       else c_bind (PACKET_get_bytes (unat l)) (\<lambda>data.
         c_ret (Some \<lparr>pkt_curr = data, pkt_remaining = unat l\<rparr>)))
    = (\<lambda>l. c_bind (PACKET_get_bytes (unat l)) (\<lambda>data.
         c_ret (Some \<lparr>pkt_curr = data, pkt_remaining = unat l\<rparr>)))"
    by (simp only: if_False)
  then show ?thesis
    unfolding PACKET_get_quic_length_prefixed_def
    using reads_length_prefixed [OF reads_get_quic_vlint] by simp
qed

subsection \<open>Copies\<close>

lemma copy_all_spec:
  assumes "packet_wf p" "dest_len \<le> length dest"
  shows "PACKET_copy_all dest dest_len p =
    Some (if pkt_remaining p > dest_len then (False, 0, dest)
          else (True, pkt_remaining p, packet_bytes p @ drop (pkt_remaining p) dest))"
  using assms
  by (simp add: PACKET_copy_all_def PACKET_remaining_def packet_wf_read mem_write_in_bounds length_packet_bytes)

lemma strnlen_spec:
  "ptr_read str n = Some bs \<Longrightarrow> OPENSSL_strnlen str n = Some (length (takeWhile (\<lambda>c. c \<noteq> 0) bs))"
proof (induction str n arbitrary: bs rule: OPENSSL_strnlen.induct)
  case (2 str n)
  from "2.prems" have "length bs = Suc n" by (rule length_ptr_read)
  then obtain b bs' where bs: "bs = b # bs'" by (cases bs) auto
  have b: "ptr_byte str 0 = Some b" using ptr_byte_read [OF "2.prems", of 0] bs by simp
  have "ptr_read (ptr_add str 1) n = Some bs'"
    using ptr_read_drop [OF "2.prems", of 1] bs by (simp add: One_nat_def)
  with "2.IH" [OF b] b bs show ?case by simp
qed simp

lemma memdup_spec:
  assumes "packet_wf p" "malloc_ok malloc"
  shows "PACKET_memdup malloc p =
    Some (if pkt_remaining p = 0 then (True, None, 0)
          else if pkt_remaining p \<ge> INT_MAX \<or> malloc (pkt_remaining p) = None then (False, None, 0)
          else (True, Some (packet_bytes p), pkt_remaining p))"
proof -
  have "fst (pkt_curr p) = None \<longrightarrow> pkt_remaining p = 0"
    using packet_wf_read [OF assms(1)] by (auto simp: ptr_read_def mem_read_def split: if_splits option.splits)
  moreover have "length b = pkt_remaining p" if "malloc (pkt_remaining p) = Some b" for b
    using that assms(2) by (simp add: malloc_ok_def)
  ultimately show ?thesis
    using packet_wf_read [OF assms(1)] length_packet_bytes [OF assms(1)]
    by (auto simp: PACKET_memdup_def CRYPTO_memdup_def PACKET_remaining_def mem_write_in_bounds Let_def
        split: option.splits)
qed

text \<open>The duplicate is the part before the first zero byte, terminated.\<close>

lemma strndup_spec:
  assumes "packet_wf p" "malloc_ok malloc" "fst (pkt_curr p) \<noteq> None"
  shows "PACKET_strndup malloc p =
    Some (let str = takeWhile (\<lambda>c. c \<noteq> 0) (packet_bytes p)
          in if malloc (length str + 1) = None then (False, None) else (True, Some (str @ [0])))"
proof -
  let ?str = "takeWhile (\<lambda>c. c \<noteq> 0) (packet_bytes p)"
  have len: "length ?str \<le> pkt_remaining p"
    using length_takeWhile_le [of "\<lambda>c. c \<noteq> 0" "packet_bytes p"] length_packet_bytes [OF assms(1)] by simp
  then have add: "u64_add (length ?str) 1 = length ?str + 1"
    using assms(1) by (intro u64_add_exact) (simp add: packet_wf_def)
  have read: "ptr_read (pkt_curr p) (length ?str) = Some ?str"
    using packet_read_prefix [OF assms(1) len] by (simp add: takeWhile_eq_take [symmetric])
  have "mem_write b 0 ?str = Some (?str @ drop (length ?str) b)"
      "mem_write (?str @ drop (length ?str) b) (length ?str) [0] = Some (?str @ [0])"
    if "malloc (length ?str + 1) = Some b" for b
    using that assms(2) by (auto simp: malloc_ok_def mem_write_in_bounds)
  with assms(3) add read strnlen_spec [OF packet_wf_read [OF assms(1)]] show ?thesis
    by (auto simp: PACKET_strndup_def CRYPTO_strndup_def PACKET_remaining_def Let_def split: option.splits)
qed

section \<open>Codecs\<close>

text \<open>
  A reader together with an encoding it inverts.  \<open>enc\<close> is a byte-list function; the writers
  of the library are shown to produce these bytes elsewhere.
\<close>

locale wire_codec =
  fixes view :: "'a \<Rightarrow> 'b option"
    and op :: "PACKET \<Rightarrow> ('a option \<times> PACKET) option"
    and spec :: "u8 list \<Rightarrow> ('b \<times> u8 list) option"
    and enc :: "'b \<Rightarrow> u8 list"
    and valid :: "'b \<Rightarrow> bool"
  assumes op_reads: "reads view op spec"
    and spec_enc: "valid b \<Longrightarrow> spec (enc b @ rest) = Some (b, rest)"
begin

lemma decode_encoded:
  assumes "packet_wf p" "packet_bytes p = enc b @ rest" "valid b"
  shows "\<exists>a p'. op p = Some (Some a, p') \<and> view a = Some b \<and> packet_wf p' \<and> packet_bytes p' = rest"
  using reads_Some [OF op_reads assms(1)] spec_enc [OF assms(3)] assms(2) by metis

lemma unambiguous:
  assumes "valid a" "valid b" "enc a @ r = enc b @ s"
  shows "a = b \<and> r = s"
  using spec_enc [OF assms(1), of r] spec_enc [OF assms(2), of s] assms(3) by (metis option.inject prod.inject)

lemma prefixed:
  assumes "reads view' op' spec'" "valid b" "packet_wf p" "packet_bytes p = enc b @ rest"
    "spec' rest = Some (c, rest')"
  shows "\<exists>a p'. c_bind op (\<lambda>_. op') p = Some (Some a, p') \<and> view' a = Some c \<and> packet_wf p'
    \<and> packet_bytes p' = rest'"
proof -
  have "reads view' (c_bind op (\<lambda>_. op')) (p_bind spec (\<lambda>_. spec'))"
    by (intro reads_bind [OF op_reads] assms)
  moreover have "p_bind spec (\<lambda>_. spec') (packet_bytes p) = Some (c, rest')"
    using assms spec_enc by (simp add: p_bind_def)
  ultimately show ?thesis using reads_Some assms(3) by metis
qed

end

lemma net_dec_bytes_of_word:
  assumes "n \<le> 8" "unat v < 2 ^ (8 * n)"
  shows "net_dec n (bytes_of_word n v @ rest) = Some (v, rest)"
proof -
  have "take_bit (8 * n) v = v"
    using assms(2) by (metis take_bit_nat_eq_self_iff unsigned_take_bit_eq unsigned_word_eqI)
  with word_of_bytes_of_word [OF assms(1), of v] show ?thesis by (simp add: field_dec_def)
qed

lemma lp_dec_encode:
  assumes "\<And>r. d (e @ r) = Some (of_nat (length bs), r)" "length bs < U64"
  shows "lp_dec d ((e @ bs) @ rest) = Some (bs, rest)"
  using assms by (simp add: lp_dec_def p_bind_def field_dec_def unat_u64_of_nat)

lemmas reading = reads_bind_plain reads_if reads_ret reads_fail reads_get_1 reads_get_net_2 reads_get_net_8 reads_get_quic_vlint

interpretation net1: wire_codec Some PACKET_get_1 "net_dec 1" "bytes_of_word 1" "\<lambda>v. unat v < 2 ^ 8"
  by unfold_locales (rule reads_get_1, simp add: net_dec_bytes_of_word)

interpretation net2: wire_codec Some PACKET_get_net_2 "net_dec 2" "bytes_of_word 2" "\<lambda>v. unat v < 2 ^ 16"
  by unfold_locales (rule reads_get_net_2, simp add: net_dec_bytes_of_word)

interpretation net3: wire_codec Some PACKET_get_net_3 "net_dec 3" "bytes_of_word 3" "\<lambda>v. unat v < 2 ^ 24"
  by unfold_locales (rule reads_get_net_3, simp add: net_dec_bytes_of_word)

interpretation net4: wire_codec Some PACKET_get_net_4 "net_dec 4" "bytes_of_word 4" "\<lambda>v. unat v < 2 ^ 32"
  by unfold_locales (rule reads_get_net_4, simp add: net_dec_bytes_of_word)

interpretation net8: wire_codec Some PACKET_get_net_8 "net_dec 8" "bytes_of_word 8" "\<lambda>_. True"
  by unfold_locales (rule reads_get_net_8, use unat_u64_less in \<open>simp add: net_dec_bytes_of_word\<close>)

interpretation vlint: wire_codec Some PACKET_get_quic_vlint vlint_dec ossl_quic_vlint_encode
    "\<lambda>v. unat v < 2 ^ 62"
  by unfold_locales (rule reads_get_quic_vlint, rule vlint_dec_encode)

interpretation lp2: wire_codec packet_view PACKET_get_length_prefixed_2 "lp_dec (net_dec 2)"
    "\<lambda>bs. bytes_of_word 2 (of_nat (length bs)) @ bs" "\<lambda>bs. length bs < 2 ^ 16"
  by unfold_locales (rule reads_get_length_prefixed_2,
      rule lp_dec_encode, simp_all add: net2.spec_enc unat_u64_of_nat)

interpretation qlp: wire_codec packet_view PACKET_get_quic_length_prefixed "lp_dec vlint_dec"
    "\<lambda>bs. ossl_quic_vlint_encode (of_nat (length bs)) @ bs" "\<lambda>bs. length bs < 2 ^ 62"
  by unfold_locales (rule reads_get_quic_length_prefixed,
      rule lp_dec_encode, simp_all add: vlint.spec_enc unat_u64_of_nat)

lemma on_copy_failure: "on_copy f p = Some (None, p') \<Longrightarrow> p' = p"
  by (auto simp: on_copy_def split: option.splits)

lemma lp_dec_split:
  assumes "lp_dec (net_dec n) bs = Some (b, rest)" "n \<le> 8"
  shows "bs = bytes_of_word n (of_nat (length b)) @ b @ rest"
proof -
  have "length (take n bs) = n" and b: "b = take (unat (word_of_bytes (take n bs))) (drop n bs)"
    and rest: "rest = drop (unat (word_of_bytes (take n bs))) (drop n bs)"
    and len: "unat (word_of_bytes (take n bs)) \<le> length (drop n bs)"
    using assms(1) by (auto simp: lp_dec_def p_bind_def field_dec_def split: if_splits option.splits)
  then have "of_nat (length b) = word_of_bytes (take n bs)" by simp
  with bytes_of_word_of_bytes [of "take n bs"] assms(2) \<open>length (take n bs) = n\<close>
  have "bytes_of_word n (of_nat (length b)) = take n bs" by simp
  moreover have "b @ rest = drop n bs" unfolding b rest by (rule append_take_drop_id)
  ultimately show ?thesis by (metis append_take_drop_id)
qed

section \<open>Properties\<close>

text \<open>
  C24.  Every reader is memory safe and refines its byte-list specification: on a packet whose
  unread bytes are readable it stays inside them, fails exactly when the specification fails,
  and otherwise consumes the field and returns its value (integers in network or little-endian
  order, QUIC variable-length integers, pointers and sub-packets onto the field's bytes).
\<close>

theorem packet_readers_refine:
  "reads Some PACKET_get_1 (net_dec 1) \<and> reads Some PACKET_get_net_2 (net_dec 2)
    \<and> reads Some PACKET_get_net_3 (net_dec 3) \<and> reads Some PACKET_get_net_4 (net_dec 4)
    \<and> reads Some PACKET_get_net_8 (net_dec 8)
    \<and> reads Some PACKET_get_4 (field_dec 4 (\<lambda>bs. word_of_bytes (rev bs)))
    \<and> reads Some PACKET_get_quic_vlint vlint_dec
    \<and> reads (ptr_view n) (PACKET_get_bytes n) (bytes_dec n)
    \<and> reads packet_view (PACKET_get_sub_packet n) (bytes_dec n)
    \<and> reads Some (PACKET_forward n) (field_dec n (\<lambda>_. ()))
    \<and> reads packet_view PACKET_get_length_prefixed_1 (lp_dec (net_dec 1))
    \<and> reads packet_view PACKET_get_length_prefixed_2 (lp_dec (net_dec 2))
    \<and> reads packet_view PACKET_get_length_prefixed_3 (lp_dec (net_dec 3))
    \<and> reads packet_view PACKET_as_length_prefixed_1 (p_bind (lp_dec (net_dec 1)) at_end)
    \<and> reads packet_view PACKET_as_length_prefixed_2 (p_bind (lp_dec (net_dec 2)) at_end)
    \<and> reads packet_view PACKET_get_quic_length_prefixed (lp_dec vlint_dec)"
  by (intro conjI reads_get_1 reads_get_net_2 reads_get_net_3 reads_get_net_4 reads_get_net_8 reads_get_4
      reads_get_quic_vlint reads_get_bytes reads_get_sub_packet reads_forward reads_get_length_prefixed_1
      reads_get_length_prefixed_2 reads_get_length_prefixed_3 reads_as_length_prefixed_1
      reads_as_length_prefixed_2 reads_get_quic_length_prefixed)

text \<open>
  C25.  Reading a length-prefixed vector either leaves the packet exactly as it was, or splits its
  bytes into the big-endian length, that many bytes of the sub-packet, and the rest, with
  both packets safe to read further.
\<close>

theorem packet_length_prefixed_split:
  assumes "packet_wf p"
    and "(n, op) \<in> {(1, PACKET_get_length_prefixed_1), (2, PACKET_get_length_prefixed_2),
                     (3, PACKET_get_length_prefixed_3)}"
  shows "op p = Some (None, p) \<or>
    (\<exists>sub p'. op p = Some (Some sub, p') \<and> packet_wf sub \<and> packet_wf p'
       \<and> packet_bytes p = bytes_of_word n (of_nat (pkt_remaining sub)) @ packet_bytes sub @ packet_bytes p')"
proof -
  have n: "n \<le> 8" using assms(2) by auto
  have rd: "reads packet_view op (lp_dec (net_dec n))"
    using assms(2) reads_get_length_prefixed_1 reads_get_length_prefixed_2 reads_get_length_prefixed_3 by auto
  have fail: "op p = Some (None, p') \<Longrightarrow> p' = p" for p'
    using assms(2) by (auto simp: PACKET_get_length_prefixed_1_def PACKET_get_length_prefixed_2_def
        PACKET_get_length_prefixed_3_def dest: on_copy_failure)
  show ?thesis
  proof (cases "lp_dec (net_dec n) (packet_bytes p)")
    case None
    with reads_None [OF rd assms(1)] fail show ?thesis by metis
  next
    case (Some br)
    then obtain b rest where br: "lp_dec (net_dec n) (packet_bytes p) = Some (b, rest)" by (cases br) simp
    from reads_Some [OF rd assms(1) br] lp_dec_split [OF br n] show ?thesis
      by (metis packet_view_iff length_packet_bytes)
  qed
qed

theorem packet_length_prefixed_split_witness:
  "\<exists>sub p'. PACKET_get_length_prefixed_2 \<lparr>pkt_curr = (Some [0, 2, 7, 8, 9], 0), pkt_remaining = 5\<rparr>
      = Some (Some sub, p') \<and> packet_wf sub \<and> packet_wf p'
    \<and> packet_bytes \<lparr>pkt_curr = (Some [0, 2, 7, 8, 9], 0), pkt_remaining = 5\<rparr>
      = bytes_of_word 2 (of_nat (pkt_remaining sub)) @ packet_bytes sub @ packet_bytes p'"
proof -
  let ?p = "\<lparr>pkt_curr = (Some [0, 2, 7, 8, 9], 0), pkt_remaining = 5\<rparr> :: PACKET"
  have "packet_wf ?p" by code_simp
  moreover have "PACKET_get_length_prefixed_2 ?p \<noteq> Some (None, ?p)" by code_simp
  ultimately show ?thesis
    using packet_length_prefixed_split [of ?p 2 PACKET_get_length_prefixed_2] by blast
qed

text \<open>
  C29.  \<open>PACKET_memdup\<close> and \<open>PACKET_strndup\<close> return an exact copy of the unread bytes, and of their
  part before the first zero byte followed by a terminator; they fail only when the allocator
  does (or, for \<open>memdup\<close>, from \<open>INT_MAX\<close> bytes on) and never access memory outside the packet or
  the copy.
\<close>

theorem packet_duplicates:
  assumes "packet_wf p" "malloc_ok malloc" "fst (pkt_curr p) \<noteq> None"
  shows "PACKET_memdup malloc p =
      Some (if pkt_remaining p = 0 then (True, None, 0)
            else if pkt_remaining p \<ge> INT_MAX \<or> malloc (pkt_remaining p) = None then (False, None, 0)
            else (True, Some (packet_bytes p), pkt_remaining p))
    \<and> PACKET_strndup malloc p =
      Some (let str = takeWhile (\<lambda>c. c \<noteq> 0) (packet_bytes p)
            in if malloc (length str + 1) = None then (False, None) else (True, Some (str @ [0])))"
  using memdup_spec strndup_spec assms by blast

theorem packet_duplicates_witness:
  "PACKET_strndup (\<lambda>n. if n = 3 then Some [1, 1, 1] else None)
      \<lparr>pkt_curr = (Some [65, 66, 0, 67], 0), pkt_remaining = 4\<rparr> = Some (True, Some [65, 66, 0])"
proof -
  let ?p = "\<lparr>pkt_curr = (Some [65, 66, 0, 67], 0), pkt_remaining = 4\<rparr> :: PACKET"
  let ?m = "\<lambda>n. if n = 3 then Some [1, 1, 1] else None :: object"
  have wf: "packet_wf ?p" by code_simp
  have m: "malloc_ok ?m" by (simp add: malloc_ok_def)
  have bytes: "packet_bytes ?p = [65, 66, 0, 67]" by code_simp
  have "fst (pkt_curr ?p) \<noteq> None" by simp
  from conjunct2 [OF packet_duplicates [OF wf m this]] show ?thesis
    unfolding bytes by simp
qed

end
