(* ===== verification/Wpacket.thy ===== *)
theory Wpacket
  imports Buf_Mem Packet
begin

text \<open>
  \<open>WPACKET\<close>, the packet writer of \<open>crypto/packet.c\<close>: output into a growable buffer, a fixed buffer, or
  nowhere (to measure), forwards or from the end (DER), with nested sub-packets whose length is
  filled in when they are closed.

  An operation is a function \<open>WPACKET \<Rightarrow> ('a option \<times> WPACKET) option\<close>: the inner \<open>None\<close> is the
  return value 0, the outer \<open>None\<close> an access outside the buffer.  A pointer into the buffer is
  an offset, or \<open>None\<close> for \<open>NULL\<close>.  \<open>ossl_assert\<close> is modelled as in builds without debugging:
  the function returns 0.
\<close>

section \<open>State\<close>

record WPACKET_SUB =
  ws_packet_len :: nat
  ws_lenbytes :: nat
  ws_pwritten :: nat
  ws_flags :: nat

text \<open>The chain of \<open>parent\<close> pointers is the list \<open>wp_subs\<close>, innermost first.\<close>

record WPACKET =
  wp_buf :: "BUF_MEM option"
  wp_staticbuf :: "u8 list option"
  wp_curr :: nat
  wp_written :: nat
  wp_maxsize :: nat
  wp_subs :: "WPACKET_SUB list"
  wp_endfirst :: bool

text \<open>The allocators: those of the growable buffer, and whether allocating a \<open>WPACKET_SUB\<close> succeeds in a given
  state.\<close>

record wenv =
  we_malloc :: "nat \<Rightarrow> object"
  we_smalloc :: "nat \<Rightarrow> object"
  we_sub :: "WPACKET \<Rightarrow> bool"

abbreviation (input) WPACKET_FLAGS_NON_ZERO_LENGTH :: nat where
  "WPACKET_FLAGS_NON_ZERO_LENGTH \<equiv> 1"

abbreviation (input) WPACKET_FLAGS_ABANDON_ON_ZERO_LENGTH :: nat where
  "WPACKET_FLAGS_ABANDON_ON_ZERO_LENGTH \<equiv> 2"

abbreviation (input) WPACKET_FLAGS_QUIC_VLINT :: nat where
  "WPACKET_FLAGS_QUIC_VLINT \<equiv> 4"

abbreviation DEFAULT_BUF_SIZE :: nat where
  "DEFAULT_BUF_SIZE \<equiv> 256"

definition GETBUF :: "WPACKET \<Rightarrow> object" where
  "GETBUF pkt =
     (case wp_staticbuf pkt of
        Some b \<Rightarrow> Some b
      | None \<Rightarrow> (case wp_buf pkt of Some bm \<Rightarrow> bm_data bm | None \<Rightarrow> None))"

text \<open>A store of \<open>bs\<close> at the offset \<open>off\<close> of the buffer.\<close>

definition wp_store :: "nat \<Rightarrow> u8 list \<Rightarrow> WPACKET \<Rightarrow> WPACKET option" where
  "wp_store off bs pkt =
     (if bs = [] then Some pkt
      else case wp_staticbuf pkt of
          Some b \<Rightarrow> map_option (\<lambda>b'. pkt\<lparr>wp_staticbuf := Some b'\<rparr>) (mem_write b off bs)
        | None \<Rightarrow>
            (case wp_buf pkt of
               None \<Rightarrow> None
             | Some bm \<Rightarrow>
                 (case bm_data bm of
                    None \<Rightarrow> None
                  | Some d \<Rightarrow>
                      map_option (\<lambda>d'. pkt\<lparr>wp_buf := Some (bm\<lparr>bm_data := Some d'\<rparr>)\<rparr>)
                        (mem_write d off bs))))"

section \<open>Reserving and allocating bytes\<close>

definition WPACKET_get_curr :: "WPACKET \<Rightarrow> nat option option" where
  "WPACKET_get_curr pkt =
     (if GETBUF pkt = None then Some None
      else if wp_endfirst pkt
      then (if wp_curr pkt \<le> wp_maxsize pkt then Some (Some (wp_maxsize pkt - wp_curr pkt)) else None)
      else Some (Some (wp_curr pkt)))"

definition reserve_newlen :: "nat \<Rightarrow> nat \<Rightarrow> nat" where
  "reserve_newlen len buf_length =
     (let reflen = (if len > buf_length then len else buf_length)
      in if reflen > SIZE_MAX div 2 then SIZE_MAX
         else let newlen = u64_mul reflen 2
              in if newlen < DEFAULT_BUF_SIZE then DEFAULT_BUF_SIZE else newlen)"

text \<open>The pointer \<open>*allocbytes\<close> to the reserved bytes.\<close>

definition reserve_ptr :: "nat \<Rightarrow> WPACKET \<Rightarrow> nat option option" where
  "reserve_ptr len pkt = do {
     curr \<leftarrow> WPACKET_get_curr pkt;
     (case curr of
        None \<Rightarrow> Some None
      | Some p \<Rightarrow>
          if wp_endfirst pkt then (if len \<le> p then Some (Some (p - len)) else None)
          else Some (Some p)) }"

definition WPACKET_reserve_bytes :: "wenv \<Rightarrow> nat \<Rightarrow> WPACKET \<Rightarrow> (nat option option \<times> WPACKET) option" where
  "WPACKET_reserve_bytes E len pkt =
     (if \<not> (wp_subs pkt \<noteq> [] \<and> len \<noteq> 0) then Some (None, pkt)
      else if u64_sub (wp_maxsize pkt) (wp_written pkt) < len then Some (None, pkt)
      else do {
        (ok, pkt) \<leftarrow>
          (case wp_buf pkt of
             None \<Rightarrow> Some (True, pkt)
           | Some bm \<Rightarrow>
               if u64_sub (bm_length bm) (wp_written pkt) < len then do {
                 (r, bm) \<leftarrow> BUF_MEM_grow (we_malloc E) (we_smalloc E) (reserve_newlen len (bm_length bm)) bm;
                 Some (r \<noteq> 0, pkt\<lparr>wp_buf := Some bm\<rparr>) }
               else Some (True, pkt));
        (if \<not> ok then Some (None, pkt)
         else map_option (\<lambda>allocbytes. (Some allocbytes, pkt)) (reserve_ptr len pkt)) })"

definition WPACKET_allocate_bytes :: "wenv \<Rightarrow> nat \<Rightarrow> WPACKET \<Rightarrow> (nat option option \<times> WPACKET) option" where
  "WPACKET_allocate_bytes E len =
     c_bind (WPACKET_reserve_bytes E len) (\<lambda>allocbytes pkt.
       Some (Some allocbytes,
         pkt\<lparr>wp_written := u64_add (wp_written pkt) len, wp_curr := u64_add (wp_curr pkt) len\<rparr>))"

definition WPACKET_sub_reserve_bytes ::
    "wenv \<Rightarrow> nat \<Rightarrow> nat \<Rightarrow> WPACKET \<Rightarrow> (nat option option \<times> WPACKET) option" where
  "WPACKET_sub_reserve_bytes E len lenbytes pkt =
     (if wp_endfirst pkt \<and> lenbytes > 0 then Some (None, pkt)
      else c_bind (WPACKET_reserve_bytes E (u64_add lenbytes len))
        (\<lambda>allocbytes. c_ret (Some (map_option (\<lambda>p. p + lenbytes) allocbytes))) pkt)"

section \<open>Initialisation\<close>

definition maxmaxsize :: "nat \<Rightarrow> nat" where
  "maxmaxsize lenbytes =
     (if lenbytes \<ge> 8 \<or> lenbytes = 0 then SIZE_MAX
      else u64_add (u64_sub (push_bit (u64_mul lenbytes 8) 1) 1) lenbytes)"

definition new_sub :: WPACKET_SUB where
  "new_sub = \<lparr>ws_packet_len = 0, ws_lenbytes = 0, ws_pwritten = 0, ws_flags = 0\<rparr>"

definition wpacket_intern_init_len :: "wenv \<Rightarrow> nat \<Rightarrow> WPACKET \<Rightarrow> (unit option \<times> WPACKET) option" where
  "wpacket_intern_init_len E lenbytes pkt =
     (let pkt = pkt\<lparr>wp_curr := 0, wp_written := 0\<rparr>
      in if \<not> we_sub E pkt then Some (None, pkt\<lparr>wp_subs := []\<rparr>)
         else if lenbytes = 0 then Some (Some (), pkt\<lparr>wp_subs := [new_sub]\<rparr>)
         else do {
           let pkt = pkt\<lparr>wp_subs := [new_sub\<lparr>ws_pwritten := lenbytes, ws_lenbytes := lenbytes\<rparr>]\<rparr>;
           (lenchars, pkt) \<leftarrow> WPACKET_allocate_bytes E lenbytes pkt;
           (case lenchars of
              None \<Rightarrow> Some (None, pkt\<lparr>wp_subs := []\<rparr>)
            | Some _ \<Rightarrow> Some (Some (), pkt)) })"

definition WPACKET_init_static_len ::
    "wenv \<Rightarrow> u8 list option \<Rightarrow> nat \<Rightarrow> nat \<Rightarrow> WPACKET \<Rightarrow> (unit option \<times> WPACKET) option" where
  "WPACKET_init_static_len E buf len lenbytes pkt =
     (let max = maxmaxsize lenbytes
      in if \<not> (buf \<noteq> None \<and> len > 0) then Some (None, pkt)
         else wpacket_intern_init_len E lenbytes
           (pkt\<lparr>wp_staticbuf := buf, wp_buf := None,
                wp_maxsize := (if max < len then max else len), wp_endfirst := False\<rparr>))"

definition WPACKET_init_der ::
    "wenv \<Rightarrow> u8 list option \<Rightarrow> nat \<Rightarrow> WPACKET \<Rightarrow> (unit option \<times> WPACKET) option" where
  "WPACKET_init_der E buf len pkt =
     (if \<not> (buf \<noteq> None \<and> len > 0) then Some (None, pkt)
      else wpacket_intern_init_len E 0
        (pkt\<lparr>wp_staticbuf := buf, wp_buf := None, wp_maxsize := len, wp_endfirst := True\<rparr>))"

definition WPACKET_init_len ::
    "wenv \<Rightarrow> BUF_MEM option \<Rightarrow> nat \<Rightarrow> WPACKET \<Rightarrow> (unit option \<times> WPACKET) option" where
  "WPACKET_init_len E buf lenbytes pkt =
     (if buf = None then Some (None, pkt)
      else wpacket_intern_init_len E lenbytes
        (pkt\<lparr>wp_staticbuf := None, wp_buf := buf, wp_maxsize := maxmaxsize lenbytes, wp_endfirst := False\<rparr>))"

definition WPACKET_init :: "wenv \<Rightarrow> BUF_MEM option \<Rightarrow> WPACKET \<Rightarrow> (unit option \<times> WPACKET) option" where
  "WPACKET_init E buf = WPACKET_init_len E buf 0"

definition WPACKET_init_null :: "wenv \<Rightarrow> nat \<Rightarrow> WPACKET \<Rightarrow> (unit option \<times> WPACKET) option" where
  "WPACKET_init_null E lenbytes pkt =
     wpacket_intern_init_len E 0
       (pkt\<lparr>wp_staticbuf := None, wp_buf := None, wp_maxsize := maxmaxsize lenbytes, wp_endfirst := False\<rparr>)"

definition WPACKET_init_null_der :: "wenv \<Rightarrow> WPACKET \<Rightarrow> (unit option \<times> WPACKET) option" where
  "WPACKET_init_null_der E pkt =
     wpacket_intern_init_len E 0
       (pkt\<lparr>wp_staticbuf := None, wp_buf := None, wp_maxsize := SIZE_MAX, wp_endfirst := True\<rparr>)"

text \<open>An update of the innermost sub-packet.\<close>

definition upd_sub :: "(WPACKET_SUB \<Rightarrow> WPACKET_SUB) \<Rightarrow> WPACKET \<Rightarrow> WPACKET" where
  "upd_sub f pkt = pkt\<lparr>wp_subs := (case wp_subs pkt of [] \<Rightarrow> [] | s # ss \<Rightarrow> f s # ss)\<rparr>"

definition WPACKET_set_flags :: "nat \<Rightarrow> WPACKET \<Rightarrow> (unit option \<times> WPACKET) option" where
  "WPACKET_set_flags flags pkt =
     (if wp_subs pkt = [] then Some (None, pkt)
      else Some (Some (), upd_sub (\<lambda>s. s\<lparr>ws_flags := flags\<rparr>) pkt))"

section \<open>Writing values\<close>

text \<open>The loop of \<open>put_value\<close>, from the last byte down; the result is what is left of the value.\<close>

fun put_value_loop :: "nat \<Rightarrow> u64 \<Rightarrow> nat \<Rightarrow> WPACKET \<Rightarrow> (u64 \<times> WPACKET) option" where
  "put_value_loop data value 0 pkt = Some (value, pkt)"
| "put_value_loop data value (Suc len) pkt =
     (case wp_store (data + len) [ucast (value AND 0xff)] pkt of
        None \<Rightarrow> None
      | Some pkt \<Rightarrow> put_value_loop data (drop_bit 8 value) len pkt)"

definition put_value :: "nat option \<Rightarrow> u64 \<Rightarrow> nat \<Rightarrow> WPACKET \<Rightarrow> (unit option \<times> WPACKET) option" where
  "put_value data value len pkt =
     (case data of
        None \<Rightarrow> Some (Some (), pkt)
      | Some p \<Rightarrow> do {
          (value, pkt) \<leftarrow> put_value_loop p value len pkt;
          (if value > 0 then Some (None, pkt) else Some (Some (), pkt)) })"

definition put_quic_value :: "nat option \<Rightarrow> nat \<Rightarrow> nat \<Rightarrow> WPACKET \<Rightarrow> (unit option \<times> WPACKET) option" where
  "put_quic_value data value len pkt =
     (case data of
        None \<Rightarrow> Some (Some (), pkt)
      | Some p \<Rightarrow>
          if ossl_quic_vlint_encode_len (of_nat value) > len then Some (None, pkt)
          else do {
            pkt \<leftarrow> wp_store p (ossl_quic_vlint_encode_n (of_nat value) len) pkt;
            Some (Some (), pkt) })"

definition WPACKET_put_bytes :: "wenv \<Rightarrow> u64 \<Rightarrow> nat \<Rightarrow> WPACKET \<Rightarrow> (unit option \<times> WPACKET) option" where
  "WPACKET_put_bytes E val size' =
     (if \<not> size' \<le> 8 then c_ret None
      else c_bind (WPACKET_allocate_bytes E size') (\<lambda>data. put_value data val size'))"

section \<open>Sub-packets\<close>

text \<open>\<open>while ((tmplen = tmplen >> 8) > 0) numlenbytes++;\<close>\<close>

function num_len_bytes :: "nat \<Rightarrow> nat \<Rightarrow> nat" where
  "num_len_bytes tmplen numlenbytes =
     (let tmplen = drop_bit 8 tmplen
      in if tmplen > 0 then num_len_bytes tmplen (numlenbytes + 1) else numlenbytes)"
  by pat_completeness auto

termination num_len_bytes
  by (relation "measure fst") (auto simp: drop_bit_eq_div div_less_dividend)

text \<open>
  \<open>wpacket_intern_close (pkt, sub, doclose)\<close> for the sub-packet \<open>sub = wp_subs pkt ! i\<close>: the innermost when
  closing, any one when only the lengths are filled in.
\<close>

definition close_length ::
    "wenv \<Rightarrow> WPACKET_SUB \<Rightarrow> bool \<Rightarrow> nat \<Rightarrow> WPACKET \<Rightarrow> (unit option \<times> WPACKET) option" where
  "close_length E sub has_parent packlen pkt =
     (if ws_lenbytes sub > 0 then
        (if GETBUF pkt = None then Some (Some (), pkt)
         else if ws_flags sub AND WPACKET_FLAGS_QUIC_VLINT = 0
         then put_value (Some (ws_packet_len sub)) (of_nat packlen) (ws_lenbytes sub) pkt
         else put_quic_value (Some (ws_packet_len sub)) packlen (ws_lenbytes sub) pkt)
      else if wp_endfirst pkt \<and> has_parent
              \<and> (packlen \<noteq> 0 \<or> ws_flags sub AND WPACKET_FLAGS_ABANDON_ON_ZERO_LENGTH = 0) then
        (let numlenbytes = num_len_bytes packlen 1
         in c_bind (WPACKET_put_bytes E (of_nat packlen) numlenbytes) (\<lambda>_.
              if packlen > 0x7f then WPACKET_put_bytes E (of_nat (numlenbytes OR 0x80)) 1
              else c_ret (Some ())) pkt)
      else Some (Some (), pkt))"

definition wpacket_intern_close :: "wenv \<Rightarrow> nat \<Rightarrow> bool \<Rightarrow> WPACKET \<Rightarrow> (unit option \<times> WPACKET) option" where
  "wpacket_intern_close E i doclose pkt =
     (let sub = wp_subs pkt ! i;
          packlen = u64_sub (wp_written pkt) (ws_pwritten sub)
      in if packlen = 0 \<and> ws_flags sub AND WPACKET_FLAGS_NON_ZERO_LENGTH \<noteq> 0 then Some (None, pkt)
         else
           let abandon = packlen = 0 \<and> ws_flags sub AND WPACKET_FLAGS_ABANDON_ON_ZERO_LENGTH \<noteq> 0
           in if abandon \<and> \<not> doclose then Some (None, pkt)
              else
                let pkt = (if abandon \<and> u64_sub (wp_curr pkt) (ws_lenbytes sub) = ws_packet_len sub
                           then pkt\<lparr>wp_written := u64_sub (wp_written pkt) (ws_lenbytes sub),
                                    wp_curr := u64_sub (wp_curr pkt) (ws_lenbytes sub)\<rparr>
                           else pkt);
                    sub = (if abandon then sub\<lparr>ws_packet_len := 0, ws_lenbytes := 0\<rparr> else sub)
                in c_bind (close_length E sub (i + 1 < length (wp_subs pkt)) packlen) (\<lambda>_ pkt.
                     Some (Some (), if doclose then pkt\<lparr>wp_subs := drop (i + 1) (wp_subs pkt)\<rparr> else pkt)) pkt)"

text \<open>The loop over the chain of sub-packets, from the \<open>i\<close>-th on.\<close>

function fill_lengths_loop :: "wenv \<Rightarrow> nat \<Rightarrow> nat \<Rightarrow> WPACKET \<Rightarrow> (unit option \<times> WPACKET) option" where
  "fill_lengths_loop E n i pkt =
     (if i \<ge> n then Some (Some (), pkt)
      else case wpacket_intern_close E i False pkt of
          None \<Rightarrow> None
        | Some (None, pkt) \<Rightarrow> Some (None, pkt)
        | Some (Some _, pkt) \<Rightarrow> fill_lengths_loop E n (i + 1) pkt)"
  by pat_completeness auto

termination fill_lengths_loop
  by (relation "measure (\<lambda>(E, n, i, pkt). n - i)") auto

definition WPACKET_fill_lengths :: "wenv \<Rightarrow> WPACKET \<Rightarrow> (unit option \<times> WPACKET) option" where
  "WPACKET_fill_lengths E pkt =
     (if wp_subs pkt = [] then Some (None, pkt)
      else fill_lengths_loop E (length (wp_subs pkt)) 0 pkt)"

definition WPACKET_close :: "wenv \<Rightarrow> WPACKET \<Rightarrow> (unit option \<times> WPACKET) option" where
  "WPACKET_close E pkt =
     (if length (wp_subs pkt) \<le> 1 then Some (None, pkt) else wpacket_intern_close E 0 True pkt)"

definition WPACKET_finish :: "wenv \<Rightarrow> WPACKET \<Rightarrow> (unit option \<times> WPACKET) option" where
  "WPACKET_finish E pkt =
     (if length (wp_subs pkt) \<noteq> 1 then Some (None, pkt)
      else c_bind (wpacket_intern_close E 0 True) (\<lambda>_ pkt. Some (Some (), pkt\<lparr>wp_subs := []\<rparr>)) pkt)"

definition WPACKET_start_sub_packet_len :: "wenv \<Rightarrow> nat \<Rightarrow> WPACKET \<Rightarrow> (unit option \<times> WPACKET) option" where
  "WPACKET_start_sub_packet_len E lenbytes pkt =
     (if wp_subs pkt = [] then Some (None, pkt)
      else if lenbytes > 0 \<and> wp_endfirst pkt then Some (None, pkt)
      else if \<not> we_sub E pkt then Some (None, pkt)
      else
        let sub = new_sub\<lparr>ws_pwritten := u64_add (wp_written pkt) lenbytes, ws_lenbytes := lenbytes,
                          ws_packet_len := (if lenbytes = 0 then 0 else wp_written pkt)\<rparr>;
            pkt = pkt\<lparr>wp_subs := sub # wp_subs pkt\<rparr>
        in if lenbytes = 0 then Some (Some (), pkt)
           else c_bind (WPACKET_allocate_bytes E lenbytes) (\<lambda>_. c_ret (Some ())) pkt)"

definition WPACKET_start_sub_packet :: "wenv \<Rightarrow> WPACKET \<Rightarrow> (unit option \<times> WPACKET) option" where
  "WPACKET_start_sub_packet E = WPACKET_start_sub_packet_len E 0"

definition WPACKET_sub_allocate_bytes ::
    "wenv \<Rightarrow> nat \<Rightarrow> nat \<Rightarrow> WPACKET \<Rightarrow> (nat option option \<times> WPACKET) option" where
  "WPACKET_sub_allocate_bytes E len lenbytes =
     c_bind (WPACKET_start_sub_packet_len E lenbytes) (\<lambda>_.
     c_bind (WPACKET_allocate_bytes E len) (\<lambda>allocbytes.
     c_bind (WPACKET_close E) (\<lambda>_. c_ret (Some allocbytes))))"

section \<open>The remaining operations\<close>

definition WPACKET_set_max_size :: "nat \<Rightarrow> WPACKET \<Rightarrow> (unit option \<times> WPACKET) option" where
  "WPACKET_set_max_size maxsize pkt =
     (if wp_subs pkt = [] then Some (None, pkt)
      else
        let sub = last (wp_subs pkt);
            lenbytes = (if ws_lenbytes sub = 0 then 8 else ws_lenbytes sub)
        in if maxmaxsize lenbytes < maxsize \<or> maxsize < wp_written pkt then Some (None, pkt)
           else Some (Some (), pkt\<lparr>wp_maxsize := maxsize\<rparr>))"

definition WPACKET_memset :: "wenv \<Rightarrow> u8 \<Rightarrow> nat \<Rightarrow> WPACKET \<Rightarrow> (unit option \<times> WPACKET) option" where
  "WPACKET_memset E ch len =
     (if len = 0 then c_ret (Some ())
      else c_bind (WPACKET_allocate_bytes E len) (\<lambda>dest pkt.
        case dest of
          None \<Rightarrow> Some (Some (), pkt)
        | Some p \<Rightarrow> map_option (\<lambda>pkt. (Some (), pkt)) (wp_store p (replicate len ch) pkt)))"

definition WPACKET_memcpy :: "wenv \<Rightarrow> cptr \<Rightarrow> nat \<Rightarrow> WPACKET \<Rightarrow> (unit option \<times> WPACKET) option" where
  "WPACKET_memcpy E src len =
     (if len = 0 then c_ret (Some ())
      else c_bind (WPACKET_allocate_bytes E len) (\<lambda>dest pkt.
        case dest of
          None \<Rightarrow> Some (Some (), pkt)
        | Some p \<Rightarrow> do {
            bs \<leftarrow> ptr_read src len;
            pkt \<leftarrow> wp_store p bs pkt;
            Some (Some (), pkt) }))"

definition WPACKET_sub_memcpy :: "wenv \<Rightarrow> cptr \<Rightarrow> nat \<Rightarrow> nat \<Rightarrow> WPACKET \<Rightarrow> (unit option \<times> WPACKET) option" where
  "WPACKET_sub_memcpy E src len lenbytes =
     c_bind (WPACKET_start_sub_packet_len E lenbytes) (\<lambda>_.
     c_bind (WPACKET_memcpy E src len) (\<lambda>_. WPACKET_close E))"

definition WPACKET_get_total_written :: "WPACKET \<Rightarrow> nat" where
  "WPACKET_get_total_written pkt = wp_written pkt"

definition WPACKET_get_length :: "WPACKET \<Rightarrow> nat option" where
  "WPACKET_get_length pkt =
     (case wp_subs pkt of [] \<Rightarrow> None | s # _ \<Rightarrow> Some (u64_sub (wp_written pkt) (ws_pwritten s)))"

definition WPACKET_is_null_buf :: "WPACKET \<Rightarrow> bool" where
  "WPACKET_is_null_buf pkt \<longleftrightarrow> wp_buf pkt = None \<and> wp_staticbuf pkt = None"

definition WPACKET_cleanup :: "WPACKET \<Rightarrow> WPACKET" where
  "WPACKET_cleanup pkt = pkt\<lparr>wp_subs := []\<rparr>"

section \<open>QUIC\<close>

definition WPACKET_start_quic_sub_packet_bound :: "wenv \<Rightarrow> nat \<Rightarrow> WPACKET \<Rightarrow> (unit option \<times> WPACKET) option" where
  "WPACKET_start_quic_sub_packet_bound E max_len =
     (let enclen = ossl_quic_vlint_encode_len (of_nat max_len)
      in if enclen = 0 then c_ret None
         else c_bind (WPACKET_start_sub_packet_len E enclen) (\<lambda>_ pkt.
           Some (Some (), upd_sub (\<lambda>s. s\<lparr>ws_flags := ws_flags s OR WPACKET_FLAGS_QUIC_VLINT\<rparr>) pkt)))"

definition OSSL_QUIC_VLINT_4B_MIN :: nat where
  "OSSL_QUIC_VLINT_4B_MIN = 16384"

definition WPACKET_start_quic_sub_packet :: "wenv \<Rightarrow> WPACKET \<Rightarrow> (unit option \<times> WPACKET) option" where
  "WPACKET_start_quic_sub_packet E = WPACKET_start_quic_sub_packet_bound E OSSL_QUIC_VLINT_4B_MIN"

definition WPACKET_quic_sub_allocate_bytes ::
    "wenv \<Rightarrow> nat \<Rightarrow> WPACKET \<Rightarrow> (nat option option \<times> WPACKET) option" where
  "WPACKET_quic_sub_allocate_bytes E len =
     c_bind (WPACKET_start_quic_sub_packet_bound E len) (\<lambda>_.
     c_bind (WPACKET_allocate_bytes E len) (\<lambda>allocbytes.
     c_bind (WPACKET_close E) (\<lambda>_. c_ret (Some allocbytes))))"

definition WPACKET_quic_write_vlint :: "wenv \<Rightarrow> u64 \<Rightarrow> WPACKET \<Rightarrow> (unit option \<times> WPACKET) option" where
  "WPACKET_quic_write_vlint E v =
     (let enclen = ossl_quic_vlint_encode_len v
      in if enclen = 0 then c_ret None
         else c_bind (WPACKET_allocate_bytes E enclen) (\<lambda>b pkt.
           case b of
             None \<Rightarrow> None
           | Some p \<Rightarrow> map_option (\<lambda>pkt. (Some (), pkt)) (wp_store p (ossl_quic_vlint_encode v) pkt)))"

section \<open>Invariant\<close>

definition env_ok :: "wenv \<Rightarrow> bool" where
  "env_ok E \<longleftrightarrow> malloc_ok (we_malloc E) \<and> malloc_ok (we_smalloc E)"

text \<open>The sub-packets nest: each starts after the length field, which starts where its parent's
  contents were at that time.\<close>

fun subs_wf :: "nat \<Rightarrow> WPACKET_SUB list \<Rightarrow> bool" where
  "subs_wf n [] \<longleftrightarrow> True"
| "subs_wf n (s # ss) \<longleftrightarrow>
     ws_pwritten s \<le> n \<and> ws_lenbytes s \<le> ws_pwritten s
     \<and> (ws_lenbytes s > 0 \<longrightarrow> ws_packet_len s = ws_pwritten s - ws_lenbytes s)
     \<and> (ws_flags s AND WPACKET_FLAGS_QUIC_VLINT \<noteq> 0 \<longrightarrow> ws_lenbytes s \<in> {1, 2, 4, 8})
     \<and> subs_wf (ws_pwritten s - ws_lenbytes s) ss"

lemma subs_wf_mono: "subs_wf m ss \<Longrightarrow> m \<le> n \<Longrightarrow> subs_wf n ss"
  by (cases ss) auto

definition wpacket_wf :: "WPACKET \<Rightarrow> bool" where
  "wpacket_wf pkt \<longleftrightarrow>
     wp_curr pkt = wp_written pkt \<and> wp_written pkt \<le> wp_maxsize pkt \<and> wp_maxsize pkt \<le> SIZE_MAX
     \<and> subs_wf (wp_written pkt) (wp_subs pkt)
     \<and> (case wp_staticbuf pkt of
          Some b \<Rightarrow> wp_buf pkt = None \<and> wp_maxsize pkt \<le> length b
        | None \<Rightarrow>
            (case wp_buf pkt of
               Some bm \<Rightarrow> \<not> wp_endfirst pkt \<and> buf_mem_wf bm \<and> wp_written pkt \<le> bm_length bm
             | None \<Rightarrow> True))"

text \<open>What has been written.\<close>

definition wp_output :: "WPACKET \<Rightarrow> u8 list" where
  "wp_output pkt =
     (case GETBUF pkt of
        None \<Rightarrow> []
      | Some b \<Rightarrow> if wp_endfirst pkt then drop (wp_maxsize pkt - wp_written pkt) (take (wp_maxsize pkt) b)
                 else take (wp_written pkt) b)"

text \<open>A forward writer with a buffer behind it.\<close>

definition wp_fwd :: "WPACKET \<Rightarrow> bool" where
  "wp_fwd pkt \<longleftrightarrow> wpacket_wf pkt \<and> \<not> wp_endfirst pkt \<and> \<not> WPACKET_is_null_buf pkt"

lemma length_wp_output: "wp_fwd pkt \<Longrightarrow> length (wp_output pkt) = wp_written pkt"
  by (auto simp: wp_fwd_def wpacket_wf_def wp_output_def GETBUF_def WPACKET_is_null_buf_def buf_mem_wf_def
      split: option.splits)

text \<open>\<open>pkt'\<close> is \<open>pkt\<close> with other buffer contents: \<open>out\<close> has been written.\<close>

definition wp_becomes :: "WPACKET \<Rightarrow> WPACKET \<Rightarrow> u8 list \<Rightarrow> bool" where
  "wp_becomes pkt pkt' out \<longleftrightarrow>
     wp_fwd pkt' \<and> wp_maxsize pkt' = wp_maxsize pkt \<and> wp_subs pkt' = wp_subs pkt
     \<and> (wp_staticbuf pkt' = None \<longleftrightarrow> wp_staticbuf pkt = None) \<and> wp_output pkt' = out"

lemma wp_becomes_trans:
  "wp_becomes p1 p2 o2 \<Longrightarrow> wp_becomes p2 p3 o3 \<Longrightarrow> wp_becomes p1 p3 o3"
  by (auto simp: wp_becomes_def)

lemma wp_becomes_written: "wp_becomes p q out \<Longrightarrow> wp_written q = length out"
  by (auto simp: wp_becomes_def length_wp_output)

lemma wp_store_spec:
  assumes fwd: "wp_fwd pkt" and len: "off + length bs \<le> wp_written pkt"
  shows "\<exists>pkt'. wp_store off bs pkt = Some pkt'
    \<and> wp_becomes pkt pkt' (take off (wp_output pkt) @ bs @ drop (off + length bs) (wp_output pkt))"
proof (cases "bs = []")
  case True
  with fwd show ?thesis by (simp add: wp_store_def wp_becomes_def)
next
  case False
  then have off: "off < wp_written pkt" using len by (cases bs) auto
  show ?thesis
  proof (cases "wp_staticbuf pkt")
    case (Some b)
    then have "wp_written pkt \<le> length b" using fwd by (auto simp: wp_fwd_def wpacket_wf_def)
    with Some False fwd len off show ?thesis
      by (auto simp: wp_store_def wp_becomes_def wp_fwd_def wpacket_wf_def mem_write_in_bounds
          WPACKET_is_null_buf_def wp_output_def GETBUF_def min_def drop_take)
  next
    case None
    then obtain bm where bm: "wp_buf pkt = Some bm" "buf_mem_wf bm" "wp_written pkt \<le> bm_length bm"
      using fwd by (auto simp: wp_fwd_def wpacket_wf_def WPACKET_is_null_buf_def split: option.splits)
    obtain d where d: "bm_data bm = Some d" "length d = bm_max bm" "wp_written pkt \<le> length d"
      using bm off by (auto simp: buf_mem_wf_def split: option.splits)
    with None bm False fwd len off show ?thesis
      by (auto simp: wp_store_def wp_becomes_def wp_fwd_def wpacket_wf_def mem_write_in_bounds
          WPACKET_is_null_buf_def wp_output_def GETBUF_def buf_mem_wf_def min_def drop_take)
  qed
qed

text \<open>Bytes allocated and not yet filled: the buffer reaches that far.\<close>

definition wp_space :: "WPACKET \<Rightarrow> nat \<Rightarrow> bool" where
  "wp_space pkt len \<longleftrightarrow>
     wp_written pkt + len \<le> wp_maxsize pkt
     \<and> (case wp_buf pkt of None \<Rightarrow> True | Some bm \<Rightarrow> wp_written pkt + len \<le> bm_length bm)"

lemma reserve_newlen_bounds:
  assumes "bm_length bm \<le> SIZE_MAX" "written \<le> bm_length bm" "0 < len"
  shows "reserve_newlen len (bm_length bm) = SIZE_MAX \<or> written + len \<le> reserve_newlen len (bm_length bm)"
    "0 < reserve_newlen len (bm_length bm)"
  using assms by (auto simp: reserve_newlen_def Let_def u64_mul_def)

lemma grow_in_packet:
  assumes fwd: "wp_fwd pkt" and E: "env_ok E" and buf: "wp_staticbuf pkt = None" "wp_buf pkt = Some bm"
    and len: "0 < len"
  shows "\<exists>r bm'. BUF_MEM_grow (we_malloc E) (we_smalloc E) (reserve_newlen len (bm_length bm)) bm = Some (r, bm')
    \<and> wp_becomes pkt (pkt\<lparr>wp_buf := Some bm'\<rparr>) (wp_output pkt)
    \<and> (r \<noteq> 0 \<longrightarrow> wp_written pkt + len \<le> bm_length bm')"
proof -
  let ?n = "reserve_newlen len (bm_length bm)"
  have bm: "buf_mem_wf bm" "wp_written pkt \<le> bm_length bm" "bm_length bm \<le> bm_max bm" "bm_max bm \<le> PTRDIFF_MAX"
    using fwd buf by (auto simp: wp_fwd_def wpacket_wf_def buf_mem_wf_def)
  have n: "?n = SIZE_MAX \<or> wp_written pkt + len \<le> ?n" "0 < ?n"
    using reserve_newlen_bounds [of bm "wp_written pkt" len] bm len by auto
  from BUF_MEM_grow_spec [OF bm(1), of "we_malloc E" "we_smalloc E" ?n] E obtain r bm' where
    g: "BUF_MEM_grow (we_malloc E) (we_smalloc E) ?n bm = Some (r, bm')"
      "grow_result (we_malloc E) (we_smalloc E) ?n bm (r, bm')" by (auto simp: env_ok_def)
  show ?thesis
  proof (cases "bm_max bm < ?n \<and> alloc_refused (we_malloc E) (we_smalloc E) bm ?n")
    case True
    with g(2) have "r = 0" "bm' = bm" by (simp_all add: grow_result_def)
    moreover have "pkt\<lparr>wp_buf := Some bm\<rparr> = pkt" using buf by simp
    ultimately show ?thesis using g(1) fwd by (simp add: wp_becomes_def)
  next
    case False
    have small: "?n \<noteq> SIZE_MAX"
      using False bm by (auto simp: alloc_refused_def LIMIT_BEFORE_EXPANSION_def)
    then have le: "wp_written pkt + len \<le> ?n" using n by simp
    have r: "buf_mem_wf bm'" "bm_length bm' = ?n" "buf_mem_bytes bm' = grown ?n (buf_mem_bytes bm)"
      using False g(2) by (auto simp: grow_result_def)
    have "take (wp_written pkt) (buf_mem_bytes bm') = take (wp_written pkt) (buf_mem_bytes bm)"
      using r(3) bm(2) le length_buf_mem_bytes [OF bm(1)] by (simp add: grown_def)
    moreover have "wp_output (pkt\<lparr>wp_buf := Some b\<rparr>) = take (wp_written pkt) (buf_mem_bytes b)"
      if "wp_written pkt \<le> bm_length b" for b
      using that buf fwd by (auto simp: wp_output_def GETBUF_def buf_mem_bytes_def wp_fwd_def split: option.splits)
    moreover have "pkt\<lparr>wp_buf := Some bm\<rparr> = pkt" using buf by simp
    ultimately have "wp_output (pkt\<lparr>wp_buf := Some bm'\<rparr>) = wp_output pkt"
      using bm(2) le r(2) by (metis add_leD1)
    moreover have "wp_fwd (pkt\<lparr>wp_buf := Some bm'\<rparr>)"
      using fwd buf r le by (auto simp: wp_fwd_def wpacket_wf_def WPACKET_is_null_buf_def)
    ultimately show ?thesis using g(1) le r(2) by (simp add: wp_becomes_def)
  qed
qed

text \<open>Reserving.  With a fixed buffer it succeeds exactly when the bytes fit.\<close>

lemma reserve_spec:
  assumes fwd: "wp_fwd pkt" and E: "env_ok E" and subs: "wp_subs pkt \<noteq> []" and len: "0 < len"
  shows "\<exists>r pkt'. WPACKET_reserve_bytes E len pkt = Some (r, pkt') \<and> wp_becomes pkt pkt' (wp_output pkt)
    \<and> (r \<noteq> None \<longrightarrow> r = Some (Some (wp_written pkt)) \<and> wp_space pkt' len)
    \<and> (wp_staticbuf pkt \<noteq> None \<longrightarrow> (r \<noteq> None \<longleftrightarrow> wp_written pkt + len \<le> wp_maxsize pkt))"
proof -
  have w: "wp_written pkt \<le> wp_maxsize pkt" "wp_maxsize pkt \<le> SIZE_MAX" "wp_curr pkt = wp_written pkt"
    "\<not> wp_endfirst pkt"
    using fwd by (auto simp: wp_fwd_def wpacket_wf_def)
  then have sub: "u64_sub (wp_maxsize pkt) (wp_written pkt) = wp_maxsize pkt - wp_written pkt"
    by (intro u64_sub_exact) auto
  have refl: "wp_becomes pkt pkt (wp_output pkt)" using fwd by (simp add: wp_becomes_def)
  show ?thesis
  proof (cases "wp_maxsize pkt - wp_written pkt < len")
    case True
    with subs len refl w show ?thesis by (auto simp: WPACKET_reserve_bytes_def sub)
  next
    case fits: False
    show ?thesis
    proof (cases "wp_buf pkt")
      case None
      then have "GETBUF pkt \<noteq> None" "wp_staticbuf pkt \<noteq> None"
        using fwd by (auto simp: wp_fwd_def WPACKET_is_null_buf_def GETBUF_def)
      with None fits subs len refl w show ?thesis
        by (auto simp: WPACKET_reserve_bytes_def sub WPACKET_get_curr_def reserve_ptr_def wp_space_def)
    next
      case (Some bm)
      have stat: "wp_staticbuf pkt = None" using fwd Some by (auto simp: wp_fwd_def wpacket_wf_def split: option.splits)
      have bm: "wp_written pkt \<le> bm_length bm" "bm_length bm \<le> bm_max bm" "bm_max bm \<le> PTRDIFF_MAX" "buf_mem_wf bm"
        using fwd Some stat by (auto simp: wp_fwd_def wpacket_wf_def buf_mem_wf_def)
      then have sub2: "u64_sub (bm_length bm) (wp_written pkt) = bm_length bm - wp_written pkt"
        by (intro u64_sub_exact) auto
      have data: "bm_data b \<noteq> None" if "buf_mem_wf b" "0 < bm_length b" for b
        using that by (auto simp: buf_mem_wf_def split: option.splits)
      have curr: "WPACKET_get_curr q = Some (Some (wp_written pkt))"
        if q: "q = pkt\<lparr>wp_buf := Some b\<rparr>" and b: "buf_mem_wf b" "0 < bm_length b" for q b
        using q data [OF b] w stat by (auto simp: WPACKET_get_curr_def GETBUF_def)
      show ?thesis
      proof (cases "bm_length bm - wp_written pkt < len")
        case True
        obtain r bm' where g: "BUF_MEM_grow (we_malloc E) (we_smalloc E) (reserve_newlen len (bm_length bm)) bm
            = Some (r, bm')" "wp_becomes pkt (pkt\<lparr>wp_buf := Some bm'\<rparr>) (wp_output pkt)"
          "r \<noteq> 0 \<longrightarrow> wp_written pkt + len \<le> bm_length bm'"
          using grow_in_packet [OF fwd E stat Some len] by blast
        have wf': "buf_mem_wf bm'" using g(2) stat by (auto simp: wp_becomes_def wp_fwd_def wpacket_wf_def)
        show ?thesis
        proof (cases "r = 0")
          case r: True
          with g fits True subs len stat Some sub sub2 show ?thesis
            by (simp add: WPACKET_reserve_bytes_def)
        next
          case False
          with g(3) len have "0 < bm_length bm'" by simp
          then have "WPACKET_get_curr (pkt\<lparr>wp_buf := Some bm'\<rparr>) = Some (Some (wp_written pkt))"
            using curr wf' by blast
          with g False fits True subs len stat Some sub sub2 w show ?thesis
            by (auto simp: WPACKET_reserve_bytes_def reserve_ptr_def wp_space_def)
        qed
      next
        case False
        then have "0 < bm_length bm" using len by simp
        from curr [OF _ bm(4) this, of pkt] Some False fits subs len stat sub sub2 refl w bm show ?thesis
          by (auto simp: WPACKET_reserve_bytes_def reserve_ptr_def wp_space_def)
      qed
    qed
  qed
qed

section \<open>What the writers append\<close>

text \<open>
  \<open>writes E op bs\<close>: on a forward writer \<open>op\<close> stays within the buffer; when it succeeds it has appended \<open>bs\<close> and
  left the sub-packets alone; with a fixed buffer and room for \<open>bs\<close> (and memory for sub-packets) it succeeds.
\<close>

definition writes :: "wenv \<Rightarrow> (WPACKET \<Rightarrow> ('a option \<times> WPACKET) option) \<Rightarrow> u8 list \<Rightarrow> bool" where
  "writes E op bs \<longleftrightarrow>
     (\<forall>pkt. env_ok E \<longrightarrow> wp_fwd pkt \<longrightarrow> wp_subs pkt \<noteq> [] \<longrightarrow>
       (\<exists>r pkt'. op pkt = Some (r, pkt')
          \<and> (r \<noteq> None \<longrightarrow> wp_becomes pkt pkt' (wp_output pkt @ bs))
          \<and> (wp_staticbuf pkt \<noteq> None \<longrightarrow> (\<forall>p. we_sub E p) \<longrightarrow>
               wp_written pkt + length bs \<le> wp_maxsize pkt \<longrightarrow> r \<noteq> None)))"

lemma writesI:
  assumes "\<And>pkt. env_ok E \<Longrightarrow> wp_fwd pkt \<Longrightarrow> wp_subs pkt \<noteq> [] \<Longrightarrow>
    \<exists>r pkt'. op pkt = Some (r, pkt')
      \<and> (r \<noteq> None \<longrightarrow> wp_becomes pkt pkt' (wp_output pkt @ bs))
      \<and> (wp_staticbuf pkt \<noteq> None \<longrightarrow> (\<forall>p. we_sub E p) \<longrightarrow>
            wp_written pkt + length bs \<le> wp_maxsize pkt \<longrightarrow> r \<noteq> None)"
  shows "writes E op bs"
  using assms unfolding writes_def by blast

lemma writesE:
  assumes "writes E op bs" "env_ok E" "wp_fwd pkt" "wp_subs pkt \<noteq> []"
  shows "\<exists>r pkt'. op pkt = Some (r, pkt')
      \<and> (r \<noteq> None \<longrightarrow> wp_becomes pkt pkt' (wp_output pkt @ bs))
      \<and> (wp_staticbuf pkt \<noteq> None \<longrightarrow> (\<forall>p. we_sub E p) \<longrightarrow>
            wp_written pkt + length bs \<le> wp_maxsize pkt \<longrightarrow> r \<noteq> None)"
  using assms unfolding writes_def by blast

lemma writes_ret: "writes E (c_ret (Some a)) []"
  by (rule writesI) (simp add: c_ret_def wp_becomes_def)

lemma writes_bind:
  assumes op: "writes E op bs" and g: "\<And>a. writes E (g a) cs"
  shows "writes E (c_bind op g) (bs @ cs)"
proof (rule writesI)
  fix pkt assume E: "env_ok E" and pkt: "wp_fwd pkt" "wp_subs pkt \<noteq> []"
  obtain r p1 where r: "op pkt = Some (r, p1)" "r \<noteq> None \<longrightarrow> wp_becomes pkt p1 (wp_output pkt @ bs)"
    "wp_staticbuf pkt \<noteq> None \<longrightarrow> (\<forall>p. we_sub E p) \<longrightarrow> wp_written pkt + length bs \<le> wp_maxsize pkt \<longrightarrow> r \<noteq> None"
    using writesE [OF op E pkt] by blast
  show "\<exists>r pkt'. c_bind op g pkt = Some (r, pkt')
      \<and> (r \<noteq> None \<longrightarrow> wp_becomes pkt pkt' (wp_output pkt @ bs @ cs))
      \<and> (wp_staticbuf pkt \<noteq> None \<longrightarrow> (\<forall>p. we_sub E p) \<longrightarrow>
            wp_written pkt + length (bs @ cs) \<le> wp_maxsize pkt \<longrightarrow> r \<noteq> None)"
  proof (cases r)
    case None
    with r(1,3) show ?thesis by auto
  next
    case (Some a)
    then have p1: "wp_becomes pkt p1 (wp_output pkt @ bs)" using r(2) by simp
    then have "wp_fwd p1" "wp_subs p1 \<noteq> []" using pkt by (auto simp: wp_becomes_def)
    from writesE [OF g [of a] E this] obtain r2 p2 where
      r2: "g a p1 = Some (r2, p2)" "r2 \<noteq> None \<longrightarrow> wp_becomes p1 p2 (wp_output p1 @ cs)"
        "wp_staticbuf p1 \<noteq> None \<longrightarrow> (\<forall>p. we_sub E p) \<longrightarrow> wp_written p1 + length cs \<le> wp_maxsize p1 \<longrightarrow> r2 \<noteq> None"
      by blast
    have "wp_written p1 = wp_written pkt + length bs"
      using wp_becomes_written [OF p1] length_wp_output [OF pkt(1)] by simp
    moreover have "wp_output p1 = wp_output pkt @ bs" "wp_maxsize p1 = wp_maxsize pkt"
      "wp_staticbuf p1 \<noteq> None \<longleftrightarrow> wp_staticbuf pkt \<noteq> None"
      using p1 by (auto simp: wp_becomes_def)
    ultimately show ?thesis
      using r(1) Some r2 wp_becomes_trans [OF p1] by auto
  qed
qed

text \<open>Allocating \<open>len\<close> bytes and storing \<open>bs\<close> into them.\<close>

lemma allocate_spec:
  assumes fwd: "wp_fwd pkt" and E: "env_ok E" and subs: "wp_subs pkt \<noteq> []" and len: "0 < len"
  shows "\<exists>r pkt'. WPACKET_allocate_bytes E len pkt = Some (r, pkt')
    \<and> (r \<noteq> None \<longrightarrow> r = Some (Some (wp_written pkt)) \<and> (\<exists>g. length g = len \<and> wp_becomes pkt pkt' (wp_output pkt @ g)))
    \<and> (r = None \<longrightarrow> wp_becomes pkt pkt' (wp_output pkt))
    \<and> (wp_staticbuf pkt \<noteq> None \<longrightarrow> (r \<noteq> None \<longleftrightarrow> wp_written pkt + len \<le> wp_maxsize pkt))"
proof -
  obtain r p1 where r: "WPACKET_reserve_bytes E len pkt = Some (r, p1)" "wp_becomes pkt p1 (wp_output pkt)"
    "r \<noteq> None \<longrightarrow> r = Some (Some (wp_written pkt)) \<and> wp_space p1 len"
    "wp_staticbuf pkt \<noteq> None \<longrightarrow> (r \<noteq> None \<longleftrightarrow> wp_written pkt + len \<le> wp_maxsize pkt)"
    using reserve_spec [OF fwd E subs len] by blast
  show ?thesis
  proof (cases r)
    case None
    with r show ?thesis by (simp add: WPACKET_allocate_bytes_def)
  next
    case (Some a)
    then have sp: "wp_space p1 len" "a = Some (wp_written pkt)" using r(3) by auto
    have p1: "wp_fwd p1" using r(2) by (simp add: wp_becomes_def)
    then have w: "wp_curr p1 = wp_written p1" "wp_maxsize p1 < U64" by (auto simp: wp_fwd_def wpacket_wf_def)
    let ?p2 = "p1\<lparr>wp_written := wp_written p1 + len, wp_curr := wp_written p1 + len\<rparr>"
    have add: "u64_add (wp_written p1) len = wp_written p1 + len"
      using sp w by (intro u64_add_exact) (simp add: wp_space_def)
    have fwd2: "wp_fwd ?p2"
      using p1 sp by (auto simp: wp_fwd_def wpacket_wf_def wp_space_def WPACKET_is_null_buf_def
          split: option.splits intro: subs_wf_mono)
    have "take (wp_written p1) (wp_output ?p2) = wp_output p1"
      using p1 by (auto simp: wp_output_def GETBUF_def wp_fwd_def min_def split: option.splits)
    moreover have "wp_output p1 = wp_output pkt" using r(2) by (simp add: wp_becomes_def)
    moreover have "length (drop (wp_written p1) (wp_output ?p2)) = len"
      using length_wp_output [OF fwd2] by simp
    ultimately have "\<exists>g. length g = len \<and> wp_output ?p2 = wp_output pkt @ g"
      by (metis append_take_drop_id)
    then have "\<exists>g. length g = len \<and> wp_becomes pkt ?p2 (wp_output pkt @ g)"
      using fwd2 r(2) by (auto simp: wp_becomes_def)
    with r(1,4) Some sp show ?thesis
      by (simp add: WPACKET_allocate_bytes_def add w(1))
  qed
qed

lemma writes_allocate_store:
  assumes len: "length bs = n" "0 < n"
    and st: "\<And>p pkt. k (Some p) pkt = map_option (\<lambda>pkt. (Some (h p), pkt)) (wp_store p bs pkt)"
  shows "writes E (c_bind (WPACKET_allocate_bytes E n) k) bs"
proof (rule writesI)
  fix pkt assume E: "env_ok E" and pkt: "wp_fwd pkt" "wp_subs pkt \<noteq> []"
  obtain r p1 where r: "WPACKET_allocate_bytes E n pkt = Some (r, p1)"
    "r \<noteq> None \<longrightarrow> r = Some (Some (wp_written pkt)) \<and> (\<exists>g. length g = n \<and> wp_becomes pkt p1 (wp_output pkt @ g))"
    "wp_staticbuf pkt \<noteq> None \<longrightarrow> (r \<noteq> None \<longleftrightarrow> wp_written pkt + n \<le> wp_maxsize pkt)"
    using allocate_spec [OF pkt(1) E pkt(2) len(2)] by blast
  show "\<exists>r pkt'. c_bind (WPACKET_allocate_bytes E n) k pkt = Some (r, pkt')
      \<and> (r \<noteq> None \<longrightarrow> wp_becomes pkt pkt' (wp_output pkt @ bs))
      \<and> (wp_staticbuf pkt \<noteq> None \<longrightarrow> (\<forall>p. we_sub E p) \<longrightarrow>
            wp_written pkt + length bs \<le> wp_maxsize pkt \<longrightarrow> r \<noteq> None)"
  proof (cases r)
    case None
    with r len show ?thesis by auto
  next
    case (Some a)
    then obtain g where a: "a = Some (wp_written pkt)" and g: "length g = n" "wp_becomes pkt p1 (wp_output pkt @ g)"
      using r(2) by auto
    have out: "wp_fwd p1" "wp_output p1 = wp_output pkt @ g" "wp_written p1 = wp_written pkt + n"
      using g wp_becomes_written [OF g(2)] length_wp_output [OF pkt(1)] by (auto simp: wp_becomes_def)
    with wp_store_spec [OF out(1), of "wp_written pkt" bs] len length_wp_output [OF pkt(1)] g
    obtain p2 where p2: "wp_store (wp_written pkt) bs p1 = Some p2" "wp_becomes p1 p2 (wp_output pkt @ bs)"
      by auto
    from wp_becomes_trans [OF g(2) p2(2)] p2(1) r(1) Some a show ?thesis by (simp add: st)
  qed
qed

lemma mem_write_snoc:
  "Option.bind (mem_write b (d + length bs) [c]) (\<lambda>b. mem_write b d bs) = mem_write b d (bs @ [c])"
  by (auto simp: mem_write_def)

lemma wp_store_snoc:
  "Option.bind (wp_store (d + length bs) [c] pkt) (wp_store d bs) = wp_store d (bs @ [c]) pkt"
proof (cases "bs = []")
  case True
  then show ?thesis by (cases "wp_store d [c] pkt") (simp_all add: wp_store_def)
next
  case False
  show ?thesis
  proof (cases "wp_staticbuf pkt")
    case (Some b)
    with False mem_write_snoc [of b d bs c] show ?thesis
      by (cases "mem_write b (d + length bs) [c]"; cases "mem_write b d (bs @ [c])") (auto simp: wp_store_def)
  next
    case None
    show ?thesis
    proof (cases "wp_buf pkt")
      case (Some bm)
      show ?thesis
      proof (cases "bm_data bm")
        case d: (Some b)
        with None Some False mem_write_snoc [of b d bs c] show ?thesis
          by (cases "mem_write b (d + length bs) [c]"; cases "mem_write b d (bs @ [c])") (auto simp: wp_store_def)
      qed (use None Some False in \<open>simp add: wp_store_def\<close>)
    qed (use None False in \<open>simp add: wp_store_def\<close>)
  qed
qed

lemma ucast_and_0xff: "(ucast (v AND 0xff :: u64) :: u8) = ucast v"
proof -
  have "(0xff :: u64) = mask 8" by (simp add: mask_eq_exp_minus_1)
  note m = this
  show ?thesis unfolding m by (rule bit_word_eqI) (auto simp: bit_simps)
qed

lemma put_value_loop_store:
  "put_value_loop d v n pkt =
     map_option (\<lambda>pkt. (drop_bit (8 * n) v, pkt)) (wp_store d (bytes_of_word n v) pkt)"
proof (induction n arbitrary: v pkt)
  case 0
  then show ?case by (simp add: wp_store_def)
next
  case (Suc n)
  have "wp_store d (bytes_of_word (Suc n) v) pkt =
      Option.bind (wp_store (d + n) [ucast v] pkt) (wp_store d (bytes_of_word n (drop_bit 8 v)))"
    using wp_store_snoc [of d "bytes_of_word n (drop_bit 8 v)" "ucast v" pkt] by (simp add: bytes_of_word_Suc)
  then show ?case
    by (cases "wp_store (d + n) [ucast v] pkt") (simp_all add: ucast_and_0xff Suc.IH add.commute)
qed

lemma drop_bit_eq_0: "unat (v :: u64) < 2 ^ n \<Longrightarrow> drop_bit n v = 0"
  by (metis drop_bit_nat_eq div_less unat_drop_bit_eq unsigned_0 unsigned_word_eqI drop_bit_eq_div)

lemma put_value_store:
  assumes "unat v < 2 ^ (8 * n)"
  shows "put_value (Some p) v n pkt = map_option (\<lambda>pkt. (Some (), pkt)) (wp_store p (bytes_of_word n v) pkt)"
  using drop_bit_eq_0 [OF assms]
  by (cases "wp_store p (bytes_of_word n v) pkt") (simp_all add: put_value_def put_value_loop_store)

lemma writes_put_bytes:
  assumes "0 < n" "n \<le> 8" "unat v < 2 ^ (8 * n)"
  shows "writes E (WPACKET_put_bytes E v n) (bytes_of_word n v)"
  unfolding WPACKET_put_bytes_def
  using assms writes_allocate_store [of "bytes_of_word n v" n "\<lambda>data. put_value data v n" "\<lambda>_. ()" E]
  by (simp add: put_value_store)

lemma writes_memcpy:
  assumes "ptr_read src len = Some bs"
  shows "writes E (WPACKET_memcpy E src len) bs"
proof (cases "len = 0")
  case True
  with assms show ?thesis by (simp add: WPACKET_memcpy_def writes_ret)
next
  case False
  have bs: "length bs = len" using length_ptr_read [OF assms] .
  have "writes E (c_bind (WPACKET_allocate_bytes E len) (\<lambda>dest pkt.
        case dest of
          None \<Rightarrow> Some (Some (), pkt)
        | Some p \<Rightarrow> do {
            bs \<leftarrow> ptr_read src len;
            pkt \<leftarrow> wp_store p bs pkt;
            Some (Some (), pkt) })) bs"
    by (rule writes_allocate_store [OF bs]) (use False assms in \<open>auto simp: map_option_case split: option.splits\<close>)
  with False show ?thesis by (simp add: WPACKET_memcpy_def)
qed

lemma writes_memset: "writes E (WPACKET_memset E ch len) (replicate len ch)"
proof (cases "len = 0")
  case True
  then show ?thesis by (simp add: WPACKET_memset_def writes_ret)
next
  case False
  have "writes E (c_bind (WPACKET_allocate_bytes E len) (\<lambda>dest pkt.
        case dest of
          None \<Rightarrow> Some (Some (), pkt)
        | Some p \<Rightarrow> map_option (\<lambda>pkt. (Some (), pkt)) (wp_store p (replicate len ch) pkt))) (replicate len ch)"
    by (rule writes_allocate_store) (use False in auto)
  with False show ?thesis by (simp add: WPACKET_memset_def)
qed

lemma writes_quic_vlint:
  assumes "unat v < 2 ^ 62"
  shows "writes E (WPACKET_quic_write_vlint E v) (ossl_quic_vlint_encode v)"
proof -
  have pos: "0 < ossl_quic_vlint_encode_len v" using encode_len_forms(1) [OF assms] by auto
  have "writes E (c_bind (WPACKET_allocate_bytes E (ossl_quic_vlint_encode_len v)) (\<lambda>b pkt.
           case b of
             None \<Rightarrow> None
           | Some p \<Rightarrow> map_option (\<lambda>pkt. (Some (), pkt)) (wp_store p (ossl_quic_vlint_encode v) pkt)))
     (ossl_quic_vlint_encode v)"
    by (rule writes_allocate_store) (use pos length_encode [OF assms] in auto)
  with pos show ?thesis by (simp add: WPACKET_quic_write_vlint_def Let_def)
qed

lemma quic_vlint_refused:
  "\<not> unat v < 2 ^ 62 \<Longrightarrow> WPACKET_quic_write_vlint E v pkt = Some (None, pkt)"
  by (auto simp: WPACKET_quic_write_vlint_def Let_def encode_len_unat c_ret_def split: if_splits)

section \<open>Sub-packets\<close>

text \<open>What closing a sub-packet with the contents \<open>body\<close> makes of the length field and the contents; \<open>None\<close> when
  closing fails.\<close>

definition sub_result :: "nat \<Rightarrow> nat \<Rightarrow> u8 list \<Rightarrow> u8 list option" where
  "sub_result n flags body =
     (if body = [] \<and> flags AND WPACKET_FLAGS_NON_ZERO_LENGTH \<noteq> 0 then None
      else if body = [] \<and> flags AND WPACKET_FLAGS_ABANDON_ON_ZERO_LENGTH \<noteq> 0 then Some []
      else if n = 0 then Some body
      else if flags AND WPACKET_FLAGS_QUIC_VLINT = 0
      then (if length body < 2 ^ (8 * n) then Some (bytes_of_word n (of_nat (length body)) @ body) else None)
      else (if ossl_quic_vlint_encode_len (of_nat (length body)) \<le> n
            then Some (ossl_quic_vlint_encode_n (of_nat (length body)) n @ body) else None))"

lemma GETBUF_subs [simp]: "GETBUF (pkt\<lparr>wp_subs := ss\<rparr>) = GETBUF pkt"
  by (simp add: GETBUF_def cong: option.case_cong)

lemma reserve_ptr_subs [simp]: "reserve_ptr len (pkt\<lparr>wp_subs := ss\<rparr>) = reserve_ptr len pkt"
  by (simp add: reserve_ptr_def WPACKET_get_curr_def)

lemma reserve_subs:
  assumes "wp_subs pkt \<noteq> []" "ss \<noteq> []"
  shows "WPACKET_reserve_bytes E len (pkt\<lparr>wp_subs := ss\<rparr>) =
    map_option (\<lambda>(r, p). (r, p\<lparr>wp_subs := ss\<rparr>)) (WPACKET_reserve_bytes E len pkt)"
proof -
  have swap: "pkt\<lparr>wp_subs := ss, wp_buf := Some b\<rparr> = pkt\<lparr>wp_buf := Some b, wp_subs := ss\<rparr>" for b
    by simp
  consider "len = 0 \<or> u64_sub (wp_maxsize pkt) (wp_written pkt) < len"
    | "len \<noteq> 0" "\<not> u64_sub (wp_maxsize pkt) (wp_written pkt) < len" "wp_buf pkt = None"
    | bm where "len \<noteq> 0" "\<not> u64_sub (wp_maxsize pkt) (wp_written pkt) < len" "wp_buf pkt = Some bm"
    by (cases "wp_buf pkt") auto
  then show ?thesis
  proof cases
    case 1
    with assms show ?thesis by (auto simp: WPACKET_reserve_bytes_def)
  next
    case 2
    with assms show ?thesis by (simp add: WPACKET_reserve_bytes_def option.map_comp comp_def)
  next
    case 3
    show ?thesis
    proof (cases "u64_sub (bm_length bm) (wp_written pkt) < len")
      case True
      show ?thesis
      proof (cases "BUF_MEM_grow (we_malloc E) (we_smalloc E) (reserve_newlen len (bm_length bm)) bm")
        case None
        with 3 True assms show ?thesis by (simp add: WPACKET_reserve_bytes_def)
      next
        case (Some rb)
        obtain r b where rb: "rb = (r, b)" by (cases rb)
        with 3 True assms Some show ?thesis
          by (simp add: WPACKET_reserve_bytes_def swap option.map_comp comp_def)
      qed
    next
      case False
      with 3 assms show ?thesis by (simp add: WPACKET_reserve_bytes_def option.map_comp comp_def)
    qed
  qed
qed

lemma allocate_subs:
  assumes "wp_subs pkt \<noteq> []" "ss \<noteq> []"
  shows "WPACKET_allocate_bytes E len (pkt\<lparr>wp_subs := ss\<rparr>) =
    map_option (\<lambda>(r, p). (r, p\<lparr>wp_subs := ss\<rparr>)) (WPACKET_allocate_bytes E len pkt)"
proof (cases "WPACKET_reserve_bytes E len pkt")
  case None
  with reserve_subs [OF assms] show ?thesis by (simp add: WPACKET_allocate_bytes_def c_bind_def)
next
  case (Some rp)
  obtain r p where rp: "rp = (r, p)" by (cases rp)
  with Some reserve_subs [OF assms, of E len] show ?thesis
    by (cases r) (simp_all add: WPACKET_allocate_bytes_def)
qed

text \<open>A function that opens a sub-packet with a length field of \<open>n\<close> bytes.\<close>

definition opened_sub :: "nat \<Rightarrow> nat \<Rightarrow> WPACKET \<Rightarrow> WPACKET_SUB" where
  "opened_sub n flags pkt =
     \<lparr>ws_packet_len = (if n = 0 then 0 else wp_written pkt), ws_lenbytes = n,
      ws_pwritten = wp_written pkt + n, ws_flags = flags\<rparr>"

definition opens :: "wenv \<Rightarrow> (WPACKET \<Rightarrow> (unit option \<times> WPACKET) option) \<Rightarrow> nat \<Rightarrow> nat \<Rightarrow> bool" where
  "opens E op n flags \<longleftrightarrow>
     (\<forall>pkt. env_ok E \<longrightarrow> wp_fwd pkt \<longrightarrow> wp_subs pkt \<noteq> [] \<longrightarrow>
       (\<exists>r pkt'. op pkt = Some (r, pkt')
          \<and> (r \<noteq> None \<longrightarrow> (\<exists>g. length g = n
               \<and> wp_becomes (pkt\<lparr>wp_subs := opened_sub n flags pkt # wp_subs pkt\<rparr>) pkt' (wp_output pkt @ g)))
          \<and> (wp_staticbuf pkt \<noteq> None \<longrightarrow> (\<forall>p. we_sub E p) \<longrightarrow>
               wp_written pkt + n \<le> wp_maxsize pkt \<longrightarrow> r \<noteq> None)))"

lemma wp_output_subs [simp]: "wp_output (pkt\<lparr>wp_subs := ss\<rparr>) = wp_output pkt"
  by (simp add: wp_output_def split: option.split)

lemma wp_fwd_subs:
  "wp_fwd pkt \<Longrightarrow> subs_wf (wp_written pkt) ss \<Longrightarrow> wp_fwd (pkt\<lparr>wp_subs := ss\<rparr>)"
  by (auto simp: wp_fwd_def wpacket_wf_def WPACKET_is_null_buf_def split: option.splits)

lemma wp_fwd_subs_wf: "wp_fwd pkt \<Longrightarrow> subs_wf (wp_written pkt) (wp_subs pkt)"
  by (simp add: wp_fwd_def wpacket_wf_def)

lemma opens_start_sub_packet_len: "opens E (WPACKET_start_sub_packet_len E n) n 0"
  unfolding opens_def
proof (intro allI impI)
  fix pkt assume E: "env_ok E" and pkt: "wp_fwd pkt" "wp_subs pkt \<noteq> []"
  let ?ss = "opened_sub n 0 pkt # wp_subs pkt"
  let ?goal = "\<lambda>r pkt'. WPACKET_start_sub_packet_len E n pkt = Some (r, pkt')
          \<and> (r \<noteq> None \<longrightarrow> (\<exists>g. length g = n \<and> wp_becomes (pkt\<lparr>wp_subs := ?ss\<rparr>) pkt' (wp_output pkt @ g)))
          \<and> (wp_staticbuf pkt \<noteq> None \<longrightarrow> (\<forall>p. we_sub E p) \<longrightarrow>
               wp_written pkt + n \<le> wp_maxsize pkt \<longrightarrow> r \<noteq> None)"
  have fwd: "\<not> wp_endfirst pkt" "wp_maxsize pkt < U64" using pkt(1) by (auto simp: wp_fwd_def wpacket_wf_def)
  have new: "new_sub\<lparr>ws_pwritten := wp_written pkt + n, ws_lenbytes := n,
      ws_packet_len := (if n = 0 then 0 else wp_written pkt)\<rparr> = opened_sub n 0 pkt"
    by (simp add: new_sub_def opened_sub_def)
  have wf: "subs_wf (wp_written pkt + n) ?ss"
    using wp_fwd_subs_wf [OF pkt(1)] by (simp add: opened_sub_def)
  show "\<exists>r pkt'. ?goal r pkt'"
  proof (cases "we_sub E pkt")
    case False
    with pkt fwd show ?thesis by (auto simp: WPACKET_start_sub_packet_len_def)
  next
    case True
    show ?thesis
    proof (cases "n = 0")
      case n: True
      have "wp_fwd (pkt\<lparr>wp_subs := ?ss\<rparr>)" using wp_fwd_subs [OF pkt(1)] wf n by simp
      moreover have "u64_add (wp_written pkt) 0 = wp_written pkt + 0"
        using pkt(1) by (intro u64_add_exact) (auto simp: wp_fwd_def wpacket_wf_def)
      ultimately show ?thesis
        using True pkt fwd n new by (simp add: WPACKET_start_sub_packet_len_def Let_def wp_becomes_def)
    next
      case False
      then obtain r p1 where a: "WPACKET_allocate_bytes E n pkt = Some (r, p1)"
        "r \<noteq> None \<longrightarrow> (\<exists>g. length g = n \<and> wp_becomes pkt p1 (wp_output pkt @ g))"
        "wp_staticbuf pkt \<noteq> None \<longrightarrow> (r \<noteq> None \<longleftrightarrow> wp_written pkt + n \<le> wp_maxsize pkt)"
        using allocate_spec [OF pkt(1) E pkt(2), of n] by auto
      have add: "u64_add (wp_written pkt) n = wp_written pkt + n" if "wp_written pkt + n \<le> wp_maxsize pkt"
        using that fwd by (intro u64_add_exact) simp
      show ?thesis
      proof (cases r)
        case None
        with a False True pkt fwd allocate_subs [of pkt _ E n] show ?thesis
          by (auto simp: WPACKET_start_sub_packet_len_def Let_def)
      next
        case (Some q)
        then obtain g where g: "length g = n" "wp_becomes pkt p1 (wp_output pkt @ g)" using a(2) by auto
        have w1: "wp_written p1 = wp_written pkt + n"
          using wp_becomes_written [OF g(2)] length_wp_output [OF pkt(1)] g(1) by simp
        have p1: "wp_fwd p1" "wp_maxsize p1 = wp_maxsize pkt" "wp_staticbuf p1 = None \<longleftrightarrow> wp_staticbuf pkt = None"
          "wp_output p1 = wp_output pkt @ g"
          using g(2) by (auto simp: wp_becomes_def)
        then have "wp_written pkt + n \<le> wp_maxsize pkt" using w1 by (auto simp: wp_fwd_def wpacket_wf_def)
        from add [OF this] have "WPACKET_start_sub_packet_len E n pkt = Some (Some (), p1\<lparr>wp_subs := ?ss\<rparr>)"
          using a(1) Some False True pkt fwd new allocate_subs [of pkt ?ss E n]
          by (simp add: WPACKET_start_sub_packet_len_def Let_def c_ret_def)
        moreover have "wp_fwd (p1\<lparr>wp_subs := ?ss\<rparr>)" using wp_fwd_subs [OF p1(1)] wf w1 by simp
        ultimately show ?thesis using g(1) p1 by (auto simp: wp_becomes_def)
      qed
    qed
  qed
qed

lemma drop_bit_pos_iff: "drop_bit n (v :: u64) > 0 \<longleftrightarrow> \<not> unat v < 2 ^ n"
proof -
  have "drop_bit n v = 0 \<longleftrightarrow> unat (drop_bit n v) = 0" by (simp add: unsigned_eq_0_iff)
  also have "\<dots> \<longleftrightarrow> unat v div 2 ^ n = 0"
    unfolding unat_drop_bit_eq drop_bit_eq_div [of n "unat v"] ..
  also have "\<dots> \<longleftrightarrow> unat v < 2 ^ n" by (simp add: div_eq_0_iff)
  finally show ?thesis by (metis word_gt_0)
qed

lemma put_value_result:
  assumes "wp_store p (bytes_of_word n v) pkt = Some pkt'"
  shows "put_value (Some p) v n pkt = Some (if unat v < 2 ^ (8 * n) then Some () else None, pkt')"
  using assms by (simp add: put_value_def put_value_loop_store drop_bit_pos_iff)

text \<open>Filling in the length field of a forward writer.\<close>

lemma close_length_spec:
  assumes fwd: "wp_fwd pkt" and sub: "0 < ws_lenbytes sub" "ws_packet_len sub = ws_pwritten sub - ws_lenbytes sub"
    "ws_lenbytes sub \<le> ws_pwritten sub" "ws_pwritten sub \<le> wp_written pkt"
    "ws_flags sub AND WPACKET_FLAGS_QUIC_VLINT \<noteq> 0 \<longrightarrow> ws_lenbytes sub \<in> {1, 2, 4, 8}"
    and body: "body = drop (ws_pwritten sub) (wp_output pkt)"
    and res: "\<not> (body = [] \<and> ws_flags sub AND WPACKET_FLAGS_NON_ZERO_LENGTH \<noteq> 0)"
      "\<not> (body = [] \<and> ws_flags sub AND WPACKET_FLAGS_ABANDON_ON_ZERO_LENGTH \<noteq> 0)"
  shows "\<exists>r pkt'. close_length E sub hp (length body) pkt = Some (r, pkt')
    \<and> (case sub_result (ws_lenbytes sub) (ws_flags sub) body of
         None \<Rightarrow> r = None
       | Some bs \<Rightarrow> r = Some () \<and> wp_becomes pkt pkt' (take (ws_packet_len sub) (wp_output pkt) @ bs))"
proof -
  let ?n = "ws_lenbytes sub"
  have len: "length (wp_output pkt) = wp_written pkt" by (rule length_wp_output [OF fwd])
  have "GETBUF pkt \<noteq> None"
    using fwd sub len by (auto simp: wp_output_def split: option.splits)
  have lb: "length body < U64" using len body fwd by (auto simp: wp_fwd_def wpacket_wf_def)
  then have un: "unat (of_nat (length body) :: u64) = length body" by (rule unat_u64_of_nat)
  have end': "ws_packet_len sub + ?n = ws_pwritten sub" using sub by simp
  have store: "\<exists>pkt'. wp_store (ws_packet_len sub) bs pkt = Some pkt'
      \<and> wp_becomes pkt pkt' (take (ws_packet_len sub) (wp_output pkt) @ bs @ body)" if "length bs = ?n" for bs
    using wp_store_spec [OF fwd, of "ws_packet_len sub" bs] that sub end' body by simp
  show ?thesis
  proof (cases "ws_flags sub AND WPACKET_FLAGS_QUIC_VLINT = 0")
    case True
    obtain pkt' where p: "wp_store (ws_packet_len sub) (bytes_of_word ?n (of_nat (length body))) pkt = Some pkt'"
      "wp_becomes pkt pkt' (take (ws_packet_len sub) (wp_output pkt) @ bytes_of_word ?n (of_nat (length body)) @ body)"
      using store [of "bytes_of_word ?n (of_nat (length body))"] by auto
    with True sub(1) res \<open>GETBUF pkt \<noteq> None\<close> un show ?thesis
      by (auto simp: close_length_def put_value_result [OF p(1)] sub_result_def)
  next
    case False
    then have n: "?n \<in> {1, 2, 4, 8}" using sub by simp
    from store [of "ossl_quic_vlint_encode_n (of_nat (length body)) ?n"] length_encode_n [OF n]
    obtain pkt' where p: "wp_store (ws_packet_len sub) (ossl_quic_vlint_encode_n (of_nat (length body)) ?n) pkt = Some pkt'"
      "wp_becomes pkt pkt' (take (ws_packet_len sub) (wp_output pkt)
          @ ossl_quic_vlint_encode_n (of_nat (length body)) ?n @ body)" by auto
    with False sub(1) res \<open>GETBUF pkt \<noteq> None\<close> show ?thesis
      by (auto simp: close_length_def put_quic_value_def sub_result_def)
  qed
qed

lemma length_sub_result:
  assumes "sub_result n flags body = Some bs" "0 < n"
    "flags AND WPACKET_FLAGS_QUIC_VLINT \<noteq> 0 \<longrightarrow> n \<in> {1, 2, 4, 8}"
    "\<not> (body = [] \<and> flags AND WPACKET_FLAGS_ABANDON_ON_ZERO_LENGTH \<noteq> 0)"
  shows "length bs = n + length body"
proof (cases "flags AND WPACKET_FLAGS_QUIC_VLINT = 0")
  case True
  with assms show ?thesis by (auto simp: sub_result_def split: if_splits)
next
  case False
  then have "length (ossl_quic_vlint_encode_n (of_nat (length body)) n) = n"
    using assms(3) length_encode_n by blast
  with False assms(1,2,4) show ?thesis by (auto simp: sub_result_def split: if_splits)
qed

lemma close_spec:
  assumes fwd: "wp_fwd pkt" and subs: "wp_subs pkt = sub # ss" "ss \<noteq> []"
    and body: "body = drop (ws_pwritten sub) (wp_output pkt)"
  shows "\<exists>r pkt'. WPACKET_close E pkt = Some (r, pkt')
    \<and> (case sub_result (ws_lenbytes sub) (ws_flags sub) body of
         None \<Rightarrow> r = None
       | Some bs \<Rightarrow> r = Some ()
           \<and> wp_becomes (pkt\<lparr>wp_subs := ss\<rparr>) pkt' (take (ws_pwritten sub - ws_lenbytes sub) (wp_output pkt) @ bs))"
proof -
  let ?n = "ws_lenbytes sub"
  have w: "ws_pwritten sub \<le> wp_written pkt" "?n \<le> ws_pwritten sub" "?n > 0 \<longrightarrow> ws_packet_len sub = ws_pwritten sub - ?n"
    "ws_flags sub AND WPACKET_FLAGS_QUIC_VLINT \<noteq> 0 \<longrightarrow> ?n \<in> {1, 2, 4, 8}" "subs_wf (ws_pwritten sub - ?n) ss"
    using wp_fwd_subs_wf [OF fwd] subs by auto
  have p: "wp_curr pkt = wp_written pkt" "wp_written pkt < U64" "\<not> wp_endfirst pkt"
    using fwd by (auto simp: wp_fwd_def wpacket_wf_def)
  have len: "length (wp_output pkt) = wp_written pkt" by (rule length_wp_output [OF fwd])
  have packlen: "u64_sub (wp_written pkt) (ws_pwritten sub) = length body"
    using w p body len by (simp add: u64_sub_exact)
  have start: "WPACKET_close E pkt = wpacket_intern_close E 0 True pkt"
    using subs by (simp add: WPACKET_close_def)
  show ?thesis
  proof (cases "body = [] \<and> (ws_flags sub AND WPACKET_FLAGS_NON_ZERO_LENGTH \<noteq> 0
      \<or> ws_flags sub AND WPACKET_FLAGS_ABANDON_ON_ZERO_LENGTH \<noteq> 0)")
    case True
    show ?thesis
    proof (cases "ws_flags sub AND WPACKET_FLAGS_NON_ZERO_LENGTH \<noteq> 0")
      case nz: True
      with True start subs packlen show ?thesis
        by (auto simp: wpacket_intern_close_def Let_def sub_result_def)
    next
      case False
      with True have ab: "ws_flags sub AND WPACKET_FLAGS_ABANDON_ON_ZERO_LENGTH \<noteq> 0" and b: "body = []" by auto
      then have eq: "wp_written pkt = ws_pwritten sub" using body len w by simp
      let ?p = "pkt\<lparr>wp_written := ws_pwritten sub - ?n, wp_curr := ws_pwritten sub - ?n, wp_subs := ss\<rparr>"
      have sub: "u64_sub (ws_pwritten sub) ?n = ws_pwritten sub - ?n" using w p eq by (simp add: u64_sub_exact)
      have "WPACKET_close E pkt = Some (Some (), ?p)"
      proof (cases "?n = 0")
        case True
        have p': "?p = pkt\<lparr>wp_subs := ss\<rparr>" using True eq p(1) by simp
        have same: "pkt\<lparr>wp_written := u64_sub (wp_written pkt) 0, wp_curr := u64_sub (wp_curr pkt) 0\<rparr> = pkt"
          using p by simp
        have same_if: "(if c then pkt\<lparr>wp_written := u64_sub (wp_written pkt) 0,
            wp_curr := u64_sub (wp_curr pkt) 0\<rparr> else pkt) = pkt" for c
          unfolding same by simp
        show ?thesis
          unfolding start wpacket_intern_close_def Let_def subs nth_Cons_0 packlen True same_if
          using b False ab p(3) subs True p' eq p(1) by (simp add: close_length_def)
      next
        case n: False
        with start subs packlen b False ab p eq sub w(3) show ?thesis
          by (simp add: wpacket_intern_close_def close_length_def)
      qed
      moreover have "wp_fwd ?p"
        using fwd w eq by (auto simp: wp_fwd_def wpacket_wf_def WPACKET_is_null_buf_def split: option.splits)
      moreover have "wp_output ?p = take (ws_pwritten sub - ?n) (wp_output pkt)"
        using p(3) eq by (auto simp: wp_output_def GETBUF_def min_def split: option.splits)
      ultimately show ?thesis using b False ab by (simp add: sub_result_def wp_becomes_def)
    qed
  next
    case False
    have close: "WPACKET_close E pkt = c_bind (close_length E sub True (length body)) (\<lambda>_ pkt.
                     Some (Some (), pkt\<lparr>wp_subs := drop 1 (wp_subs pkt)\<rparr>)) pkt"
      using start subs packlen False by (auto simp: wpacket_intern_close_def Let_def)
    show ?thesis
    proof (cases "?n = 0")
      case True
      have "subs_wf (wp_written pkt) ss" using w True subs_wf_mono by auto
      with close True p fwd subs False body w wp_fwd_subs [OF fwd this] show ?thesis
        by (simp add: close_length_def sub_result_def wp_becomes_def)
    next
      case n: False
      have res: "\<not> (body = [] \<and> ws_flags sub AND WPACKET_FLAGS_NON_ZERO_LENGTH \<noteq> 0)"
        "\<not> (body = [] \<and> ws_flags sub AND WPACKET_FLAGS_ABANDON_ON_ZERO_LENGTH \<noteq> 0)" using False by auto
      obtain r q where q: "close_length E sub True (length body) pkt = Some (r, q)"
        "case sub_result ?n (ws_flags sub) body of None \<Rightarrow> r = None
         | Some bs \<Rightarrow> r = Some () \<and> wp_becomes pkt q (take (ws_packet_len sub) (wp_output pkt) @ bs)"
        using close_length_spec [OF fwd _ _ w(2,1,4) body res, of E True] n w by auto
      show ?thesis
      proof (cases "sub_result ?n (ws_flags sub) body")
        case None
        with q close show ?thesis by (auto simp: c_bind_def)
      next
        case (Some bs)
        then have q2: "r = Some ()" "wp_becomes pkt q (take (ws_packet_len sub) (wp_output pkt) @ bs)" using q by auto
        have "length bs = ?n + length body"
          using length_sub_result [OF Some _ w(4) res(2)] n by simp
        then have wq: "wp_written q = wp_written pkt"
          using wp_becomes_written [OF q2(2)] len w n body by simp
        have "wp_fwd (q\<lparr>wp_subs := ss\<rparr>)"
          using q2(2) wq w subs_wf_mono wp_fwd_subs by (auto simp: wp_becomes_def)
        with q2 q(1) close subs Some n w(3) show ?thesis by (simp add: wp_becomes_def)
      qed
    qed
  qed
qed

text \<open>Opening, writing the contents, closing.\<close>

lemma writes_sub_packet:
  assumes st: "opens E op n flags" and body: "writes E bd bs" and res: "sub_result n flags bs = Some cs"
    and quic: "flags AND WPACKET_FLAGS_QUIC_VLINT \<noteq> 0 \<longrightarrow> n \<in> {1, 2, 4, 8}"
    and len: "n + length bs \<le> length cs"
  shows "writes E (c_bind op (\<lambda>_. c_bind bd (\<lambda>_. WPACKET_close E))) cs"
proof (rule writesI)
  fix pkt assume E: "env_ok E" and pkt: "wp_fwd pkt" "wp_subs pkt \<noteq> []"
  let ?sub = "opened_sub n flags pkt"
  obtain r p1 where r: "op pkt = Some (r, p1)"
    "r \<noteq> None \<longrightarrow> (\<exists>g. length g = n \<and> wp_becomes (pkt\<lparr>wp_subs := ?sub # wp_subs pkt\<rparr>) p1 (wp_output pkt @ g))"
    "wp_staticbuf pkt \<noteq> None \<longrightarrow> (\<forall>p. we_sub E p) \<longrightarrow> wp_written pkt + n \<le> wp_maxsize pkt \<longrightarrow> r \<noteq> None"
    using st E pkt unfolding opens_def by blast
  show "\<exists>r pkt'. c_bind op (\<lambda>_. c_bind bd (\<lambda>_. WPACKET_close E)) pkt = Some (r, pkt')
      \<and> (r \<noteq> None \<longrightarrow> wp_becomes pkt pkt' (wp_output pkt @ cs))
      \<and> (wp_staticbuf pkt \<noteq> None \<longrightarrow> (\<forall>p. we_sub E p) \<longrightarrow>
            wp_written pkt + length cs \<le> wp_maxsize pkt \<longrightarrow> r \<noteq> None)"
  proof (cases r)
    case None
    with r len show ?thesis by auto
  next
    case (Some u)
    then obtain g where g: "length g = n" "wp_becomes (pkt\<lparr>wp_subs := ?sub # wp_subs pkt\<rparr>) p1 (wp_output pkt @ g)"
      using r(2) by auto
    then have p1: "wp_fwd p1" "wp_subs p1 = ?sub # wp_subs pkt" "wp_output p1 = wp_output pkt @ g"
      "wp_maxsize p1 = wp_maxsize pkt" "wp_staticbuf p1 \<noteq> None \<longleftrightarrow> wp_staticbuf pkt \<noteq> None"
      by (auto simp: wp_becomes_def)
    have w: "length (wp_output pkt) = wp_written pkt" by (rule length_wp_output [OF pkt(1)])
    have w1: "wp_written p1 = wp_written pkt + n" using length_wp_output [OF p1(1)] p1(3) w g(1) by simp
    from p1(2) have "wp_subs p1 \<noteq> []" by simp
    from writesE [OF body E p1(1) this] obtain r2 p2 where
      r2: "bd p1 = Some (r2, p2)" "r2 \<noteq> None \<longrightarrow> wp_becomes p1 p2 (wp_output p1 @ bs)"
        "wp_staticbuf p1 \<noteq> None \<longrightarrow> (\<forall>p. we_sub E p) \<longrightarrow> wp_written p1 + length bs \<le> wp_maxsize p1 \<longrightarrow> r2 \<noteq> None"
      by blast
    show ?thesis
    proof (cases r2)
      case None
      with r(1) Some r2 w1 p1(4,5) len show ?thesis by auto
    next
      case r2': (Some u2)
      then have p2: "wp_fwd p2" "wp_subs p2 = ?sub # wp_subs pkt" "wp_output p2 = wp_output pkt @ g @ bs"
        "wp_maxsize p2 = wp_maxsize pkt" "wp_staticbuf p2 \<noteq> None \<longleftrightarrow> wp_staticbuf pkt \<noteq> None"
        using r2(2) p1 by (auto simp: wp_becomes_def)
      have body_eq: "bs = drop (ws_pwritten ?sub) (wp_output p2)"
        using p2(3) w g(1) by (simp add: opened_sub_def)
      have sub: "ws_lenbytes ?sub = n" "ws_flags ?sub = flags" "ws_pwritten ?sub - n = wp_written pkt"
        by (simp_all add: opened_sub_def)
      obtain r3 p3 where r3: "WPACKET_close E p2 = Some (r3, p3)" "r3 = Some ()"
        "wp_becomes (p2\<lparr>wp_subs := wp_subs pkt\<rparr>) p3 (wp_output pkt @ cs)"
        using close_spec [OF p2(1,2) pkt(2) body_eq, of E] res sub p2(3) w by auto
      then have "wp_becomes pkt p3 (wp_output pkt @ cs)" using p2 by (auto simp: wp_becomes_def)
      with r(1) Some r2(1) r2' r3 show ?thesis by simp
    qed
  qed
qed

lemma writes_sub_len:
  assumes "writes E bd bs" "0 < n" "length bs < 2 ^ (8 * n)"
  shows "writes E (c_bind (WPACKET_start_sub_packet_len E n) (\<lambda>_. c_bind bd (\<lambda>_. WPACKET_close E)))
    (bytes_of_word n (of_nat (length bs)) @ bs)"
  by (rule writes_sub_packet [OF opens_start_sub_packet_len assms(1)]) (use assms in \<open>auto simp: sub_result_def\<close>)

lemma writes_sub_memcpy:
  assumes "ptr_read src len = Some bs" "0 < n" "len < 2 ^ (8 * n)"
  shows "writes E (WPACKET_sub_memcpy E src len n) (bytes_of_word n (of_nat len) @ bs)"
  using writes_sub_len [OF writes_memcpy [OF assms(1)] assms(2), of E] assms(3) length_ptr_read [OF assms(1)]
  by (simp add: WPACKET_sub_memcpy_def)

lemma opens_start_quic_sub_packet_bound:
  assumes "unat (of_nat max_len :: u64) < 2 ^ 62"
  shows "opens E (WPACKET_start_quic_sub_packet_bound E max_len)
    (ossl_quic_vlint_encode_len (of_nat max_len)) WPACKET_FLAGS_QUIC_VLINT"
  unfolding opens_def
proof (intro allI impI)
  let ?n = "ossl_quic_vlint_encode_len (of_nat max_len)"
  fix pkt assume E: "env_ok E" and pkt: "wp_fwd pkt" "wp_subs pkt \<noteq> []"
  have n: "?n \<in> {1, 2, 4, 8}" by (rule encode_len_forms(1) [OF assms])
  obtain r p1 where r: "WPACKET_start_sub_packet_len E ?n pkt = Some (r, p1)"
    "r \<noteq> None \<longrightarrow> (\<exists>g. length g = ?n
      \<and> wp_becomes (pkt\<lparr>wp_subs := opened_sub ?n 0 pkt # wp_subs pkt\<rparr>) p1 (wp_output pkt @ g))"
    "wp_staticbuf pkt \<noteq> None \<longrightarrow> (\<forall>p. we_sub E p) \<longrightarrow> wp_written pkt + ?n \<le> wp_maxsize pkt \<longrightarrow> r \<noteq> None"
    using opens_start_sub_packet_len [of E ?n] E pkt unfolding opens_def by blast
  let ?up = "upd_sub (\<lambda>s. s\<lparr>ws_flags := ws_flags s OR WPACKET_FLAGS_QUIC_VLINT\<rparr>)"
  have eq: "WPACKET_start_quic_sub_packet_bound E max_len pkt =
      Some (r, if r = None then p1 else ?up p1)"
    using n r(1) by (cases r) (auto simp: WPACKET_start_quic_sub_packet_bound_def Let_def)
  have "wp_becomes (pkt\<lparr>wp_subs := opened_sub ?n WPACKET_FLAGS_QUIC_VLINT pkt # wp_subs pkt\<rparr>) (?up p1) (wp_output pkt @ g)"
    if g: "length g = ?n" "wp_becomes (pkt\<lparr>wp_subs := opened_sub ?n 0 pkt # wp_subs pkt\<rparr>) p1 (wp_output pkt @ g)" for g
  proof -
    have p1: "wp_fwd p1" "wp_subs p1 = opened_sub ?n 0 pkt # wp_subs pkt" using g(2) by (auto simp: wp_becomes_def)
    then have up: "?up p1 = p1\<lparr>wp_subs := opened_sub ?n WPACKET_FLAGS_QUIC_VLINT pkt # wp_subs pkt\<rparr>"
      by (simp add: upd_sub_def opened_sub_def)
    have "subs_wf (wp_written p1) (opened_sub ?n WPACKET_FLAGS_QUIC_VLINT pkt # wp_subs pkt)"
      using wp_fwd_subs_wf [OF p1(1)] p1(2) n by (simp add: opened_sub_def)
    from wp_fwd_subs [OF p1(1) this] up g(2) show ?thesis by (auto simp: wp_becomes_def)
  qed
  with r(2,3) eq show "\<exists>r pkt'. WPACKET_start_quic_sub_packet_bound E max_len pkt = Some (r, pkt')
          \<and> (r \<noteq> None \<longrightarrow> (\<exists>g. length g = ?n
               \<and> wp_becomes (pkt\<lparr>wp_subs := opened_sub ?n WPACKET_FLAGS_QUIC_VLINT pkt # wp_subs pkt\<rparr>) pkt' (wp_output pkt @ g)))
          \<and> (wp_staticbuf pkt \<noteq> None \<longrightarrow> (\<forall>p. we_sub E p) \<longrightarrow>
               wp_written pkt + ?n \<le> wp_maxsize pkt \<longrightarrow> r \<noteq> None)"
    by auto
qed

section \<open>The writer as a stack of frames\<close>

text \<open>
  The abstract writer is a stack of open frames, innermost first, each with the size of its length field, its
  flags and its contents.  Appending extends the innermost frame, closing one appends the
  length field and the contents to the frame below.
\<close>

type_synonym wframe = "nat \<times> nat \<times> u8 list"

fun out_frames :: "u8 list \<Rightarrow> WPACKET_SUB list \<Rightarrow> wframe list" where
  "out_frames out [] = []"
| "out_frames out (s # ss) =
     (ws_lenbytes s, ws_flags s, drop (ws_pwritten s) out)
       # out_frames (take (ws_pwritten s - ws_lenbytes s) out) ss"

definition wp_frames :: "WPACKET \<Rightarrow> wframe list" where
  "wp_frames pkt = out_frames (wp_output pkt) (wp_subs pkt)"

datatype wcall =
  WPut u64 nat | WMemcpy "u8 list" | WMemset u8 nat | WVlint u64 | WStart nat | WStartQuic nat | WClose

fun do_wcall :: "wenv \<Rightarrow> wcall \<Rightarrow> WPACKET \<Rightarrow> (unit option \<times> WPACKET) option" where
  "do_wcall E (WPut v n) = WPACKET_put_bytes E v n"
| "do_wcall E (WMemcpy bs) = WPACKET_memcpy E (Some bs, 0) (length bs)"
| "do_wcall E (WMemset ch n) = WPACKET_memset E ch n"
| "do_wcall E (WVlint v) = WPACKET_quic_write_vlint E v"
| "do_wcall E (WStart n) = WPACKET_start_sub_packet_len E n"
| "do_wcall E (WStartQuic n) = WPACKET_start_quic_sub_packet_bound E n"
| "do_wcall E WClose = WPACKET_close E"

text \<open>The bytes a call appends, if it is one of those that append.\<close>

fun wcall_bytes :: "wcall \<Rightarrow> u8 list option" where
  "wcall_bytes (WPut v n) =
     (if 0 < n \<and> n \<le> 8 \<and> unat v < 2 ^ (8 * n) then Some (bytes_of_word n v) else None)"
| "wcall_bytes (WMemcpy bs) = Some bs"
| "wcall_bytes (WMemset ch n) = Some (replicate n ch)"
| "wcall_bytes (WVlint v) = (if unat v < 2 ^ 62 then Some (ossl_quic_vlint_encode v) else None)"
| "wcall_bytes _ = None"

fun frames_append :: "u8 list \<Rightarrow> wframe list \<Rightarrow> wframe list" where
  "frames_append bs [] = []"
| "frames_append bs ((n, fl, b) # fs) = (n, fl, b @ bs) # fs"

fun frames_close :: "wframe list \<Rightarrow> wframe list option" where
  "frames_close ((n, fl, b) # f # fs) = map_option (\<lambda>bs. frames_append bs (f # fs)) (sub_result n fl b)"
| "frames_close _ = None"

fun abs_wcall :: "wcall \<Rightarrow> wframe list \<Rightarrow> wframe list option" where
  "abs_wcall (WStart n) fs = Some ((n, 0, []) # fs)"
| "abs_wcall (WStartQuic n) fs =
     (let k = ossl_quic_vlint_encode_len (of_nat n)
      in if k = 0 then None else Some ((k, WPACKET_FLAGS_QUIC_VLINT, []) # fs))"
| "abs_wcall WClose fs = frames_close fs"
| "abs_wcall c fs = map_option (\<lambda>bs. frames_append bs fs) (wcall_bytes c)"

lemma out_frames_append:
  "subs_wf (length out) ss \<Longrightarrow> out_frames (out @ bs) ss = frames_append bs (out_frames out ss)"
  by (cases ss) auto

lemma wp_frames_append:
  assumes "wp_fwd pkt" "wp_becomes pkt pkt' (wp_output pkt @ bs)"
  shows "wp_frames pkt' = frames_append bs (wp_frames pkt)"
  using assms out_frames_append [of "wp_output pkt" "wp_subs pkt" bs] wp_fwd_subs_wf [OF assms(1)]
  by (simp add: wp_frames_def wp_becomes_def length_wp_output)

lemma wp_frames_open:
  assumes "wp_fwd pkt" "length g = n"
    "wp_becomes (pkt\<lparr>wp_subs := opened_sub n flags pkt # wp_subs pkt\<rparr>) pkt' (wp_output pkt @ g)"
  shows "wp_frames pkt' = (n, flags, []) # wp_frames pkt"
  using assms length_wp_output [OF assms(1)] by (simp add: wp_frames_def wp_becomes_def opened_sub_def)

lemma put_bytes_too_large:
  assumes E: "env_ok E" and pkt: "wp_fwd pkt" "wp_subs pkt \<noteq> []"
    and v: "\<not> (0 < n \<and> n \<le> 8 \<and> unat v < 2 ^ (8 * n))"
  shows "\<exists>pkt'. WPACKET_put_bytes E v n pkt = Some (None, pkt')"
proof (cases "0 < n \<and> n \<le> 8")
  case False
  have "WPACKET_allocate_bytes E 0 pkt = Some (None, pkt)"
    by (simp add: WPACKET_allocate_bytes_def WPACKET_reserve_bytes_def)
  with False show ?thesis by (auto simp: WPACKET_put_bytes_def c_ret_def)
next
  case True
  then obtain r p1 where a: "WPACKET_allocate_bytes E n pkt = Some (r, p1)"
    "r \<noteq> None \<longrightarrow> r = Some (Some (wp_written pkt)) \<and> (\<exists>g. length g = n \<and> wp_becomes pkt p1 (wp_output pkt @ g))"
    using allocate_spec [OF pkt(1) E pkt(2), of n] by blast
  show ?thesis
  proof (cases r)
    case None
    with True a show ?thesis by (simp add: WPACKET_put_bytes_def)
  next
    case (Some q)
    then obtain g where g: "length g = n" "wp_becomes pkt p1 (wp_output pkt @ g)" using a(2) by auto
    then have "wp_fwd p1" "wp_written pkt + length (bytes_of_word n v) \<le> wp_written p1"
      using wp_becomes_written [OF g(2)] length_wp_output [OF pkt(1)] by (auto simp: wp_becomes_def)
    from wp_store_spec [OF this] obtain p2 where "wp_store (wp_written pkt) (bytes_of_word n v) p1 = Some p2" by blast
    from put_value_result [OF this] True v a Some show ?thesis by (simp add: WPACKET_put_bytes_def)
  qed
qed

lemma wcall_appends:
  assumes "wcall_bytes c = Some bs"
  shows "writes E (do_wcall E c) bs"
proof (cases c)
  case (WMemcpy cs)
  have "ptr_read (Some cs, 0) (length cs) = Some cs" by (simp add: ptr_read_def mem_read_def)
  with WMemcpy assms show ?thesis by (simp add: writes_memcpy)
qed (use assms in \<open>auto simp: writes_put_bytes writes_memset writes_quic_vlint split: if_splits\<close>)

lemma frames_close_spec:
  assumes fwd: "wp_fwd pkt" and subs: "wp_subs pkt \<noteq> []"
  shows "\<exists>r pkt'. WPACKET_close E pkt = Some (r, pkt')
    \<and> (r \<noteq> None \<longrightarrow> wp_fwd pkt' \<and> wp_subs pkt' \<noteq> [] \<and> wp_maxsize pkt' = wp_maxsize pkt
         \<and> last (wp_subs pkt') = last (wp_subs pkt)
         \<and> frames_close (wp_frames pkt) = Some (wp_frames pkt'))"
proof (cases "length (wp_subs pkt) \<le> 1")
  case True
  then show ?thesis by (simp add: WPACKET_close_def)
next
  case False
  then obtain sub s ss where subs: "wp_subs pkt = sub # s # ss"
    by (cases "wp_subs pkt"; cases "tl (wp_subs pkt)") auto
  have "s # ss \<noteq> []" by simp
  from close_spec [OF fwd subs this refl, of E] obtain r pkt' where
    r: "WPACKET_close E pkt = Some (r, pkt')"
      "case sub_result (ws_lenbytes sub) (ws_flags sub) (drop (ws_pwritten sub) (wp_output pkt)) of
         None \<Rightarrow> r = None
       | Some bs \<Rightarrow> r = Some () \<and> wp_becomes (pkt\<lparr>wp_subs := s # ss\<rparr>) pkt'
           (take (ws_pwritten sub - ws_lenbytes sub) (wp_output pkt) @ bs)" by blast
  show ?thesis
  proof (cases "sub_result (ws_lenbytes sub) (ws_flags sub) (drop (ws_pwritten sub) (wp_output pkt))")
    case None
    with r show ?thesis by simp
  next
    case (Some bs)
    let ?pre = "take (ws_pwritten sub - ws_lenbytes sub) (wp_output pkt)"
    from r(2) Some have b: "wp_becomes (pkt\<lparr>wp_subs := s # ss\<rparr>) pkt' (?pre @ bs)" by simp
    have wf: "subs_wf (ws_pwritten sub - ws_lenbytes sub) (s # ss)" "ws_pwritten sub \<le> wp_written pkt"
      using wp_fwd_subs_wf [OF fwd] subs by auto
    have "length ?pre = ws_pwritten sub - ws_lenbytes sub"
      using wf(2) length_wp_output [OF fwd] by simp
    with wf(1) have "out_frames (?pre @ bs) (s # ss) = frames_append bs (out_frames ?pre (s # ss))"
      by (intro out_frames_append) simp
    with Some subs b r show ?thesis by (auto simp: wp_frames_def wp_becomes_def)
  qed
qed

lemma opens_refines:
  assumes "opens E op n flags" "wp_fwd pkt" "wp_subs pkt \<noteq> []" "env_ok E"
  shows "\<exists>r pkt'. op pkt = Some (r, pkt')
    \<and> (r \<noteq> None \<longrightarrow> wp_fwd pkt' \<and> wp_subs pkt' \<noteq> [] \<and> wp_maxsize pkt' = wp_maxsize pkt
         \<and> last (wp_subs pkt') = last (wp_subs pkt)
         \<and> wp_frames pkt' = (n, flags, []) # wp_frames pkt)"
proof -
  obtain r p1 where r: "op pkt = Some (r, p1)"
    "r \<noteq> None \<longrightarrow> (\<exists>g. length g = n
      \<and> wp_becomes (pkt\<lparr>wp_subs := opened_sub n flags pkt # wp_subs pkt\<rparr>) p1 (wp_output pkt @ g))"
    using assms unfolding opens_def by blast
  show ?thesis
  proof (cases r)
    case None
    with r show ?thesis by simp
  next
    case (Some u)
    then obtain g where g: "length g = n"
      "wp_becomes (pkt\<lparr>wp_subs := opened_sub n flags pkt # wp_subs pkt\<rparr>) p1 (wp_output pkt @ g)" using r(2) by auto
    from wp_frames_open [OF assms(2) g] g(2) r(1) assms(3) show ?thesis by (simp add: wp_becomes_def)
  qed
qed

lemma wcall_refines:
  assumes fwd: "wp_fwd pkt" and subs: "wp_subs pkt \<noteq> []" and E: "env_ok E"
  shows "\<exists>r pkt'. do_wcall E c pkt = Some (r, pkt')
    \<and> (r \<noteq> None \<longrightarrow> wp_fwd pkt' \<and> wp_subs pkt' \<noteq> [] \<and> wp_maxsize pkt' = wp_maxsize pkt
         \<and> last (wp_subs pkt') = last (wp_subs pkt)
         \<and> abs_wcall c (wp_frames pkt) = Some (wp_frames pkt'))"
proof (cases "wcall_bytes c")
  case (Some bs)
  from writesE [OF wcall_appends [OF Some] E fwd subs] obtain r pkt' where
    "do_wcall E c pkt = Some (r, pkt')" "r \<noteq> None \<longrightarrow> wp_becomes pkt pkt' (wp_output pkt @ bs)" by blast
  moreover have "abs_wcall c fs = Some (frames_append bs fs)" for fs using Some by (cases c) auto
  ultimately show ?thesis using wp_frames_append [OF fwd] subs by (auto simp: wp_becomes_def)
next
  case None
  show ?thesis
  proof (cases c)
    case (WPut v n)
    with None put_bytes_too_large [OF E fwd subs, of n v] show ?thesis by (auto split: if_splits)
  next
    case (WVlint v)
    with None quic_vlint_refused [of v E pkt] show ?thesis by (auto split: if_splits)
  next
    case (WStart n)
    with opens_refines [OF opens_start_sub_packet_len [of E n] fwd subs E] show ?thesis by auto
  next
    case (WStartQuic n)
    show ?thesis
    proof (cases "unat (of_nat n :: u64) < 2 ^ 62")
      case True
      have "ossl_quic_vlint_encode_len (of_nat n) \<noteq> 0" using encode_len_forms(1) [OF True] by auto
      with opens_refines [OF opens_start_quic_sub_packet_bound [OF True, of E] fwd subs E] WStartQuic
      show ?thesis by (auto simp: Let_def)
    next
      case False
      then have "ossl_quic_vlint_encode_len (of_nat n) = 0" by (auto simp: encode_len_unat)
      with WStartQuic show ?thesis by (simp add: WPACKET_start_quic_sub_packet_bound_def c_ret_def)
    qed
  next
    case WClose
    with frames_close_spec [OF fwd subs, of E] show ?thesis by auto
  qed (use None in simp_all)
qed

section \<open>Histories\<close>

text \<open>A sequence of calls that all succeed; \<open>None\<close> if one of them fails.\<close>

fun run_wcalls :: "wenv \<Rightarrow> wcall list \<Rightarrow> WPACKET \<Rightarrow> WPACKET option" where
  "run_wcalls E [] pkt = Some pkt"
| "run_wcalls E (c # cs) pkt =
     (case do_wcall E c pkt of
        Some (Some _, pkt) \<Rightarrow> run_wcalls E cs pkt
      | _ \<Rightarrow> None)"

fun abs_wcalls :: "wcall list \<Rightarrow> wframe list \<Rightarrow> wframe list option" where
  "abs_wcalls [] fs = Some fs"
| "abs_wcalls (c # cs) fs = (case abs_wcall c fs of None \<Rightarrow> None | Some fs \<Rightarrow> abs_wcalls cs fs)"

lemma run_wcalls_refines:
  assumes "wp_fwd pkt" "wp_subs pkt \<noteq> []" "env_ok E" "run_wcalls E cs pkt = Some pkt'"
  shows "wp_fwd pkt' \<and> wp_subs pkt' \<noteq> [] \<and> wp_maxsize pkt' = wp_maxsize pkt
         \<and> last (wp_subs pkt') = last (wp_subs pkt)
    \<and> abs_wcalls cs (wp_frames pkt) = Some (wp_frames pkt')"
  using assms
proof (induction cs arbitrary: pkt)
  case (Cons c cs)
  then obtain u p1 where p1: "do_wcall E c pkt = Some (Some u, p1)" "run_wcalls E cs p1 = Some pkt'"
    by (auto split: option.splits)
  with wcall_refines [OF Cons.prems(1-3), of c] have
    "wp_fwd p1" "wp_subs p1 \<noteq> []" "wp_maxsize p1 = wp_maxsize pkt" "last (wp_subs p1) = last (wp_subs pkt)"
    "abs_wcall c (wp_frames pkt) = Some (wp_frames p1)"
    by auto
  with Cons.IH [of p1] Cons.prems(3) p1(2) show ?case by simp
qed simp

lemma init_static_spec:
  assumes "WPACKET_init_static_len E (Some b) len 0 pkt0 = Some (Some u, pkt)" "len \<le> length b" "len \<le> SIZE_MAX"
  shows "wp_fwd pkt \<and> wp_subs pkt = [new_sub] \<and> wp_maxsize pkt = len \<and> wp_output pkt = []
    \<and> wp_staticbuf pkt = Some b"
proof -
  have "(if maxmaxsize 0 < len then maxmaxsize 0 else len) = len"
    using assms(3) by (simp add: maxmaxsize_def)
  with assms show ?thesis
    by (auto simp: WPACKET_init_static_len_def wpacket_intern_init_len_def Let_def wp_fwd_def wpacket_wf_def
        WPACKET_is_null_buf_def wp_output_def GETBUF_def new_sub_def split: if_splits)
qed

lemma init_static_ok:
  assumes "we_sub E (pkt0\<lparr>wp_staticbuf := Some b, wp_buf := None, wp_maxsize := len, wp_endfirst := False,
      wp_curr := 0, wp_written := 0\<rparr>)" "0 < len" "len \<le> SIZE_MAX"
  shows "\<exists>pkt. WPACKET_init_static_len E (Some b) len 0 pkt0 = Some (Some (), pkt)"
proof -
  have "(if maxmaxsize 0 < len then maxmaxsize 0 else len) = len"
    using assms(3) by (simp add: maxmaxsize_def)
  with assms show ?thesis
    by (simp add: WPACKET_init_static_len_def wpacket_intern_init_len_def Let_def)
qed

lemma init_buf_spec:
  assumes "WPACKET_init E (Some bm) pkt0 = Some (Some u, pkt)" "buf_mem_wf bm"
  shows "wp_fwd pkt \<and> wp_subs pkt = [new_sub] \<and> wp_output pkt = []"
  using assms
  by (auto simp: WPACKET_init_def WPACKET_init_len_def wpacket_intern_init_len_def Let_def wp_fwd_def wpacket_wf_def
      WPACKET_is_null_buf_def wp_output_def GETBUF_def new_sub_def maxmaxsize_def split: if_splits option.splits)

lemma finish_plain:
  assumes fwd: "wp_fwd pkt" and frames: "wp_frames pkt = [(0, 0, body)]"
  shows "WPACKET_finish E pkt = Some (Some (), pkt\<lparr>wp_subs := []\<rparr>)"
proof -
  obtain s where s: "wp_subs pkt = [s]" "ws_lenbytes s = 0" "ws_flags s = 0"
    using frames by (cases "wp_subs pkt"; cases "tl (wp_subs pkt)") (auto simp: wp_frames_def)
  moreover have "\<not> wp_endfirst pkt" using fwd by (simp add: wp_fwd_def)
  ultimately have "wpacket_intern_close E 0 True pkt = Some (Some (), pkt\<lparr>wp_subs := []\<rparr>)"
    by (simp add: wpacket_intern_close_def close_length_def c_bind_def)
  with s show ?thesis by (simp add: WPACKET_finish_def)
qed

lemma run_wcalls_output:
  assumes "wp_fwd pkt" "wp_subs pkt = [new_sub]" "env_ok E" "run_wcalls E cs pkt = Some pkt'"
    "wp_frames pkt' = [(0, 0, body)]"
  shows "wp_output pkt' = body"
proof -
  have "last (wp_subs pkt') = new_sub"
    using run_wcalls_refines [OF assms(1) _ assms(3,4)] assms(2) by simp
  moreover have "length (wp_subs pkt') = 1"
    using assms(5) by (cases "wp_subs pkt'"; cases "tl (wp_subs pkt')") (auto simp: wp_frames_def)
  ultimately have "wp_subs pkt' = [new_sub]"
    by (cases "wp_subs pkt'") (auto simp: One_nat_def)
  with assms(5) show ?thesis by (simp add: wp_frames_def new_sub_def)
qed

text \<open>Two states outside the invariant in which the code leaves its buffer.\<close>

lemma vlint_into_null_buffer:
  assumes "WPACKET_is_null_buf pkt" "wpacket_wf pkt" "wp_subs pkt \<noteq> []" "wp_written pkt + 8 \<le> wp_maxsize pkt"
    "unat v < 2 ^ 62"
  shows "WPACKET_quic_write_vlint E v pkt = None"
proof -
  let ?n = "ossl_quic_vlint_encode_len v"
  have n: "?n \<in> {1, 2, 4, 8}" by (rule encode_len_forms(1) [OF assms(5)])
  have "u64_sub (wp_maxsize pkt) (wp_written pkt) = wp_maxsize pkt - wp_written pkt"
    using assms(2) by (intro u64_sub_exact) (auto simp: wpacket_wf_def)
  moreover have "?n \<le> 8" "?n \<noteq> 0" using n by auto
  ultimately have "WPACKET_reserve_bytes E ?n pkt = Some (Some None, pkt)"
    using assms by (auto simp: WPACKET_reserve_bytes_def reserve_ptr_def WPACKET_get_curr_def GETBUF_def
        WPACKET_is_null_buf_def)
  with \<open>?n \<noteq> 0\<close> show ?thesis
    by (simp add: WPACKET_quic_write_vlint_def WPACKET_allocate_bytes_def Let_def c_bind_def)
qed

section \<open>Writers and readers together\<close>

fun put_all :: "('b \<Rightarrow> WPACKET \<Rightarrow> ('c option \<times> WPACKET) option) \<Rightarrow> 'b list
    \<Rightarrow> WPACKET \<Rightarrow> (unit option \<times> WPACKET) option" where
  "put_all put [] = c_ret (Some ())"
| "put_all put (b # bs) = c_bind (put b) (\<lambda>_. put_all put bs)"

fun get_all :: "(PACKET \<Rightarrow> ('a option \<times> PACKET) option) \<Rightarrow> nat \<Rightarrow> PACKET \<Rightarrow> ('a list option \<times> PACKET) option" where
  "get_all get 0 = c_ret (Some [])"
| "get_all get (Suc n) = c_bind get (\<lambda>a. c_bind (get_all get n) (\<lambda>as. c_ret (Some (a # as))))"

text \<open>The packet over what a writer has written from the offset \<open>off\<close> on.\<close>

definition packet_over :: "WPACKET \<Rightarrow> nat \<Rightarrow> PACKET" where
  "packet_over pkt off = \<lparr>pkt_curr = (GETBUF pkt, off), pkt_remaining = wp_written pkt - off\<rparr>"

lemma packet_over_bytes:
  assumes "wp_fwd pkt" "wp_maxsize pkt \<le> SIZE_MAX div 2" "off \<le> wp_written pkt"
  shows "packet_wf (packet_over pkt off) \<and> packet_bytes (packet_over pkt off) = drop off (wp_output pkt)"
proof (rule packet_wfI)
  have w: "wp_written pkt \<le> wp_maxsize pkt" "\<not> wp_endfirst pkt" using assms(1) by (auto simp: wp_fwd_def wpacket_wf_def)
  with assms show "pkt_remaining (packet_over pkt off) \<le> SIZE_MAX div 2" by (simp add: packet_over_def)
  show "ptr_read (pkt_curr (packet_over pkt off)) (pkt_remaining (packet_over pkt off)) = Some (drop off (wp_output pkt))"
  proof (cases "wp_written pkt = off")
    case True
    with length_wp_output [OF assms(1)] show ?thesis by (simp add: packet_over_def)
  next
    case False
    with assms(3) length_wp_output [OF assms(1)] obtain b where b: "GETBUF pkt = Some b"
      by (auto simp: wp_output_def split: option.splits)
    then have "wp_written pkt \<le> length b"
      using length_wp_output [OF assms(1)] w by (simp add: wp_output_def)
    with b False assms(3) w show ?thesis
      by (simp add: packet_over_def ptr_read_def mem_read_def wp_output_def drop_take)
  qed
qed

locale wire_rw = wire_codec view op spec enc valid
  for view :: "'a \<Rightarrow> 'b option"
    and op :: "PACKET \<Rightarrow> ('a option \<times> PACKET) option"
    and spec :: "u8 list \<Rightarrow> ('b \<times> u8 list) option"
    and enc :: "'b \<Rightarrow> u8 list"
    and valid :: "'b \<Rightarrow> bool" +
  fixes put :: "wenv \<Rightarrow> 'b \<Rightarrow> WPACKET \<Rightarrow> ('c option \<times> WPACKET) option"
  assumes put_writes: "valid b \<Longrightarrow> writes E (put E b) (enc b)"
begin

lemma put_all_writes: "list_all valid bs \<Longrightarrow> writes E (put_all (put E) bs) (concat (map enc bs))"
proof (induction bs)
  case Nil
  show ?case by (simp add: writes_ret)
next
  case (Cons b bs)
  then show ?case by (simp add: writes_bind [OF put_writes])
qed

lemma get_all_decodes:
  assumes "list_all valid bs" "packet_wf p" "packet_bytes p = concat (map enc bs) @ rest"
  shows "\<exists>as p'. get_all op (length bs) p = Some (Some as, p') \<and> map view as = map Some bs
    \<and> packet_wf p' \<and> packet_bytes p' = rest"
  using assms
proof (induction bs arbitrary: p)
  case Nil
  then show ?case by (simp add: c_ret_def)
next
  case (Cons b bs)
  then obtain a p1 where a: "op p = Some (Some a, p1)" "view a = Some b" "packet_wf p1"
    "packet_bytes p1 = concat (map enc bs) @ rest"
    using decode_encoded [of p b "concat (map enc bs) @ rest"] by auto
  from Cons.IH [OF _ a(3,4)] Cons.prems(1) obtain as p2 where
    "get_all op (length bs) p1 = Some (Some as, p2)" "map view as = map Some bs" "packet_wf p2" "packet_bytes p2 = rest"
    by auto
  with a show ?case by (simp add: c_ret_def)
qed

theorem list_roundtrip:
  assumes E: "env_ok E" "\<forall>p. we_sub E p" and pkt: "wp_fwd pkt" "wp_subs pkt \<noteq> []" "wp_staticbuf pkt \<noteq> None"
    and room: "wp_written pkt + length (concat (map enc bs)) \<le> wp_maxsize pkt" "wp_maxsize pkt \<le> SIZE_MAX div 2"
    and bs: "list_all valid bs"
  shows "\<exists>pkt' as p'. put_all (put E) bs pkt = Some (Some (), pkt')
    \<and> get_all op (length bs) (packet_over pkt' (wp_written pkt)) = Some (Some as, p')
    \<and> map view as = map Some bs \<and> pkt_remaining p' = 0"
proof -
  obtain r pkt' where r: "put_all (put E) bs pkt = Some (r, pkt')"
    "r \<noteq> None \<longrightarrow> wp_becomes pkt pkt' (wp_output pkt @ concat (map enc bs))"
    "wp_staticbuf pkt \<noteq> None \<longrightarrow> (\<forall>p. we_sub E p) \<longrightarrow>
       wp_written pkt + length (concat (map enc bs)) \<le> wp_maxsize pkt \<longrightarrow> r \<noteq> None"
    using writesE [OF put_all_writes [OF bs] E(1) pkt(1,2)] by blast
  then have r1: "r = Some ()" and b: "wp_becomes pkt pkt' (wp_output pkt @ concat (map enc bs))"
    using E pkt room by auto
  have p': "wp_fwd pkt'" "wp_maxsize pkt' \<le> SIZE_MAX div 2" "wp_output pkt' = wp_output pkt @ concat (map enc bs)"
    using b room(2) by (auto simp: wp_becomes_def)
  have w: "wp_written pkt \<le> wp_written pkt'" "length (wp_output pkt) = wp_written pkt"
    using length_wp_output [OF p'(1)] length_wp_output [OF pkt(1)] p'(3) by auto
  from packet_over_bytes [OF p'(1,2) w(1)] p'(3) w(2)
  have "packet_wf (packet_over pkt' (wp_written pkt))"
    "packet_bytes (packet_over pkt' (wp_written pkt)) = concat (map enc bs) @ []" by auto
  from get_all_decodes [OF bs this] r(1) r1 show ?thesis
    by (metis length_packet_bytes list.size(3))
qed

end

lemmas writing = writes_bind writes_ret writes_quic_vlint

text \<open>The interpretations: a writer of the library and the reader of the same format.\<close>

interpretation rw_vlint: wire_rw Some PACKET_get_quic_vlint vlint_dec ossl_quic_vlint_encode
    "\<lambda>v. unat v < 2 ^ 62" WPACKET_quic_write_vlint
  by unfold_locales (rule writes_quic_vlint)

interpretation rw_u8: wire_rw Some PACKET_get_1 "net_dec 1" "bytes_of_word 1" "\<lambda>v. unat v < 2 ^ 8"
    "\<lambda>E v. WPACKET_put_bytes E v 1"
  by unfold_locales (rule writes_put_bytes, simp_all)

interpretation rw_u16: wire_rw Some PACKET_get_net_2 "net_dec 2" "bytes_of_word 2" "\<lambda>v. unat v < 2 ^ 16"
    "\<lambda>E v. WPACKET_put_bytes E v 2"
  by unfold_locales (rule writes_put_bytes, simp_all)

interpretation rw_u24: wire_rw Some PACKET_get_net_3 "net_dec 3" "bytes_of_word 3" "\<lambda>v. unat v < 2 ^ 24"
    "\<lambda>E v. WPACKET_put_bytes E v 3"
  by unfold_locales (rule writes_put_bytes, simp_all)

interpretation rw_u32: wire_rw Some PACKET_get_net_4 "net_dec 4" "bytes_of_word 4" "\<lambda>v. unat v < 2 ^ 32"
    "\<lambda>E v. WPACKET_put_bytes E v 4"
  by unfold_locales (rule writes_put_bytes, simp_all)

interpretation rw_u64: wire_rw Some PACKET_get_net_8 "net_dec 8" "bytes_of_word 8" "\<lambda>_. True"
    "\<lambda>E v. WPACKET_put_bytes E v 8"
  by unfold_locales (rule writes_put_bytes, use unat_u64_less in simp_all)

lemma ptr_read_object: "ptr_read (Some bs, 0) (length bs) = Some bs"
  by (simp add: ptr_read_def mem_read_def)

interpretation rw_vec2: wire_rw packet_view PACKET_get_length_prefixed_2 "lp_dec (net_dec 2)"
    "\<lambda>bs. bytes_of_word 2 (of_nat (length bs)) @ bs" "\<lambda>bs. length bs < 2 ^ 16"
    "\<lambda>E bs. WPACKET_sub_memcpy E (Some bs, 0) (length bs) 2"
  by unfold_locales (rule writes_sub_memcpy [OF ptr_read_object], simp_all)

section \<open>Writing from the end: DER\<close>

definition wp_der :: "WPACKET \<Rightarrow> bool" where
  "wp_der pkt \<longleftrightarrow> wpacket_wf pkt \<and> wp_endfirst pkt \<and> wp_staticbuf pkt \<noteq> None"

definition der_becomes :: "WPACKET \<Rightarrow> WPACKET \<Rightarrow> u8 list \<Rightarrow> bool" where
  "der_becomes pkt pkt' out \<longleftrightarrow>
     wp_der pkt' \<and> wp_maxsize pkt' = wp_maxsize pkt \<and> wp_subs pkt' = wp_subs pkt \<and> wp_output pkt' = out"

text \<open>\<open>prepends E op bs\<close>: the counterpart of \<open>writes\<close> for a writer from the end.\<close>

definition prepends :: "wenv \<Rightarrow> (WPACKET \<Rightarrow> (unit option \<times> WPACKET) option) \<Rightarrow> u8 list \<Rightarrow> bool" where
  "prepends E op bs \<longleftrightarrow>
     (\<forall>pkt. wp_der pkt \<longrightarrow> wp_subs pkt \<noteq> [] \<longrightarrow>
       (\<exists>r pkt'. op pkt = Some (r, pkt')
          \<and> (r \<noteq> None \<longrightarrow> der_becomes pkt pkt' (bs @ wp_output pkt))
          \<and> ((\<forall>p. we_sub E p) \<longrightarrow> wp_written pkt + length bs \<le> wp_maxsize pkt \<longrightarrow> r \<noteq> None)))"

lemma prependsE:
  assumes "prepends E op bs" "wp_der pkt" "wp_subs pkt \<noteq> []"
  shows "\<exists>r pkt'. op pkt = Some (r, pkt')
          \<and> (r \<noteq> None \<longrightarrow> der_becomes pkt pkt' (bs @ wp_output pkt))
          \<and> ((\<forall>p. we_sub E p) \<longrightarrow> wp_written pkt + length bs \<le> wp_maxsize pkt \<longrightarrow> r \<noteq> None)"
  using assms unfolding prepends_def by blast

lemma length_der_output: "wp_der pkt \<Longrightarrow> length (wp_output pkt) = wp_written pkt"
  by (auto simp: wp_der_def wpacket_wf_def wp_output_def GETBUF_def)

lemma prepends_bind:
  assumes op: "prepends E op bs" and g: "\<And>a. prepends E (g a) cs"
  shows "prepends E (c_bind op g) (cs @ bs)"
  unfolding prepends_def
proof (intro allI impI)
  fix pkt assume pkt: "wp_der pkt" "wp_subs pkt \<noteq> []"
  obtain r p1 where r: "op pkt = Some (r, p1)" "r \<noteq> None \<longrightarrow> der_becomes pkt p1 (bs @ wp_output pkt)"
    "(\<forall>p. we_sub E p) \<longrightarrow> wp_written pkt + length bs \<le> wp_maxsize pkt \<longrightarrow> r \<noteq> None"
    using prependsE [OF op pkt] by blast
  show "\<exists>r pkt'. c_bind op g pkt = Some (r, pkt')
      \<and> (r \<noteq> None \<longrightarrow> der_becomes pkt pkt' ((cs @ bs) @ wp_output pkt))
      \<and> ((\<forall>p. we_sub E p) \<longrightarrow> wp_written pkt + length (cs @ bs) \<le> wp_maxsize pkt \<longrightarrow> r \<noteq> None)"
  proof (cases r)
    case None
    with r show ?thesis by auto
  next
    case (Some a)
    then have p1: "wp_der p1" "wp_subs p1 = wp_subs pkt" "wp_output p1 = bs @ wp_output pkt" "wp_maxsize p1 = wp_maxsize pkt"
      using r(2) by (auto simp: der_becomes_def)
    have w1: "wp_written p1 = wp_written pkt + length bs"
      using length_der_output [OF p1(1)] length_der_output [OF pkt(1)] p1(3) by simp
    from p1(2) pkt(2) have "wp_subs p1 \<noteq> []" by simp
    from prependsE [OF g [of a] p1(1) this] obtain r2 p2 where
      r2: "g a p1 = Some (r2, p2)" "r2 \<noteq> None \<longrightarrow> der_becomes p1 p2 (cs @ wp_output p1)"
        "(\<forall>p. we_sub E p) \<longrightarrow> wp_written p1 + length cs \<le> wp_maxsize p1 \<longrightarrow> r2 \<noteq> None" by blast
    with r(1) Some p1 w1 show ?thesis by (auto simp: der_becomes_def)
  qed
qed

lemma prepends_ret: "prepends E (c_ret (Some ())) []"
  by (simp add: prepends_def c_ret_def der_becomes_def)

lemma der_allocate:
  assumes pkt: "wp_der pkt" "wp_subs pkt \<noteq> []" and len: "0 < len"
  shows "WPACKET_allocate_bytes E len pkt =
    (if wp_written pkt + len \<le> wp_maxsize pkt
     then Some (Some (Some (wp_maxsize pkt - (wp_written pkt + len))),
            pkt\<lparr>wp_written := wp_written pkt + len, wp_curr := wp_written pkt + len\<rparr>)
     else Some (None, pkt))"
proof -
  have w: "wp_written pkt \<le> wp_maxsize pkt" "wp_maxsize pkt < U64" "wp_curr pkt = wp_written pkt" "wp_endfirst pkt"
    "wp_buf pkt = None" "GETBUF pkt \<noteq> None"
    using pkt by (auto simp: wp_der_def wpacket_wf_def GETBUF_def)
  then have sub: "u64_sub (wp_maxsize pkt) (wp_written pkt) = wp_maxsize pkt - wp_written pkt"
    by (intro u64_sub_exact) auto
  have add: "u64_add (wp_written pkt) len = wp_written pkt + len" if "wp_written pkt + len \<le> wp_maxsize pkt"
    using that w by (intro u64_add_exact) simp
  show ?thesis
  proof (cases "wp_written pkt + len \<le> wp_maxsize pkt")
    case True
    with pkt len w sub have "WPACKET_reserve_bytes E len pkt =
        Some (Some (Some (wp_maxsize pkt - (wp_written pkt + len))), pkt)"
      by (simp add: WPACKET_reserve_bytes_def reserve_ptr_def WPACKET_get_curr_def)
    with True add w show ?thesis by (simp add: WPACKET_allocate_bytes_def)
  next
    case False
    with pkt len w sub have "WPACKET_reserve_bytes E len pkt = Some (None, pkt)"
      by (simp add: WPACKET_reserve_bytes_def)
    with False show ?thesis by (simp add: WPACKET_allocate_bytes_def)
  qed
qed

lemma prepends_allocate_store:
  assumes len: "length bs = n" "0 < n"
    and st: "\<And>p pkt. k (Some p) pkt = map_option (\<lambda>pkt. (Some (), pkt)) (wp_store p bs pkt)"
  shows "prepends E (c_bind (WPACKET_allocate_bytes E n) k) bs"
  unfolding prepends_def
proof (intro allI impI)
  fix pkt assume pkt: "wp_der pkt" "wp_subs pkt \<noteq> []"
  show "\<exists>r pkt'. c_bind (WPACKET_allocate_bytes E n) k pkt = Some (r, pkt')
      \<and> (r \<noteq> None \<longrightarrow> der_becomes pkt pkt' (bs @ wp_output pkt))
      \<and> ((\<forall>p. we_sub E p) \<longrightarrow> wp_written pkt + length bs \<le> wp_maxsize pkt \<longrightarrow> r \<noteq> None)"
  proof (cases "wp_written pkt + n \<le> wp_maxsize pkt")
    case False
    with der_allocate [OF pkt len(2), of E] len show ?thesis by auto
  next
    case True
    let ?p1 = "pkt\<lparr>wp_written := wp_written pkt + n, wp_curr := wp_written pkt + n\<rparr>"
    let ?off = "wp_maxsize pkt - (wp_written pkt + n)"
    obtain b where b: "wp_staticbuf pkt = Some b" "wp_maxsize pkt \<le> length b" "wp_buf pkt = None"
      using pkt by (auto simp: wp_der_def wpacket_wf_def)
    have off: "?off + n = wp_maxsize pkt - wp_written pkt" "?off + n \<le> length b" using True b by auto
    have w: "mem_write b ?off bs = Some (take ?off b @ bs @ drop (?off + n) b)"
      using off len by (subst mem_write_in_bounds) auto
    let ?p2 = "?p1\<lparr>wp_staticbuf := Some (take ?off b @ bs @ drop (?off + n) b)\<rparr>"
    have st2: "wp_store ?off bs ?p1 = Some ?p2" using b w len by (cases bs) (auto simp: wp_store_def)
    have "wp_der ?p2"
      using pkt True b off len by (auto simp: wp_der_def wpacket_wf_def intro: subs_wf_mono)
    moreover have "wp_output ?p2 = bs @ wp_output pkt"
      using pkt b off len True by (simp add: wp_output_def GETBUF_def wp_der_def take_drop)
    ultimately have "der_becomes pkt ?p2 (bs @ wp_output pkt)" by (simp add: der_becomes_def)
    moreover have "c_bind (WPACKET_allocate_bytes E n) k pkt = Some (Some (), ?p2)"
      using der_allocate [OF pkt len(2), of E] True st st2 by simp
    ultimately show ?thesis by blast
  qed
qed

lemma prepends_put_bytes:
  assumes "0 < n" "n \<le> 8" "unat v < 2 ^ (8 * n)"
  shows "prepends E (WPACKET_put_bytes E v n) (bytes_of_word n v)"
  unfolding WPACKET_put_bytes_def
  using assms prepends_allocate_store [of "bytes_of_word n v" n "\<lambda>data. put_value data v n" E]
  by (simp add: put_value_store)

lemma prepends_memcpy:
  assumes "ptr_read src len = Some bs"
  shows "prepends E (WPACKET_memcpy E src len) bs"
proof (cases "len = 0")
  case True
  with assms show ?thesis by (simp add: WPACKET_memcpy_def prepends_ret)
next
  case False
  have bs: "length bs = len" using length_ptr_read [OF assms] .
  have "prepends E (c_bind (WPACKET_allocate_bytes E len) (\<lambda>dest pkt.
        case dest of
          None \<Rightarrow> Some (Some (), pkt)
        | Some p \<Rightarrow> do {
            bs \<leftarrow> ptr_read src len;
            pkt \<leftarrow> wp_store p bs pkt;
            Some (Some (), pkt) })) bs"
    by (rule prepends_allocate_store [OF bs]) (use False assms in \<open>auto simp: map_option_case split: option.splits\<close>)
  with False show ?thesis by (simp add: WPACKET_memcpy_def)
qed

declare num_len_bytes.simps [simp del]

lemma num_len_bytes_spec:
  "j \<le> num_len_bytes L j \<and> L < 256 ^ (num_len_bytes L j - j + 1)
     \<and> (j < num_len_bytes L j \<longrightarrow> 256 ^ (num_len_bytes L j - j) \<le> L)"
proof (induction L j rule: num_len_bytes.induct)
  case (1 L j)
  show ?case
  proof (cases "L div 256 > 0")
    case False
    then have "num_len_bytes L j = j" by (subst num_len_bytes.simps) (simp add: drop_bit_eq_div)
    with False show ?thesis by simp
  next
    case True
    let ?m = "num_len_bytes (L div 256) (j + 1)"
    have m: "num_len_bytes L j = ?m"
      using True by (subst num_len_bytes.simps) (simp add: drop_bit_eq_div)
    have IH: "j + 1 \<le> ?m" "L div 256 < 256 ^ (?m - (j + 1) + 1)" "j + 1 < ?m \<longrightarrow> 256 ^ (?m - (j + 1)) \<le> L div 256"
      using "1.IH" [OF refl] True by (auto simp: drop_bit_eq_div)
    have "?m - j + 1 = Suc (?m - (j + 1) + 1)" "?m - j = Suc (?m - (j + 1))" using IH(1) by auto
    moreover have "L < 256 * 256 ^ (?m - (j + 1) + 1)" using IH(2) by (metis div_less_iff_less_mult mult.commute zero_less_numeral)
    moreover have "256 * 256 ^ (?m - (j + 1)) \<le> L"
    proof (cases "j + 1 < ?m")
      case True
      with IH(3) show ?thesis by (metis less_eq_div_iff_mult_less_eq mult.commute zero_less_numeral)
    next
      case False
      with IH(1) have "?m - (j + 1) = 0" by simp
      moreover have "256 \<le> L" using True by (simp add: div_greater_zero_iff)
      ultimately show ?thesis by simp
    qed
    ultimately show ?thesis unfolding m using IH(1) by simp
  qed
qed

text \<open>The definite-length form of X.690: one byte below 128, else the number of length bytes and the
  shortest big-endian representation.\<close>

definition der_length :: "nat \<Rightarrow> u8 list" where
  "der_length L =
     (let k = num_len_bytes L 1
      in (if L > 0x7f then [of_nat (k OR 0x80)] else []) @ bytes_of_word k (of_nat L))"

lemma num_len_bytes_bounds:
  assumes "L < U64"
  shows "0 < num_len_bytes L 1" "num_len_bytes L 1 \<le> 8" "L < 2 ^ (8 * num_len_bytes L 1)"
    "1 < num_len_bytes L 1 \<longrightarrow> 2 ^ (8 * (num_len_bytes L 1 - 1)) \<le> L"
proof -
  let ?k = "num_len_bytes L 1"
  have k: "1 \<le> ?k" "L < 256 ^ (?k - 1 + 1)" "1 < ?k \<longrightarrow> 256 ^ (?k - 1) \<le> L" using num_len_bytes_spec [of 1 L] by auto
  then show "0 < ?k" by simp
  have e: "256 ^ n = (2 :: nat) ^ (8 * n)" for n by (simp add: power_mult)
  from k show "L < 2 ^ (8 * ?k)" by (simp add: e)
  from k(3) show "1 < ?k \<longrightarrow> 2 ^ (8 * (?k - 1)) \<le> L" by (simp add: e)
  show "?k \<le> 8"
  proof (rule ccontr)
    assume "\<not> ?k \<le> 8"
    then have "8 * 8 \<le> 8 * (?k - 1)" "1 < ?k" by auto
    then have "2 ^ (8 * 8) \<le> (2 :: nat) ^ (8 * (?k - 1))" by (intro power_increasing) auto
    with k(3) \<open>1 < ?k\<close> assms show False by (simp add: e)
  qed
qed

lemma prepends_der_length:
  assumes "L < U64"
  shows "prepends E (c_bind (WPACKET_put_bytes E (of_nat L) (num_len_bytes L 1)) (\<lambda>_.
      if L > 0x7f then WPACKET_put_bytes E (of_nat (num_len_bytes L 1 OR 0x80)) 1 else c_ret (Some ())))
    (der_length L)"
proof -
  let ?k = "num_len_bytes L 1"
  note k = num_len_bytes_bounds [OF assms]
  have first: "prepends E (WPACKET_put_bytes E (of_nat L) ?k) (bytes_of_word ?k (of_nat L))"
    using k assms by (intro prepends_put_bytes) (simp_all add: unat_u64_of_nat)
  have "\<forall>k \<in> set [0..<9]. k OR 0x80 < (2 :: nat) ^ 8" by code_simp
  then have "?k OR 0x80 < 2 ^ 8" using k(2) by auto
  then have "prepends E (WPACKET_put_bytes E (of_nat (?k OR 0x80)) 1) (bytes_of_word 1 (of_nat (?k OR 0x80)))"
    by (intro prepends_put_bytes) (simp_all add: unat_u64_of_nat)
  moreover have "bytes_of_word 1 (of_nat (?k OR 0x80)) = [of_nat (?k OR 0x80)]"
    by (simp add: bytes_of_word_lengths unsigned_of_nat word_of_nat_eq_iff)
  ultimately show ?thesis
    unfolding der_length_def Let_def by (intro prepends_bind [OF first]) (simp add: prepends_ret)
qed

lemma der_start:
  assumes pkt: "wp_der pkt" "wp_subs pkt \<noteq> []"
  shows "WPACKET_start_sub_packet E pkt =
    (if we_sub E pkt then Some (Some (), pkt\<lparr>wp_subs := opened_sub 0 0 pkt # wp_subs pkt\<rparr>) else Some (None, pkt))"
proof -
  have "wp_written pkt < U64" using pkt by (auto simp: wp_der_def wpacket_wf_def)
  with pkt show ?thesis
    by (simp add: WPACKET_start_sub_packet_def WPACKET_start_sub_packet_len_def Let_def new_sub_def opened_sub_def)
qed

lemma der_subs:
  "wp_der pkt \<Longrightarrow> subs_wf (wp_written pkt) ss \<Longrightarrow> wp_der (pkt\<lparr>wp_subs := ss\<rparr>)"
  by (auto simp: wp_der_def wpacket_wf_def)

text \<open>A constructed value: its contents, then the length in front of them.\<close>

lemma prepends_der_sub:
  assumes body: "prepends E bd bs"
  shows "prepends E (c_bind (WPACKET_start_sub_packet E) (\<lambda>_. c_bind bd (\<lambda>_. WPACKET_close E)))
    (der_length (length bs) @ bs)"
  unfolding prepends_def
proof (intro allI impI)
  fix pkt assume pkt: "wp_der pkt" "wp_subs pkt \<noteq> []"
  let ?op = "c_bind (WPACKET_start_sub_packet E) (\<lambda>_. c_bind bd (\<lambda>_. WPACKET_close E))"
  let ?out = "(der_length (length bs) @ bs) @ wp_output pkt"
  show "\<exists>r pkt'. ?op pkt = Some (r, pkt') \<and> (r \<noteq> None \<longrightarrow> der_becomes pkt pkt' ?out)
      \<and> ((\<forall>p. we_sub E p) \<longrightarrow> wp_written pkt + length (der_length (length bs) @ bs) \<le> wp_maxsize pkt \<longrightarrow> r \<noteq> None)"
  proof (cases "we_sub E pkt")
    case False
    with der_start [OF pkt, of E] show ?thesis by auto
  next
    case True
    let ?sub = "opened_sub 0 0 pkt"
    let ?p1 = "pkt\<lparr>wp_subs := ?sub # wp_subs pkt\<rparr>"
    have wf: "subs_wf (wp_written pkt) (wp_subs pkt)" using pkt by (simp add: wp_der_def wpacket_wf_def)
    then have "wp_der ?p1" by (intro der_subs [OF pkt(1)]) (simp add: opened_sub_def)
    from prependsE [OF body this] obtain r2 p2 where r2: "bd ?p1 = Some (r2, p2)"
      "r2 \<noteq> None \<longrightarrow> der_becomes ?p1 p2 (bs @ wp_output pkt)"
      "(\<forall>p. we_sub E p) \<longrightarrow> wp_written pkt + length bs \<le> wp_maxsize pkt \<longrightarrow> r2 \<noteq> None" by auto
    have start: "?op pkt = c_bind bd (\<lambda>_. WPACKET_close E) ?p1" using der_start [OF pkt, of E] True by simp
    show ?thesis
    proof (cases r2)
      case None
      with r2 start show ?thesis by auto
    next
      case (Some u)
      then have p2: "wp_der p2" "wp_subs p2 = ?sub # wp_subs pkt" "wp_output p2 = bs @ wp_output pkt"
        "wp_maxsize p2 = wp_maxsize pkt" using r2(2) by (auto simp: der_becomes_def)
      have w2: "wp_written p2 = wp_written pkt + length bs"
        using length_der_output [OF p2(1)] length_der_output [OF pkt(1)] p2(3) by simp
      have lim: "wp_written p2 < U64" "wp_endfirst p2" using p2(1) by (auto simp: wp_der_def wpacket_wf_def)
      then have packlen: "u64_sub (wp_written p2) (ws_pwritten ?sub) = length bs"
        using w2 by (simp add: opened_sub_def u64_sub_exact)
      let ?len = "c_bind (WPACKET_put_bytes E (of_nat (length bs)) (num_len_bytes (length bs) 1)) (\<lambda>_.
          if length bs > 0x7f then WPACKET_put_bytes E (of_nat (num_len_bytes (length bs) 1 OR 0x80)) 1
          else c_ret (Some ()))"
      have close: "WPACKET_close E p2 = c_bind ?len (\<lambda>_ pkt. Some (Some (), pkt\<lparr>wp_subs := drop 1 (wp_subs pkt)\<rparr>)) p2"
        using p2(2) pkt(2) lim packlen
        by (simp add: WPACKET_close_def wpacket_intern_close_def close_length_def opened_sub_def Let_def c_bind_def)
      have "length bs < U64" using w2 lim by simp
      from prependsE [OF prepends_der_length [OF this] p2(1), of E] p2(2) obtain r3 p3 where
        r3: "?len p2 = Some (r3, p3)" "r3 \<noteq> None \<longrightarrow> der_becomes p2 p3 (der_length (length bs) @ wp_output p2)"
          "(\<forall>p. we_sub E p) \<longrightarrow> wp_written p2 + length (der_length (length bs)) \<le> wp_maxsize p2 \<longrightarrow> r3 \<noteq> None" by auto
      show ?thesis
      proof (cases r3)
        case None
        with start r2(1) Some close r3 w2 p2(4) show ?thesis by (auto simp: c_bind_def)
      next
        case r3': (Some u3)
        then have p3: "wp_der p3" "wp_subs p3 = ?sub # wp_subs pkt" "wp_maxsize p3 = wp_maxsize pkt"
          "wp_output p3 = ?out" using r3(2) p2 by (auto simp: der_becomes_def)
        have "subs_wf (wp_written p3) (wp_subs pkt)"
          using wf length_der_output [OF p3(1)] length_der_output [OF pkt(1)] p3(4) by (auto intro: subs_wf_mono)
        from der_subs [OF p3(1) this] p3 have "der_becomes pkt (p3\<lparr>wp_subs := wp_subs pkt\<rparr>) ?out"
          by (simp add: der_becomes_def)
        moreover have "?op pkt = Some (Some (), p3\<lparr>wp_subs := wp_subs pkt\<rparr>)"
          using start r2(1) Some close r3(1) r3' p3(2) by (simp add: c_bind_def)
        ultimately show ?thesis by blast
      qed
    qed
  qed
qed

section \<open>Properties\<close>

text \<open>
  C6.  A writer over a fixed buffer of \<open>len\<close> bytes, after any sequence of successful calls (integers, byte
  strings, fills, QUIC integers, opening sub-packets with either kind of length field, closing
  them), is in the state the stack of frames describes; it has written at most \<open>len\<close> bytes; no
  further call accesses memory outside the buffer; and once all sub-packets are closed,
  finishing succeeds and the output is the contents of the outermost frame.
\<close>

theorem wpacket_history_frames:
  assumes "WPACKET_init_static_len E (Some b) len 0 pkt0 = Some (Some (), pkt)"
    and "len \<le> length b" "len \<le> SIZE_MAX" "env_ok E"
    and "run_wcalls E cs pkt = Some pkt'"
  shows "abs_wcalls cs [(0, 0, [])] = Some (wp_frames pkt') \<and> length (wp_output pkt') \<le> len
    \<and> do_wcall E c pkt' \<noteq> None
    \<and> (\<forall>body. wp_frames pkt' = [(0, 0, body)] \<longrightarrow>
         WPACKET_finish E pkt' = Some (Some (), pkt'\<lparr>wp_subs := []\<rparr>) \<and> wp_output pkt' = body)"
proof -
  have i: "wp_fwd pkt" "wp_subs pkt = [new_sub]" "wp_maxsize pkt = len" "wp_output pkt = []"
    using init_static_spec [OF assms(1-3)] by auto
  have run: "wp_fwd pkt'" "wp_subs pkt' \<noteq> []" "wp_maxsize pkt' = len"
    "abs_wcalls cs (wp_frames pkt) = Some (wp_frames pkt')"
    using run_wcalls_refines [OF i(1) _ assms(4,5)] i(2,3) by auto
  have "wp_frames pkt = [(0, 0, [])]" using i by (simp add: wp_frames_def new_sub_def)
  moreover have "wp_written pkt' \<le> len" using run(1,3) by (auto simp: wp_fwd_def wpacket_wf_def)
  moreover have "do_wcall E c pkt' \<noteq> None" using wcall_refines [OF run(1,2) assms(4), of c] by auto
  ultimately show ?thesis
    using run finish_plain [OF run(1)] run_wcalls_output [OF i(1,2) assms(4,5)] length_wp_output [OF run(1)]
    by simp
qed

definition example_env :: wenv where
  "example_env = \<lparr>we_malloc = (\<lambda>_. None), we_smalloc = (\<lambda>_. None), we_sub = (\<lambda>_. True)\<rparr>"

lemma example_env_ok: "env_ok example_env"
  by (simp add: env_ok_def malloc_ok_def example_env_def)

definition example_blank :: WPACKET where
  "example_blank = \<lparr>wp_buf = None, wp_staticbuf = None, wp_curr = 0, wp_written = 0, wp_maxsize = 0,
     wp_subs = [], wp_endfirst = False\<rparr>"

definition example_writer :: "nat \<Rightarrow> WPACKET" where
  "example_writer n = \<lparr>wp_buf = None, wp_staticbuf = Some (replicate n 0), wp_curr = 0, wp_written = 0,
     wp_maxsize = n, wp_subs = [new_sub], wp_endfirst = False\<rparr>"

definition example_wcalls :: "wcall list" where
  "example_wcalls = [WPut 7 1, WStart 2, WMemcpy [1, 2, 3], WClose]"

theorem wpacket_history_frames_witness:
  "\<exists>pkt'. run_wcalls example_env example_wcalls (example_writer 8) = Some pkt'
    \<and> wp_output pkt' = [7, 0, 3, 1, 2, 3]
    \<and> WPACKET_finish example_env pkt' = Some (Some (), pkt'\<lparr>wp_subs := []\<rparr>)"
proof -
  have init: "WPACKET_init_static_len example_env (Some (replicate 8 0)) 8 0 example_blank
      = Some (Some (), example_writer 8)"
    by code_simp
  have len: "8 \<le> length (replicate 8 (0 :: u8))" "8 \<le> SIZE_MAX" by simp_all
  have "run_wcalls example_env example_wcalls (example_writer 8) \<noteq> None" by code_simp
  then obtain pkt' where run: "run_wcalls example_env example_wcalls (example_writer 8) = Some pkt'" by blast
  have abs: "abs_wcalls example_wcalls [(0, 0, [])] = Some [(0, 0, [7, 0, 3, 1, 2, 3])]" by code_simp
  note h = wpacket_history_frames [OF init len example_env_ok run, of WClose]
  then have "wp_frames pkt' = [(0, 0, [7, 0, 3, 1, 2, 3])]" unfolding abs by simp
  with h run show ?thesis by blast
qed

text \<open>
  QUIC integers written one after the other into a buffer with enough room are all accepted,
  and reading as many integers from the bytes written gives the same list back and leaves
  nothing over.
\<close>

theorem quic_vlints_roundtrip:
  assumes "env_ok E" "\<forall>p. we_sub E p" "wp_fwd pkt" "wp_subs pkt \<noteq> []" "wp_staticbuf pkt \<noteq> None"
    and "wp_written pkt + length (concat (map ossl_quic_vlint_encode vs)) \<le> wp_maxsize pkt"
      "wp_maxsize pkt \<le> SIZE_MAX div 2"
    and "list_all (\<lambda>v. unat v < 2 ^ 62) vs"
  shows "\<exists>pkt' p'. put_all (WPACKET_quic_write_vlint E) vs pkt = Some (Some (), pkt')
    \<and> get_all PACKET_get_quic_vlint (length vs) (packet_over pkt' (wp_written pkt)) = Some (Some vs, p')
    \<and> pkt_remaining p' = 0"
proof -
  obtain pkt' as p' where "put_all (WPACKET_quic_write_vlint E) vs pkt = Some (Some (), pkt')"
    "get_all PACKET_get_quic_vlint (length vs) (packet_over pkt' (wp_written pkt)) = Some (Some as, p')"
    "map Some as = map Some vs" "pkt_remaining p' = 0"
    using rw_vlint.list_roundtrip [OF assms] by blast
  moreover from this(3) have "as = vs" by (simp add: inj_map_eq_map)
  ultimately show ?thesis by blast
qed

lemma example_writer_fwd:
  "n \<le> SIZE_MAX \<Longrightarrow> wp_fwd (example_writer n)" "wp_subs (example_writer n) \<noteq> []"
  "wp_staticbuf (example_writer n) \<noteq> None" "wp_written (example_writer n) = 0" "wp_maxsize (example_writer n) = n"
  "\<forall>p. we_sub example_env p"
  by (simp_all add: example_writer_def wp_fwd_def wpacket_wf_def new_sub_def WPACKET_is_null_buf_def example_env_def)

theorem quic_vlints_roundtrip_witness:
  "\<exists>pkt' p'. put_all (WPACKET_quic_write_vlint example_env) [37, 15293] (example_writer 3) = Some (Some (), pkt')
    \<and> get_all PACKET_get_quic_vlint 2 (packet_over pkt' 0) = Some (Some [37, 15293], p')
    \<and> pkt_remaining p' = 0"
proof -
  have fwd: "wp_fwd (example_writer 3)" by (rule example_writer_fwd) simp
  have room: "wp_written (example_writer 3) + length (concat (map ossl_quic_vlint_encode [37, 15293]))
      \<le> wp_maxsize (example_writer 3)" by code_simp
  have small: "wp_maxsize (example_writer 3) \<le> SIZE_MAX div 2" by (simp add: example_writer_fwd)
  have vs: "list_all (\<lambda>v. unat v < 2 ^ 62) [37 :: u64, 15293]" by simp
  have len: "length [37 :: u64, 15293] = 2" by simp
  from quic_vlints_roundtrip [OF example_env_ok example_writer_fwd(6) fwd example_writer_fwd(2,3) room small vs,
      unfolded len example_writer_fwd(4)]
  show ?thesis .
qed

text \<open>
  C27.  Byte strings written as 16-bit length-prefixed vectors, one sub-packet each, are read back by
  \<open>PACKET_get_length_prefixed_2\<close> as sub-packets with the same contents.
\<close>

theorem vectors_roundtrip:
  assumes "env_ok E" "\<forall>p. we_sub E p" "wp_fwd pkt" "wp_subs pkt \<noteq> []" "wp_staticbuf pkt \<noteq> None"
    and "wp_written pkt + length (concat (map (\<lambda>bs. bytes_of_word 2 (of_nat (length bs)) @ bs) bss)) \<le> wp_maxsize pkt"
      "wp_maxsize pkt \<le> SIZE_MAX div 2"
    and "list_all (\<lambda>bs. length bs < 2 ^ 16) bss"
  shows "\<exists>pkt' subs p'. put_all (\<lambda>bs. WPACKET_sub_memcpy E (Some bs, 0) (length bs) 2) bss pkt = Some (Some (), pkt')
    \<and> get_all PACKET_get_length_prefixed_2 (length bss) (packet_over pkt' (wp_written pkt)) = Some (Some subs, p')
    \<and> map packet_view subs = map Some bss \<and> pkt_remaining p' = 0"
  using rw_vec2.list_roundtrip [OF assms] .

theorem vectors_roundtrip_witness:
  "\<exists>pkt' subs p'. put_all (\<lambda>bs. WPACKET_sub_memcpy example_env (Some bs, 0) (length bs) 2) [[5], []]
        (example_writer 5) = Some (Some (), pkt')
    \<and> get_all PACKET_get_length_prefixed_2 2 (packet_over pkt' 0) = Some (Some subs, p')
    \<and> map packet_view subs = [Some [5], Some []] \<and> pkt_remaining p' = 0"
proof -
  have fwd: "wp_fwd (example_writer 5)" by (rule example_writer_fwd) simp
  have room: "wp_written (example_writer 5)
      + length (concat (map (\<lambda>bs. bytes_of_word 2 (of_nat (length bs)) @ bs) [[5], []]))
      \<le> wp_maxsize (example_writer 5)" by code_simp
  have small: "wp_maxsize (example_writer 5) \<le> SIZE_MAX div 2" by (simp add: example_writer_fwd)
  have vs: "list_all (\<lambda>bs. length bs < 2 ^ 16) [[5 :: u8], []]" by simp
  have len: "length [[5 :: u8], []] = 2" by simp
  from vectors_roundtrip [OF example_env_ok example_writer_fwd(6) fwd example_writer_fwd(2,3) room small vs,
      unfolded len example_writer_fwd(4) list.map]
  show ?thesis .
qed

text \<open>
  C28.  A DER value written from the end: opening a sub-packet, writing its contents and closing it puts the
  contents and in front of them their X.690 length before what was written, provided it
  fits.  The length is a single byte below 128 and otherwise \<open>0x80 + k\<close> followed by the \<open>k\<close> bytes
  of the shortest big-endian representation.
\<close>

theorem wpacket_der_value:
  assumes "wp_der pkt" "wp_subs pkt \<noteq> []" "\<forall>p. we_sub E p" "ptr_read src len = Some bs"
    and "wp_written pkt + length (der_length len) + len \<le> wp_maxsize pkt"
  shows "\<exists>pkt'. c_bind (WPACKET_start_sub_packet E) (\<lambda>_.
        c_bind (WPACKET_memcpy E src len) (\<lambda>_. WPACKET_close E)) pkt = Some (Some (), pkt')
      \<and> wp_output pkt' = der_length len @ bs @ wp_output pkt \<and> wp_subs pkt' = wp_subs pkt
      \<and> (if len \<le> 0x7f then der_length len = [of_nat len]
         else \<exists>k. 1 \<le> k \<and> k \<le> 8 \<and> der_length len = of_nat (k OR 0x80) # bytes_of_word k (of_nat len)
                \<and> len < 2 ^ (8 * k) \<and> (1 < k \<longrightarrow> 2 ^ (8 * (k - 1)) \<le> len))"
proof -
  have len: "length bs = len" using length_ptr_read [OF assms(4)] .
  have "len < U64" using assms(1,5) by (auto simp: wp_der_def wpacket_wf_def)
  note k = num_len_bytes_bounds [OF this]
  have small: "num_len_bytes len 1 = 1" if "len \<le> 0x7f"
    using that by (subst num_len_bytes.simps) (simp add: drop_bit_eq_div)
  have "der_length len = [of_nat len]" if "len \<le> 0x7f"
    using small [OF that] that
    by (simp add: der_length_def bytes_of_word_lengths unsigned_of_nat word_of_nat_eq_iff)
  moreover have "\<exists>k. 1 \<le> k \<and> k \<le> 8 \<and> der_length len = of_nat (k OR 0x80) # bytes_of_word k (of_nat len)
      \<and> len < 2 ^ (8 * k) \<and> (1 < k \<longrightarrow> 2 ^ (8 * (k - 1)) \<le> len)" if "\<not> len \<le> 0x7f"
    using that k by (intro exI [of _ "num_len_bytes len 1"]) (auto simp: der_length_def Let_def)
  ultimately show ?thesis
    using prependsE [OF prepends_der_sub [OF prepends_memcpy [OF assms(4), of E]] assms(1,2)] assms(3,5) len
    by (auto simp: der_becomes_def)
qed

definition example_der :: "nat \<Rightarrow> WPACKET" where
  "example_der n = \<lparr>wp_buf = None, wp_staticbuf = Some (replicate n 0), wp_curr = 0, wp_written = 0,
     wp_maxsize = n, wp_subs = [new_sub], wp_endfirst = True\<rparr>"

theorem wpacket_der_value_witness:
  "\<exists>pkt'. c_bind (WPACKET_start_sub_packet example_env) (\<lambda>_.
        c_bind (WPACKET_memcpy example_env (Some [1, 2], 0) 2) (\<lambda>_. WPACKET_close example_env)) (example_der 4)
      = Some (Some (), pkt') \<and> wp_output pkt' = [2, 1, 2]"
proof -
  have der: "wp_der (example_der 4)" "wp_subs (example_der 4) \<noteq> []" by code_simp+
  have read: "ptr_read (Some [1, 2], 0) 2 = Some [1 :: u8, 2]" by code_simp
  have room: "wp_written (example_der 4) + length (der_length 2) + 2 \<le> wp_maxsize (example_der 4)" by code_simp
  have out: "der_length 2 @ [1, 2] @ wp_output (example_der 4) = [2, 1, 2]" by code_simp
  from wpacket_der_value [OF der example_writer_fwd(6) read room] show ?thesis unfolding out by blast
qed

text \<open>
  After a sub-packet could not be opened because its length field does not fit, it is still on the stack:
  closing it stores a length field beyond the end of the buffer.
\<close>

lemma close_after_failed_start:
  "(case run_wcalls example_env [WPut 7 1] (example_writer 1) of
      None \<Rightarrow> False
    | Some pkt \<Rightarrow>
        (case do_wcall example_env (WStart 2) pkt of
           Some (None, pkt') \<Rightarrow> length (wp_subs pkt') = 2 \<and> do_wcall example_env WClose pkt' = None
         | _ \<Rightarrow> False))"
  by code_simp

end
