(* ===== verification/Quic_Wire.thy ===== *)
theory Quic_Wire
  imports Wpacket Ossl_Time
begin

text \<open>
  The QUIC frames and transport parameters on the wire: \<open>ssl/quic/quic_wire.c\<close> and \<open>include/internal/quic_wire.h\<close>.

  The encoders are operations on a \<open>WPACKET\<close>, the decoders on a \<open>PACKET\<close>; a decoder returns the
  frame structure it fills in (on failure the caller's structure is unspecified).  Pointers to frame
  data are \<open>cptr\<close> values.  Fields of type \<open>uint64_t\<close> are 64-bit words, and times are tick counts as in \<open>Ossl_Time\<close>.
\<close>

section \<open>Frame types and structures\<close>

abbreviation (input) OSSL_QUIC_FRAME_TYPE_PING :: u64 where "OSSL_QUIC_FRAME_TYPE_PING \<equiv> 0x01"
abbreviation (input) OSSL_QUIC_FRAME_TYPE_ACK_WITHOUT_ECN :: u64 where "OSSL_QUIC_FRAME_TYPE_ACK_WITHOUT_ECN \<equiv> 0x02"
abbreviation (input) OSSL_QUIC_FRAME_TYPE_ACK_WITH_ECN :: u64 where "OSSL_QUIC_FRAME_TYPE_ACK_WITH_ECN \<equiv> 0x03"
abbreviation (input) OSSL_QUIC_FRAME_TYPE_RESET_STREAM :: u64 where "OSSL_QUIC_FRAME_TYPE_RESET_STREAM \<equiv> 0x04"
abbreviation (input) OSSL_QUIC_FRAME_TYPE_STOP_SENDING :: u64 where "OSSL_QUIC_FRAME_TYPE_STOP_SENDING \<equiv> 0x05"
abbreviation (input) OSSL_QUIC_FRAME_TYPE_CRYPTO :: u64 where "OSSL_QUIC_FRAME_TYPE_CRYPTO \<equiv> 0x06"
abbreviation (input) OSSL_QUIC_FRAME_TYPE_NEW_TOKEN :: u64 where "OSSL_QUIC_FRAME_TYPE_NEW_TOKEN \<equiv> 0x07"
abbreviation (input) OSSL_QUIC_FRAME_TYPE_STREAM :: u64 where "OSSL_QUIC_FRAME_TYPE_STREAM \<equiv> 0x08"
abbreviation (input) OSSL_QUIC_FRAME_TYPE_MAX_DATA :: u64 where "OSSL_QUIC_FRAME_TYPE_MAX_DATA \<equiv> 0x10"
abbreviation (input) OSSL_QUIC_FRAME_TYPE_MAX_STREAM_DATA :: u64 where "OSSL_QUIC_FRAME_TYPE_MAX_STREAM_DATA \<equiv> 0x11"
abbreviation (input) OSSL_QUIC_FRAME_TYPE_MAX_STREAMS_BIDI :: u64 where "OSSL_QUIC_FRAME_TYPE_MAX_STREAMS_BIDI \<equiv> 0x12"
abbreviation (input) OSSL_QUIC_FRAME_TYPE_MAX_STREAMS_UNI :: u64 where "OSSL_QUIC_FRAME_TYPE_MAX_STREAMS_UNI \<equiv> 0x13"
abbreviation (input) OSSL_QUIC_FRAME_TYPE_DATA_BLOCKED :: u64 where "OSSL_QUIC_FRAME_TYPE_DATA_BLOCKED \<equiv> 0x14"
abbreviation (input) OSSL_QUIC_FRAME_TYPE_STREAM_DATA_BLOCKED :: u64 where "OSSL_QUIC_FRAME_TYPE_STREAM_DATA_BLOCKED \<equiv> 0x15"
abbreviation (input) OSSL_QUIC_FRAME_TYPE_STREAMS_BLOCKED_BIDI :: u64 where "OSSL_QUIC_FRAME_TYPE_STREAMS_BLOCKED_BIDI \<equiv> 0x16"
abbreviation (input) OSSL_QUIC_FRAME_TYPE_STREAMS_BLOCKED_UNI :: u64 where "OSSL_QUIC_FRAME_TYPE_STREAMS_BLOCKED_UNI \<equiv> 0x17"
abbreviation (input) OSSL_QUIC_FRAME_TYPE_NEW_CONN_ID :: u64 where "OSSL_QUIC_FRAME_TYPE_NEW_CONN_ID \<equiv> 0x18"
abbreviation (input) OSSL_QUIC_FRAME_TYPE_RETIRE_CONN_ID :: u64 where "OSSL_QUIC_FRAME_TYPE_RETIRE_CONN_ID \<equiv> 0x19"
abbreviation (input) OSSL_QUIC_FRAME_TYPE_PATH_CHALLENGE :: u64 where "OSSL_QUIC_FRAME_TYPE_PATH_CHALLENGE \<equiv> 0x1A"
abbreviation (input) OSSL_QUIC_FRAME_TYPE_PATH_RESPONSE :: u64 where "OSSL_QUIC_FRAME_TYPE_PATH_RESPONSE \<equiv> 0x1B"
abbreviation (input) OSSL_QUIC_FRAME_TYPE_CONN_CLOSE_TRANSPORT :: u64 where "OSSL_QUIC_FRAME_TYPE_CONN_CLOSE_TRANSPORT \<equiv> 0x1C"
abbreviation (input) OSSL_QUIC_FRAME_TYPE_CONN_CLOSE_APP :: u64 where "OSSL_QUIC_FRAME_TYPE_CONN_CLOSE_APP \<equiv> 0x1D"
abbreviation (input) OSSL_QUIC_FRAME_TYPE_HANDSHAKE_DONE :: u64 where "OSSL_QUIC_FRAME_TYPE_HANDSHAKE_DONE \<equiv> 0x1E"

abbreviation (input) OSSL_QUIC_FRAME_FLAG_STREAM_FIN :: u64 where "OSSL_QUIC_FRAME_FLAG_STREAM_FIN \<equiv> 0x01"
abbreviation (input) OSSL_QUIC_FRAME_FLAG_STREAM_LEN :: u64 where "OSSL_QUIC_FRAME_FLAG_STREAM_LEN \<equiv> 0x02"
abbreviation (input) OSSL_QUIC_FRAME_FLAG_STREAM_OFF :: u64 where "OSSL_QUIC_FRAME_FLAG_STREAM_OFF \<equiv> 0x04"
abbreviation (input) OSSL_QUIC_FRAME_FLAG_STREAM_MASK :: u64 where "OSSL_QUIC_FRAME_FLAG_STREAM_MASK \<equiv> 0x07"

abbreviation (input) QUIC_MAX_CONN_ID_LEN :: nat where "QUIC_MAX_CONN_ID_LEN \<equiv> 20"
abbreviation (input) QUIC_STATELESS_RESET_TOKEN_LEN :: nat where "QUIC_STATELESS_RESET_TOKEN_LEN \<equiv> 16"

definition ossl_quic_frame_type_is_ack_eliciting :: "u64 \<Rightarrow> bool" where
  "ossl_quic_frame_type_is_ack_eliciting frame_type \<longleftrightarrow>
     frame_type \<notin> {0x00, OSSL_QUIC_FRAME_TYPE_ACK_WITHOUT_ECN, OSSL_QUIC_FRAME_TYPE_ACK_WITH_ECN,
       OSSL_QUIC_FRAME_TYPE_CONN_CLOSE_TRANSPORT, OSSL_QUIC_FRAME_TYPE_CONN_CLOSE_APP}"

record OSSL_QUIC_ACK_RANGE =
  ar_start :: u64
  ar_end :: u64

record OSSL_QUIC_FRAME_ACK =
  ack_ranges :: "OSSL_QUIC_ACK_RANGE list"
  num_ack_ranges :: nat
  delay_time :: nat
  ect0 :: u64
  ect1 :: u64
  ecnce :: u64
  ecn_present :: bool

record OSSL_QUIC_FRAME_STREAM =
  fs_stream_id :: u64
  fs_offset :: u64
  fs_len :: u64
  fs_data :: cptr
  fs_has_explicit_len :: bool
  fs_is_fin :: bool

record OSSL_QUIC_FRAME_CRYPTO =
  fc_offset :: u64
  fc_len :: u64
  fc_data :: cptr

record OSSL_QUIC_FRAME_RESET_STREAM =
  rs_stream_id :: u64
  rs_app_error_code :: u64
  rs_final_size :: u64

record OSSL_QUIC_FRAME_STOP_SENDING =
  st_stream_id :: u64
  st_app_error_code :: u64

record QUIC_CONN_ID =
  id_len :: nat
  cid_id :: "u8 list"

record OSSL_QUIC_FRAME_NEW_CONN_ID =
  nc_seq_num :: u64
  nc_retire_prior_to :: u64
  nc_conn_id :: QUIC_CONN_ID
  nc_stateless_reset :: "u8 list"

record OSSL_QUIC_FRAME_CONN_CLOSE =
  cc_is_app :: bool
  cc_error_code :: u64
  cc_frame_type :: u64
  cc_reason :: cptr
  cc_reason_len :: nat

record QUIC_PREFERRED_ADDR =
  pa_ipv4_port :: nat
  pa_ipv6_port :: nat
  pa_ipv4 :: "u8 list"
  pa_ipv6 :: "u8 list"
  pa_stateless_reset :: "u8 list"
  pa_cid :: QUIC_CONN_ID

text \<open>\<open>ack->ack_ranges[i]\<close>.\<close>

definition ack_range_at :: "OSSL_QUIC_FRAME_ACK \<Rightarrow> nat \<Rightarrow> OSSL_QUIC_ACK_RANGE option" where
  "ack_range_at ack i = (if i < length (ack_ranges ack) then Some (ack_ranges ack ! i) else None)"

fun ack_contains_loop :: "OSSL_QUIC_FRAME_ACK \<Rightarrow> u64 \<Rightarrow> nat \<Rightarrow> nat \<Rightarrow> bool option" where
  "ack_contains_loop ack pn i 0 = Some False"
| "ack_contains_loop ack pn i (Suc n) =
     (case ack_range_at ack i of
        None \<Rightarrow> None
      | Some r \<Rightarrow> if pn \<ge> ar_start r \<and> pn \<le> ar_end r then Some True
                  else ack_contains_loop ack pn (i + 1) n)"

definition ossl_quic_frame_ack_contains_pn :: "OSSL_QUIC_FRAME_ACK \<Rightarrow> u64 \<Rightarrow> bool option" where
  "ossl_quic_frame_ack_contains_pn ack pn = ack_contains_loop ack pn 0 (num_ack_ranges ack)"

section \<open>Encoding\<close>

definition ossl_quic_wire_encode_padding :: "wenv \<Rightarrow> nat \<Rightarrow> WPACKET \<Rightarrow> (unit option \<times> WPACKET) option" where
  "ossl_quic_wire_encode_padding E num_bytes = WPACKET_memset E 0 num_bytes"

definition encode_frame_hdr :: "wenv \<Rightarrow> u64 \<Rightarrow> WPACKET \<Rightarrow> (unit option \<times> WPACKET) option" where
  "encode_frame_hdr E frame_type = WPACKET_quic_write_vlint E frame_type"

definition ossl_quic_wire_encode_frame_ping :: "wenv \<Rightarrow> WPACKET \<Rightarrow> (unit option \<times> WPACKET) option" where
  "ossl_quic_wire_encode_frame_ping E = encode_frame_hdr E OSSL_QUIC_FRAME_TYPE_PING"

text \<open>The loop over the ranges after the first, \<open>n\<close> of them from the index \<open>i\<close> on.\<close>

fun encode_ack_loop :: "wenv \<Rightarrow> OSSL_QUIC_FRAME_ACK \<Rightarrow> nat \<Rightarrow> nat \<Rightarrow> WPACKET \<Rightarrow> (unit option \<times> WPACKET) option" where
  "encode_ack_loop E ack i 0 = c_ret (Some ())"
| "encode_ack_loop E ack i (Suc n) =
     (case (ack_range_at ack (i - 1), ack_range_at ack i) of
        (Some prev, Some r) \<Rightarrow>
          (let gap = ar_start prev - ar_end r - 2;
               range_len = ar_end r - ar_start r
           in c_then (WPACKET_quic_write_vlint E gap)
             (c_then (WPACKET_quic_write_vlint E range_len) (encode_ack_loop E ack (i + 1) n)))
      | _ \<Rightarrow> (\<lambda>_. None))"

definition ossl_quic_wire_encode_frame_ack ::
    "wenv \<Rightarrow> nat \<Rightarrow> OSSL_QUIC_FRAME_ACK \<Rightarrow> WPACKET \<Rightarrow> (unit option \<times> WPACKET) option" where
  "ossl_quic_wire_encode_frame_ack E ack_delay_exponent ack =
     (let frame_type = (if ecn_present ack then OSSL_QUIC_FRAME_TYPE_ACK_WITH_ECN
                        else OSSL_QUIC_FRAME_TYPE_ACK_WITHOUT_ECN);
          num = num_ack_ranges ack
      in if num = 0 then c_ret None
         else if ack_delay_exponent \<ge> 64 then (\<lambda>_. None)
         else
           let delay = ossl_time_divide (ossl_time_divide (delay_time ack) OSSL_TIME_US)
                         (2 ^ ack_delay_exponent);
               ack_delay_enc = ossl_time2ticks delay
           in case ack_range_at ack 0 of
                None \<Rightarrow> (\<lambda>_. None)
              | Some r0 \<Rightarrow>
                  c_then (encode_frame_hdr E frame_type)
                  (c_then (WPACKET_quic_write_vlint E (ar_end r0))
                  (c_then (WPACKET_quic_write_vlint E (of_nat ack_delay_enc))
                  (c_then (WPACKET_quic_write_vlint E (of_nat num - 1))
                  (c_then (WPACKET_quic_write_vlint E (ar_end r0 - ar_start r0))
                  (c_then (encode_ack_loop E ack 1 (num - 1))
                  (if ecn_present ack then
                     c_then (WPACKET_quic_write_vlint E (ect0 ack))
                     (c_then (WPACKET_quic_write_vlint E (ect1 ack))
                     (WPACKET_quic_write_vlint E (ecnce ack)))
                   else c_ret (Some ()))))))))"

definition ossl_quic_wire_encode_frame_reset_stream ::
    "wenv \<Rightarrow> OSSL_QUIC_FRAME_RESET_STREAM \<Rightarrow> WPACKET \<Rightarrow> (unit option \<times> WPACKET) option" where
  "ossl_quic_wire_encode_frame_reset_stream E f =
     c_then (encode_frame_hdr E OSSL_QUIC_FRAME_TYPE_RESET_STREAM)
     (c_then (WPACKET_quic_write_vlint E (rs_stream_id f))
     (c_then (WPACKET_quic_write_vlint E (rs_app_error_code f))
     (WPACKET_quic_write_vlint E (rs_final_size f))))"

definition ossl_quic_wire_encode_frame_stop_sending ::
    "wenv \<Rightarrow> OSSL_QUIC_FRAME_STOP_SENDING \<Rightarrow> WPACKET \<Rightarrow> (unit option \<times> WPACKET) option" where
  "ossl_quic_wire_encode_frame_stop_sending E f =
     c_then (encode_frame_hdr E OSSL_QUIC_FRAME_TYPE_STOP_SENDING)
     (c_then (WPACKET_quic_write_vlint E (st_stream_id f))
     (WPACKET_quic_write_vlint E (st_app_error_code f)))"

definition ossl_quic_wire_encode_frame_crypto_hdr ::
    "wenv \<Rightarrow> OSSL_QUIC_FRAME_CRYPTO \<Rightarrow> WPACKET \<Rightarrow> (unit option \<times> WPACKET) option" where
  "ossl_quic_wire_encode_frame_crypto_hdr E f =
     c_then (encode_frame_hdr E OSSL_QUIC_FRAME_TYPE_CRYPTO)
     (c_then (WPACKET_quic_write_vlint E (fc_offset f))
     (WPACKET_quic_write_vlint E (fc_len f)))"

definition ossl_quic_wire_get_encoded_frame_len_crypto_hdr :: "OSSL_QUIC_FRAME_CRYPTO \<Rightarrow> nat" where
  "ossl_quic_wire_get_encoded_frame_len_crypto_hdr f =
     (let a = ossl_quic_vlint_encode_len OSSL_QUIC_FRAME_TYPE_CRYPTO;
          b = ossl_quic_vlint_encode_len (fc_offset f);
          c = ossl_quic_vlint_encode_len (fc_len f)
      in if a = 0 \<or> b = 0 \<or> c = 0 then 0 else a + b + c)"

text \<open>The payload of CRYPTO and STREAM frames: the result is the pointer \<open>p\<close>; \<open>data\<close> is copied to it unless null.\<close>

definition encode_payload :: "wenv \<Rightarrow> cptr \<Rightarrow> u64 \<Rightarrow> WPACKET \<Rightarrow> (nat option \<times> WPACKET) option" where
  "encode_payload E data len =
     (if unat len > SIZE_MAX then c_ret None
      else c_bind (WPACKET_allocate_bytes E (unat len)) (\<lambda>p pkt.
        if fst data = None then Some (p, pkt)
        else do {
          bs \<leftarrow> ptr_read data (unat len);
          (case p of
             None \<Rightarrow> if bs = [] then Some (None, pkt) else None
           | Some off \<Rightarrow> map_option (\<lambda>pkt. (p, pkt)) (wp_store off bs pkt)) }))"

definition ossl_quic_wire_encode_frame_crypto ::
    "wenv \<Rightarrow> OSSL_QUIC_FRAME_CRYPTO \<Rightarrow> WPACKET \<Rightarrow> (nat option \<times> WPACKET) option" where
  "ossl_quic_wire_encode_frame_crypto E f =
     c_then (ossl_quic_wire_encode_frame_crypto_hdr E f) (encode_payload E (fc_data f) (fc_len f))"

definition ossl_quic_wire_encode_frame_new_token ::
    "wenv \<Rightarrow> cptr \<Rightarrow> nat \<Rightarrow> WPACKET \<Rightarrow> (unit option \<times> WPACKET) option" where
  "ossl_quic_wire_encode_frame_new_token E token token_len =
     c_then (encode_frame_hdr E OSSL_QUIC_FRAME_TYPE_NEW_TOKEN)
     (c_then (WPACKET_quic_write_vlint E (of_nat token_len))
     (WPACKET_memcpy E token token_len))"

definition stream_frame_type :: "OSSL_QUIC_FRAME_STREAM \<Rightarrow> u64" where
  "stream_frame_type f =
     (let frame_type = OSSL_QUIC_FRAME_TYPE_STREAM;
          frame_type = (if fs_offset f \<noteq> 0 then frame_type OR OSSL_QUIC_FRAME_FLAG_STREAM_OFF else frame_type);
          frame_type = (if fs_has_explicit_len f then frame_type OR OSSL_QUIC_FRAME_FLAG_STREAM_LEN else frame_type)
      in if fs_is_fin f then frame_type OR OSSL_QUIC_FRAME_FLAG_STREAM_FIN else frame_type)"

definition ossl_quic_wire_encode_frame_stream_hdr ::
    "wenv \<Rightarrow> OSSL_QUIC_FRAME_STREAM \<Rightarrow> WPACKET \<Rightarrow> (unit option \<times> WPACKET) option" where
  "ossl_quic_wire_encode_frame_stream_hdr E f =
     c_then (encode_frame_hdr E (stream_frame_type f))
     (c_then (WPACKET_quic_write_vlint E (fs_stream_id f))
     (c_then (if fs_offset f \<noteq> 0 then WPACKET_quic_write_vlint E (fs_offset f) else c_ret (Some ()))
     (if fs_has_explicit_len f then WPACKET_quic_write_vlint E (fs_len f) else c_ret (Some ()))))"

definition ossl_quic_wire_get_encoded_frame_len_stream_hdr :: "OSSL_QUIC_FRAME_STREAM \<Rightarrow> nat" where
  "ossl_quic_wire_get_encoded_frame_len_stream_hdr f =
     (let a = ossl_quic_vlint_encode_len OSSL_QUIC_FRAME_TYPE_STREAM;
          b = ossl_quic_vlint_encode_len (fs_stream_id f)
      in if a = 0 \<or> b = 0 then 0
         else
           let c = (if fs_offset f > 0 then ossl_quic_vlint_encode_len (fs_offset f) else 0)
           in if fs_offset f > 0 \<and> c = 0 then 0
              else
                let d = (if fs_has_explicit_len f then ossl_quic_vlint_encode_len (fs_len f) else 0)
                in if fs_has_explicit_len f \<and> d = 0 then 0 else a + b + c + d)"

definition ossl_quic_wire_encode_frame_stream ::
    "wenv \<Rightarrow> OSSL_QUIC_FRAME_STREAM \<Rightarrow> WPACKET \<Rightarrow> (nat option \<times> WPACKET) option" where
  "ossl_quic_wire_encode_frame_stream E f =
     c_then (ossl_quic_wire_encode_frame_stream_hdr E f) (encode_payload E (fs_data f) (fs_len f))"

text \<open>The frames that hold one or two integers.\<close>

definition ossl_quic_wire_encode_frame_max_data :: "wenv \<Rightarrow> u64 \<Rightarrow> WPACKET \<Rightarrow> (unit option \<times> WPACKET) option" where
  "ossl_quic_wire_encode_frame_max_data E max_data =
     c_then (encode_frame_hdr E OSSL_QUIC_FRAME_TYPE_MAX_DATA) (WPACKET_quic_write_vlint E max_data)"

definition ossl_quic_wire_encode_frame_max_stream_data ::
    "wenv \<Rightarrow> u64 \<Rightarrow> u64 \<Rightarrow> WPACKET \<Rightarrow> (unit option \<times> WPACKET) option" where
  "ossl_quic_wire_encode_frame_max_stream_data E stream_id max_data =
     c_then (encode_frame_hdr E OSSL_QUIC_FRAME_TYPE_MAX_STREAM_DATA)
     (c_then (WPACKET_quic_write_vlint E stream_id) (WPACKET_quic_write_vlint E max_data))"

definition ossl_quic_wire_encode_frame_max_streams ::
    "wenv \<Rightarrow> bool \<Rightarrow> u64 \<Rightarrow> WPACKET \<Rightarrow> (unit option \<times> WPACKET) option" where
  "ossl_quic_wire_encode_frame_max_streams E is_uni max_streams =
     c_then (encode_frame_hdr E (if is_uni then OSSL_QUIC_FRAME_TYPE_MAX_STREAMS_UNI
                                 else OSSL_QUIC_FRAME_TYPE_MAX_STREAMS_BIDI))
     (WPACKET_quic_write_vlint E max_streams)"

definition ossl_quic_wire_encode_frame_data_blocked :: "wenv \<Rightarrow> u64 \<Rightarrow> WPACKET \<Rightarrow> (unit option \<times> WPACKET) option" where
  "ossl_quic_wire_encode_frame_data_blocked E max_data =
     c_then (encode_frame_hdr E OSSL_QUIC_FRAME_TYPE_DATA_BLOCKED) (WPACKET_quic_write_vlint E max_data)"

definition ossl_quic_wire_encode_frame_stream_data_blocked ::
    "wenv \<Rightarrow> u64 \<Rightarrow> u64 \<Rightarrow> WPACKET \<Rightarrow> (unit option \<times> WPACKET) option" where
  "ossl_quic_wire_encode_frame_stream_data_blocked E stream_id max_stream_data =
     c_then (encode_frame_hdr E OSSL_QUIC_FRAME_TYPE_STREAM_DATA_BLOCKED)
     (c_then (WPACKET_quic_write_vlint E stream_id) (WPACKET_quic_write_vlint E max_stream_data))"

definition ossl_quic_wire_encode_frame_streams_blocked ::
    "wenv \<Rightarrow> bool \<Rightarrow> u64 \<Rightarrow> WPACKET \<Rightarrow> (unit option \<times> WPACKET) option" where
  "ossl_quic_wire_encode_frame_streams_blocked E is_uni max_streams =
     c_then (encode_frame_hdr E (if is_uni then OSSL_QUIC_FRAME_TYPE_STREAMS_BLOCKED_UNI
                                 else OSSL_QUIC_FRAME_TYPE_STREAMS_BLOCKED_BIDI))
     (WPACKET_quic_write_vlint E max_streams)"

definition ossl_quic_wire_encode_frame_new_conn_id ::
    "wenv \<Rightarrow> OSSL_QUIC_FRAME_NEW_CONN_ID \<Rightarrow> WPACKET \<Rightarrow> (unit option \<times> WPACKET) option" where
  "ossl_quic_wire_encode_frame_new_conn_id E f =
     (let cid = nc_conn_id f
      in if id_len cid < 1 \<or> id_len cid > QUIC_MAX_CONN_ID_LEN then c_ret None
         else
           c_then (encode_frame_hdr E OSSL_QUIC_FRAME_TYPE_NEW_CONN_ID)
           (c_then (WPACKET_quic_write_vlint E (nc_seq_num f))
           (c_then (WPACKET_quic_write_vlint E (nc_retire_prior_to f))
           (c_then (WPACKET_put_bytes E (of_nat (id_len cid)) 1)
           (c_then (WPACKET_memcpy E (Some (cid_id cid), 0) (id_len cid))
           (WPACKET_memcpy E (Some (nc_stateless_reset f), 0) QUIC_STATELESS_RESET_TOKEN_LEN))))))"

definition ossl_quic_wire_encode_frame_retire_conn_id :: "wenv \<Rightarrow> u64 \<Rightarrow> WPACKET \<Rightarrow> (unit option \<times> WPACKET) option" where
  "ossl_quic_wire_encode_frame_retire_conn_id E seq_num =
     c_then (encode_frame_hdr E OSSL_QUIC_FRAME_TYPE_RETIRE_CONN_ID) (WPACKET_quic_write_vlint E seq_num)"

definition ossl_quic_wire_encode_frame_path_challenge :: "wenv \<Rightarrow> u64 \<Rightarrow> WPACKET \<Rightarrow> (unit option \<times> WPACKET) option" where
  "ossl_quic_wire_encode_frame_path_challenge E data =
     c_then (encode_frame_hdr E OSSL_QUIC_FRAME_TYPE_PATH_CHALLENGE) (WPACKET_put_bytes E data 8)"

definition ossl_quic_wire_encode_frame_path_response :: "wenv \<Rightarrow> u64 \<Rightarrow> WPACKET \<Rightarrow> (unit option \<times> WPACKET) option" where
  "ossl_quic_wire_encode_frame_path_response E data =
     c_then (encode_frame_hdr E OSSL_QUIC_FRAME_TYPE_PATH_RESPONSE) (WPACKET_put_bytes E data 8)"

definition ossl_quic_wire_encode_frame_conn_close ::
    "wenv \<Rightarrow> OSSL_QUIC_FRAME_CONN_CLOSE \<Rightarrow> WPACKET \<Rightarrow> (unit option \<times> WPACKET) option" where
  "ossl_quic_wire_encode_frame_conn_close E f =
     c_then (encode_frame_hdr E (if cc_is_app f then OSSL_QUIC_FRAME_TYPE_CONN_CLOSE_APP
                                 else OSSL_QUIC_FRAME_TYPE_CONN_CLOSE_TRANSPORT))
     (c_then (WPACKET_quic_write_vlint E (cc_error_code f))
     (c_then (if \<not> cc_is_app f then WPACKET_quic_write_vlint E (cc_frame_type f) else c_ret (Some ()))
     (c_then (WPACKET_quic_write_vlint E (of_nat (cc_reason_len f)))
     (WPACKET_memcpy E (cc_reason f) (cc_reason_len f)))))"

definition ossl_quic_wire_encode_frame_handshake_done :: "wenv \<Rightarrow> WPACKET \<Rightarrow> (unit option \<times> WPACKET) option" where
  "ossl_quic_wire_encode_frame_handshake_done E = encode_frame_hdr E OSSL_QUIC_FRAME_TYPE_HANDSHAKE_DONE"

text \<open>Transport parameters; a null \<open>value\<close> leaves the body for the caller to fill.\<close>

definition ossl_quic_wire_encode_transport_param_bytes ::
    "wenv \<Rightarrow> u64 \<Rightarrow> cptr \<Rightarrow> nat \<Rightarrow> WPACKET \<Rightarrow> (nat option \<times> WPACKET) option" where
  "ossl_quic_wire_encode_transport_param_bytes E id' val value_len =
     c_then (WPACKET_quic_write_vlint E id')
     (c_then (WPACKET_quic_write_vlint E (of_nat value_len))
     (c_bind (if value_len = 0
              then (\<lambda>pkt. map_option (\<lambda>b. (Some b, pkt)) (WPACKET_get_curr pkt))
              else WPACKET_allocate_bytes E value_len)
       (\<lambda>b pkt.
          if fst val = None then Some (b, pkt)
          else do {
            bs \<leftarrow> ptr_read val value_len;
            (case b of
               None \<Rightarrow> if bs = [] then Some (None, pkt) else None
             | Some off \<Rightarrow> map_option (\<lambda>pkt. (b, pkt)) (wp_store off bs pkt)) })))"

definition ossl_quic_wire_encode_transport_param_int ::
    "wenv \<Rightarrow> u64 \<Rightarrow> u64 \<Rightarrow> WPACKET \<Rightarrow> (unit option \<times> WPACKET) option" where
  "ossl_quic_wire_encode_transport_param_int E id' val =
     c_then (WPACKET_quic_write_vlint E id')
     (c_then (WPACKET_quic_write_vlint E (of_nat (ossl_quic_vlint_encode_len val)))
     (WPACKET_quic_write_vlint E val))"

definition ossl_quic_wire_encode_transport_param_cid ::
    "wenv \<Rightarrow> u64 \<Rightarrow> QUIC_CONN_ID \<Rightarrow> WPACKET \<Rightarrow> (unit option \<times> WPACKET) option" where
  "ossl_quic_wire_encode_transport_param_cid E id' cid =
     (if id_len cid > QUIC_MAX_CONN_ID_LEN then c_ret None
      else c_then (ossl_quic_wire_encode_transport_param_bytes E id' (Some (cid_id cid), 0) (id_len cid))
             (c_ret (Some ())))"

section \<open>Decoding\<close>

definition ossl_quic_wire_peek_frame_header :: "PACKET \<Rightarrow> (u64 \<times> bool) option option" where
  "ossl_quic_wire_peek_frame_header pkt = PACKET_peek_quic_vlint_ex pkt"

definition ossl_quic_wire_skip_frame_header :: "PACKET \<Rightarrow> (u64 option \<times> PACKET) option" where
  "ossl_quic_wire_skip_frame_header = PACKET_get_quic_vlint"

definition expect_frame_header_mask :: "u64 \<Rightarrow> u64 \<Rightarrow> PACKET \<Rightarrow> (u64 option \<times> PACKET) option" where
  "expect_frame_header_mask expected_frame_type mask_bits =
     c_bind ossl_quic_wire_skip_frame_header (\<lambda>actual.
       if actual AND NOT mask_bits \<noteq> expected_frame_type then c_ret None else c_ret (Some actual))"

definition expect_frame_header :: "u64 \<Rightarrow> PACKET \<Rightarrow> (unit option \<times> PACKET) option" where
  "expect_frame_header expected_frame_type =
     c_bind ossl_quic_wire_skip_frame_header (\<lambda>actual.
       if actual \<noteq> expected_frame_type then c_ret None else c_ret (Some ()))"

fun skip_ack_ranges :: "nat \<Rightarrow> PACKET \<Rightarrow> (unit option \<times> PACKET) option" where
  "skip_ack_ranges 0 = c_ret (Some ())"
| "skip_ack_ranges (Suc n) =
     c_then PACKET_skip_quic_vlint (c_then PACKET_skip_quic_vlint (skip_ack_ranges n))"

text \<open>The caller's packet is copied, so only the number of ranges is returned.\<close>

definition ossl_quic_wire_peek_frame_ack_num_ranges :: "PACKET \<Rightarrow> u64 option option" where
  "ossl_quic_wire_peek_frame_ack_num_ranges orig_pkt =
     map_option fst
       (c_then (expect_frame_header_mask OSSL_QUIC_FRAME_TYPE_ACK_WITHOUT_ECN 1)
        (c_then PACKET_skip_quic_vlint
        (c_then PACKET_skip_quic_vlint
        (c_bind PACKET_get_quic_vlint (\<lambda>ack_range_count.
         c_then (skip_ack_ranges (unat ack_range_count)) (c_ret (Some (ack_range_count + 1))))))) orig_pkt)"

text \<open>\<open>ack->ack_ranges[i] = r\<close> for an index below \<open>num_ack_ranges\<close>.\<close>

definition set_ack_range :: "nat \<Rightarrow> OSSL_QUIC_ACK_RANGE \<Rightarrow> OSSL_QUIC_FRAME_ACK \<Rightarrow> OSSL_QUIC_FRAME_ACK option" where
  "set_ack_range i r ack =
     (if i < length (ack_ranges ack) then Some (ack\<lparr>ack_ranges := (ack_ranges ack)[i := r]\<rparr>) else None)"

text \<open>
  The loop over the ranges after the first, \<open>n\<close> of them, for the \<open>i\<close>-th.  \<open>ack\<close> is \<open>None\<close> for a null pointer; note
  that \<open>start\<close> is updated only together with the array.
\<close>

fun decode_ack_loop ::
    "nat \<Rightarrow> nat \<Rightarrow> u64 \<Rightarrow> OSSL_QUIC_FRAME_ACK option \<Rightarrow> PACKET \<Rightarrow> (OSSL_QUIC_FRAME_ACK option option \<times> PACKET) option" where
  "decode_ack_loop 0 i start ack = c_ret (Some ack)"
| "decode_ack_loop (Suc n) i start ack =
     c_bind PACKET_get_quic_vlint (\<lambda>gap.
     c_bind PACKET_get_quic_vlint (\<lambda>len.
       let end' = start - gap - 2
       in if start < gap + 2 \<or> len > end' then c_ret None
          else case ack of
              None \<Rightarrow> decode_ack_loop n (i + 1) start None
            | Some a \<Rightarrow>
                if i + 1 < num_ack_ranges a then
                  (case set_ack_range (i + 1) \<lparr>ar_start = end' - len, ar_end = end'\<rparr> a of
                     None \<Rightarrow> (\<lambda>_. None)
                   | Some a \<Rightarrow> decode_ack_loop n (i + 1) (end' - len) (Some a))
                else decode_ack_loop n (i + 1) start (Some a)))"

definition decode_ack_first ::
    "nat \<Rightarrow> u64 \<Rightarrow> u64 \<Rightarrow> u64 \<Rightarrow> OSSL_QUIC_FRAME_ACK \<Rightarrow> OSSL_QUIC_FRAME_ACK option" where
  "decode_ack_first ack_delay_exponent ack_delay_raw largest_ackd start ack =
     (if ack_delay_exponent \<ge> 64 then None
      else
        let (p, err) = safe_mulu UINT64_MAX (unat ack_delay_raw) (2 ^ ack_delay_exponent) False;
            t = ossl_time_multiply (ossl_ticks2time OSSL_TIME_US) p;
            ack = ack\<lparr>delay_time := (if err then ossl_time_infinite else t)\<rparr>
        in if num_ack_ranges ack > 0
           then set_ack_range 0 \<lparr>ar_start = start, ar_end = largest_ackd\<rparr> ack
           else Some ack)"

definition ossl_quic_wire_decode_frame_ack ::
    "nat \<Rightarrow> OSSL_QUIC_FRAME_ACK option \<Rightarrow> PACKET
       \<Rightarrow> ((OSSL_QUIC_FRAME_ACK option \<times> u64) option \<times> PACKET) option" where
  "ossl_quic_wire_decode_frame_ack ack_delay_exponent ack =
     c_bind (expect_frame_header_mask OSSL_QUIC_FRAME_TYPE_ACK_WITHOUT_ECN 1) (\<lambda>frame_type.
     c_bind PACKET_get_quic_vlint (\<lambda>largest_ackd.
     c_bind PACKET_get_quic_vlint (\<lambda>ack_delay_raw.
     c_bind PACKET_get_quic_vlint (\<lambda>ack_range_count.
     c_bind PACKET_get_quic_vlint (\<lambda>first_ack_range.
       if first_ack_range > largest_ackd then c_ret None
       else if unat ack_range_count > SIZE_MAX then c_ret None
       else
         let start = largest_ackd - first_ack_range
         in case (case ack of
                    None \<Rightarrow> Some None
                  | Some a \<Rightarrow> map_option Some (decode_ack_first ack_delay_exponent ack_delay_raw largest_ackd start a))
            of None \<Rightarrow> (\<lambda>_. None)
             | Some ack \<Rightarrow>
                 c_bind (decode_ack_loop (unat ack_range_count) 0 start ack) (\<lambda>ack.
                   let ack = map_option (\<lambda>a. if unat (ack_range_count + 1) < num_ack_ranges a
                                              then a\<lparr>num_ack_ranges := unat ack_range_count + 1\<rparr> else a) ack
                   in if frame_type = OSSL_QUIC_FRAME_TYPE_ACK_WITH_ECN then
                        c_bind PACKET_get_quic_vlint (\<lambda>e0.
                        c_bind PACKET_get_quic_vlint (\<lambda>e1.
                        c_bind PACKET_get_quic_vlint (\<lambda>ce.
                        c_ret (Some (map_option (\<lambda>a. a\<lparr>ect0 := e0, ect1 := e1, ecnce := ce, ecn_present := True\<rparr>) ack,
                                     ack_range_count + 1)))))
                      else c_ret (Some (map_option (\<lambda>a. a\<lparr>ecn_present := False\<rparr>) ack, ack_range_count + 1))))))))"

definition ossl_quic_wire_decode_frame_reset_stream ::
    "PACKET \<Rightarrow> (OSSL_QUIC_FRAME_RESET_STREAM option \<times> PACKET) option" where
  "ossl_quic_wire_decode_frame_reset_stream =
     c_then (expect_frame_header OSSL_QUIC_FRAME_TYPE_RESET_STREAM)
     (c_bind PACKET_get_quic_vlint (\<lambda>stream_id.
     c_bind PACKET_get_quic_vlint (\<lambda>app_error_code.
     c_bind PACKET_get_quic_vlint (\<lambda>final_size.
     c_ret (Some \<lparr>rs_stream_id = stream_id, rs_app_error_code = app_error_code, rs_final_size = final_size\<rparr>)))))"

definition ossl_quic_wire_decode_frame_stop_sending ::
    "PACKET \<Rightarrow> (OSSL_QUIC_FRAME_STOP_SENDING option \<times> PACKET) option" where
  "ossl_quic_wire_decode_frame_stop_sending =
     c_then (expect_frame_header OSSL_QUIC_FRAME_TYPE_STOP_SENDING)
     (c_bind PACKET_get_quic_vlint (\<lambda>stream_id.
     c_bind PACKET_get_quic_vlint (\<lambda>app_error_code.
     c_ret (Some \<lparr>st_stream_id = stream_id, st_app_error_code = app_error_code\<rparr>))))"

abbreviation (input) QUIC_MAX_STREAM_END :: u64 where
  "QUIC_MAX_STREAM_END \<equiv> push_bit 62 1 - 1"

definition ossl_quic_wire_decode_frame_crypto ::
    "bool \<Rightarrow> PACKET \<Rightarrow> (OSSL_QUIC_FRAME_CRYPTO option \<times> PACKET) option" where
  "ossl_quic_wire_decode_frame_crypto nodata =
     c_then (expect_frame_header OSSL_QUIC_FRAME_TYPE_CRYPTO)
     (c_bind PACKET_get_quic_vlint (\<lambda>offset.
     c_bind PACKET_get_quic_vlint (\<lambda>len.
       if unat len > SIZE_MAX then c_ret None
       else if offset + len > QUIC_MAX_STREAM_END then c_ret None
       else if nodata then c_ret (Some \<lparr>fc_offset = offset, fc_len = len, fc_data = NULL\<rparr>)
       else (\<lambda>pkt.
         if PACKET_remaining pkt < unat len then Some (None, pkt)
         else c_then (PACKET_forward (unat len))
                (c_ret (Some \<lparr>fc_offset = offset, fc_len = len, fc_data = PACKET_data pkt\<rparr>)) pkt))))"

definition ossl_quic_wire_decode_frame_new_token :: "PACKET \<Rightarrow> ((cptr \<times> nat) option \<times> PACKET) option" where
  "ossl_quic_wire_decode_frame_new_token =
     c_then (expect_frame_header OSSL_QUIC_FRAME_TYPE_NEW_TOKEN)
     (c_bind PACKET_get_quic_vlint (\<lambda>token_len.
       if unat token_len > SIZE_MAX then c_ret None
       else (\<lambda>pkt. c_then (PACKET_forward (unat token_len))
                     (c_ret (Some (PACKET_data pkt, unat token_len))) pkt)))"

definition ossl_quic_wire_decode_frame_stream ::
    "bool \<Rightarrow> PACKET \<Rightarrow> (OSSL_QUIC_FRAME_STREAM option \<times> PACKET) option" where
  "ossl_quic_wire_decode_frame_stream nodata =
     c_bind (expect_frame_header_mask OSSL_QUIC_FRAME_TYPE_STREAM OSSL_QUIC_FRAME_FLAG_STREAM_MASK) (\<lambda>frame_type.
     c_bind PACKET_get_quic_vlint (\<lambda>stream_id.
     c_bind (if frame_type AND OSSL_QUIC_FRAME_FLAG_STREAM_OFF \<noteq> 0 then PACKET_get_quic_vlint
             else c_ret (Some 0)) (\<lambda>offset.
       let has_explicit_len = frame_type AND OSSL_QUIC_FRAME_FLAG_STREAM_LEN \<noteq> 0;
           is_fin = frame_type AND OSSL_QUIC_FRAME_FLAG_STREAM_FIN \<noteq> 0
       in c_bind (if has_explicit_len then PACKET_get_quic_vlint
                  else if nodata then c_ret (Some 0)
                  else (\<lambda>pkt. Some (Some (of_nat (PACKET_remaining pkt)), pkt))) (\<lambda>len.
            if offset + len > QUIC_MAX_STREAM_END then c_ret None
            else if nodata then
              c_ret (Some \<lparr>fs_stream_id = stream_id, fs_offset = offset, fs_len = len, fs_data = NULL,
                           fs_has_explicit_len = has_explicit_len, fs_is_fin = is_fin\<rparr>)
            else if unat len > SIZE_MAX then c_ret None
            else (\<lambda>pkt. c_then (PACKET_forward (unat len))
                   (c_ret (Some \<lparr>fs_stream_id = stream_id, fs_offset = offset, fs_len = len,
                                 fs_data = PACKET_data pkt, fs_has_explicit_len = has_explicit_len,
                                 fs_is_fin = is_fin\<rparr>)) pkt)))))"

definition ossl_quic_wire_decode_frame_max_data :: "PACKET \<Rightarrow> (u64 option \<times> PACKET) option" where
  "ossl_quic_wire_decode_frame_max_data =
     c_then (expect_frame_header OSSL_QUIC_FRAME_TYPE_MAX_DATA) PACKET_get_quic_vlint"

definition ossl_quic_wire_decode_frame_max_stream_data :: "PACKET \<Rightarrow> ((u64 \<times> u64) option \<times> PACKET) option" where
  "ossl_quic_wire_decode_frame_max_stream_data =
     c_then (expect_frame_header OSSL_QUIC_FRAME_TYPE_MAX_STREAM_DATA)
     (c_bind PACKET_get_quic_vlint (\<lambda>stream_id.
     c_bind PACKET_get_quic_vlint (\<lambda>max_stream_data. c_ret (Some (stream_id, max_stream_data)))))"

definition ossl_quic_wire_decode_frame_max_streams :: "PACKET \<Rightarrow> (u64 option \<times> PACKET) option" where
  "ossl_quic_wire_decode_frame_max_streams =
     c_then (expect_frame_header_mask OSSL_QUIC_FRAME_TYPE_MAX_STREAMS_BIDI 1) PACKET_get_quic_vlint"

definition ossl_quic_wire_decode_frame_data_blocked :: "PACKET \<Rightarrow> (u64 option \<times> PACKET) option" where
  "ossl_quic_wire_decode_frame_data_blocked =
     c_then (expect_frame_header OSSL_QUIC_FRAME_TYPE_DATA_BLOCKED) PACKET_get_quic_vlint"

definition ossl_quic_wire_decode_frame_stream_data_blocked :: "PACKET \<Rightarrow> ((u64 \<times> u64) option \<times> PACKET) option" where
  "ossl_quic_wire_decode_frame_stream_data_blocked =
     c_then (expect_frame_header OSSL_QUIC_FRAME_TYPE_STREAM_DATA_BLOCKED)
     (c_bind PACKET_get_quic_vlint (\<lambda>stream_id.
     c_bind PACKET_get_quic_vlint (\<lambda>max_stream_data. c_ret (Some (stream_id, max_stream_data)))))"

definition ossl_quic_wire_decode_frame_streams_blocked :: "PACKET \<Rightarrow> (u64 option \<times> PACKET) option" where
  "ossl_quic_wire_decode_frame_streams_blocked =
     c_then (expect_frame_header_mask OSSL_QUIC_FRAME_TYPE_STREAMS_BLOCKED_BIDI 1) PACKET_get_quic_vlint"

text \<open>\<open>f\<close> is the caller's structure, whose arrays are written to.\<close>

definition ossl_quic_wire_decode_frame_new_conn_id ::
    "OSSL_QUIC_FRAME_NEW_CONN_ID \<Rightarrow> PACKET \<Rightarrow> (OSSL_QUIC_FRAME_NEW_CONN_ID option \<times> PACKET) option" where
  "ossl_quic_wire_decode_frame_new_conn_id f =
     c_then (expect_frame_header OSSL_QUIC_FRAME_TYPE_NEW_CONN_ID)
     (c_bind PACKET_get_quic_vlint (\<lambda>seq_num.
     c_bind PACKET_get_quic_vlint (\<lambda>retire_prior_to.
       if seq_num < retire_prior_to then c_ret None
       else c_bind PACKET_get_1 (\<lambda>len.
         if len < 1 \<or> unat len > QUIC_MAX_CONN_ID_LEN then c_ret None
         else c_bind (PACKET_copy_bytes (cid_id (nc_conn_id f)) (unat len)) (\<lambda>id'.
           case (if unat len < QUIC_MAX_CONN_ID_LEN
                 then mem_write id' (unat len) (replicate (QUIC_MAX_CONN_ID_LEN - unat len) 0)
                 else Some id')
           of None \<Rightarrow> (\<lambda>_. None)
            | Some id' \<Rightarrow>
                c_bind (PACKET_copy_bytes (nc_stateless_reset f) QUIC_STATELESS_RESET_TOKEN_LEN) (\<lambda>token.
                c_ret (Some \<lparr>nc_seq_num = seq_num, nc_retire_prior_to = retire_prior_to,
                  nc_conn_id = \<lparr>id_len = unat len, cid_id = id'\<rparr>, nc_stateless_reset = token\<rparr>)))))))"

definition ossl_quic_wire_decode_frame_retire_conn_id :: "PACKET \<Rightarrow> (u64 option \<times> PACKET) option" where
  "ossl_quic_wire_decode_frame_retire_conn_id =
     c_then (expect_frame_header OSSL_QUIC_FRAME_TYPE_RETIRE_CONN_ID) PACKET_get_quic_vlint"

definition ossl_quic_wire_decode_frame_path_challenge :: "PACKET \<Rightarrow> (u64 option \<times> PACKET) option" where
  "ossl_quic_wire_decode_frame_path_challenge =
     c_then (expect_frame_header OSSL_QUIC_FRAME_TYPE_PATH_CHALLENGE) PACKET_get_net_8"

definition ossl_quic_wire_decode_frame_path_response :: "PACKET \<Rightarrow> (u64 option \<times> PACKET) option" where
  "ossl_quic_wire_decode_frame_path_response =
     c_then (expect_frame_header OSSL_QUIC_FRAME_TYPE_PATH_RESPONSE) PACKET_get_net_8"

definition ossl_quic_wire_decode_frame_conn_close ::
    "PACKET \<Rightarrow> (OSSL_QUIC_FRAME_CONN_CLOSE option \<times> PACKET) option" where
  "ossl_quic_wire_decode_frame_conn_close =
     c_bind (expect_frame_header_mask OSSL_QUIC_FRAME_TYPE_CONN_CLOSE_TRANSPORT 1) (\<lambda>frame_type.
     c_bind PACKET_get_quic_vlint (\<lambda>error_code.
       let is_app = frame_type AND 1 \<noteq> 0
       in c_bind (if \<not> is_app then PACKET_get_quic_vlint else c_ret (Some 0)) (\<lambda>ftype.
          c_bind PACKET_get_quic_vlint (\<lambda>reason_len.
            if unat reason_len > SIZE_MAX then c_ret None
            else c_bind (PACKET_get_bytes (unat reason_len)) (\<lambda>reason.
              c_ret (Some \<lparr>cc_is_app = is_app, cc_error_code = error_code, cc_frame_type = ftype,
                           cc_reason = reason, cc_reason_len = unat reason_len\<rparr>))))))"

text \<open>The number of zero bytes from \<open>p\<close> on, among the first \<open>n\<close>.\<close>

fun padding_run :: "cptr \<Rightarrow> nat \<Rightarrow> nat option" where
  "padding_run p 0 = Some 0"
| "padding_run p (Suc n) =
     (case ptr_byte p 0 of
        None \<Rightarrow> None
      | Some c \<Rightarrow> if c = 0 then (case padding_run (ptr_add p 1) n of None \<Rightarrow> None | Some k \<Rightarrow> Some (Suc k))
                  else Some 0)"

definition ossl_quic_wire_decode_padding :: "PACKET \<Rightarrow> (nat \<times> PACKET) option" where
  "ossl_quic_wire_decode_padding pkt = do {
     n \<leftarrow> padding_run (PACKET_data pkt) (pkt_remaining pkt);
     (r, pkt) \<leftarrow> PACKET_forward n pkt;
     Some (if r = None then 0 else n, pkt) }"

definition ossl_quic_wire_decode_frame_ping :: "PACKET \<Rightarrow> (unit option \<times> PACKET) option" where
  "ossl_quic_wire_decode_frame_ping = expect_frame_header OSSL_QUIC_FRAME_TYPE_PING"

definition ossl_quic_wire_decode_frame_handshake_done :: "PACKET \<Rightarrow> (unit option \<times> PACKET) option" where
  "ossl_quic_wire_decode_frame_handshake_done = expect_frame_header OSSL_QUIC_FRAME_TYPE_HANDSHAKE_DONE"

subsection \<open>Transport parameters\<close>

definition ossl_quic_wire_peek_transport_param :: "PACKET \<Rightarrow> u64 option option" where
  "ossl_quic_wire_peek_transport_param pkt = PACKET_peek_quic_vlint pkt"

text \<open>The body, the identifier and the length; the inner \<open>None\<close> is a null result.\<close>

definition ossl_quic_wire_decode_transport_param_bytes ::
    "PACKET \<Rightarrow> ((cptr \<times> u64 \<times> nat) option \<times> PACKET) option" where
  "ossl_quic_wire_decode_transport_param_bytes =
     c_bind PACKET_get_quic_vlint (\<lambda>id'.
     c_bind PACKET_get_quic_vlint (\<lambda>len.
       if unat len > SIZE_MAX then c_ret None
       else c_bind (PACKET_get_bytes (unat len)) (\<lambda>b.
         c_ret (if fst b = None then None else Some (b, id', unat len)))))"

text \<open>A parser on the bytes of a parameter; the outer packet is already past it.\<close>

definition on_sub :: "PACKET \<Rightarrow> (PACKET \<Rightarrow> ('a option \<times> PACKET) option) \<Rightarrow> PACKET \<Rightarrow> ('a option \<times> PACKET) option" where
  "on_sub sub f pkt = map_option (\<lambda>(r, _). (r, pkt)) (f sub)"

definition ossl_quic_wire_decode_transport_param_int :: "PACKET \<Rightarrow> ((u64 \<times> u64) option \<times> PACKET) option" where
  "ossl_quic_wire_decode_transport_param_int =
     c_bind ossl_quic_wire_decode_transport_param_bytes (\<lambda>(body, id', len).
       case PACKET_buf_init body len of
         None \<Rightarrow> c_ret None
       | Some sub \<Rightarrow> on_sub sub (c_bind PACKET_get_quic_vlint (\<lambda>val sub.
           if PACKET_remaining sub > 0 then Some (None, sub) else Some (Some (id', val), sub))))"

definition ossl_quic_wire_decode_transport_param_cid ::
    "QUIC_CONN_ID \<Rightarrow> PACKET \<Rightarrow> ((u64 \<times> QUIC_CONN_ID) option \<times> PACKET) option" where
  "ossl_quic_wire_decode_transport_param_cid cid =
     c_bind ossl_quic_wire_decode_transport_param_bytes (\<lambda>(body, id', len) pkt.
       if len > QUIC_MAX_CONN_ID_LEN then Some (None, pkt)
       else do {
         bs \<leftarrow> ptr_read body len;
         id_bytes \<leftarrow> mem_write (cid_id cid) 0 bs;
         Some (Some (id', \<lparr>id_len = len, cid_id = id_bytes\<rparr>), pkt) })"

abbreviation (input) QUIC_MIN_ENCODED_PREFERRED_ADDR_LEN :: nat where "QUIC_MIN_ENCODED_PREFERRED_ADDR_LEN \<equiv> 41"
abbreviation (input) QUIC_MAX_ENCODED_PREFERRED_ADDR_LEN :: nat where "QUIC_MAX_ENCODED_PREFERRED_ADDR_LEN \<equiv> 61"
abbreviation (input) QUIC_TPARAM_PREFERRED_ADDR :: u64 where "QUIC_TPARAM_PREFERRED_ADDR \<equiv> 0x0D"

definition decode_preferred_addr :: "QUIC_PREFERRED_ADDR \<Rightarrow> PACKET \<Rightarrow> (QUIC_PREFERRED_ADDR option \<times> PACKET) option" where
  "decode_preferred_addr p =
     c_bind (PACKET_copy_bytes (pa_ipv4 p) 4) (\<lambda>ipv4.
     c_bind PACKET_get_net_2 (\<lambda>ipv4_port.
     c_bind (PACKET_copy_bytes (pa_ipv6 p) 16) (\<lambda>ipv6.
     c_bind PACKET_get_net_2 (\<lambda>ipv6_port.
     c_bind PACKET_get_1 (\<lambda>cidl.
       if unat cidl > QUIC_MAX_CONN_ID_LEN then c_ret None
       else
         c_bind (PACKET_copy_bytes (cid_id (pa_cid p)) (unat cidl)) (\<lambda>id'.
         c_bind (PACKET_copy_bytes (pa_stateless_reset p) QUIC_STATELESS_RESET_TOKEN_LEN) (\<lambda>token.
         c_ret (Some \<lparr>pa_ipv4_port = unat ipv4_port, pa_ipv6_port = unat ipv6_port, pa_ipv4 = ipv4,
           pa_ipv6 = ipv6, pa_stateless_reset = token, pa_cid = \<lparr>id_len = unat cidl, cid_id = id'\<rparr>\<rparr>))))))))"

definition ossl_quic_wire_decode_transport_param_preferred_addr ::
    "QUIC_PREFERRED_ADDR \<Rightarrow> PACKET \<Rightarrow> (QUIC_PREFERRED_ADDR option \<times> PACKET) option" where
  "ossl_quic_wire_decode_transport_param_preferred_addr p =
     c_bind ossl_quic_wire_decode_transport_param_bytes (\<lambda>(body, id', len).
       if len < QUIC_MIN_ENCODED_PREFERRED_ADDR_LEN \<or> len > QUIC_MAX_ENCODED_PREFERRED_ADDR_LEN
          \<or> id' \<noteq> QUIC_TPARAM_PREFERRED_ADDR then c_ret None
       else case PACKET_buf_init body len of
           None \<Rightarrow> c_ret None
         | Some pkt2 \<Rightarrow> on_sub pkt2 (decode_preferred_addr p))"

subsection \<open>Names\<close>

text \<open>The switches over the frame types and over the transport error codes; no name is a null pointer.\<close>

definition ossl_quic_frame_type_to_string :: "u64 \<Rightarrow> string option" where
  "ossl_quic_frame_type_to_string frame_type = map_of
     [(0x00, ''PADDING''), (0x01, ''PING''), (0x02, ''ACK_WITHOUT_ECN''),
      (0x03, ''ACK_WITH_ECN''), (0x04, ''RESET_STREAM''), (0x05, ''STOP_SENDING''),
      (0x06, ''CRYPTO''), (0x07, ''NEW_TOKEN''), (0x10, ''MAX_DATA''),
      (0x11, ''MAX_STREAM_DATA''), (0x12, ''MAX_STREAMS_BIDI''), (0x13, ''MAX_STREAMS_UNI''),
      (0x14, ''DATA_BLOCKED''), (0x15, ''STREAM_DATA_BLOCKED''), (0x16, ''STREAMS_BLOCKED_BIDI''),
      (0x17, ''STREAMS_BLOCKED_UNI''), (0x18, ''NEW_CONN_ID''), (0x19, ''RETIRE_CONN_ID''),
      (0x1A, ''PATH_CHALLENGE''), (0x1B, ''PATH_RESPONSE''), (0x1C, ''CONN_CLOSE_TRANSPORT''),
      (0x1D, ''CONN_CLOSE_APP''), (0x1E, ''HANDSHAKE_DONE''), (0x08, ''STREAM''),
      (0x09, ''STREAM_FIN''), (0x0A, ''STREAM_LEN''), (0x0B, ''STREAM_LEN_FIN''),
      (0x0C, ''STREAM_OFF''), (0x0D, ''STREAM_OFF_FIN''), (0x0E, ''STREAM_OFF_LEN''),
      (0x0F, ''STREAM_OFF_LEN_FIN'')] frame_type"

definition ossl_quic_err_to_string :: "u64 \<Rightarrow> string option" where
  "ossl_quic_err_to_string error_code = map_of
     [(0x00, ''NO_ERROR''), (0x01, ''INTERNAL_ERROR''), (0x02, ''CONNECTION_REFUSED''),
      (0x03, ''FLOW_CONTROL_ERROR''), (0x04, ''STREAM_LIMIT_ERROR''), (0x05, ''STREAM_STATE_ERROR''),
      (0x06, ''FINAL_SIZE_ERROR''), (0x07, ''FRAME_ENCODING_ERROR''), (0x08, ''TRANSPORT_PARAMETER_ERROR''),
      (0x09, ''CONNECTION_ID_LIMIT_ERROR''), (0x0A, ''PROTOCOL_VIOLATION''), (0x0B, ''INVALID_TOKEN''),
      (0x0C, ''APPLICATION_ERROR''), (0x0D, ''CRYPTO_BUFFER_EXCEEDED''), (0x0E, ''KEY_UPDATE_ERROR''),
      (0x0F, ''AEAD_LIMIT_REACHED''), (0x10, ''NO_VIABLE_PATH'')] error_code"

section \<open>The frames as byte strings\<close>

text \<open>The type that a frame starts with, alone or up to the bits of a mask.\<close>

definition hdr_dec :: "u64 \<Rightarrow> u8 list \<Rightarrow> (unit \<times> u8 list) option" where
  "hdr_dec ft = p_bind vlint_dec (\<lambda>v. if v \<noteq> ft then p_fail else p_ret ())"

definition mask_dec :: "u64 \<Rightarrow> u64 \<Rightarrow> u8 list \<Rightarrow> (u64 \<times> u8 list) option" where
  "mask_dec ft m = p_bind vlint_dec (\<lambda>v. if v AND NOT m \<noteq> ft then p_fail else p_ret v)"

lemma reads_expect_frame_header: "reads Some (expect_frame_header ft) (hdr_dec ft)"
  unfolding expect_frame_header_def hdr_dec_def ossl_quic_wire_skip_frame_header_def
  by (intro reading) simp

lemma reads_expect_frame_header_mask: "reads Some (expect_frame_header_mask ft m) (mask_dec ft m)"
  unfolding expect_frame_header_mask_def mask_dec_def ossl_quic_wire_skip_frame_header_def
  by (intro reading) simp

lemma hdr_dec_encode [simp]: "unat ft < 2 ^ 62 \<Longrightarrow> hdr_dec ft (ossl_quic_vlint_encode ft @ rest) = Some ((), rest)"
  by (simp add: hdr_dec_def p_bind_def vlint_dec_encode p_ret_def)

lemma mask_dec_encode:
  "unat v < 2 ^ 62 \<Longrightarrow> v AND NOT m = ft \<Longrightarrow> mask_dec ft m (ossl_quic_vlint_encode v @ rest) = Some (v, rest)"
  by (simp add: mask_dec_def p_bind_def vlint_dec_encode p_ret_def)

lemma writes_frame_hdr: "unat ft < 2 ^ 62 \<Longrightarrow> writes E (encode_frame_hdr E ft) (ossl_quic_vlint_encode ft)"
  unfolding encode_frame_hdr_def by (rule writes_quic_vlint)

lemmas frame_reading = reads_expect_frame_header reads_expect_frame_header_mask reading
lemmas frame_writing = writes_frame_hdr writing
lemmas frame_parsing = p_bind_def p_ret_def p_fail_def vlint_dec_encode mask_dec_encode

text \<open>One integer or two after the type.\<close>

definition int_dec :: "u64 \<Rightarrow> u8 list \<Rightarrow> (u64 \<times> u8 list) option" where
  "int_dec ft = p_bind (hdr_dec ft) (\<lambda>_. vlint_dec)"

definition int2_dec :: "u64 \<Rightarrow> u8 list \<Rightarrow> ((u64 \<times> u64) \<times> u8 list) option" where
  "int2_dec ft = p_bind (hdr_dec ft) (\<lambda>_. p_bind vlint_dec (\<lambda>a. p_bind vlint_dec (\<lambda>b. p_ret (a, b))))"

definition int_enc :: "u64 \<Rightarrow> u64 \<Rightarrow> u8 list" where
  "int_enc ft v = ossl_quic_vlint_encode ft @ ossl_quic_vlint_encode v"

definition int2_enc :: "u64 \<Rightarrow> u64 \<times> u64 \<Rightarrow> u8 list" where
  "int2_enc ft v = ossl_quic_vlint_encode ft @ ossl_quic_vlint_encode (fst v) @ ossl_quic_vlint_encode (snd v)"

lemmas int_codecs = int_dec_def int2_dec_def int_enc_def int2_enc_def

lemma int_frame:
  assumes "unat ft < 2 ^ 62"
  shows "wire_rw Some (c_then (expect_frame_header ft) PACKET_get_quic_vlint) (int_dec ft) (int_enc ft)
    (\<lambda>v. unat v < 2 ^ 62) (\<lambda>E v. c_then (encode_frame_hdr E ft) (WPACKET_quic_write_vlint E v))"
  unfolding int_codecs using assms
  by unfold_locales (intro frame_reading, simp add: frame_parsing, intro frame_writing, simp_all)

lemma int2_frame:
  assumes "unat ft < 2 ^ 62"
  shows "wire_rw Some (c_then (expect_frame_header ft) (c_bind PACKET_get_quic_vlint (\<lambda>a.
      c_bind PACKET_get_quic_vlint (\<lambda>b. c_ret (Some (a, b)))))) (int2_dec ft) (int2_enc ft)
    (\<lambda>v. unat (fst v) < 2 ^ 62 \<and> unat (snd v) < 2 ^ 62)
    (\<lambda>E v. c_then (encode_frame_hdr E ft) (c_then (WPACKET_quic_write_vlint E (fst v)) (WPACKET_quic_write_vlint E (snd v))))"
  unfolding int_codecs using assms
  by unfold_locales (intro frame_reading, simp, simp add: frame_parsing, intro frame_writing, simp_all)

interpretation rw_max_data: wire_rw Some ossl_quic_wire_decode_frame_max_data "int_dec OSSL_QUIC_FRAME_TYPE_MAX_DATA"
    "int_enc OSSL_QUIC_FRAME_TYPE_MAX_DATA" "\<lambda>v. unat v < 2 ^ 62" ossl_quic_wire_encode_frame_max_data
  unfolding ossl_quic_wire_decode_frame_max_data_def ossl_quic_wire_encode_frame_max_data_def [abs_def]
  by (rule int_frame) simp

interpretation rw_data_blocked: wire_rw Some ossl_quic_wire_decode_frame_data_blocked
    "int_dec OSSL_QUIC_FRAME_TYPE_DATA_BLOCKED" "int_enc OSSL_QUIC_FRAME_TYPE_DATA_BLOCKED" "\<lambda>v. unat v < 2 ^ 62"
    ossl_quic_wire_encode_frame_data_blocked
  unfolding ossl_quic_wire_decode_frame_data_blocked_def ossl_quic_wire_encode_frame_data_blocked_def [abs_def]
  by (rule int_frame) simp

interpretation rw_retire_conn_id: wire_rw Some ossl_quic_wire_decode_frame_retire_conn_id
    "int_dec OSSL_QUIC_FRAME_TYPE_RETIRE_CONN_ID" "int_enc OSSL_QUIC_FRAME_TYPE_RETIRE_CONN_ID"
    "\<lambda>v. unat v < 2 ^ 62" ossl_quic_wire_encode_frame_retire_conn_id
  unfolding ossl_quic_wire_decode_frame_retire_conn_id_def ossl_quic_wire_encode_frame_retire_conn_id_def [abs_def]
  by (rule int_frame) simp

interpretation rw_max_stream_data: wire_rw Some ossl_quic_wire_decode_frame_max_stream_data
    "int2_dec OSSL_QUIC_FRAME_TYPE_MAX_STREAM_DATA" "int2_enc OSSL_QUIC_FRAME_TYPE_MAX_STREAM_DATA"
    "\<lambda>v. unat (fst v) < 2 ^ 62 \<and> unat (snd v) < 2 ^ 62"
    "\<lambda>E v. ossl_quic_wire_encode_frame_max_stream_data E (fst v) (snd v)"
  unfolding ossl_quic_wire_decode_frame_max_stream_data_def ossl_quic_wire_encode_frame_max_stream_data_def
  by (rule int2_frame) simp

interpretation rw_stream_data_blocked: wire_rw Some ossl_quic_wire_decode_frame_stream_data_blocked
    "int2_dec OSSL_QUIC_FRAME_TYPE_STREAM_DATA_BLOCKED" "int2_enc OSSL_QUIC_FRAME_TYPE_STREAM_DATA_BLOCKED"
    "\<lambda>v. unat (fst v) < 2 ^ 62 \<and> unat (snd v) < 2 ^ 62"
    "\<lambda>E v. ossl_quic_wire_encode_frame_stream_data_blocked E (fst v) (snd v)"
  unfolding ossl_quic_wire_decode_frame_stream_data_blocked_def ossl_quic_wire_encode_frame_stream_data_blocked_def
  by (rule int2_frame) simp

text \<open>MAX\_STREAMS and STREAMS\_BLOCKED: bit 0 of the type says which kind of stream is meant; the decoders accept
  both and the caller knows which type it peeked.\<close>

definition streams_dec :: "u64 \<Rightarrow> u8 list \<Rightarrow> (u64 \<times> u8 list) option" where
  "streams_dec ft = p_bind (mask_dec ft 1) (\<lambda>_. vlint_dec)"

lemma streams_frame:
  assumes "unat ft' < 2 ^ 62" "ft' AND NOT 1 = ft"
  shows "wire_rw Some (c_then (expect_frame_header_mask ft 1) PACKET_get_quic_vlint) (streams_dec ft)
    (int_enc ft') (\<lambda>v. unat v < 2 ^ 62) (\<lambda>E v. c_then (encode_frame_hdr E ft') (WPACKET_quic_write_vlint E v))"
  unfolding int_codecs streams_dec_def using assms
  by unfold_locales (intro frame_reading, simp add: frame_parsing, intro frame_writing, simp_all)

interpretation rw_max_streams: wire_rw Some ossl_quic_wire_decode_frame_max_streams
    "streams_dec OSSL_QUIC_FRAME_TYPE_MAX_STREAMS_BIDI"
    "int_enc (if is_uni then OSSL_QUIC_FRAME_TYPE_MAX_STREAMS_UNI else OSSL_QUIC_FRAME_TYPE_MAX_STREAMS_BIDI)"
    "\<lambda>v. unat v < 2 ^ 62" "\<lambda>E. ossl_quic_wire_encode_frame_max_streams E is_uni"
  for is_uni
  unfolding ossl_quic_wire_decode_frame_max_streams_def ossl_quic_wire_encode_frame_max_streams_def [abs_def]
  by (rule streams_frame) (cases is_uni; simp)+

interpretation rw_streams_blocked: wire_rw Some ossl_quic_wire_decode_frame_streams_blocked
    "streams_dec OSSL_QUIC_FRAME_TYPE_STREAMS_BLOCKED_BIDI"
    "int_enc (if is_uni then OSSL_QUIC_FRAME_TYPE_STREAMS_BLOCKED_UNI else OSSL_QUIC_FRAME_TYPE_STREAMS_BLOCKED_BIDI)"
    "\<lambda>v. unat v < 2 ^ 62" "\<lambda>E. ossl_quic_wire_encode_frame_streams_blocked E is_uni"
  for is_uni
  unfolding ossl_quic_wire_decode_frame_streams_blocked_def ossl_quic_wire_encode_frame_streams_blocked_def [abs_def]
  by (rule streams_frame) (cases is_uni; simp)+

text \<open>PATH\_CHALLENGE and PATH\_RESPONSE: eight bytes in network order.\<close>

definition path_dec :: "u64 \<Rightarrow> u8 list \<Rightarrow> (u64 \<times> u8 list) option" where
  "path_dec ft = p_bind (hdr_dec ft) (\<lambda>_. net_dec 8)"

definition path_enc :: "u64 \<Rightarrow> u64 \<Rightarrow> u8 list" where
  "path_enc ft v = ossl_quic_vlint_encode ft @ bytes_of_word 8 v"

lemma path_frame:
  assumes "unat ft < 2 ^ 62"
  shows "wire_rw Some (c_then (expect_frame_header ft) PACKET_get_net_8) (path_dec ft) (path_enc ft)
    (\<lambda>_. True) (\<lambda>E v. c_then (encode_frame_hdr E ft) (WPACKET_put_bytes E v 8))"
  unfolding path_dec_def path_enc_def using assms
  by unfold_locales (intro frame_reading, simp add: p_bind_def net8.spec_enc, intro frame_writing rw_u64.put_writes, simp_all)

interpretation rw_path_challenge: wire_rw Some ossl_quic_wire_decode_frame_path_challenge
    "path_dec OSSL_QUIC_FRAME_TYPE_PATH_CHALLENGE" "path_enc OSSL_QUIC_FRAME_TYPE_PATH_CHALLENGE" "\<lambda>_. True"
    ossl_quic_wire_encode_frame_path_challenge
  unfolding ossl_quic_wire_decode_frame_path_challenge_def ossl_quic_wire_encode_frame_path_challenge_def [abs_def]
  by (rule path_frame) simp

interpretation rw_path_response: wire_rw Some ossl_quic_wire_decode_frame_path_response
    "path_dec OSSL_QUIC_FRAME_TYPE_PATH_RESPONSE" "path_enc OSSL_QUIC_FRAME_TYPE_PATH_RESPONSE" "\<lambda>_. True"
    ossl_quic_wire_encode_frame_path_response
  unfolding ossl_quic_wire_decode_frame_path_response_def ossl_quic_wire_encode_frame_path_response_def [abs_def]
  by (rule path_frame) simp

text \<open>PING and HANDSHAKE\_DONE are only their type.\<close>

lemma bare_frame:
  assumes "unat ft < 2 ^ 62"
  shows "wire_rw Some (expect_frame_header ft) (hdr_dec ft) (\<lambda>_. ossl_quic_vlint_encode ft) (\<lambda>_. True)
    (\<lambda>E _. encode_frame_hdr E ft)"
  using assms by unfold_locales (rule reads_expect_frame_header, simp, rule writes_frame_hdr)

interpretation rw_ping: wire_rw Some ossl_quic_wire_decode_frame_ping "hdr_dec OSSL_QUIC_FRAME_TYPE_PING"
    "\<lambda>_. ossl_quic_vlint_encode OSSL_QUIC_FRAME_TYPE_PING" "\<lambda>_. True" "\<lambda>E _. ossl_quic_wire_encode_frame_ping E"
  unfolding ossl_quic_wire_decode_frame_ping_def ossl_quic_wire_encode_frame_ping_def by (rule bare_frame) simp

interpretation rw_handshake_done: wire_rw Some ossl_quic_wire_decode_frame_handshake_done
    "hdr_dec OSSL_QUIC_FRAME_TYPE_HANDSHAKE_DONE" "\<lambda>_. ossl_quic_vlint_encode OSSL_QUIC_FRAME_TYPE_HANDSHAKE_DONE"
    "\<lambda>_. True" "\<lambda>E _. ossl_quic_wire_encode_frame_handshake_done E"
  unfolding ossl_quic_wire_decode_frame_handshake_done_def ossl_quic_wire_encode_frame_handshake_done_def
  by (rule bare_frame) simp

text \<open>RESET\_STREAM and STOP\_SENDING.\<close>

definition reset_stream_dec :: "u8 list \<Rightarrow> (OSSL_QUIC_FRAME_RESET_STREAM \<times> u8 list) option" where
  "reset_stream_dec = p_bind (hdr_dec OSSL_QUIC_FRAME_TYPE_RESET_STREAM) (\<lambda>_.
     p_bind vlint_dec (\<lambda>stream_id. p_bind vlint_dec (\<lambda>app_error_code. p_bind vlint_dec (\<lambda>final_size.
     p_ret \<lparr>rs_stream_id = stream_id, rs_app_error_code = app_error_code, rs_final_size = final_size\<rparr>))))"

definition reset_stream_enc :: "OSSL_QUIC_FRAME_RESET_STREAM \<Rightarrow> u8 list" where
  "reset_stream_enc f = ossl_quic_vlint_encode OSSL_QUIC_FRAME_TYPE_RESET_STREAM
     @ ossl_quic_vlint_encode (rs_stream_id f) @ ossl_quic_vlint_encode (rs_app_error_code f)
     @ ossl_quic_vlint_encode (rs_final_size f)"

definition stop_sending_dec :: "u8 list \<Rightarrow> (OSSL_QUIC_FRAME_STOP_SENDING \<times> u8 list) option" where
  "stop_sending_dec = p_bind (hdr_dec OSSL_QUIC_FRAME_TYPE_STOP_SENDING) (\<lambda>_.
     p_bind vlint_dec (\<lambda>stream_id. p_bind vlint_dec (\<lambda>app_error_code.
     p_ret \<lparr>st_stream_id = stream_id, st_app_error_code = app_error_code\<rparr>)))"

definition stop_sending_enc :: "OSSL_QUIC_FRAME_STOP_SENDING \<Rightarrow> u8 list" where
  "stop_sending_enc f = ossl_quic_vlint_encode OSSL_QUIC_FRAME_TYPE_STOP_SENDING
     @ ossl_quic_vlint_encode (st_stream_id f) @ ossl_quic_vlint_encode (st_app_error_code f)"

interpretation rw_reset_stream: wire_rw Some ossl_quic_wire_decode_frame_reset_stream reset_stream_dec reset_stream_enc
    "\<lambda>f. unat (rs_stream_id f) < 2 ^ 62 \<and> unat (rs_app_error_code f) < 2 ^ 62 \<and> unat (rs_final_size f) < 2 ^ 62"
    ossl_quic_wire_encode_frame_reset_stream
  unfolding ossl_quic_wire_decode_frame_reset_stream_def ossl_quic_wire_encode_frame_reset_stream_def [abs_def]
    reset_stream_dec_def reset_stream_enc_def [abs_def]
  by unfold_locales (intro frame_reading, simp, simp add: frame_parsing, intro frame_writing, simp_all)

interpretation rw_stop_sending: wire_rw Some ossl_quic_wire_decode_frame_stop_sending stop_sending_dec stop_sending_enc
    "\<lambda>f. unat (st_stream_id f) < 2 ^ 62 \<and> unat (st_app_error_code f) < 2 ^ 62"
    ossl_quic_wire_encode_frame_stop_sending
  unfolding ossl_quic_wire_decode_frame_stop_sending_def ossl_quic_wire_encode_frame_stop_sending_def [abs_def]
    stop_sending_dec_def stop_sending_enc_def [abs_def]
  by unfold_locales (intro frame_reading, simp, simp add: frame_parsing, intro frame_writing, simp_all)

subsection \<open>Frames with data\<close>

text \<open>
  A decoder leaves a pointer into the packet in the frame.  The value it denotes has the bytes instead: a pointer
  to an object of just these bytes.
\<close>

definition owned :: "cptr \<Rightarrow> nat \<Rightarrow> bool" where
  "owned d n \<longleftrightarrow> snd d = 0 \<and> (case fst d of None \<Rightarrow> False | Some bs \<Rightarrow> length bs = n \<and> n \<le> SIZE_MAX div 2)"

definition ptr_bytes :: "cptr \<Rightarrow> u8 list" where
  "ptr_bytes d = (case fst d of None \<Rightarrow> [] | Some bs \<Rightarrow> bs)"

lemma ownedE: "owned d n \<Longrightarrow> \<exists>bs. d = (Some bs, 0) \<and> length bs = n \<and> ptr_bytes d = bs \<and> n \<le> SIZE_MAX div 2"
  by (cases d) (auto simp: owned_def ptr_bytes_def split: option.splits)

lemma owned_read: "owned d n \<Longrightarrow> ptr_read d n = Some (ptr_bytes d)"
  by (auto dest!: ownedE simp: ptr_read_object)

lemma owned_not_null: "owned d n \<Longrightarrow> fst d \<noteq> None"
  by (auto dest!: ownedE)

lemma unat_not_above_SIZE_MAX [simp]: "\<not> SIZE_MAX < unat (l :: u64)"
  using unat_u64_less [of l] by simp

lemma forward_data:
  "(\<lambda>pkt. c_then (PACKET_forward n) (c_ret (Some (g (PACKET_data pkt)))) pkt)
     = c_bind (PACKET_get_bytes n) (\<lambda>d. c_ret (Some (g d)))"
  by (rule ext) (simp add: c_bind_def PACKET_forward_def PACKET_get_bytes_def peek_then_forward_def
      PACKET_peek_bytes_def PACKET_data_def c_ret_def)

lemma reads_field_ptr:
  assumes "\<And>d bs. ptr_view n d = Some bs \<Longrightarrow> view (g d) = Some (b bs)"
  shows "reads view (c_bind (PACKET_get_bytes n) (\<lambda>d. c_ret (Some (g d)))) (p_bind (bytes_dec n) (\<lambda>bs. p_ret (b bs)))"
  by (rule reads_bind [OF reads_get_bytes]) (rule reads_ret, rule assms)

lemma reads_forward_data:
  assumes "\<And>d bs. ptr_view n d = Some bs \<Longrightarrow> view (g d) = Some (b bs)"
  shows "reads view (\<lambda>pkt. c_then (PACKET_forward n) (c_ret (Some (g (PACKET_data pkt)))) pkt)
    (p_bind (bytes_dec n) (\<lambda>bs. p_ret (b bs)))"
  unfolding forward_data by (rule reads_field_ptr) (rule assms)

lemma bytes_dec_append [simp]: "length bs = n \<Longrightarrow> bytes_dec n (bs @ rest) = Some (bs, rest)"
  by (simp add: field_dec_def)

lemma bytes_dec_all [simp]: "length bs = n \<Longrightarrow> bytes_dec n bs = Some (bs, [])"
  by (simp add: field_dec_def)

lemma writes_payload:
  assumes "ptr_read d (unat len) = Some bs" "fst d \<noteq> None" "len \<noteq> 0"
  shows "writes E (encode_payload E d len) bs"
proof -
  have "0 < unat len" using assms(3) by (simp add: unat_gt_0)
  then show ?thesis
    unfolding encode_payload_def
    using assms length_ptr_read [OF assms(1)]
    by (simp, intro writes_allocate_store [where h = "\<lambda>p. p"]) (auto split: option.splits)
qed

text \<open>CRYPTO.\<close>

definition crypto_view :: "OSSL_QUIC_FRAME_CRYPTO \<Rightarrow> OSSL_QUIC_FRAME_CRYPTO option" where
  "crypto_view f = map_option (\<lambda>bs. f\<lparr>fc_data := (Some bs, 0)\<rparr>) (ptr_view (unat (fc_len f)) (fc_data f))"

definition crypto_dec :: "u8 list \<Rightarrow> (OSSL_QUIC_FRAME_CRYPTO \<times> u8 list) option" where
  "crypto_dec = p_bind (hdr_dec OSSL_QUIC_FRAME_TYPE_CRYPTO) (\<lambda>_.
     p_bind vlint_dec (\<lambda>offset. p_bind vlint_dec (\<lambda>len.
       if offset + len > QUIC_MAX_STREAM_END then p_fail
       else p_bind (bytes_dec (unat len)) (\<lambda>bs. p_ret \<lparr>fc_offset = offset, fc_len = len, fc_data = (Some bs, 0)\<rparr>))))"

definition crypto_enc :: "OSSL_QUIC_FRAME_CRYPTO \<Rightarrow> u8 list" where
  "crypto_enc f = (ossl_quic_vlint_encode OSSL_QUIC_FRAME_TYPE_CRYPTO @ ossl_quic_vlint_encode (fc_offset f)
     @ ossl_quic_vlint_encode (fc_len f)) @ ptr_bytes (fc_data f)"

definition crypto_valid :: "OSSL_QUIC_FRAME_CRYPTO \<Rightarrow> bool" where
  "crypto_valid f \<longleftrightarrow> unat (fc_offset f) + unat (fc_len f) < 2 ^ 62 \<and> fc_len f \<noteq> 0
     \<and> owned (fc_data f) (unat (fc_len f))"

lemma reads_crypto_data:
  assumes "\<And>d bs. ptr_view n d = Some bs \<Longrightarrow> view (g d) = Some (b bs)"
  shows "reads view (\<lambda>pkt. if PACKET_remaining pkt < n then Some (None, pkt)
      else c_then (PACKET_forward n) (c_ret (Some (g (PACKET_data pkt)))) pkt) (p_bind (bytes_dec n) (\<lambda>bs. p_ret (b bs)))"
proof -
  have "(\<lambda>pkt. if PACKET_remaining pkt < n then Some (None, pkt)
      else c_then (PACKET_forward n) (c_ret (Some (g (PACKET_data pkt)))) pkt)
    = (\<lambda>pkt. c_then (PACKET_forward n) (c_ret (Some (g (PACKET_data pkt)))) pkt)"
    by (rule ext) (simp add: c_bind_def PACKET_forward_def)
  with reads_forward_data [of n view g b] assms show ?thesis by simp
qed

lemma reads_crypto: "reads crypto_view (ossl_quic_wire_decode_frame_crypto False) crypto_dec"
  unfolding ossl_quic_wire_decode_frame_crypto_def crypto_dec_def
  by (simp only: unat_not_above_SIZE_MAX if_False)
    (intro frame_reading reads_crypto_data, simp add: crypto_view_def)

lemma stream_end_ok:
  assumes "unat (a :: u64) + unat b < 2 ^ 62"
  shows "\<not> QUIC_MAX_STREAM_END < a + b"
proof -
  have "unat (a + b) = unat a + unat b" using assms by (simp add: unat_add_lem [symmetric])
  then show ?thesis using assms by (simp add: word_less_nat_alt)
qed

interpretation rw_crypto: wire_rw crypto_view "ossl_quic_wire_decode_frame_crypto False" crypto_dec crypto_enc crypto_valid
    ossl_quic_wire_encode_frame_crypto
proof unfold_locales
  fix f :: OSSL_QUIC_FRAME_CRYPTO and rest :: "u8 list" and E
  assume "crypto_valid f"
  then have f: "unat (fc_offset f) < 2 ^ 62" "unat (fc_len f) < 2 ^ 62" "fc_len f \<noteq> 0" "owned (fc_data f) (unat (fc_len f))"
    "\<not> QUIC_MAX_STREAM_END < fc_offset f + fc_len f"
    using stream_end_ok by (auto simp: crypto_valid_def)
  then show "crypto_dec (crypto_enc f @ rest) = Some (f, rest)"
    by (auto simp: crypto_dec_def crypto_enc_def frame_parsing dest!: ownedE)
  show "writes E (ossl_quic_wire_encode_frame_crypto E f) (crypto_enc f)"
    unfolding ossl_quic_wire_encode_frame_crypto_def ossl_quic_wire_encode_frame_crypto_hdr_def crypto_enc_def
    using f owned_not_null by (intro frame_writing writes_payload) (simp_all add: owned_read)
qed (rule reads_crypto)

text \<open>STREAM.  Without an explicit length the data reach to the end of the packet.\<close>

definition stream_view :: "OSSL_QUIC_FRAME_STREAM \<Rightarrow> OSSL_QUIC_FRAME_STREAM option" where
  "stream_view f = map_option (\<lambda>bs. f\<lparr>fs_data := (Some bs, 0)\<rparr>) (ptr_view (unat (fs_len f)) (fs_data f))"

definition p_remaining :: "u8 list \<Rightarrow> (u64 \<times> u8 list) option" where
  "p_remaining bs = Some (of_nat (length bs), bs)"

definition stream_dec :: "u8 list \<Rightarrow> (OSSL_QUIC_FRAME_STREAM \<times> u8 list) option" where
  "stream_dec = p_bind (mask_dec OSSL_QUIC_FRAME_TYPE_STREAM OSSL_QUIC_FRAME_FLAG_STREAM_MASK) (\<lambda>ft.
     p_bind vlint_dec (\<lambda>stream_id.
     p_bind (if ft AND OSSL_QUIC_FRAME_FLAG_STREAM_OFF \<noteq> 0 then vlint_dec else p_ret 0) (\<lambda>offset.
     p_bind (if ft AND OSSL_QUIC_FRAME_FLAG_STREAM_LEN \<noteq> 0 then vlint_dec else p_remaining) (\<lambda>len.
       if offset + len > QUIC_MAX_STREAM_END then p_fail
       else p_bind (bytes_dec (unat len)) (\<lambda>bs.
         p_ret \<lparr>fs_stream_id = stream_id, fs_offset = offset, fs_len = len, fs_data = (Some bs, 0),
           fs_has_explicit_len = ft AND OSSL_QUIC_FRAME_FLAG_STREAM_LEN \<noteq> 0,
           fs_is_fin = ft AND OSSL_QUIC_FRAME_FLAG_STREAM_FIN \<noteq> 0\<rparr>)))))"

definition stream_hdr_enc :: "OSSL_QUIC_FRAME_STREAM \<Rightarrow> u8 list" where
  "stream_hdr_enc f = ossl_quic_vlint_encode (stream_frame_type f) @ ossl_quic_vlint_encode (fs_stream_id f)
     @ (if fs_offset f \<noteq> 0 then ossl_quic_vlint_encode (fs_offset f) else [])
     @ (if fs_has_explicit_len f then ossl_quic_vlint_encode (fs_len f) else [])"

definition stream_enc :: "OSSL_QUIC_FRAME_STREAM \<Rightarrow> u8 list" where
  "stream_enc f = stream_hdr_enc f @ ptr_bytes (fs_data f)"

definition stream_valid :: "OSSL_QUIC_FRAME_STREAM \<Rightarrow> bool" where
  "stream_valid f \<longleftrightarrow> unat (fs_stream_id f) < 2 ^ 62 \<and> unat (fs_offset f) + unat (fs_len f) < 2 ^ 62
     \<and> fs_len f \<noteq> 0 \<and> owned (fs_data f) (unat (fs_len f))"

lemma reads_remaining: "reads Some (\<lambda>pkt. Some (Some (of_nat (PACKET_remaining pkt)), pkt)) p_remaining"
  by (auto simp: reads_def p_remaining_def PACKET_remaining_def length_packet_bytes)

lemma reads_stream: "reads stream_view (ossl_quic_wire_decode_frame_stream False) stream_dec"
  unfolding ossl_quic_wire_decode_frame_stream_def stream_dec_def
  by (simp only: unat_not_above_SIZE_MAX if_False Let_def)
    (intro frame_reading reads_remaining reads_forward_data; simp add: stream_view_def)

lemma stream_frame_type_bits:
  "stream_frame_type f AND - 8 = 8" "stream_frame_type f AND 4 \<noteq> 0 \<longleftrightarrow> fs_offset f \<noteq> 0"
  "stream_frame_type f AND 2 \<noteq> 0 \<longleftrightarrow> fs_has_explicit_len f" "stream_frame_type f AND 1 \<noteq> 0 \<longleftrightarrow> fs_is_fin f"
  "unat (stream_frame_type f) < 16"
  by (simp_all add: stream_frame_type_def Let_def)

lemma stream_dec_enc:
  assumes "stream_valid f" "fs_has_explicit_len f \<or> rest = []"
  shows "stream_dec (stream_enc f @ rest) = Some (f, rest)"
proof -
  have f: "unat (fs_stream_id f) < 2 ^ 62" "unat (fs_offset f) < 2 ^ 62" "unat (fs_len f) < 2 ^ 62"
    "\<not> QUIC_MAX_STREAM_END < fs_offset f + fs_len f"
    using assms(1) stream_end_ok by (auto simp: stream_valid_def)
  obtain bs where bs: "fs_data f = (Some bs, 0)" "length bs = unat (fs_len f)" "ptr_bytes (fs_data f) = bs"
    using assms(1) ownedE [of "fs_data f" "unat (fs_len f)"] by (auto simp: stream_valid_def)
  have ft: "unat (stream_frame_type f) < 2 ^ 62" using stream_frame_type_bits(5) [of f] by simp
  from f bs assms(2) ft show ?thesis
    unfolding stream_dec_def stream_enc_def stream_hdr_enc_def
    by (cases "fs_has_explicit_len f"; cases "fs_offset f = 0")
      (simp_all add: frame_parsing stream_frame_type_bits p_remaining_def)
qed

lemma writes_stream_hdr:
  assumes "unat (fs_stream_id f) < 2 ^ 62" "unat (fs_offset f) < 2 ^ 62" "fs_has_explicit_len f \<longrightarrow> unat (fs_len f) < 2 ^ 62"
  shows "writes E (ossl_quic_wire_encode_frame_stream_hdr E f) (stream_hdr_enc f)"
  unfolding ossl_quic_wire_encode_frame_stream_hdr_def stream_hdr_enc_def
  using assms stream_frame_type_bits(5) [of f] by (intro frame_writing) (auto intro: writing)

lemma writes_stream:
  assumes "stream_valid f"
  shows "writes E (ossl_quic_wire_encode_frame_stream E f) (stream_enc f)"
  unfolding ossl_quic_wire_encode_frame_stream_def stream_enc_def
  using assms owned_not_null [of "fs_data f"]
  by (intro frame_writing writes_stream_hdr writes_payload) (auto simp: stream_valid_def owned_read)

interpretation rw_stream: wire_rw stream_view "ossl_quic_wire_decode_frame_stream False" stream_dec stream_enc
    "\<lambda>f. stream_valid f \<and> fs_has_explicit_len f" ossl_quic_wire_encode_frame_stream
  by unfold_locales (simp_all add: reads_stream stream_dec_enc writes_stream)

text \<open>NEW\_TOKEN; the token is a pointer and a length.\<close>

definition token_view :: "cptr \<times> nat \<Rightarrow> (cptr \<times> nat) option" where
  "token_view t = map_option (\<lambda>bs. ((Some bs, 0), snd t)) (ptr_view (snd t) (fst t))"

definition new_token_dec :: "u8 list \<Rightarrow> ((cptr \<times> nat) \<times> u8 list) option" where
  "new_token_dec = p_bind (hdr_dec OSSL_QUIC_FRAME_TYPE_NEW_TOKEN) (\<lambda>_.
     p_bind vlint_dec (\<lambda>len. p_bind (bytes_dec (unat len)) (\<lambda>bs. p_ret ((Some bs, 0), unat len))))"

definition new_token_enc :: "cptr \<times> nat \<Rightarrow> u8 list" where
  "new_token_enc t = ossl_quic_vlint_encode OSSL_QUIC_FRAME_TYPE_NEW_TOKEN
     @ ossl_quic_vlint_encode (of_nat (snd t)) @ ptr_bytes (fst t)"

lemma unat_of_nat_62: "n < 2 ^ 62 \<Longrightarrow> unat (of_nat n :: u64) = n"
  by (simp add: unat_u64_of_nat)

lemma reads_new_token: "reads token_view ossl_quic_wire_decode_frame_new_token new_token_dec"
  unfolding ossl_quic_wire_decode_frame_new_token_def new_token_dec_def
  by (simp only: unat_not_above_SIZE_MAX if_False)
    (intro frame_reading reads_forward_data, simp add: token_view_def)

interpretation rw_new_token: wire_rw token_view ossl_quic_wire_decode_frame_new_token new_token_dec new_token_enc
    "\<lambda>t. snd t < 2 ^ 62 \<and> owned (fst t) (snd t)" "\<lambda>E t. ossl_quic_wire_encode_frame_new_token E (fst t) (snd t)"
proof unfold_locales
  fix t :: "cptr \<times> nat" and rest :: "u8 list" and E
  assume t: "snd t < 2 ^ 62 \<and> owned (fst t) (snd t)"
  then show "new_token_dec (new_token_enc t @ rest) = Some (t, rest)"
    by (cases t) (auto simp: new_token_dec_def new_token_enc_def frame_parsing unat_of_nat_62 dest!: ownedE)
  show "writes E (ossl_quic_wire_encode_frame_new_token E (fst t) (snd t)) (new_token_enc t)"
    unfolding ossl_quic_wire_encode_frame_new_token_def new_token_enc_def
    using t by (intro frame_writing writes_memcpy) (simp_all add: owned_read unat_of_nat_62)
qed (rule reads_new_token)

text \<open>CONNECTION\_CLOSE; only the transport variant has a frame type.\<close>

definition conn_close_view :: "OSSL_QUIC_FRAME_CONN_CLOSE \<Rightarrow> OSSL_QUIC_FRAME_CONN_CLOSE option" where
  "conn_close_view f = map_option (\<lambda>bs. f\<lparr>cc_reason := (Some bs, 0)\<rparr>) (ptr_view (cc_reason_len f) (cc_reason f))"

definition conn_close_dec :: "u8 list \<Rightarrow> (OSSL_QUIC_FRAME_CONN_CLOSE \<times> u8 list) option" where
  "conn_close_dec = p_bind (mask_dec OSSL_QUIC_FRAME_TYPE_CONN_CLOSE_TRANSPORT 1) (\<lambda>ft.
     p_bind vlint_dec (\<lambda>error_code.
     p_bind (if \<not> (ft AND 1 \<noteq> 0) then vlint_dec else p_ret 0) (\<lambda>frame_type.
     p_bind vlint_dec (\<lambda>len.
     p_bind (bytes_dec (unat len)) (\<lambda>bs.
       p_ret \<lparr>cc_is_app = ft AND 1 \<noteq> 0, cc_error_code = error_code, cc_frame_type = frame_type,
         cc_reason = (Some bs, 0), cc_reason_len = unat len\<rparr>)))))"

definition conn_close_enc :: "OSSL_QUIC_FRAME_CONN_CLOSE \<Rightarrow> u8 list" where
  "conn_close_enc f =
     ossl_quic_vlint_encode (if cc_is_app f then OSSL_QUIC_FRAME_TYPE_CONN_CLOSE_APP else OSSL_QUIC_FRAME_TYPE_CONN_CLOSE_TRANSPORT)
     @ ossl_quic_vlint_encode (cc_error_code f)
     @ (if \<not> cc_is_app f then ossl_quic_vlint_encode (cc_frame_type f) else [])
     @ ossl_quic_vlint_encode (of_nat (cc_reason_len f)) @ ptr_bytes (cc_reason f)"

definition conn_close_valid :: "OSSL_QUIC_FRAME_CONN_CLOSE \<Rightarrow> bool" where
  "conn_close_valid f \<longleftrightarrow> unat (cc_error_code f) < 2 ^ 62 \<and> unat (cc_frame_type f) < 2 ^ 62
     \<and> (cc_is_app f \<longrightarrow> cc_frame_type f = 0) \<and> cc_reason_len f < 2 ^ 62 \<and> owned (cc_reason f) (cc_reason_len f)"

lemma reads_conn_close: "reads conn_close_view ossl_quic_wire_decode_frame_conn_close conn_close_dec"
  unfolding ossl_quic_wire_decode_frame_conn_close_def conn_close_dec_def
  by (simp only: unat_not_above_SIZE_MAX if_False Let_def)
    (intro frame_reading reads_field_ptr; simp add: conn_close_view_def)

interpretation rw_conn_close: wire_rw conn_close_view ossl_quic_wire_decode_frame_conn_close conn_close_dec conn_close_enc
    conn_close_valid ossl_quic_wire_encode_frame_conn_close
proof unfold_locales
  fix f :: OSSL_QUIC_FRAME_CONN_CLOSE and rest :: "u8 list" and E
  assume f: "conn_close_valid f"
  obtain bs where bs: "cc_reason f = (Some bs, 0)" "length bs = cc_reason_len f" "ptr_bytes (cc_reason f) = bs"
    using f ownedE [of "cc_reason f" "cc_reason_len f"] by (auto simp: conn_close_valid_def)
  with f show "conn_close_dec (conn_close_enc f @ rest) = Some (f, rest)"
    by (cases "cc_is_app f")
      (simp_all add: conn_close_valid_def conn_close_dec_def conn_close_enc_def frame_parsing unat_of_nat_62)
  show "writes E (ossl_quic_wire_encode_frame_conn_close E f) (conn_close_enc f)"
    unfolding ossl_quic_wire_encode_frame_conn_close_def conn_close_enc_def
    using f by (intro frame_writing writes_memcpy)
      (auto simp: conn_close_valid_def owned_read unat_of_nat_62 intro: writing)
qed (rule reads_conn_close)

text \<open>NEW\_CONNECTION\_ID.  The arrays of the caller's structure have their fixed sizes; unused bytes of the identifier
  are zero.\<close>

definition copy_view :: "u8 list \<Rightarrow> nat \<Rightarrow> u8 list \<Rightarrow> u8 list option" where
  "copy_view data n a = (if n \<le> length a \<and> drop n a = drop n data then Some (take n a) else None)"

lemma copy_viewD: "copy_view data n a = Some b \<Longrightarrow> a = b @ drop n data \<and> length b = n"
  by (auto simp: copy_view_def min_def split: if_splits) (metis append_take_drop_id)

lemma reads_copy:
  assumes n: "n \<le> length data" and g: "\<And>bs. length bs = n \<Longrightarrow> reads h (g (bs @ drop n data)) (gs bs)"
  shows "reads h (c_bind (PACKET_copy_bytes data n) g) (p_bind (bytes_dec n) gs)"
proof (rule reads_bind)
  show "reads (copy_view data n) (PACKET_copy_bytes data n) (bytes_dec n)"
    unfolding PACKET_copy_bytes_def
    by (rule reads_peek_then_forward)
      (use n in \<open>auto simp: PACKET_peek_copy_bytes_def PACKET_remaining_def packet_read_prefix
         mem_write_in_bounds length_packet_bytes min_def copy_view_def\<close>)
  show "reads h (g a) (gs b)" if "copy_view data n a = Some b" for a b
    using copy_viewD [OF that] g by simp
qed

definition new_conn_id_dec :: "u8 list \<Rightarrow> (OSSL_QUIC_FRAME_NEW_CONN_ID \<times> u8 list) option" where
  "new_conn_id_dec = p_bind (hdr_dec OSSL_QUIC_FRAME_TYPE_NEW_CONN_ID) (\<lambda>_.
     p_bind vlint_dec (\<lambda>seq_num. p_bind vlint_dec (\<lambda>retire_prior_to.
       if seq_num < retire_prior_to then p_fail
       else p_bind (net_dec 1) (\<lambda>len.
         if len < 1 \<or> unat len > QUIC_MAX_CONN_ID_LEN then p_fail
         else p_bind (bytes_dec (unat len)) (\<lambda>id'.
           p_bind (bytes_dec QUIC_STATELESS_RESET_TOKEN_LEN) (\<lambda>token.
             p_ret \<lparr>nc_seq_num = seq_num, nc_retire_prior_to = retire_prior_to,
               nc_conn_id = \<lparr>id_len = unat len, cid_id = id' @ replicate (QUIC_MAX_CONN_ID_LEN - unat len) 0\<rparr>,
               nc_stateless_reset = token\<rparr>))))))"

definition new_conn_id_enc :: "OSSL_QUIC_FRAME_NEW_CONN_ID \<Rightarrow> u8 list" where
  "new_conn_id_enc f =
     ossl_quic_vlint_encode OSSL_QUIC_FRAME_TYPE_NEW_CONN_ID @ ossl_quic_vlint_encode (nc_seq_num f)
     @ ossl_quic_vlint_encode (nc_retire_prior_to f) @ bytes_of_word 1 (of_nat (id_len (nc_conn_id f)))
     @ take (id_len (nc_conn_id f)) (cid_id (nc_conn_id f)) @ nc_stateless_reset f"

definition new_conn_id_valid :: "OSSL_QUIC_FRAME_NEW_CONN_ID \<Rightarrow> bool" where
  "new_conn_id_valid f \<longleftrightarrow> unat (nc_seq_num f) < 2 ^ 62 \<and> nc_retire_prior_to f \<le> nc_seq_num f
     \<and> 1 \<le> id_len (nc_conn_id f) \<and> id_len (nc_conn_id f) \<le> QUIC_MAX_CONN_ID_LEN
     \<and> length (cid_id (nc_conn_id f)) = QUIC_MAX_CONN_ID_LEN
     \<and> drop (id_len (nc_conn_id f)) (cid_id (nc_conn_id f)) = replicate (QUIC_MAX_CONN_ID_LEN - id_len (nc_conn_id f)) 0
     \<and> length (nc_stateless_reset f) = QUIC_STATELESS_RESET_TOKEN_LEN"

lemma reads_new_conn_id:
  assumes "length (cid_id (nc_conn_id g)) = QUIC_MAX_CONN_ID_LEN"
    "length (nc_stateless_reset g) = QUIC_STATELESS_RESET_TOKEN_LEN"
  shows "reads Some (ossl_quic_wire_decode_frame_new_conn_id g) new_conn_id_dec"
  unfolding ossl_quic_wire_decode_frame_new_conn_id_def new_conn_id_dec_def
  using assms
  by (intro frame_reading reads_copy) (auto simp: mem_write_in_bounds intro!: reads_copy reads_ret)

lemma new_conn_id_rw:
  assumes "length (cid_id (nc_conn_id g)) = QUIC_MAX_CONN_ID_LEN"
    "length (nc_stateless_reset g) = QUIC_STATELESS_RESET_TOKEN_LEN"
  shows "wire_rw Some (ossl_quic_wire_decode_frame_new_conn_id g) new_conn_id_dec new_conn_id_enc new_conn_id_valid
    ossl_quic_wire_encode_frame_new_conn_id"
proof unfold_locales
  fix f :: OSSL_QUIC_FRAME_NEW_CONN_ID and rest :: "u8 list" and E
  assume "new_conn_id_valid f"
  then have f: "unat (nc_seq_num f) < 2 ^ 62" "\<not> nc_seq_num f < nc_retire_prior_to f" "unat (nc_retire_prior_to f) < 2 ^ 62"
    "1 \<le> id_len (nc_conn_id f)" "id_len (nc_conn_id f) \<le> 20" "length (cid_id (nc_conn_id f)) = 20"
    "length (nc_stateless_reset f) = 16"
    "take (id_len (nc_conn_id f)) (cid_id (nc_conn_id f)) @ replicate (20 - id_len (nc_conn_id f)) 0 = cid_id (nc_conn_id f)"
    by (auto simp: new_conn_id_valid_def word_le_nat_alt word_less_nat_alt) (metis append_take_drop_id)
  then have l: "unat (of_nat (id_len (nc_conn_id f)) :: u64) = id_len (nc_conn_id f)"
    by (intro unat_of_nat_62) simp
  then have "\<not> (of_nat (id_len (nc_conn_id f)) :: u64) < 1" using f(4) by (simp add: word_less_nat_alt)
  with f l show "new_conn_id_dec (new_conn_id_enc f @ rest) = Some (f, rest)"
    by (simp add: new_conn_id_dec_def new_conn_id_enc_def frame_parsing net1.spec_enc)
  show "writes E (ossl_quic_wire_encode_frame_new_conn_id E f) (new_conn_id_enc f)"
    unfolding ossl_quic_wire_encode_frame_new_conn_id_def new_conn_id_enc_def Let_def
    using f l by (simp, intro frame_writing writes_memcpy rw_u8.put_writes)
      (simp_all add: ptr_read_def mem_read_def)
qed (rule reads_new_conn_id, use assms in simp_all)

definition blank_new_conn_id :: OSSL_QUIC_FRAME_NEW_CONN_ID where
  "blank_new_conn_id = \<lparr>nc_seq_num = 0, nc_retire_prior_to = 0,
     nc_conn_id = \<lparr>id_len = 0, cid_id = replicate QUIC_MAX_CONN_ID_LEN 0\<rparr>,
     nc_stateless_reset = replicate QUIC_STATELESS_RESET_TOKEN_LEN 0\<rparr>"

interpretation rw_new_conn_id: wire_rw Some "ossl_quic_wire_decode_frame_new_conn_id blank_new_conn_id" new_conn_id_dec
    new_conn_id_enc new_conn_id_valid ossl_quic_wire_encode_frame_new_conn_id
  by (rule new_conn_id_rw) (simp_all add: blank_new_conn_id_def)

subsection \<open>Transport parameters\<close>

definition tparam_view :: "cptr \<times> u64 \<times> nat \<Rightarrow> (u8 list \<times> u64) option" where
  "tparam_view t = (case t of (b, id', len) \<Rightarrow> map_option (\<lambda>bs. (bs, id')) (ptr_view len b))"

definition tparam_dec :: "u8 list \<Rightarrow> ((u8 list \<times> u64) \<times> u8 list) option" where
  "tparam_dec = p_bind vlint_dec (\<lambda>id'. p_bind vlint_dec (\<lambda>len. p_bind (bytes_dec (unat len)) (\<lambda>bs. p_ret (bs, id'))))"

definition tparam_enc :: "u8 list \<times> u64 \<Rightarrow> u8 list" where
  "tparam_enc t = ossl_quic_vlint_encode (snd t) @ ossl_quic_vlint_encode (of_nat (length (fst t))) @ fst t"

text \<open>A packet that a QUIC integer can be read from is not over a null pointer.\<close>

definition nonnull :: "PACKET \<Rightarrow> bool" where
  "nonnull p \<longleftrightarrow> fst (pkt_curr p) \<noteq> None"

lemma nonnull_end: "PACKET_end p' = PACKET_end p \<Longrightarrow> nonnull p' \<longleftrightarrow> nonnull p"
  by (metis PACKET_end_def ptr_add_def fst_conv nonnull_def)

lemma nonnull_vlint:
  assumes "packet_wf p" "vlint_dec (packet_bytes p) \<noteq> None"
  shows "nonnull p"
proof (rule ccontr)
  assume "\<not> nonnull p"
  with assms(1) have "packet_bytes p = []"
    by (cases "pkt_curr p") (auto simp: nonnull_def packet_wf_def packet_bytes_def ptr_read_def mem_read_def split: if_splits)
  with assms(2) show False by (simp add: vlint_dec_def)
qed

lemma reads_vlint_nonnull:
  assumes g: "\<And>v p. nonnull p \<Longrightarrow> g v p = g' v p" and g': "\<And>v. reads h (g' v) (gs v)"
  shows "reads h (c_bind PACKET_get_quic_vlint g) (p_bind vlint_dec gs)"
proof -
  have "c_bind PACKET_get_quic_vlint g p = c_bind PACKET_get_quic_vlint g' p" if wf: "packet_wf p" for p
  proof (cases "vlint_dec (packet_bytes p)")
    case None
    with reads_None [OF reads_get_quic_vlint wf] show ?thesis by (metis c_bind_stop)
  next
    case (Some vr)
    then obtain v p1 where "PACKET_get_quic_vlint p = Some (Some v, p1)" "PACKET_end p1 = PACKET_end p"
      using reads_Some [OF reads_get_quic_vlint wf, of "fst vr" "snd vr"] by auto
    moreover have "nonnull p" using nonnull_vlint [OF wf] Some by simp
    ultimately show ?thesis using g nonnull_end by (metis c_bind_step)
  qed
  with reads_bind_plain [OF reads_get_quic_vlint g', unfolded reads_def] show ?thesis
    unfolding reads_def by simp
qed

lemma reads_tparam: "reads tparam_view ossl_quic_wire_decode_transport_param_bytes tparam_dec"
proof -
  have nn: "c_bind (PACKET_get_bytes n) (\<lambda>b. c_ret (if fst b = None then None else Some (b, id', n))) p
      = c_bind (PACKET_get_bytes n) (\<lambda>b. c_ret (Some (b, id', n))) p" if "nonnull p" for n id' p
    using that by (auto simp: c_bind_def c_ret_def nonnull_def PACKET_get_bytes_def PACKET_peek_bytes_def peek_then_forward_def)
  have "reads tparam_view (c_bind PACKET_get_quic_vlint (\<lambda>len. c_bind (PACKET_get_bytes (unat len)) (\<lambda>b.
        c_ret (if fst b = None then None else Some (b, id', unat len)))))
      (p_bind vlint_dec (\<lambda>len. p_bind (bytes_dec (unat len)) (\<lambda>bs. p_ret (bs, id'))))" for id'
    by (rule reads_vlint_nonnull [OF nn], assumption, rule reads_field_ptr) (simp add: tparam_view_def)
  then show ?thesis
    unfolding ossl_quic_wire_decode_transport_param_bytes_def tparam_dec_def
    by (simp only: unat_not_above_SIZE_MAX if_False) (rule reads_bind_plain [OF reads_get_quic_vlint])
qed

lemma writes_tparam_body:
  assumes "ptr_read val n = Some bs" "fst val \<noteq> None"
  shows "writes E (c_bind (if n = 0 then (\<lambda>pkt. map_option (\<lambda>b. (Some b, pkt)) (WPACKET_get_curr pkt))
                           else WPACKET_allocate_bytes E n)
     (\<lambda>b pkt. if fst val = None then Some (b, pkt)
        else do {
          bs \<leftarrow> ptr_read val n;
          (case b of None \<Rightarrow> if bs = [] then Some (None, pkt) else None
           | Some off \<Rightarrow> map_option (\<lambda>pkt. (b, pkt)) (wp_store off bs pkt)) })) bs"
proof (cases "n = 0")
  case True
  with assms have "bs = []" by simp
  have "WPACKET_get_curr pkt = Some (if GETBUF pkt = None then None else Some (wp_curr pkt))" if "wp_fwd pkt" for pkt
    using that by (simp add: WPACKET_get_curr_def wp_fwd_def)
  with True assms \<open>bs = []\<close> show ?thesis
    by (intro writesI) (auto simp: c_bind_def wp_store_def wp_becomes_def GETBUF_def)
next
  case False
  with assms length_ptr_read [OF assms(1)] show ?thesis
    by (simp, intro writes_allocate_store [where h = "\<lambda>p. p"]) (auto split: option.splits)
qed

lemma writes_tparam:
  assumes "ptr_read val n = Some bs" "fst val \<noteq> None" "unat id' < 2 ^ 62" "n < 2 ^ 62"
  shows "writes E (ossl_quic_wire_encode_transport_param_bytes E id' val n) (tparam_enc (bs, id'))"
proof -
  have enc: "tparam_enc (bs, id') = ossl_quic_vlint_encode id' @ ossl_quic_vlint_encode (of_nat n) @ bs"
    using length_ptr_read [OF assms(1)] by (simp add: tparam_enc_def)
  show ?thesis
    unfolding ossl_quic_wire_encode_transport_param_bytes_def enc
    using assms by (intro frame_writing writes_tparam_body) (simp_all add: unat_of_nat_62)
qed

interpretation rw_tparam: wire_rw tparam_view ossl_quic_wire_decode_transport_param_bytes tparam_dec tparam_enc
    "\<lambda>t. unat (snd t) < 2 ^ 62 \<and> length (fst t) < 2 ^ 62"
    "\<lambda>E t. ossl_quic_wire_encode_transport_param_bytes E (snd t) (Some (fst t), 0) (length (fst t))"
proof unfold_locales
  fix t :: "u8 list \<times> u64" and rest :: "u8 list" and E
  assume t: "unat (snd t) < 2 ^ 62 \<and> length (fst t) < 2 ^ 62"
  then show "tparam_dec (tparam_enc t @ rest) = Some (t, rest)"
    by (simp add: tparam_dec_def tparam_enc_def frame_parsing unat_of_nat_62)
  show "writes E (ossl_quic_wire_encode_transport_param_bytes E (snd t) (Some (fst t), 0) (length (fst t))) (tparam_enc t)"
    using writes_tparam [OF ptr_read_object, of "fst t" "snd t" E] t by simp
qed (rule reads_tparam)

text \<open>Integers and connection identifiers as parameters.\<close>

definition p_sub :: "(u8 list \<Rightarrow> ('a \<times> u8 list) option) \<Rightarrow> u8 list \<Rightarrow> u8 list \<Rightarrow> ('a \<times> u8 list) option" where
  "p_sub spec bs rest = (case spec bs of None \<Rightarrow> None | Some (v, _) \<Rightarrow> Some (v, rest))"

definition tparam_int_dec :: "u8 list \<Rightarrow> ((u64 \<times> u64) \<times> u8 list) option" where
  "tparam_int_dec = p_bind tparam_dec (\<lambda>(bs, id'). p_sub (p_bind vlint_dec (\<lambda>v. at_end (id', v))) bs)"

definition tparam_int_enc :: "u64 \<times> u64 \<Rightarrow> u8 list" where
  "tparam_int_enc t = tparam_enc (ossl_quic_vlint_encode (snd t), fst t)"

lemma reads_on_sub:
  assumes r: "reads f op spec" and sub: "packet_view sub = Some bs"
  shows "reads f (on_sub sub op) (p_sub spec bs)"
proof -
  have "packet_wf sub" "packet_bytes sub = bs" using sub by (auto simp: packet_view_iff)
  with reads_None [OF r, of sub] reads_Some [OF r, of sub] show ?thesis
    by (cases "spec bs") (fastforce simp: reads_def on_sub_def p_sub_def)+
qed

lemma reads_at_end:
  "reads Some (\<lambda>p. if PACKET_remaining p > 0 then Some (None, p) else Some (Some a, p)) (at_end a)"
  using packet_bytes_Nil_iff by (auto simp: reads_def at_end_def PACKET_remaining_def)

lemma tparam_viewD:
  "tparam_view (body, id', len) = Some (bs, i) \<Longrightarrow> i = id' \<and> ptr_read body len = Some bs
     \<and> (\<exists>sub. PACKET_buf_init body len = Some sub \<and> packet_view sub = Some bs)"
  using packet_view_ptr [of body len]
  by (auto simp: tparam_view_def ptr_view_def PACKET_buf_init_def split: if_splits)

lemma reads_tparam_int: "reads Some ossl_quic_wire_decode_transport_param_int tparam_int_dec"
proof -
  have "reads Some (case PACKET_buf_init body len of None \<Rightarrow> c_ret None
       | Some sub \<Rightarrow> on_sub sub (c_bind PACKET_get_quic_vlint (\<lambda>val sub.
           if PACKET_remaining sub > 0 then Some (None, sub) else Some (Some (id', val), sub))))
      (p_sub (p_bind vlint_dec (\<lambda>v. at_end (i, v))) bs)"
    if "tparam_view (body, id', len) = Some (bs, i)" for body id' len bs i
    using tparam_viewD [OF that] by (auto intro!: reads_on_sub reads_bind_plain reads_get_quic_vlint reads_at_end)
  then show ?thesis
    unfolding ossl_quic_wire_decode_transport_param_int_def tparam_int_dec_def
    by (intro reads_bind [OF reads_tparam]) auto
qed

interpretation rw_tparam_int: wire_rw Some ossl_quic_wire_decode_transport_param_int tparam_int_dec tparam_int_enc
    "\<lambda>t. unat (fst t) < 2 ^ 62 \<and> unat (snd t) < 2 ^ 62"
    "\<lambda>E t. ossl_quic_wire_encode_transport_param_int E (fst t) (snd t)"
proof unfold_locales
  fix t :: "u64 \<times> u64" and rest :: "u8 list" and E
  assume t: "unat (fst t) < 2 ^ 62 \<and> unat (snd t) < 2 ^ 62"
  then have len: "length (ossl_quic_vlint_encode (snd t)) = ossl_quic_vlint_encode_len (snd t)"
      "ossl_quic_vlint_encode_len (snd t) < 2 ^ 62"
    using length_encode encode_len_forms(1) [of "snd t"] by auto
  have "vlint_dec (ossl_quic_vlint_encode (snd t)) = Some (snd t, [])"
    using t vlint_dec_encode [of "snd t" "[]"] by simp
  with rw_tparam.spec_enc [of "(ossl_quic_vlint_encode (snd t), fst t)" rest] t len
  show "tparam_int_dec (tparam_int_enc t @ rest) = Some (t, rest)"
    by (simp add: tparam_int_dec_def tparam_int_enc_def p_bind_def p_sub_def at_end_def)
  show "writes E (ossl_quic_wire_encode_transport_param_int E (fst t) (snd t)) (tparam_int_enc t)"
    unfolding ossl_quic_wire_encode_transport_param_int_def tparam_int_enc_def tparam_enc_def
    using t len by (simp, intro frame_writing) (simp_all add: unat_of_nat_62)
qed (rule reads_tparam_int)

definition tparam_cid_view :: "u64 \<times> QUIC_CONN_ID \<Rightarrow> (u64 \<times> u8 list) option" where
  "tparam_cid_view t = (case t of (id', cid) \<Rightarrow>
     if id_len cid \<le> length (cid_id cid) then Some (id', take (id_len cid) (cid_id cid)) else None)"

definition tparam_cid_dec :: "u8 list \<Rightarrow> ((u64 \<times> u8 list) \<times> u8 list) option" where
  "tparam_cid_dec = p_bind tparam_dec (\<lambda>(bs, id'). if length bs > QUIC_MAX_CONN_ID_LEN then p_fail else p_ret (id', bs))"

lemma reads_tparam_cid:
  assumes "length (cid_id cid) = QUIC_MAX_CONN_ID_LEN"
  shows "reads tparam_cid_view (ossl_quic_wire_decode_transport_param_cid cid) tparam_cid_dec"
proof -
  have "reads tparam_cid_view (\<lambda>pkt. if len > QUIC_MAX_CONN_ID_LEN then Some (None, pkt)
       else do {
         bs \<leftarrow> ptr_read body len;
         id_bytes \<leftarrow> mem_write (cid_id cid) 0 bs;
         Some (Some (id', \<lparr>id_len = len, cid_id = id_bytes\<rparr>), pkt) })
      (if length bs > QUIC_MAX_CONN_ID_LEN then p_fail else p_ret (i, bs))"
    if "tparam_view (body, id', len) = Some (bs, i)" for body id' len bs i
    using tparam_viewD [OF that] length_ptr_read [of body len bs] assms
    by (auto simp: reads_def p_fail_def p_ret_def mem_write_in_bounds tparam_cid_view_def)
  then show ?thesis
    unfolding ossl_quic_wire_decode_transport_param_cid_def tparam_cid_dec_def
    by (intro reads_bind [OF reads_tparam]) auto
qed

lemma tparam_cid_rw:
  assumes "length (cid_id cid) = QUIC_MAX_CONN_ID_LEN"
  shows "wire_rw tparam_cid_view (ossl_quic_wire_decode_transport_param_cid cid) tparam_cid_dec
    (\<lambda>t. tparam_enc (snd t, fst t)) (\<lambda>t. unat (fst t) < 2 ^ 62 \<and> length (snd t) \<le> QUIC_MAX_CONN_ID_LEN)
    (\<lambda>E t. ossl_quic_wire_encode_transport_param_cid E (fst t)
       \<lparr>id_len = length (snd t), cid_id = snd t @ replicate (QUIC_MAX_CONN_ID_LEN - length (snd t)) 0\<rparr>)"
proof unfold_locales
  fix t :: "u64 \<times> u8 list" and rest :: "u8 list" and E
  assume t: "unat (fst t) < 2 ^ 62 \<and> length (snd t) \<le> QUIC_MAX_CONN_ID_LEN"
  with rw_tparam.spec_enc [of "(snd t, fst t)" rest]
  show "tparam_cid_dec (tparam_enc (snd t, fst t) @ rest) = Some (t, rest)"
    by (simp add: tparam_cid_dec_def p_bind_def p_ret_def)
  have "ptr_read (Some (snd t @ replicate (QUIC_MAX_CONN_ID_LEN - length (snd t)) 0), 0) (length (snd t)) = Some (snd t)"
    using t by (simp add: ptr_read_def mem_read_def)
  then have "writes E (ossl_quic_wire_encode_transport_param_bytes E (fst t)
      (Some (snd t @ replicate (QUIC_MAX_CONN_ID_LEN - length (snd t)) 0), 0) (length (snd t))) (tparam_enc (snd t, fst t))"
    using t by (intro writes_tparam) simp_all
  from writes_bind [OF this writes_ret] t
  show "writes E (ossl_quic_wire_encode_transport_param_cid E (fst t)
       \<lparr>id_len = length (snd t), cid_id = snd t @ replicate (QUIC_MAX_CONN_ID_LEN - length (snd t)) 0\<rparr>)
     (tparam_enc (snd t, fst t))"
    unfolding ossl_quic_wire_encode_transport_param_cid_def by simp
qed (rule reads_tparam_cid [OF assms])

definition preferred_addr_wf :: "QUIC_PREFERRED_ADDR \<Rightarrow> bool" where
  "preferred_addr_wf p \<longleftrightarrow> length (pa_ipv4 p) = 4 \<and> length (pa_ipv6 p) = 16
     \<and> length (cid_id (pa_cid p)) = QUIC_MAX_CONN_ID_LEN \<and> length (pa_stateless_reset p) = QUIC_STATELESS_RESET_TOKEN_LEN"

definition preferred_addr_dec :: "QUIC_PREFERRED_ADDR \<Rightarrow> u8 list \<Rightarrow> (QUIC_PREFERRED_ADDR \<times> u8 list) option" where
  "preferred_addr_dec p =
     p_bind (bytes_dec 4) (\<lambda>ipv4. p_bind (net_dec 2) (\<lambda>ipv4_port.
     p_bind (bytes_dec 16) (\<lambda>ipv6. p_bind (net_dec 2) (\<lambda>ipv6_port.
     p_bind (net_dec 1) (\<lambda>cidl.
       if unat cidl > QUIC_MAX_CONN_ID_LEN then p_fail
       else p_bind (bytes_dec (unat cidl)) (\<lambda>id'. p_bind (bytes_dec QUIC_STATELESS_RESET_TOKEN_LEN) (\<lambda>token.
         p_ret \<lparr>pa_ipv4_port = unat ipv4_port, pa_ipv6_port = unat ipv6_port, pa_ipv4 = ipv4, pa_ipv6 = ipv6,
           pa_stateless_reset = token,
           pa_cid = \<lparr>id_len = unat cidl, cid_id = id' @ drop (unat cidl) (cid_id (pa_cid p))\<rparr>\<rparr>)))))))"

definition tparam_preferred_addr_dec :: "QUIC_PREFERRED_ADDR \<Rightarrow> u8 list \<Rightarrow> (QUIC_PREFERRED_ADDR \<times> u8 list) option" where
  "tparam_preferred_addr_dec p = p_bind tparam_dec (\<lambda>(bs, id').
     if length bs < QUIC_MIN_ENCODED_PREFERRED_ADDR_LEN \<or> length bs > QUIC_MAX_ENCODED_PREFERRED_ADDR_LEN
        \<or> id' \<noteq> QUIC_TPARAM_PREFERRED_ADDR then p_fail
     else p_sub (preferred_addr_dec p) bs)"

lemma reads_preferred_addr: "preferred_addr_wf p \<Longrightarrow> reads Some (decode_preferred_addr p) (preferred_addr_dec p)"
  unfolding decode_preferred_addr_def preferred_addr_dec_def preferred_addr_wf_def
  by (intro frame_reading reads_copy) (auto intro!: frame_reading reads_copy)

lemma reads_tparam_preferred_addr:
  assumes "preferred_addr_wf p"
  shows "reads Some (ossl_quic_wire_decode_transport_param_preferred_addr p) (tparam_preferred_addr_dec p)"
proof -
  have "reads Some (if len < QUIC_MIN_ENCODED_PREFERRED_ADDR_LEN \<or> len > QUIC_MAX_ENCODED_PREFERRED_ADDR_LEN
          \<or> id' \<noteq> QUIC_TPARAM_PREFERRED_ADDR then c_ret None
       else case PACKET_buf_init body len of None \<Rightarrow> c_ret None
         | Some pkt2 \<Rightarrow> on_sub pkt2 (decode_preferred_addr p))
      (if length bs < QUIC_MIN_ENCODED_PREFERRED_ADDR_LEN \<or> length bs > QUIC_MAX_ENCODED_PREFERRED_ADDR_LEN
        \<or> i \<noteq> QUIC_TPARAM_PREFERRED_ADDR then p_fail else p_sub (preferred_addr_dec p) bs)"
    if "tparam_view (body, id', len) = Some (bs, i)" for body id' len bs i
    using tparam_viewD [OF that] length_ptr_read [of body len bs] reads_preferred_addr [OF assms]
    by (auto intro: reads_on_sub reads_fail)
  then show ?thesis
    unfolding ossl_quic_wire_decode_transport_param_preferred_addr_def tparam_preferred_addr_dec_def
    by (intro reads_bind [OF reads_tparam]) auto
qed

subsection \<open>Padding and header lengths\<close>

lemma padding_run_spec:
  "ptr_read d n = Some bs \<Longrightarrow> padding_run d n = Some (length (takeWhile (\<lambda>b. b = 0) bs))"
proof (induction d n arbitrary: bs rule: padding_run.induct)
  case (2 d n)
  obtain c cs where bs: "bs = c # cs" using length_ptr_read [OF "2.prems"] by (cases bs) auto
  have "ptr_byte d 0 = Some c" using ptr_byte_read [OF "2.prems", of 0] bs by simp
  moreover have "ptr_read (ptr_add d 1) n = Some cs" using ptr_read_drop [OF "2.prems", of 1] bs by simp
  ultimately show ?case using "2.IH" bs by auto
qed (use length_ptr_read in force)

lemma decode_padding_spec:
  assumes "packet_wf p"
  shows "\<exists>p'. ossl_quic_wire_decode_padding p = Some (length (takeWhile (\<lambda>b. b = 0) (packet_bytes p)), p')
    \<and> packet_wf p' \<and> packet_bytes p' = dropWhile (\<lambda>b. b = 0) (packet_bytes p)"
proof -
  let ?n = "length (takeWhile (\<lambda>b. b = 0) (packet_bytes p))"
  have n: "?n \<le> pkt_remaining p" using length_packet_bytes [OF assms] length_takeWhile_le by metis
  then have "field_dec ?n (\<lambda>_. ()) (packet_bytes p) = Some ((), drop ?n (packet_bytes p))"
    using length_packet_bytes [OF assms] by (simp add: field_dec_def)
  from reads_Some [OF reads_forward assms this] padding_run_spec [OF packet_wf_read [OF assms]]
  show ?thesis by (auto simp: ossl_quic_wire_decode_padding_def PACKET_data_def dropWhile_eq_drop)
qed

lemma encode_len_0_iff: "ossl_quic_vlint_encode_len v = 0 \<longleftrightarrow> \<not> unat v < 2 ^ 62"
  by (simp add: encode_len_unat)

lemma stream_hdr_len:
  "ossl_quic_wire_get_encoded_frame_len_stream_hdr f =
     (if unat (fs_stream_id f) < 2 ^ 62 \<and> unat (fs_offset f) < 2 ^ 62 \<and> (fs_has_explicit_len f \<longrightarrow> unat (fs_len f) < 2 ^ 62)
      then length (stream_hdr_enc f) else 0)"
proof -
  have "ossl_quic_vlint_encode_len (stream_frame_type f) = 1" "unat (stream_frame_type f) < 2 ^ 62"
    "ossl_quic_vlint_encode_len 8 = 1"
    using stream_frame_type_bits(5) [of f] by (simp_all add: encode_len_unat)
  then show ?thesis
    by (cases "fs_offset f = 0"; cases "fs_has_explicit_len f")
      (auto simp: ossl_quic_wire_get_encoded_frame_len_stream_hdr_def stream_hdr_enc_def length_encode
        encode_len_0_iff Let_def word_gt_0)
qed

lemma crypto_hdr_len:
  "ossl_quic_wire_get_encoded_frame_len_crypto_hdr f =
     (if unat (fc_offset f) < 2 ^ 62 \<and> unat (fc_len f) < 2 ^ 62
      then length (crypto_enc f) - length (ptr_bytes (fc_data f)) else 0)"
  by (simp add: ossl_quic_wire_get_encoded_frame_len_crypto_hdr_def crypto_enc_def length_encode encode_len_0_iff Let_def)

end
