(* ===== verification/Quic_Ack_Frame.thy ===== *)
theory Quic_Ack_Frame
  imports Quic_Wire
begin

text \<open>
  The ACK frame of \<open>ssl/quic/quic_wire.c\<close>: what \<open>ossl_quic_wire_encode_frame_ack\<close> writes, what
  \<open>ossl_quic_wire_decode_frame_ack\<close> accepts, and that the ranges it stores are those of the frame: descending,
  disjoint and not adjacent.
\<close>

section \<open>Range lists\<close>

text \<open>Ranges in descending order, with at least one number that is in none between two neighbours.\<close>

fun ranges_ok :: "OSSL_QUIC_ACK_RANGE list \<Rightarrow> bool" where
  "ranges_ok [] \<longleftrightarrow> True"
| "ranges_ok [r] \<longleftrightarrow> ar_start r \<le> ar_end r"
| "ranges_ok (r # s # rs) \<longleftrightarrow> ar_start r \<le> ar_end r \<and> unat (ar_end s) + 2 \<le> unat (ar_start r) \<and> ranges_ok (s # rs)"

text \<open>The ranges after one that starts at \<open>st\<close>, as gaps and lengths.\<close>

fun ranges_enc :: "u64 \<Rightarrow> OSSL_QUIC_ACK_RANGE list \<Rightarrow> u8 list" where
  "ranges_enc st [] = []"
| "ranges_enc st (r # rs) = ossl_quic_vlint_encode (st - ar_end r - 2)
     @ ossl_quic_vlint_encode (ar_end r - ar_start r) @ ranges_enc (ar_start r) rs"

text \<open>Reading \<open>n\<close> ranges of which \<open>k\<close> are wanted.\<close>

fun ranges_dec :: "nat \<Rightarrow> nat \<Rightarrow> u64 \<Rightarrow> u8 list \<Rightarrow> (OSSL_QUIC_ACK_RANGE list \<times> u8 list) option" where
  "ranges_dec 0 k st = p_ret []"
| "ranges_dec (Suc n) k st = p_bind vlint_dec (\<lambda>gap. p_bind vlint_dec (\<lambda>len.
     if st < gap + 2 \<or> len > st - gap - 2 then p_fail
     else if 0 < k then p_bind (ranges_dec n (k - 1) (st - gap - 2 - len)) (\<lambda>rs.
            p_ret (\<lparr>ar_start = st - gap - 2 - len, ar_end = st - gap - 2\<rparr> # rs))
     else ranges_dec n 0 st))"

lemma p_bind_assoc: "p_bind (p_bind f g) h = p_bind f (\<lambda>a. p_bind (g a) h)"
  by (rule ext) (simp add: p_bind_def split: option.splits)

lemma p_bind_ret_left [simp]: "p_bind (p_ret a) g = g a"
  by (rule ext) (simp add: p_bind_def p_ret_def)

lemma p_bind_fail_left [simp]: "p_bind p_fail g = p_fail"
  by (rule ext) (simp add: p_bind_def p_fail_def)

lemma p_bind_if: "p_bind (if b then f else g) h = (if b then p_bind f h else p_bind g h)"
  by simp

lemma p_bind_cong:
  "(\<And>bs a rest. f bs = Some (a, rest) \<Longrightarrow> g a = h a) \<Longrightarrow> p_bind f g = p_bind f h"
  by (rule ext) (auto simp: p_bind_def split: option.splits)

lemma ranges_dec_length: "ranges_dec n k st bs = Some (rs, rest) \<Longrightarrow> length rs = min n k"
proof (induction n k st arbitrary: bs rs rest rule: ranges_dec.induct)
  case (2 n k st)
  then show ?case
    by (fastforce simp: p_bind_def p_ret_def p_fail_def split: option.splits if_splits)
qed (simp add: p_ret_def)

lemma reads_bind_value:
  assumes op: "reads Some op (p_bind spec (\<lambda>a. p_ret (F a)))" and g: "\<And>a. reads h (g (F a)) (gs a)"
  shows "reads h (c_bind op g) (p_bind spec gs)"
proof (rule readsI)
  fix p assume wf: "packet_wf p" and none: "p_bind spec gs (packet_bytes p) = None"
  show "\<exists>p'. c_bind op g p = Some (None, p') \<and> packet_wf p' \<and> PACKET_end p' = PACKET_end p"
  proof (cases "spec (packet_bytes p)")
    case None
    with reads_None [OF op wf] show ?thesis by (metis c_bind_stop p_bind_def option.simps(4))
  next
    case (Some ar)
    then obtain p1 where a: "op p = Some (Some (F (fst ar)), p1)" "packet_wf p1" "PACKET_end p1 = PACKET_end p"
        "packet_bytes p1 = snd ar"
      using reads_Some [OF op wf, of "F (fst ar)" "snd ar"] by (cases ar) (auto simp: p_bind_def p_ret_def)
    then have "gs (fst ar) (packet_bytes p1) = None" using none Some by (simp add: p_bind_def split: prod.splits)
    from reads_None [OF g a(2) this] a show ?thesis by (metis c_bind_step)
  qed
next
  fix p c rest' assume wf: "packet_wf p" and some: "p_bind spec gs (packet_bytes p) = Some (c, rest')"
  then obtain a rest where ar: "spec (packet_bytes p) = Some (a, rest)" "gs a rest = Some (c, rest')"
    by (auto simp: p_bind_def split: option.splits)
  then obtain p1 where a: "op p = Some (Some (F a), p1)" "packet_wf p1" "PACKET_end p1 = PACKET_end p" "packet_bytes p1 = rest"
    using reads_Some [OF op wf, of "F a" rest] by (auto simp: p_bind_def p_ret_def)
  from reads_Some [OF g a(2), of a c rest'] a ar
  show "\<exists>x p'. c_bind op g p = Some (Some x, p') \<and> packet_wf p' \<and> PACKET_end p' = PACKET_end p \<and> h x = Some c
      \<and> packet_bytes p' = rest'"
    by auto
qed

lemma reads_ack_loop_null: "reads Some (decode_ack_loop n i st None) (p_bind (ranges_dec n 0 st) (\<lambda>_. p_ret None))"
proof (induction n arbitrary: i)
  case (Suc n)
  then show ?case
    by (simp only: decode_ack_loop.simps ranges_dec.simps p_bind_assoc p_bind_if p_bind_fail_left Let_def option.case
        less_irrefl if_False) (intro frame_reading)
qed (simp add: reads_ret)

text \<open>The array with \<open>rs\<close> stored from the index \<open>i\<close> on.\<close>

abbreviation stored :: "nat \<Rightarrow> OSSL_QUIC_ACK_RANGE list \<Rightarrow> OSSL_QUIC_FRAME_ACK \<Rightarrow> OSSL_QUIC_FRAME_ACK" where
  "stored i rs a \<equiv> a\<lparr>ack_ranges := take i (ack_ranges a) @ rs @ drop (i + length rs) (ack_ranges a)\<rparr>"

lemma stored_Cons:
  "i < length (ack_ranges a) \<Longrightarrow> stored (i + 1) rs (a\<lparr>ack_ranges := (ack_ranges a)[i := r]\<rparr>) = stored i (r # rs) a"
  by (simp add: take_Suc_conv_app_nth flip: Suc_eq_plus1)

lemma reads_ack_loop:
  assumes "num_ack_ranges a \<le> length (ack_ranges a)"
  shows "reads Some (decode_ack_loop n i st (Some a))
    (p_bind (ranges_dec n (num_ack_ranges a - (i + 1)) st) (\<lambda>rs. p_ret (Some (stored (i + 1) rs a))))"
  using assms
proof (induction n arbitrary: i st a)
  case (Suc n)
  have store: "reads Some
      (case set_ack_range (i + 1) r a of None \<Rightarrow> (\<lambda>_. None) | Some a \<Rightarrow> decode_ack_loop n (i + 1) s (Some a))
      (p_bind (ranges_dec n (num_ack_ranges a - (i + 1) - 1) s) (\<lambda>rs. p_ret (Some (stored (i + 1) (r # rs) a))))"
    if i: "i + 1 < num_ack_ranges a" for r s
  proof -
    let ?a = "a\<lparr>ack_ranges := (ack_ranges a)[i + 1 := r]\<rparr>"
    have len: "i + 1 < length (ack_ranges a)" using i Suc.prems by simp
    have "reads Some (decode_ack_loop n (i + 1) s (Some ?a))
      (p_bind (ranges_dec n (num_ack_ranges ?a - (i + 1 + 1)) s) (\<lambda>rs. p_ret (Some (stored (i + 1 + 1) rs ?a))))"
      by (rule Suc.IH) (use Suc.prems in simp)
    then show ?thesis
      unfolding stored_Cons [OF len] using len by (simp add: set_ack_range_def)
  qed
  have rest: "reads Some (decode_ack_loop n (i + 1) st (Some a))
      (p_bind (ranges_dec n 0 st) (\<lambda>rs. p_ret (Some (stored (i + 1) rs a))))" if i: "\<not> i + 1 < num_ack_ranges a"
  proof -
    have "p_bind (ranges_dec n 0 st) (\<lambda>rs. p_ret (Some (stored (j + 1) rs a))) = p_bind (ranges_dec n 0 st) (\<lambda>_. p_ret (Some a))" for j
      by (rule p_bind_cong) (auto dest: ranges_dec_length)
    with Suc.IH [OF Suc.prems, of "i + 1" st] i show ?thesis by simp
  qed
  show ?case
    unfolding decode_ack_loop.simps ranges_dec.simps p_bind_assoc p_bind_if p_bind_fail_left Let_def option.case zero_less_diff
      p_bind_ret_left
    by (intro frame_reading store rest)
qed (simp add: reads_ret)

section \<open>The decoder\<close>

text \<open>The delay in ticks: the raw value is in units of \<open>2\<^sup>e\<close> microseconds, and too large a delay is infinite.\<close>

definition ack_delay :: "nat \<Rightarrow> u64 \<Rightarrow> nat" where
  "ack_delay e raw = min (1000 * (unat raw * 2 ^ e)) UINT64_MAX"

definition ack_begin :: "nat \<Rightarrow> u64 \<Rightarrow> u64 \<Rightarrow> u64 \<Rightarrow> OSSL_QUIC_FRAME_ACK \<Rightarrow> OSSL_QUIC_FRAME_ACK" where
  "ack_begin e raw largest st a =
     a\<lparr>delay_time := ack_delay e raw,
       ack_ranges := (if num_ack_ranges a > 0 then (ack_ranges a)[0 := \<lparr>ar_start = st, ar_end = largest\<rparr>] else ack_ranges a)\<rparr>"

definition ack_end :: "u64 \<Rightarrow> OSSL_QUIC_ACK_RANGE list \<Rightarrow> (u64 \<times> u64 \<times> u64) option \<Rightarrow> OSSL_QUIC_FRAME_ACK \<Rightarrow> OSSL_QUIC_FRAME_ACK" where
  "ack_end count rs ecn a =
     (let a = stored 1 rs a;
          a = (if unat (count + 1) < num_ack_ranges a then a\<lparr>num_ack_ranges := unat count + 1\<rparr> else a)
      in case ecn of
           None \<Rightarrow> a\<lparr>ecn_present := False\<rparr>
         | Some (e0, e1, ce) \<Rightarrow> a\<lparr>ect0 := e0, ect1 := e1, ecnce := ce, ecn_present := True\<rparr>)"

definition ecn_dec :: "u64 \<Rightarrow> u8 list \<Rightarrow> ((u64 \<times> u64 \<times> u64) option \<times> u8 list) option" where
  "ecn_dec ft = (if ft = OSSL_QUIC_FRAME_TYPE_ACK_WITH_ECN
     then p_bind vlint_dec (\<lambda>e0. p_bind vlint_dec (\<lambda>e1. p_bind vlint_dec (\<lambda>ce. p_ret (Some (e0, e1, ce)))))
     else p_ret None)"

definition ack_dec :: "nat \<Rightarrow> OSSL_QUIC_FRAME_ACK \<Rightarrow> u8 list \<Rightarrow> ((OSSL_QUIC_FRAME_ACK \<times> u64) \<times> u8 list) option" where
  "ack_dec e a = p_bind (mask_dec OSSL_QUIC_FRAME_TYPE_ACK_WITHOUT_ECN 1) (\<lambda>ft.
     p_bind vlint_dec (\<lambda>largest. p_bind vlint_dec (\<lambda>raw. p_bind vlint_dec (\<lambda>count. p_bind vlint_dec (\<lambda>first.
       if first > largest then p_fail
       else p_bind (ranges_dec (unat count) (num_ack_ranges a - 1) (largest - first)) (\<lambda>rs.
         p_bind (ecn_dec ft) (\<lambda>ecn.
           p_ret (ack_end count rs ecn (ack_begin e raw largest (largest - first) a), count + 1))))))))"

lemma decode_ack_first_eq:
  assumes "e < 64" "num_ack_ranges a \<le> length (ack_ranges a)"
  shows "decode_ack_first e raw largest st a = Some (ack_begin e raw largest st a)"
proof -
  obtain p err where m: "safe_mulu UINT64_MAX (unat raw) (2 ^ e) False = (p, err)" by fastforce
  then have err: "err \<longleftrightarrow> UINT64_MAX < unat raw * 2 ^ e" using safe_mulu_err_iff [of UINT64_MAX "unat raw" "2 ^ e"] by simp
  have p: "p = (unat raw * 2 ^ e) mod (UINT64_MAX + 1)" using m by (auto simp: safe_mulu_def split: if_splits)
  have d: "(if err then ossl_time_infinite else ossl_time_multiply (ossl_ticks2time OSSL_TIME_US) p) = ack_delay e raw"
  proof (cases err)
    case False
    with err have "unat raw * 2 ^ e \<le> UINT64_MAX" by simp
    with p have "p = unat raw * 2 ^ e" "p < U64" by simp_all
    with False show ?thesis
      by (simp add: ack_delay_def ossl_time_multiply_sat ossl_ticks2time_def OSSL_TIME_US_def OSSL_TIME_MS_def OSSL_TIME_SECOND_def)
  qed (use err in \<open>simp add: ack_delay_def time_simps\<close>)
  then show ?thesis
    using assms by (auto simp: decode_ack_first_def m Let_def ack_begin_def set_ack_range_def)
qed

lemma reads_ack:
  assumes "e < 64" "num_ack_ranges a \<le> length (ack_ranges a)"
  shows "reads (\<lambda>(a, t). map_option (\<lambda>a. (a, t)) a) (ossl_quic_wire_decode_frame_ack e (Some a)) (ack_dec e a)"
proof -
  have loop: "reads Some (decode_ack_loop n 0 st (Some (ack_begin e raw largest st a)))
      (p_bind (ranges_dec n (num_ack_ranges a - 1) st) (\<lambda>rs. p_ret (Some (stored 1 rs (ack_begin e raw largest st a)))))"
    for n st raw largest
    using reads_ack_loop [of "ack_begin e raw largest st a" n 0 st] assms by (simp add: ack_begin_def)
  show ?thesis
    unfolding ossl_quic_wire_decode_frame_ack_def ack_dec_def
    by (simp only: unat_not_above_SIZE_MAX if_False Let_def option.case decode_ack_first_eq [OF assms] option.map ecn_dec_def
        p_bind_if p_bind_assoc p_bind_ret_left)
      (intro frame_reading reads_bind_value [OF loop]; simp add: ack_end_def Let_def)
qed

section \<open>What is accepted\<close>

lemma unat_sub_gap:
  assumes "unat (gap :: u64) < 2 ^ 62" "\<not> st < gap + 2"
  shows "unat (st - gap - 2) = unat st - unat gap - 2" "unat gap + 2 \<le> unat st"
proof -
  have "unat (gap + 2) = unat gap + 2" using unat_add_lem [of gap 2] assms(1) by simp
  with assms(2) show le: "unat gap + 2 \<le> unat st" by (simp add: word_less_nat_alt)
  then have "unat (st - gap) = unat st - unat gap" by (simp add: unat_sub word_le_nat_alt)
  with le show "unat (st - gap - 2) = unat st - unat gap - 2" by (simp add: unat_sub word_le_nat_alt)
qed

text \<open>With room for all of them the ranges read are in order, after one that ends no lower than it starts.\<close>

lemma ranges_dec_ok:
  "ranges_dec n k st bs = Some (rs, rest) \<Longrightarrow> n \<le> k \<Longrightarrow> st \<le> hi \<Longrightarrow> ranges_ok (\<lparr>ar_start = st, ar_end = hi\<rparr> # rs)"
proof (induction n k st arbitrary: bs rs rest hi rule: ranges_dec.induct)
  case (2 n k st)
  from "2.prems"(1,2) obtain gap bs1 len bs2 rs' where dec: "vlint_dec bs = Some (gap, bs1)" "vlint_dec bs1 = Some (len, bs2)"
    and ok: "\<not> st < gap + 2" "\<not> len > st - gap - 2"
    and tl: "ranges_dec n (k - 1) (st - gap - 2 - len) bs2 = Some (rs', rest)"
    and rs: "rs = \<lparr>ar_start = st - gap - 2 - len, ar_end = st - gap - 2\<rparr> # rs'"
    by (auto simp: p_bind_def p_ret_def p_fail_def split: option.splits if_splits)
  note e = unat_sub_gap [OF vlint_dec_bound(1) [OF dec(1)] ok(1)]
  have "st - gap - 2 - len \<le> st - gap - 2" using ok(2) by (simp add: word_sub_le)
  with 2 ok tl rs have "ranges_ok rs" by auto
  with e rs "2.prems"(3) show ?case by simp
qed (simp add: p_ret_def)

section \<open>The encoder\<close>

definition ack_delay_enc :: "nat \<Rightarrow> nat \<Rightarrow> u64" where
  "ack_delay_enc e t = of_nat (t div 1000 div 2 ^ e)"

definition ack_enc :: "nat \<Rightarrow> OSSL_QUIC_FRAME_ACK \<Rightarrow> u8 list" where
  "ack_enc e a =
     ossl_quic_vlint_encode (if ecn_present a then OSSL_QUIC_FRAME_TYPE_ACK_WITH_ECN else OSSL_QUIC_FRAME_TYPE_ACK_WITHOUT_ECN)
     @ ossl_quic_vlint_encode (ar_end (ack_ranges a ! 0)) @ ossl_quic_vlint_encode (ack_delay_enc e (delay_time a))
     @ ossl_quic_vlint_encode (of_nat (num_ack_ranges a) - 1)
     @ ossl_quic_vlint_encode (ar_end (ack_ranges a ! 0) - ar_start (ack_ranges a ! 0))
     @ ranges_enc (ar_start (ack_ranges a ! 0)) (tl (ack_ranges a))
     @ (if ecn_present a then ossl_quic_vlint_encode (ect0 a) @ ossl_quic_vlint_encode (ect1 a) @ ossl_quic_vlint_encode (ecnce a)
        else [])"

text \<open>
  The frames that survive the round trip: at least one range, in order; a delay that is a multiple of the unit; and
  counts that a QUIC integer can hold (zero in a frame that carries none).
\<close>

definition ack_valid :: "nat \<Rightarrow> OSSL_QUIC_FRAME_ACK \<Rightarrow> bool" where
  "ack_valid e a \<longleftrightarrow>
     ack_ranges a \<noteq> [] \<and> num_ack_ranges a = length (ack_ranges a) \<and> ranges_ok (ack_ranges a)
     \<and> unat (ar_end (ack_ranges a ! 0)) < 2 ^ 62 \<and> length (ack_ranges a) \<le> 2 ^ 62
     \<and> e < 64 \<and> delay_time a mod (1000 * 2 ^ e) = 0 \<and> delay_time a \<le> UINT64_MAX \<and> delay_time a div 1000 div 2 ^ e < 2 ^ 62
     \<and> unat (ect0 a) < 2 ^ 62 \<and> unat (ect1 a) < 2 ^ 62 \<and> unat (ecnce a) < 2 ^ 62
     \<and> (\<not> ecn_present a \<longrightarrow> ect0 a = 0 \<and> ect1 a = 0 \<and> ecnce a = 0)"

lemma ranges_ok_tl: "ranges_ok (r # rs) \<Longrightarrow> ranges_ok rs"
  by (cases rs) auto

lemma ranges_ok_hd: "ranges_ok (r # rs) \<Longrightarrow> ar_start r \<le> ar_end r"
  by (cases rs) auto

text \<open>Between neighbours nothing wraps.\<close>

lemma neighbour_arith:
  assumes "unat (ar_end s) + 2 \<le> unat st" "ar_start s \<le> ar_end s" "unat (st :: u64) < 2 ^ 62"
  shows "unat (st - ar_end s - 2) = unat st - unat (ar_end s) - 2" "unat (ar_end s - ar_start s) = unat (ar_end s) - unat (ar_start s)"
    "\<not> st < (st - ar_end s - 2) + 2" "st - (st - ar_end s - 2) - 2 = ar_end s" "\<not> ar_end s - ar_start s > ar_end s"
    "ar_end s - (ar_end s - ar_start s) = ar_start s" "unat (ar_start s) < 2 ^ 62"
proof -
  have "unat (st - ar_end s) = unat st - unat (ar_end s)" using assms(1) by (simp add: unat_sub word_le_nat_alt)
  with assms(1) show g: "unat (st - ar_end s - 2) = unat st - unat (ar_end s) - 2" by (simp add: unat_sub word_le_nat_alt)
  show d: "unat (ar_end s - ar_start s) = unat (ar_end s) - unat (ar_start s)" using assms(2) by (simp add: unat_sub)
  then show "\<not> ar_end s - ar_start s > ar_end s" by (simp add: word_less_nat_alt)
  have "st - ar_end s - 2 + 2 = st - ar_end s" "st - (st - ar_end s - 2) - 2 = ar_end s"
    "ar_end s - (ar_end s - ar_start s) = ar_start s" by (simp_all add: algebra_simps)
  then show "\<not> st < (st - ar_end s - 2) + 2" "st - (st - ar_end s - 2) - 2 = ar_end s" "ar_end s - (ar_end s - ar_start s) = ar_start s"
    using \<open>unat (st - ar_end s) = _\<close> by (simp_all add: word_less_nat_alt)
  show "unat (ar_start s) < 2 ^ 62" using assms by (simp add: word_le_nat_alt)
qed

lemma ranges_dec_enc:
  "ranges_ok (r # rs) \<Longrightarrow> unat (ar_start r) < 2 ^ 62 \<Longrightarrow> k \<ge> length rs
     \<Longrightarrow> ranges_dec (length rs) k (ar_start r) (ranges_enc (ar_start r) rs @ rest) = Some (rs, rest)"
proof (induction rs arbitrary: r k)
  case (Cons s rs)
  have s: "unat (ar_end s) + 2 \<le> unat (ar_start r)" "ar_start s \<le> ar_end s" "ranges_ok (s # rs)"
    using Cons.prems(1) ranges_ok_hd by auto
  note a = neighbour_arith [OF s(1,2) Cons.prems(2)]
  have "unat (ar_start r - ar_end s - 2) < 2 ^ 62" "unat (ar_end s - ar_start s) < 2 ^ 62"
    using a(1,2) Cons.prems(2) s(1) by simp_all
  with a Cons.IH [OF s(3) a(7), of "k - 1"] Cons.prems(3) show ?case
    by (simp add: frame_parsing)
qed (simp add: p_ret_def)

lemma ack_validD:
  assumes "ack_valid e a"
  shows "\<exists>r rs. ack_ranges a = r # rs \<and> num_ack_ranges a = Suc (length rs) \<and> ranges_ok (r # rs) \<and> length rs < 2 ^ 62
    \<and> unat (ar_end r) < 2 ^ 62 \<and> unat (ar_start r) < 2 ^ 62 \<and> unat (ar_end r - ar_start r) < 2 ^ 62
    \<and> \<not> ar_end r - ar_start r > ar_end r \<and> ar_end r - (ar_end r - ar_start r) = ar_start r
    \<and> (of_nat (num_ack_ranges a) - 1 :: u64) = of_nat (length rs)"
proof -
  obtain r rs where r: "ack_ranges a = r # rs" using assms by (cases "ack_ranges a") (auto simp: ack_valid_def)
  have le: "ar_start r \<le> ar_end r" and u: "unat (ar_end r) < 2 ^ 62"
    using assms r ranges_ok_hd by (auto simp: ack_valid_def)
  then have d: "unat (ar_end r - ar_start r) = unat (ar_end r) - unat (ar_start r)" by (simp add: unat_sub)
  with le u have "unat (ar_start r) < 2 ^ 62" "unat (ar_end r - ar_start r) < 2 ^ 62" "\<not> ar_end r - ar_start r > ar_end r"
    "ar_end r - (ar_end r - ar_start r) = ar_start r"
    by (auto simp: word_less_nat_alt word_le_nat_alt)
  with r u assms show ?thesis by (auto simp: ack_valid_def)
qed

lemma ack_delay_roundtrip:
  assumes "ack_valid e a"
  shows "ack_delay e (ack_delay_enc e (delay_time a)) = delay_time a" "unat (ack_delay_enc e (delay_time a)) < 2 ^ 62"
proof -
  have v: "delay_time a mod (1000 * 2 ^ e) = 0" "delay_time a \<le> UINT64_MAX" "delay_time a div 1000 div 2 ^ e < 2 ^ 62"
    using assms by (simp_all add: ack_valid_def)
  then have u: "unat (ack_delay_enc e (delay_time a)) = delay_time a div (1000 * 2 ^ e)"
    by (simp add: ack_delay_enc_def unat_of_nat_62 div_mult2_eq)
  with v(3) show "unat (ack_delay_enc e (delay_time a)) < 2 ^ 62" by (simp add: div_mult2_eq)
  have "1000 * 2 ^ e * (delay_time a div (1000 * 2 ^ e)) = delay_time a"
    using v(1) by (simp add: mod_0_imp_dvd)
  with u v(2) show "ack_delay e (ack_delay_enc e (delay_time a)) = delay_time a"
    by (simp add: ack_delay_def mult.assoc mult.commute mult.left_commute)
qed

text \<open>
  The caller's structure \<open>a0\<close> has room for at least as many ranges as the frame has; the ECN counts of a frame
  without them are left as they were.
\<close>

lemma ack_dec_enc:
  assumes v: "ack_valid e a" and a0: "num_ack_ranges a0 = num_ack_ranges a" "length (ack_ranges a0) = num_ack_ranges a"
  shows "ack_dec e a0 (ack_enc e a @ rest) =
    Some ((if ecn_present a then a else a\<lparr>ect0 := ect0 a0, ect1 := ect1 a0, ecnce := ecnce a0\<rparr>,
      of_nat (num_ack_ranges a)), rest)"
proof -
  obtain r rs where r: "ack_ranges a = r # rs" "num_ack_ranges a = Suc (length rs)" "ranges_ok (r # rs)" "length rs < 2 ^ 62"
    "unat (ar_end r) < 2 ^ 62" "unat (ar_start r) < 2 ^ 62" "unat (ar_end r - ar_start r) < 2 ^ 62"
    "\<not> ar_end r - ar_start r > ar_end r" "ar_end r - (ar_end r - ar_start r) = ar_start r"
    "(of_nat (num_ack_ranges a) - 1 :: u64) = of_nat (length rs)"
    using ack_validD [OF v] by blast
  obtain s0 ss where s0: "ack_ranges a0 = s0 # ss" "length ss = length rs" using a0 r(2) by (cases "ack_ranges a0") auto
  note delay = ack_delay_roundtrip [OF v]
  have ecn: "unat (ect0 a) < 2 ^ 62" "unat (ect1 a) < 2 ^ 62" "unat (ecnce a) < 2 ^ 62" using v by (auto simp: ack_valid_def)
  have n: "unat (of_nat (length rs) :: u64) = length rs" using r(4) by (rule unat_of_nat_62)
  then have n1: "unat (of_nat (length rs) + 1 :: u64) = Suc (length rs)"
    using r(4) unat_add_lem [of "of_nat (length rs) :: u64" 1] by simp
  have "ack_end (of_nat (length rs)) rs ecn (ack_begin e (ack_delay_enc e (delay_time a)) (ar_end r) (ar_start r) a0)
      = (case ecn of None \<Rightarrow> a0\<lparr>delay_time := delay_time a, ack_ranges := r # rs, ecn_present := False\<rparr>
         | Some (e0, e1, ce) \<Rightarrow> a0\<lparr>delay_time := delay_time a, ack_ranges := r # rs,
             ect0 := e0, ect1 := e1, ecnce := ce, ecn_present := True\<rparr>)" for ecn
    using s0 a0 r(2) delay n n1 by (cases r) (auto simp: ack_end_def ack_begin_def Let_def split: option.splits)
  with r delay ecn n a0 ranges_dec_enc [OF r(3,6)] show ?thesis
    unfolding ack_dec_def ack_enc_def ecn_dec_def
    by (cases "ecn_present a"; cases a; cases a0) (simp_all add: frame_parsing)
qed

lemma ack_range_at_drop:
  assumes "drop i (ack_ranges a) = r # rs"
  shows "ack_range_at a i = Some r \<and> drop (i + 1) (ack_ranges a) = rs"
proof -
  have "i < length (ack_ranges a)" using assms by (metis drop_all list.distinct(1) not_le)
  with Cons_nth_drop_Suc [OF this] assms show ?thesis by (simp add: ack_range_at_def flip: Suc_eq_plus1)
qed

lemma writes_ack_loop:
  assumes "drop i (ack_ranges a) = r # rs" "ranges_ok (r # rs)" "unat (ar_start r) < 2 ^ 62"
  shows "writes E (encode_ack_loop E a (i + 1) (length rs)) (ranges_enc (ar_start r) rs)"
  using assms
proof (induction rs arbitrary: i r)
  case (Cons s rs)
  have at: "ack_range_at a i = Some r" "drop (i + 1) (ack_ranges a) = s # rs"
    using ack_range_at_drop [OF Cons.prems(1)] by auto
  have s: "unat (ar_end s) + 2 \<le> unat (ar_start r)" "ar_start s \<le> ar_end s" "ranges_ok (s # rs)"
    using Cons.prems(2) ranges_ok_hd by auto
  note a = neighbour_arith [OF s(1,2) Cons.prems(3)]
  have "writes E (c_then (WPACKET_quic_write_vlint E (ar_start r - ar_end s - 2))
      (c_then (WPACKET_quic_write_vlint E (ar_end s - ar_start s)) (encode_ack_loop E a (i + 1 + 1) (length rs))))
    (ranges_enc (ar_start r) (s # rs))"
    unfolding ranges_enc.simps
    by (intro frame_writing Cons.IH [OF at(2) s(3) a(7)]) (use a(1,2) Cons.prems(3) s(1) in simp_all)
  with at ack_range_at_drop [OF at(2)] show ?case by (simp add: Let_def)
qed (simp add: writes_ret)

lemma writes_ack:
  assumes "ack_valid e a"
  shows "writes E (ossl_quic_wire_encode_frame_ack E e a) (ack_enc e a)"
proof -
  obtain r rs where r: "ack_ranges a = r # rs" "num_ack_ranges a = Suc (length rs)" "ranges_ok (r # rs)" "length rs < 2 ^ 62"
    "unat (ar_end r) < 2 ^ 62" "unat (ar_start r) < 2 ^ 62" "unat (ar_end r - ar_start r) < 2 ^ 62"
    "(of_nat (num_ack_ranges a) - 1 :: u64) = of_nat (length rs)"
    using ack_validD [OF assms] by blast
  have at: "ack_range_at a 0 = Some r" using r(1) by (simp add: ack_range_at_def)
  have e: "e < 64" and ecn: "unat (ect0 a) < 2 ^ 62" "unat (ect1 a) < 2 ^ 62" "unat (ecnce a) < 2 ^ 62"
    using assms by (auto simp: ack_valid_def)
  have d: "of_nat (ossl_time2ticks (ossl_time_divide (ossl_time_divide (delay_time a) OSSL_TIME_US) (2 ^ e)))
      = ack_delay_enc e (delay_time a)"
    by (simp add: ack_delay_enc_def time_simps ossl_time2ticks_def OSSL_TIME_US_def OSSL_TIME_MS_def OSSL_TIME_SECOND_def)
  have n: "unat (of_nat (length rs) :: u64) = length rs" using r(4) by (rule unat_of_nat_62)
  have loop: "writes E (encode_ack_loop E a 1 (length rs)) (ranges_enc (ar_start r) rs)"
    using writes_ack_loop [of 0 a r rs] r by simp
  then have loop_only: "writes E (c_then (encode_ack_loop E a 1 (length rs)) (c_ret (Some ()))) (ranges_enc (ar_start r) rs)"
    using writes_bind [OF loop writes_ret] by simp
  show ?thesis
    using r e at ecn ack_delay_roundtrip(2) [OF assms] n
    unfolding ossl_quic_wire_encode_frame_ack_def ack_enc_def Let_def d
    by (simp del: of_nat_Suc add: d) (intro conjI impI loop_only frame_writing loop; simp)
qed

section \<open>Counting the ranges\<close>

definition skip_dec :: "u8 list \<Rightarrow> (unit \<times> u8 list) option" where
  "skip_dec bs = map_option (\<lambda>(v, rest). ((), rest)) (vlint_dec bs)"

fun ranges_skip :: "nat \<Rightarrow> u8 list \<Rightarrow> (unit \<times> u8 list) option" where
  "ranges_skip 0 = p_ret ()"
| "ranges_skip (Suc n) = p_bind skip_dec (\<lambda>_. p_bind skip_dec (\<lambda>_. ranges_skip n))"

definition count_dec :: "u8 list \<Rightarrow> (u64 \<times> u8 list) option" where
  "count_dec = p_bind (mask_dec OSSL_QUIC_FRAME_TYPE_ACK_WITHOUT_ECN 1) (\<lambda>_. p_bind skip_dec (\<lambda>_. p_bind skip_dec (\<lambda>_.
     p_bind vlint_dec (\<lambda>count. p_bind (ranges_skip (unat count)) (\<lambda>_. p_ret (count + 1))))))"

lemma reads_skip: "reads Some PACKET_skip_quic_vlint skip_dec"
  using reads_skip_quic_vlint unfolding skip_dec_def .

lemma reads_skip_ranges: "reads Some (skip_ack_ranges n) (ranges_skip n)"
  by (induction n) (simp_all only: skip_ack_ranges.simps ranges_skip.simps, intro frame_reading, simp, intro frame_reading reads_skip)

lemma peek_num_ranges_spec:
  assumes "packet_wf p"
  shows "ossl_quic_wire_peek_frame_ack_num_ranges p = Some (map_option fst (count_dec (packet_bytes p)))"
proof -
  let ?op = "c_then (expect_frame_header_mask OSSL_QUIC_FRAME_TYPE_ACK_WITHOUT_ECN 1)
        (c_then PACKET_skip_quic_vlint (c_then PACKET_skip_quic_vlint
        (c_bind PACKET_get_quic_vlint (\<lambda>ack_range_count.
         c_then (skip_ack_ranges (unat ack_range_count)) (c_ret (Some (ack_range_count + 1)))))))"
  have r: "reads Some ?op count_dec"
    unfolding count_dec_def by (intro frame_reading reads_skip reads_skip_ranges) simp
  show ?thesis
  proof (cases "count_dec (packet_bytes p)")
    case None
    with reads_None [OF r assms] show ?thesis by (auto simp: ossl_quic_wire_peek_frame_ack_num_ranges_def)
  next
    case (Some vr)
    with reads_Some [OF r assms, of "fst vr" "snd vr"] show ?thesis
      by (auto simp: ossl_quic_wire_peek_frame_ack_num_ranges_def)
  qed
qed

lemma skip_dec_encode: "unat v < 2 ^ 62 \<Longrightarrow> skip_dec (ossl_quic_vlint_encode v @ rest) = Some ((), rest)"
  by (simp add: skip_dec_def vlint_dec_encode)

lemma ranges_skip_enc:
  "2 * n \<le> length vs \<Longrightarrow> list_all (\<lambda>v. unat v < 2 ^ 62) vs
     \<Longrightarrow> ranges_skip n (concat (map ossl_quic_vlint_encode vs) @ rest) \<noteq> None"
proof (induction n arbitrary: vs)
  case (Suc n)
  then obtain v w us where "vs = v # w # us" by (cases vs; cases "tl vs") auto
  with Suc show ?case by (simp add: frame_parsing skip_dec_encode)
qed (simp add: p_ret_def)

text \<open>The gaps and lengths of a list of ranges.\<close>

fun range_ints :: "u64 \<Rightarrow> OSSL_QUIC_ACK_RANGE list \<Rightarrow> u64 list" where
  "range_ints st [] = []"
| "range_ints st (r # rs) = (st - ar_end r - 2) # (ar_end r - ar_start r) # range_ints (ar_start r) rs"

lemma ranges_enc_ints: "ranges_enc st rs = concat (map ossl_quic_vlint_encode (range_ints st rs))"
  by (induction st rs rule: ranges_enc.induct) auto

lemma length_range_ints: "length (range_ints st rs) = 2 * length rs"
  by (induction st rs rule: range_ints.induct) auto

lemma range_ints_bounded:
  "ranges_ok (r # rs) \<Longrightarrow> unat (ar_start r) < 2 ^ 62 \<Longrightarrow> list_all (\<lambda>v. unat v < 2 ^ 62) (range_ints (ar_start r) rs)"
proof (induction rs arbitrary: r)
  case (Cons s rs)
  have s: "unat (ar_end s) + 2 \<le> unat (ar_start r)" "ar_start s \<le> ar_end s" "ranges_ok (s # rs)"
    using Cons.prems(1) ranges_ok_hd by auto
  note a = neighbour_arith [OF s(1,2) Cons.prems(2)]
  have "unat (ar_start r - ar_end s - 2) < 2 ^ 62" "unat (ar_end s - ar_start s) < 2 ^ 62"
    using a(1,2) Cons.prems(2) s(1) by simp_all
  with Cons.IH [OF s(3) a(7)] show ?case by simp
qed simp

lemma count_dec_enc:
  assumes "ack_valid e a"
  shows "\<exists>r. count_dec (ack_enc e a @ rest) = Some (of_nat (num_ack_ranges a), r)"
proof -
  obtain r rs where r: "ack_ranges a = r # rs" "num_ack_ranges a = Suc (length rs)" "ranges_ok (r # rs)" "length rs < 2 ^ 62"
    "unat (ar_end r) < 2 ^ 62" "unat (ar_start r) < 2 ^ 62" "unat (ar_end r - ar_start r) < 2 ^ 62"
    "(of_nat (num_ack_ranges a) - 1 :: u64) = of_nat (length rs)"
    using ack_validD [OF assms] by blast
  have n: "unat (of_nat (length rs) :: u64) = length rs" using r(4) by (rule unat_of_nat_62)
  let ?ecn = "(if ecn_present a then ossl_quic_vlint_encode (ect0 a) @ ossl_quic_vlint_encode (ect1 a) @ ossl_quic_vlint_encode (ecnce a)
        else []) @ rest"
  have "ranges_skip (length rs) (ossl_quic_vlint_encode (ar_end r - ar_start r) @ ranges_enc (ar_start r) rs @ ?ecn) \<noteq> None"
    using ranges_skip_enc [of "length rs" "(ar_end r - ar_start r) # range_ints (ar_start r) rs" ?ecn]
      range_ints_bounded [OF r(3,6)] r(7) by (simp add: length_range_ints ranges_enc_ints)
  then obtain u where "ranges_skip (length rs) (ossl_quic_vlint_encode (ar_end r - ar_start r) @ ranges_enc (ar_start r) rs @ ?ecn)
      = Some ((), u)" by auto
  with r n ack_delay_roundtrip(2) [OF assms] show ?thesis
    unfolding count_dec_def ack_enc_def
    by (cases "ecn_present a") (simp_all add: frame_parsing skip_dec_encode)
qed

section \<open>Membership\<close>

lemma ack_contains_loop_spec:
  "i + n \<le> length (ack_ranges a) \<Longrightarrow> ack_contains_loop a pn i n
     = Some (\<exists>r \<in> set (take n (drop i (ack_ranges a))). ar_start r \<le> pn \<and> pn \<le> ar_end r)"
proof (induction n arbitrary: i)
  case (Suc n)
  then have i: "i < length (ack_ranges a)" by simp
  with Suc show ?case
    by (auto simp: ack_range_at_def Cons_nth_drop_Suc [OF i, symmetric] simp flip: Suc_eq_plus1)
qed simp

lemma ack_contains_spec:
  "num_ack_ranges a \<le> length (ack_ranges a) \<Longrightarrow> ossl_quic_frame_ack_contains_pn a pn
     = Some (\<exists>r \<in> set (take (num_ack_ranges a) (ack_ranges a)). ar_start r \<le> pn \<and> pn \<le> ar_end r)"
  using ack_contains_loop_spec [of 0 "num_ack_ranges a" a pn] by (simp add: ossl_quic_frame_ack_contains_pn_def)

text \<open>The frames that the decoder accepts with room for all ranges.\<close>

lemma ack_dec_ranges:
  assumes dec: "ack_dec e a bs = Some ((a', tot), rest)" and room: "unat tot \<le> num_ack_ranges a"
    and a: "num_ack_ranges a \<le> length (ack_ranges a)"
  shows "num_ack_ranges a' = unat tot \<and> unat tot \<le> length (ack_ranges a') \<and> 0 < unat tot
    \<and> ranges_ok (take (unat tot) (ack_ranges a'))"
proof -
  obtain largest raw count first rs ecn b1 b2 b3 b4 where
    c: "vlint_dec b1 = Some (count, b2)" "\<not> largest < first" "tot = count + 1"
      "ranges_dec (unat count) (num_ack_ranges a - 1) (largest - first) b3 = Some (rs, b4)"
      "a' = ack_end count rs ecn (ack_begin e raw largest (largest - first) a)"
    using dec by (auto simp: ack_dec_def p_bind_def p_ret_def p_fail_def split: option.splits if_splits)
  have t: "unat tot = unat count + 1"
    using c(3) unat_add_lem [of count 1] vlint_dec_bound(1) [OF c(1)] by simp
  let ?r = "\<lparr>ar_start = largest - first, ar_end = largest\<rparr>"
  have n: "unat count \<le> num_ack_ranges a - 1" "0 < num_ack_ranges a" using room t by simp_all
  then have len: "unat tot = Suc (length rs)" using ranges_dec_length [OF c(4)] t by simp
  have ok: "ranges_ok (?r # rs)" using ranges_dec_ok [OF c(4) n(1)] c(2) by (simp add: word_sub_le)
  obtain s0 ss where "ack_ranges a = s0 # ss" using a n by (cases "ack_ranges a") auto
  then have "ack_ranges a' = (?r # rs) @ drop (length rs) ss"
    using c(5) n by (simp add: ack_end_def ack_begin_def Let_def plus_1_eq_Suc split: option.splits prod.splits)
  then have "take (unat tot) (ack_ranges a') = ?r # rs" "unat tot \<le> length (ack_ranges a')" unfolding len by simp_all
  moreover have "num_ack_ranges a' = unat tot"
    using c(3,5) t room by (simp add: ack_end_def ack_begin_def Let_def split: option.splits prod.splits)
  ultimately show ?thesis using ok len by simp
qed

section \<open>Properties\<close>

text \<open>
  C5.  The ranges of a received ACK frame.  Whatever the bytes, decoding into a structure with room for the ranges of
  the frame reports their number, stores at least one range, and the stored ranges are descending, disjoint and not
  adjacent; a packet number is then reported as acknowledged exactly when it lies in one of them.
\<close>

theorem ack_decode_ranges:
  assumes "packet_wf p" "e < 64" "num_ack_ranges a \<le> length (ack_ranges a)"
    and "ossl_quic_wire_decode_frame_ack e (Some a) p = Some (Some (Some a', tot), p')"
    and "unat tot \<le> num_ack_ranges a"
  shows "num_ack_ranges a' = unat tot \<and> 0 < unat tot \<and> ranges_ok (take (unat tot) (ack_ranges a'))
    \<and> (\<forall>pn. ossl_quic_frame_ack_contains_pn a' pn
          = Some (\<exists>r \<in> set (take (unat tot) (ack_ranges a')). ar_start r \<le> pn \<and> pn \<le> ar_end r))"
proof -
  note r = reads_ack [OF assms(2,3)]
  obtain a1 t1 rest where dec: "ack_dec e a (packet_bytes p) = Some ((a1, t1), rest)"
    using reads_None [OF r assms(1)] assms(4) by (cases "ack_dec e a (packet_bytes p)") auto
  with reads_Some [OF r assms(1) dec] assms(4) have "a1 = a'" "t1 = tot" by auto
  with dec have "ack_dec e a (packet_bytes p) = Some ((a', tot), rest)" by simp
  from ack_dec_ranges [OF this assms(5,3)] ack_contains_spec [of a'] show ?thesis by simp
qed

definition example_ack_packet :: PACKET where
  "example_ack_packet = \<lparr>pkt_curr = (Some [0x02, 10, 4, 1, 0, 0, 3], 0), pkt_remaining = 7\<rparr>"

definition example_ack :: "nat \<Rightarrow> OSSL_QUIC_FRAME_ACK" where
  "example_ack n = \<lparr>ack_ranges = replicate n \<lparr>ar_start = 0, ar_end = 0\<rparr>, num_ack_ranges = n, delay_time = 0,
     ect0 = 0, ect1 = 0, ecnce = 0, ecn_present = False\<rparr>"

theorem ack_decode_ranges_witness:
  "\<exists>a' p'. ossl_quic_wire_decode_frame_ack 3 (Some (example_ack 2)) example_ack_packet = Some (Some (Some a', 2), p')
     \<and> num_ack_ranges a' = unat (2 :: u64) \<and> ranges_ok (take (unat (2 :: u64)) (ack_ranges a'))"
proof -
  let ?a' = "(example_ack 2)\<lparr>ack_ranges := [\<lparr>ar_start = 10, ar_end = 10\<rparr>, \<lparr>ar_start = 5, ar_end = 8\<rparr>], delay_time := 32000\<rparr>"
  have "ossl_quic_wire_decode_frame_ack 3 (Some (example_ack 2)) example_ack_packet
      = Some (Some (Some ?a', 2), packet_forward example_ack_packet 7)" by code_simp
  moreover have "packet_wf example_ack_packet" by code_simp
  moreover have "num_ack_ranges (example_ack 2) \<le> length (ack_ranges (example_ack 2))" by code_simp
  moreover have "unat (2 :: u64) \<le> num_ack_ranges (example_ack 2)" by code_simp
  ultimately show ?thesis using ack_decode_ranges [of example_ack_packet 3 "example_ack 2" ?a' 2] by fastforce
qed

text \<open>
  Without a structure (or with too few entries) the start of the preceding range is not carried along, so later ranges
  are compared with an older start: this frame is accepted, although the full decoding rejects it.
\<close>

definition overlapping_ack_packet :: PACKET where
  "overlapping_ack_packet = \<lparr>pkt_curr = (Some [0x02, 10, 0, 2, 0, 0, 8, 0, 0], 0), pkt_remaining = 9\<rparr>"

lemma ack_null_accepts_overlap:
  "map_option (map_option snd \<circ> fst) (ossl_quic_wire_decode_frame_ack 3 None overlapping_ack_packet) = Some (Some 3)"
  "map_option fst (ossl_quic_wire_decode_frame_ack 3 (Some (example_ack 3)) overlapping_ack_packet) = Some None"
  by code_simp+

end
