(* ===== verification/Quic_Frames.thy ===== *)
theory Quic_Frames
  imports Quic_Ack_Frame
begin

text \<open>
  All frame types together.  A payload is a sequence of frames; the receiver (\<open>depack_process_frames\<close> in
  \<open>ssl/quic/quic_rx_depack.c\<close>) peeks at the type of the next frame, requires its minimal encoding and calls the decoder
  for that type.  \<open>put_frame\<close> and \<open>get_frame\<close> are this dispatch over the encoders and decoders of \<open>Quic_Wire\<close>.
\<close>

datatype quic_frame =
    Ping
  | Ack OSSL_QUIC_FRAME_ACK
  | Reset_Stream OSSL_QUIC_FRAME_RESET_STREAM
  | Stop_Sending OSSL_QUIC_FRAME_STOP_SENDING
  | Crypto OSSL_QUIC_FRAME_CRYPTO
  | New_Token "cptr \<times> nat"
  | Stream_Data OSSL_QUIC_FRAME_STREAM
  | Max_Data u64
  | Max_Stream_Data "u64 \<times> u64"
  | Max_Streams bool u64
  | Data_Blocked u64
  | Stream_Data_Blocked "u64 \<times> u64"
  | Streams_Blocked bool u64
  | New_Conn_Id OSSL_QUIC_FRAME_NEW_CONN_ID
  | Retire_Conn_Id u64
  | Path_Challenge u64
  | Path_Response u64
  | Conn_Close OSSL_QUIC_FRAME_CONN_CLOSE
  | Handshake_Done

fun frame_type_of :: "quic_frame \<Rightarrow> u64" where
  "frame_type_of Ping = OSSL_QUIC_FRAME_TYPE_PING"
| "frame_type_of (Ack a) = (if ecn_present a then OSSL_QUIC_FRAME_TYPE_ACK_WITH_ECN else OSSL_QUIC_FRAME_TYPE_ACK_WITHOUT_ECN)"
| "frame_type_of (Reset_Stream f) = OSSL_QUIC_FRAME_TYPE_RESET_STREAM"
| "frame_type_of (Stop_Sending f) = OSSL_QUIC_FRAME_TYPE_STOP_SENDING"
| "frame_type_of (Crypto f) = OSSL_QUIC_FRAME_TYPE_CRYPTO"
| "frame_type_of (New_Token t) = OSSL_QUIC_FRAME_TYPE_NEW_TOKEN"
| "frame_type_of (Stream_Data f) = stream_frame_type f"
| "frame_type_of (Max_Data v) = OSSL_QUIC_FRAME_TYPE_MAX_DATA"
| "frame_type_of (Max_Stream_Data v) = OSSL_QUIC_FRAME_TYPE_MAX_STREAM_DATA"
| "frame_type_of (Max_Streams uni v) = (if uni then OSSL_QUIC_FRAME_TYPE_MAX_STREAMS_UNI else OSSL_QUIC_FRAME_TYPE_MAX_STREAMS_BIDI)"
| "frame_type_of (Data_Blocked v) = OSSL_QUIC_FRAME_TYPE_DATA_BLOCKED"
| "frame_type_of (Stream_Data_Blocked v) = OSSL_QUIC_FRAME_TYPE_STREAM_DATA_BLOCKED"
| "frame_type_of (Streams_Blocked uni v) = (if uni then OSSL_QUIC_FRAME_TYPE_STREAMS_BLOCKED_UNI else OSSL_QUIC_FRAME_TYPE_STREAMS_BLOCKED_BIDI)"
| "frame_type_of (New_Conn_Id f) = OSSL_QUIC_FRAME_TYPE_NEW_CONN_ID"
| "frame_type_of (Retire_Conn_Id v) = OSSL_QUIC_FRAME_TYPE_RETIRE_CONN_ID"
| "frame_type_of (Path_Challenge v) = OSSL_QUIC_FRAME_TYPE_PATH_CHALLENGE"
| "frame_type_of (Path_Response v) = OSSL_QUIC_FRAME_TYPE_PATH_RESPONSE"
| "frame_type_of (Conn_Close f) = (if cc_is_app f then OSSL_QUIC_FRAME_TYPE_CONN_CLOSE_APP else OSSL_QUIC_FRAME_TYPE_CONN_CLOSE_TRANSPORT)"
| "frame_type_of Handshake_Done = OSSL_QUIC_FRAME_TYPE_HANDSHAKE_DONE"

section \<open>Writing\<close>

text \<open>\<open>e\<close> is the exponent of the acknowledgement delay.\<close>

fun put_frame :: "nat \<Rightarrow> wenv \<Rightarrow> quic_frame \<Rightarrow> WPACKET \<Rightarrow> (unit option \<times> WPACKET) option" where
  "put_frame e E Ping = ossl_quic_wire_encode_frame_ping E"
| "put_frame e E (Ack a) = ossl_quic_wire_encode_frame_ack E e a"
| "put_frame e E (Reset_Stream f) = ossl_quic_wire_encode_frame_reset_stream E f"
| "put_frame e E (Stop_Sending f) = ossl_quic_wire_encode_frame_stop_sending E f"
| "put_frame e E (Crypto f) = c_then (ossl_quic_wire_encode_frame_crypto E f) (c_ret (Some ()))"
| "put_frame e E (New_Token t) = ossl_quic_wire_encode_frame_new_token E (fst t) (snd t)"
| "put_frame e E (Stream_Data f) = c_then (ossl_quic_wire_encode_frame_stream E f) (c_ret (Some ()))"
| "put_frame e E (Max_Data v) = ossl_quic_wire_encode_frame_max_data E v"
| "put_frame e E (Max_Stream_Data v) = ossl_quic_wire_encode_frame_max_stream_data E (fst v) (snd v)"
| "put_frame e E (Max_Streams uni v) = ossl_quic_wire_encode_frame_max_streams E uni v"
| "put_frame e E (Data_Blocked v) = ossl_quic_wire_encode_frame_data_blocked E v"
| "put_frame e E (Stream_Data_Blocked v) = ossl_quic_wire_encode_frame_stream_data_blocked E (fst v) (snd v)"
| "put_frame e E (Streams_Blocked uni v) = ossl_quic_wire_encode_frame_streams_blocked E uni v"
| "put_frame e E (New_Conn_Id f) = ossl_quic_wire_encode_frame_new_conn_id E f"
| "put_frame e E (Retire_Conn_Id v) = ossl_quic_wire_encode_frame_retire_conn_id E v"
| "put_frame e E (Path_Challenge v) = ossl_quic_wire_encode_frame_path_challenge E v"
| "put_frame e E (Path_Response v) = ossl_quic_wire_encode_frame_path_response E v"
| "put_frame e E (Conn_Close f) = ossl_quic_wire_encode_frame_conn_close E f"
| "put_frame e E Handshake_Done = ossl_quic_wire_encode_frame_handshake_done E"

fun frame_enc :: "nat \<Rightarrow> quic_frame \<Rightarrow> u8 list" where
  "frame_enc e Ping = ossl_quic_vlint_encode OSSL_QUIC_FRAME_TYPE_PING"
| "frame_enc e (Ack a) = ack_enc e a"
| "frame_enc e (Reset_Stream f) = reset_stream_enc f"
| "frame_enc e (Stop_Sending f) = stop_sending_enc f"
| "frame_enc e (Crypto f) = crypto_enc f"
| "frame_enc e (New_Token t) = new_token_enc t"
| "frame_enc e (Stream_Data f) = stream_enc f"
| "frame_enc e (Max_Data v) = int_enc OSSL_QUIC_FRAME_TYPE_MAX_DATA v"
| "frame_enc e (Max_Stream_Data v) = int2_enc OSSL_QUIC_FRAME_TYPE_MAX_STREAM_DATA v"
| "frame_enc e (Max_Streams uni v) = int_enc (frame_type_of (Max_Streams uni v)) v"
| "frame_enc e (Data_Blocked v) = int_enc OSSL_QUIC_FRAME_TYPE_DATA_BLOCKED v"
| "frame_enc e (Stream_Data_Blocked v) = int2_enc OSSL_QUIC_FRAME_TYPE_STREAM_DATA_BLOCKED v"
| "frame_enc e (Streams_Blocked uni v) = int_enc (frame_type_of (Streams_Blocked uni v)) v"
| "frame_enc e (New_Conn_Id f) = new_conn_id_enc f"
| "frame_enc e (Retire_Conn_Id v) = int_enc OSSL_QUIC_FRAME_TYPE_RETIRE_CONN_ID v"
| "frame_enc e (Path_Challenge v) = path_enc OSSL_QUIC_FRAME_TYPE_PATH_CHALLENGE v"
| "frame_enc e (Path_Response v) = path_enc OSSL_QUIC_FRAME_TYPE_PATH_RESPONSE v"
| "frame_enc e (Conn_Close f) = conn_close_enc f"
| "frame_enc e Handshake_Done = ossl_quic_vlint_encode OSSL_QUIC_FRAME_TYPE_HANDSHAKE_DONE"

abbreviation vlint_ok :: "u64 \<Rightarrow> bool" where
  "vlint_ok v \<equiv> unat v < 2 ^ 62"

fun frame_valid :: "nat \<Rightarrow> quic_frame \<Rightarrow> bool" where
  "frame_valid e (Ack a) \<longleftrightarrow> ack_valid e a"
| "frame_valid e (Reset_Stream f) \<longleftrightarrow> vlint_ok (rs_stream_id f) \<and> vlint_ok (rs_app_error_code f) \<and> vlint_ok (rs_final_size f)"
| "frame_valid e (Stop_Sending f) \<longleftrightarrow> vlint_ok (st_stream_id f) \<and> vlint_ok (st_app_error_code f)"
| "frame_valid e (Crypto f) \<longleftrightarrow> crypto_valid f"
| "frame_valid e (New_Token t) \<longleftrightarrow> snd t < 2 ^ 62 \<and> owned (fst t) (snd t)"
| "frame_valid e (Stream_Data f) \<longleftrightarrow> stream_valid f \<and> fs_has_explicit_len f"
| "frame_valid e (Max_Data v) \<longleftrightarrow> vlint_ok v"
| "frame_valid e (Max_Stream_Data v) \<longleftrightarrow> vlint_ok (fst v) \<and> vlint_ok (snd v)"
| "frame_valid e (Max_Streams uni v) \<longleftrightarrow> vlint_ok v"
| "frame_valid e (Data_Blocked v) \<longleftrightarrow> vlint_ok v"
| "frame_valid e (Stream_Data_Blocked v) \<longleftrightarrow> vlint_ok (fst v) \<and> vlint_ok (snd v)"
| "frame_valid e (Streams_Blocked uni v) \<longleftrightarrow> vlint_ok v"
| "frame_valid e (New_Conn_Id f) \<longleftrightarrow> new_conn_id_valid f"
| "frame_valid e (Retire_Conn_Id v) \<longleftrightarrow> vlint_ok v"
| "frame_valid e (Conn_Close f) \<longleftrightarrow> conn_close_valid f"
| "frame_valid e _ \<longleftrightarrow> True"

lemma put_frame_writes:
  assumes "frame_valid e f"
  shows "writes E (put_frame e E f) (frame_enc e f)"
proof -
  have then_ret: "writes E (c_then op (c_ret (Some ()))) bs"
    if "writes E op bs" for op :: "WPACKET \<Rightarrow> (nat option \<times> WPACKET) option" and bs
    using writes_bind [OF that writes_ret] by simp
  show ?thesis
    using assms rw_max_streams.put_writes rw_streams_blocked.put_writes
    by (cases f) (auto intro!: then_ret writes_ack rw_reset_stream.put_writes rw_stop_sending.put_writes
        rw_crypto.put_writes rw_new_token.put_writes rw_stream.put_writes rw_max_data.put_writes
        rw_max_stream_data.put_writes rw_data_blocked.put_writes rw_stream_data_blocked.put_writes
        rw_retire_conn_id.put_writes rw_path_challenge.put_writes rw_path_response.put_writes
        rw_new_conn_id.put_writes rw_conn_close.put_writes rw_ping.put_writes rw_handshake_done.put_writes)
qed

section \<open>Reading\<close>

abbreviation tagged :: "('a \<Rightarrow> quic_frame) \<Rightarrow> (PACKET \<Rightarrow> ('a option \<times> PACKET) option) \<Rightarrow> PACKET \<Rightarrow> (quic_frame option \<times> PACKET) option" where
  "tagged C op \<equiv> c_bind op (\<lambda>a. c_ret (Some (C a)))"

text \<open>
  An ACK frame is read into a structure with room for as many ranges as were counted before; \<open>a0 n\<close> is the caller's
  structure for \<open>n\<close> ranges, \<open>n0\<close> the one for connection identifiers.
\<close>

definition get_ack :: "nat \<Rightarrow> (nat \<Rightarrow> OSSL_QUIC_FRAME_ACK) \<Rightarrow> PACKET \<Rightarrow> (OSSL_QUIC_FRAME_ACK option \<times> PACKET) option" where
  "get_ack e a0 p =
     (case ossl_quic_wire_peek_frame_ack_num_ranges p of
        None \<Rightarrow> None
      | Some None \<Rightarrow> Some (None, p)
      | Some (Some tot) \<Rightarrow> c_bind (ossl_quic_wire_decode_frame_ack e (Some (a0 (unat tot)))) (\<lambda>r. c_ret (fst r)) p)"

definition decode_as :: "nat \<Rightarrow> (nat \<Rightarrow> OSSL_QUIC_FRAME_ACK) \<Rightarrow> OSSL_QUIC_FRAME_NEW_CONN_ID \<Rightarrow> u64
    \<Rightarrow> PACKET \<Rightarrow> (quic_frame option \<times> PACKET) option" where
  "decode_as e a0 n0 ft =
     (if ft = OSSL_QUIC_FRAME_TYPE_PING then tagged (\<lambda>_. Ping) ossl_quic_wire_decode_frame_ping
      else if ft = OSSL_QUIC_FRAME_TYPE_ACK_WITHOUT_ECN \<or> ft = OSSL_QUIC_FRAME_TYPE_ACK_WITH_ECN then tagged Ack (get_ack e a0)
      else if ft = OSSL_QUIC_FRAME_TYPE_RESET_STREAM then tagged Reset_Stream ossl_quic_wire_decode_frame_reset_stream
      else if ft = OSSL_QUIC_FRAME_TYPE_STOP_SENDING then tagged Stop_Sending ossl_quic_wire_decode_frame_stop_sending
      else if ft = OSSL_QUIC_FRAME_TYPE_CRYPTO then tagged Crypto (ossl_quic_wire_decode_frame_crypto False)
      else if ft = OSSL_QUIC_FRAME_TYPE_NEW_TOKEN then tagged New_Token ossl_quic_wire_decode_frame_new_token
      else if OSSL_QUIC_FRAME_TYPE_STREAM \<le> ft \<and> ft \<le> 0x0f then tagged Stream_Data (ossl_quic_wire_decode_frame_stream False)
      else if ft = OSSL_QUIC_FRAME_TYPE_MAX_DATA then tagged Max_Data ossl_quic_wire_decode_frame_max_data
      else if ft = OSSL_QUIC_FRAME_TYPE_MAX_STREAM_DATA then tagged Max_Stream_Data ossl_quic_wire_decode_frame_max_stream_data
      else if ft = OSSL_QUIC_FRAME_TYPE_MAX_STREAMS_BIDI \<or> ft = OSSL_QUIC_FRAME_TYPE_MAX_STREAMS_UNI
        then tagged (Max_Streams (ft = OSSL_QUIC_FRAME_TYPE_MAX_STREAMS_UNI)) ossl_quic_wire_decode_frame_max_streams
      else if ft = OSSL_QUIC_FRAME_TYPE_DATA_BLOCKED then tagged Data_Blocked ossl_quic_wire_decode_frame_data_blocked
      else if ft = OSSL_QUIC_FRAME_TYPE_STREAM_DATA_BLOCKED
        then tagged Stream_Data_Blocked ossl_quic_wire_decode_frame_stream_data_blocked
      else if ft = OSSL_QUIC_FRAME_TYPE_STREAMS_BLOCKED_BIDI \<or> ft = OSSL_QUIC_FRAME_TYPE_STREAMS_BLOCKED_UNI
        then tagged (Streams_Blocked (ft = OSSL_QUIC_FRAME_TYPE_STREAMS_BLOCKED_UNI)) ossl_quic_wire_decode_frame_streams_blocked
      else if ft = OSSL_QUIC_FRAME_TYPE_NEW_CONN_ID then tagged New_Conn_Id (ossl_quic_wire_decode_frame_new_conn_id n0)
      else if ft = OSSL_QUIC_FRAME_TYPE_RETIRE_CONN_ID then tagged Retire_Conn_Id ossl_quic_wire_decode_frame_retire_conn_id
      else if ft = OSSL_QUIC_FRAME_TYPE_PATH_CHALLENGE then tagged Path_Challenge ossl_quic_wire_decode_frame_path_challenge
      else if ft = OSSL_QUIC_FRAME_TYPE_PATH_RESPONSE then tagged Path_Response ossl_quic_wire_decode_frame_path_response
      else if ft = OSSL_QUIC_FRAME_TYPE_CONN_CLOSE_TRANSPORT \<or> ft = OSSL_QUIC_FRAME_TYPE_CONN_CLOSE_APP
        then tagged Conn_Close ossl_quic_wire_decode_frame_conn_close
      else if ft = OSSL_QUIC_FRAME_TYPE_HANDSHAKE_DONE then tagged (\<lambda>_. Handshake_Done) ossl_quic_wire_decode_frame_handshake_done
      else c_ret None)"

definition get_frame :: "nat \<Rightarrow> (nat \<Rightarrow> OSSL_QUIC_FRAME_ACK) \<Rightarrow> OSSL_QUIC_FRAME_NEW_CONN_ID
    \<Rightarrow> PACKET \<Rightarrow> (quic_frame option \<times> PACKET) option" where
  "get_frame e a0 n0 p =
     (case ossl_quic_wire_peek_frame_header p of
        None \<Rightarrow> None
      | Some None \<Rightarrow> Some (None, p)
      | Some (Some (ft, was_minimal)) \<Rightarrow> if \<not> was_minimal then Some (None, p) else decode_as e a0 n0 ft p)"

text \<open>The value of a decoded frame: pointers as the bytes they point to, and no ECN counts in a frame without them.\<close>

definition ack_value :: "OSSL_QUIC_FRAME_ACK \<Rightarrow> OSSL_QUIC_FRAME_ACK" where
  "ack_value a = (if ecn_present a then a else a\<lparr>ect0 := 0, ect1 := 0, ecnce := 0\<rparr>)"

fun frame_view :: "quic_frame \<Rightarrow> quic_frame option" where
  "frame_view (Ack a) = Some (Ack (ack_value a))"
| "frame_view (Crypto f) = map_option Crypto (crypto_view f)"
| "frame_view (New_Token t) = map_option New_Token (token_view t)"
| "frame_view (Stream_Data f) = map_option Stream_Data (stream_view f)"
| "frame_view (Conn_Close f) = map_option Conn_Close (conn_close_view f)"
| "frame_view f = Some f"

abbreviation tagged_dec :: "('a \<Rightarrow> quic_frame) \<Rightarrow> (u8 list \<Rightarrow> ('a \<times> u8 list) option) \<Rightarrow> u8 list \<Rightarrow> (quic_frame \<times> u8 list) option" where
  "tagged_dec C spec \<equiv> p_bind spec (\<lambda>b. p_ret (C b))"

definition get_ack_dec :: "nat \<Rightarrow> (nat \<Rightarrow> OSSL_QUIC_FRAME_ACK) \<Rightarrow> u8 list \<Rightarrow> (OSSL_QUIC_FRAME_ACK \<times> u8 list) option" where
  "get_ack_dec e a0 bs =
     (case count_dec bs of
        None \<Rightarrow> None
      | Some (tot, _) \<Rightarrow> p_bind (ack_dec e (a0 (unat tot))) (\<lambda>r. p_ret (fst r)) bs)"

definition dec_as :: "nat \<Rightarrow> (nat \<Rightarrow> OSSL_QUIC_FRAME_ACK) \<Rightarrow> u64 \<Rightarrow> u8 list \<Rightarrow> (quic_frame \<times> u8 list) option" where
  "dec_as e a0 ft =
     (if ft = OSSL_QUIC_FRAME_TYPE_PING then tagged_dec (\<lambda>_. Ping) (hdr_dec ft)
      else if ft = OSSL_QUIC_FRAME_TYPE_ACK_WITHOUT_ECN \<or> ft = OSSL_QUIC_FRAME_TYPE_ACK_WITH_ECN
        then tagged_dec (\<lambda>a. Ack (ack_value a)) (get_ack_dec e a0)
      else if ft = OSSL_QUIC_FRAME_TYPE_RESET_STREAM then tagged_dec Reset_Stream reset_stream_dec
      else if ft = OSSL_QUIC_FRAME_TYPE_STOP_SENDING then tagged_dec Stop_Sending stop_sending_dec
      else if ft = OSSL_QUIC_FRAME_TYPE_CRYPTO then tagged_dec Crypto crypto_dec
      else if ft = OSSL_QUIC_FRAME_TYPE_NEW_TOKEN then tagged_dec New_Token new_token_dec
      else if OSSL_QUIC_FRAME_TYPE_STREAM \<le> ft \<and> ft \<le> 0x0f then tagged_dec Stream_Data stream_dec
      else if ft = OSSL_QUIC_FRAME_TYPE_MAX_DATA then tagged_dec Max_Data (int_dec ft)
      else if ft = OSSL_QUIC_FRAME_TYPE_MAX_STREAM_DATA then tagged_dec Max_Stream_Data (int2_dec ft)
      else if ft = OSSL_QUIC_FRAME_TYPE_MAX_STREAMS_BIDI \<or> ft = OSSL_QUIC_FRAME_TYPE_MAX_STREAMS_UNI
        then tagged_dec (Max_Streams (ft = OSSL_QUIC_FRAME_TYPE_MAX_STREAMS_UNI)) (streams_dec OSSL_QUIC_FRAME_TYPE_MAX_STREAMS_BIDI)
      else if ft = OSSL_QUIC_FRAME_TYPE_DATA_BLOCKED then tagged_dec Data_Blocked (int_dec ft)
      else if ft = OSSL_QUIC_FRAME_TYPE_STREAM_DATA_BLOCKED then tagged_dec Stream_Data_Blocked (int2_dec ft)
      else if ft = OSSL_QUIC_FRAME_TYPE_STREAMS_BLOCKED_BIDI \<or> ft = OSSL_QUIC_FRAME_TYPE_STREAMS_BLOCKED_UNI
        then tagged_dec (Streams_Blocked (ft = OSSL_QUIC_FRAME_TYPE_STREAMS_BLOCKED_UNI)) (streams_dec OSSL_QUIC_FRAME_TYPE_STREAMS_BLOCKED_BIDI)
      else if ft = OSSL_QUIC_FRAME_TYPE_NEW_CONN_ID then tagged_dec New_Conn_Id new_conn_id_dec
      else if ft = OSSL_QUIC_FRAME_TYPE_RETIRE_CONN_ID then tagged_dec Retire_Conn_Id (int_dec ft)
      else if ft = OSSL_QUIC_FRAME_TYPE_PATH_CHALLENGE then tagged_dec Path_Challenge (path_dec ft)
      else if ft = OSSL_QUIC_FRAME_TYPE_PATH_RESPONSE then tagged_dec Path_Response (path_dec ft)
      else if ft = OSSL_QUIC_FRAME_TYPE_CONN_CLOSE_TRANSPORT \<or> ft = OSSL_QUIC_FRAME_TYPE_CONN_CLOSE_APP
        then tagged_dec Conn_Close conn_close_dec
      else if ft = OSSL_QUIC_FRAME_TYPE_HANDSHAKE_DONE then tagged_dec (\<lambda>_. Handshake_Done) (hdr_dec ft)
      else p_fail)"

definition frame_dec :: "nat \<Rightarrow> (nat \<Rightarrow> OSSL_QUIC_FRAME_ACK) \<Rightarrow> u8 list \<Rightarrow> (quic_frame \<times> u8 list) option" where
  "frame_dec e a0 bs =
     (case vlint_dec bs of
        None \<Rightarrow> None
      | Some (ft, rest) \<Rightarrow> if length bs - length rest \<noteq> ossl_quic_vlint_encode_len ft then None else dec_as e a0 ft bs)"

definition ack_room :: "(nat \<Rightarrow> OSSL_QUIC_FRAME_ACK) \<Rightarrow> bool" where
  "ack_room a0 \<longleftrightarrow> (\<forall>n. num_ack_ranges (a0 n) = n \<and> length (ack_ranges (a0 n)) = n)"

definition conn_id_room :: "OSSL_QUIC_FRAME_NEW_CONN_ID \<Rightarrow> bool" where
  "conn_id_room n0 \<longleftrightarrow> length (cid_id (nc_conn_id n0)) = QUIC_MAX_CONN_ID_LEN
     \<and> length (nc_stateless_reset n0) = QUIC_STATELESS_RESET_TOKEN_LEN"

lemma reads_tagged:
  assumes "reads v op spec" "\<And>a b. v a = Some b \<Longrightarrow> frame_view (C a) = Some (D b)"
  shows "reads frame_view (tagged C op) (p_bind spec (\<lambda>b. p_ret (D b)))"
  by (rule reads_bind [OF assms(1)]) (rule reads_ret, rule assms(2))

lemma reads_get_ack:
  assumes "e < 64" "ack_room a0"
  shows "reads Some (get_ack e a0) (get_ack_dec e a0)"
proof -
  have "reads Some (c_bind (ossl_quic_wire_decode_frame_ack e (Some (a0 n))) (\<lambda>r. c_ret (fst r)))
      (p_bind (ack_dec e (a0 n)) (\<lambda>r. p_ret (fst r)))" for n
    using assms by (intro reads_bind [OF reads_ack]) (auto simp: ack_room_def intro!: reads_ret)
  then show ?thesis
    unfolding reads_def get_ack_def get_ack_dec_def
    by (auto simp: peek_num_ranges_spec split: option.splits)
qed

lemma reads_decode_as:
  assumes "e < 64" "ack_room a0" "conn_id_room n0"
  shows "reads frame_view (decode_as e a0 n0 ft) (dec_as e a0 ft)"
proof -
  have "reads frame_view (tagged Ack (get_ack e a0)) (tagged_dec (\<lambda>a. Ack (ack_value a)) (get_ack_dec e a0))"
    by (rule reads_tagged [OF reads_get_ack]) (use assms in simp_all)
  moreover have "reads frame_view (tagged New_Conn_Id (ossl_quic_wire_decode_frame_new_conn_id n0)) (tagged_dec New_Conn_Id new_conn_id_dec)"
    by (rule reads_tagged [OF reads_new_conn_id]) (use assms in \<open>simp_all add: conn_id_room_def\<close>)
  ultimately show ?thesis
    unfolding decode_as_def dec_as_def
    by (intro reads_if reads_fail)
      (auto intro!: reads_tagged [OF rw_reset_stream.op_reads]
        reads_tagged [OF rw_stop_sending.op_reads] reads_tagged [OF rw_crypto.op_reads]
        reads_tagged [OF rw_new_token.op_reads] reads_tagged [OF rw_stream.op_reads] reads_tagged [OF rw_max_data.op_reads]
        reads_tagged [OF rw_max_stream_data.op_reads] reads_tagged [OF rw_max_streams.op_reads]
        reads_tagged [OF rw_data_blocked.op_reads] reads_tagged [OF rw_stream_data_blocked.op_reads]
        reads_tagged [OF rw_streams_blocked.op_reads] reads_tagged [OF rw_retire_conn_id.op_reads]
        reads_tagged [OF rw_path_challenge.op_reads] reads_tagged [OF rw_path_response.op_reads]
        reads_tagged [OF rw_conn_close.op_reads] reads_tagged [OF rw_ping.op_reads]
        reads_tagged [OF rw_handshake_done.op_reads])
qed

lemma reads_get_frame:
  assumes "e < 64" "ack_room a0" "conn_id_room n0"
  shows "reads frame_view (get_frame e a0 n0) (frame_dec e a0)"
  using reads_decode_as [OF assms]
  unfolding reads_def get_frame_def frame_dec_def ossl_quic_wire_peek_frame_header_def
  by (auto simp: peek_quic_vlint_ex_spec split: option.splits)

lemma frame_enc_type:
  "unat (frame_type_of f) < 64 \<and> (\<exists>body. frame_enc e f = ossl_quic_vlint_encode (frame_type_of f) @ body)"
proof -
  have "unat (stream_frame_type g) < 64" for g using stream_frame_type_bits(5) [of g] by simp
  then show ?thesis
    by (cases f) (auto simp: ack_enc_def reset_stream_enc_def stop_sending_enc_def crypto_enc_def new_token_enc_def
        stream_enc_def stream_hdr_enc_def int_enc_def int2_enc_def new_conn_id_enc_def path_enc_def conn_close_enc_def)
qed

lemma frame_dec_eq: "frame_dec e a0 (frame_enc e f @ rest) = dec_as e a0 (frame_type_of f) (frame_enc e f @ rest)"
proof -
  obtain body where body: "frame_enc e f = ossl_quic_vlint_encode (frame_type_of f) @ body" "unat (frame_type_of f) < 2 ^ 62"
    using frame_enc_type [of f e] by auto
  then show ?thesis by (simp add: frame_dec_def vlint_dec_encode length_encode)
qed

lemma get_ack_dec_enc:
  assumes "ack_valid e a" "ack_room a0"
  shows "\<exists>a'. get_ack_dec e a0 (ack_enc e a @ rest) = Some (a', rest) \<and> ack_value a' = a"
proof -
  let ?a0 = "a0 (num_ack_ranges a)"
  let ?a' = "if ecn_present a then a else a\<lparr>ect0 := ect0 ?a0, ect1 := ect1 ?a0, ecnce := ecnce ?a0\<rparr>"
  have n: "num_ack_ranges a \<le> 2 ^ 62" using assms(1) by (auto simp: ack_valid_def)
  then have "unat (of_nat (num_ack_ranges a) :: u64) = num_ack_ranges a" by (simp add: unat_u64_of_nat)
  with count_dec_enc [OF assms(1), of rest] ack_dec_enc [OF assms(1), of ?a0 rest] assms(2)
  have "get_ack_dec e a0 (ack_enc e a @ rest) = Some (?a', rest)"
    by (auto simp: get_ack_dec_def ack_room_def p_bind_def p_ret_def)
  moreover have "ack_value ?a' = a" using assms(1) by (cases a) (auto simp: ack_value_def ack_valid_def)
  ultimately show ?thesis by blast
qed

lemma frame_dec_enc:
  assumes "frame_valid e f" "ack_room a0"
  shows "frame_dec e a0 (frame_enc e f @ rest) = Some (f, rest)"
proof -
  have st: "8 \<le> stream_frame_type g \<and> stream_frame_type g \<le> 15 \<and> stream_frame_type g \<notin> {1, 2, 3, 4, 5, 6, 7}" for g
    by (simp add: stream_frame_type_def Let_def)
  show ?thesis
    unfolding frame_dec_eq
  proof (cases f)
    case (Ack a)
    with get_ack_dec_enc [of e a a0 rest] assms show "dec_as e a0 (frame_type_of f) (frame_enc e f @ rest) = Some (f, rest)"
      by (auto simp: dec_as_def p_bind_def p_ret_def)
  next
    case (Max_Streams uni v)
    with rw_max_streams.spec_enc [of v uni rest] assms
    show "dec_as e a0 (frame_type_of f) (frame_enc e f @ rest) = Some (f, rest)"
      by (auto simp: dec_as_def p_bind_def p_ret_def)
  next
    case (Streams_Blocked uni v)
    with rw_streams_blocked.spec_enc [of v uni rest] assms
    show "dec_as e a0 (frame_type_of f) (frame_enc e f @ rest) = Some (f, rest)"
      by (auto simp: dec_as_def p_bind_def p_ret_def)
  qed (use assms(1) st in \<open>simp_all add: dec_as_def p_bind_def p_ret_def rw_reset_stream.spec_enc rw_stop_sending.spec_enc
      rw_crypto.spec_enc rw_new_token.spec_enc rw_stream.spec_enc rw_max_data.spec_enc rw_max_stream_data.spec_enc
      rw_data_blocked.spec_enc rw_stream_data_blocked.spec_enc rw_new_conn_id.spec_enc rw_retire_conn_id.spec_enc
      rw_path_challenge.spec_enc rw_path_response.spec_enc rw_conn_close.spec_enc rw_ping.spec_enc rw_handshake_done.spec_enc\<close>)
qed

lemma frames_rw:
  assumes "e < 64" "ack_room a0" "conn_id_room n0"
  shows "wire_rw frame_view (get_frame e a0 n0) (frame_dec e a0) (frame_enc e) (frame_valid e) (put_frame e)"
  using assms by unfold_locales (simp_all add: reads_get_frame frame_dec_enc put_frame_writes)

section \<open>Progress\<close>

text \<open>\<open>consumes n spec\<close>: what \<open>spec\<close> accepts is at least \<open>n\<close> bytes long.\<close>

definition consumes :: "nat \<Rightarrow> (u8 list \<Rightarrow> ('a \<times> u8 list) option) \<Rightarrow> bool" where
  "consumes n spec \<longleftrightarrow> (\<forall>bs b rest. spec bs = Some (b, rest) \<longrightarrow> length rest + n \<le> length bs)"

lemma consumes_bind: "consumes n f \<Longrightarrow> (\<And>a. consumes 0 (g a)) \<Longrightarrow> consumes n (p_bind f g)"
  unfolding consumes_def p_bind_def by (fastforce split: option.splits)

lemma consumes_if: "consumes n f \<Longrightarrow> consumes n g \<Longrightarrow> consumes n (if b then f else g)"
  by simp

lemma consumes_weaken: "consumes 1 f \<Longrightarrow> consumes 0 f"
  by (fastforce simp: consumes_def)

lemma consumes_basic: "consumes 0 (p_ret a)" "consumes n p_fail" "consumes 1 vlint_dec" "consumes 0 (field_dec m v)"
  "consumes 0 p_remaining"
  using vlint_dec_bound(3) by (fastforce simp: consumes_def p_ret_def p_fail_def field_dec_def p_remaining_def split: if_splits)+

lemma consumes_hdr: "consumes 1 (hdr_dec ft)" "consumes 1 (mask_dec ft m)"
  unfolding hdr_dec_def mask_dec_def by (intro consumes_bind consumes_if consumes_basic)+

lemmas consuming = consumes_bind consumes_if consumes_basic consumes_hdr consumes_weaken [OF consumes_basic(3)]

lemma consumes_ranges: "consumes 0 (ranges_dec n k st)"
  by (induction n arbitrary: k st) (simp_all only: ranges_dec.simps, intro consuming, intro consuming)

lemma consumes_ack: "consumes 1 (ack_dec e a)"
  unfolding ack_dec_def ecn_dec_def by (intro consuming consumes_ranges)

lemma consumes_get_ack: "consumes 1 (get_ack_dec e a0)"
proof -
  have "consumes 1 (p_bind (ack_dec e a) (\<lambda>r. p_ret (fst r)))" for a by (intro consumes_bind consumes_ack consumes_basic)
  then show ?thesis unfolding consumes_def get_ack_dec_def by (simp split: option.splits)
qed

lemma consumes_frame: "consumes 1 (frame_dec e a0)"
proof -
  have "consumes 1 (dec_as e a0 ft)" for ft
    unfolding dec_as_def reset_stream_dec_def stop_sending_dec_def crypto_dec_def new_token_dec_def stream_dec_def int_dec_def
      int2_dec_def streams_dec_def new_conn_id_dec_def path_dec_def conn_close_dec_def
    by (intro consuming consumes_get_ack)
  then show ?thesis unfolding consumes_def frame_dec_def by (simp split: option.splits if_splits)
qed

lemma vlint_dec_zero_minimal:
  assumes dec: "vlint_dec bs = Some (0, rest)" and len: "length bs - length rest = ossl_quic_vlint_encode_len 0"
  shows "\<exists>cs. bs = 0 # cs"
proof -
  obtain b cs where bs: "bs = b # cs" using dec by (cases bs) (auto simp: vlint_dec_def)
  have "ossl_quic_vlint_encode_len 0 = 1" by (simp add: encode_len_unat)
  with dec len bs have n: "ossl_quic_vlint_decode_len b = 1"
    by (auto simp: vlint_dec_def Let_def split: if_splits)
  with dec bs have "take_bit 6 (ucast b :: u64) = 0"
    by (auto simp: vlint_dec_def Let_def word_of_bytes_lengths take_Cons' split: if_splits)
  then have t: "\<not> bit (take_bit 6 (ucast b :: u64)) m" for m by simp
  have "b = 0"
  proof (rule bit_word_eqI)
    fix m assume "m < LENGTH(8)"
    then consider "m < 6" | "m = 6" | "m = 7" by fastforce
    then show "bit b m = bit 0 m"
      using t [of m] n by cases (auto simp: bit_simps decode_len_eq split: if_splits)
  qed
  with bs show ?thesis by blast
qed

section \<open>Properties\<close>

text \<open>
  C1.  A payload survives the wire.  For every sequence of frames of any of the nineteen kinds, written with the
  encoders one after the other into a fixed buffer that has room for them, all writes succeed; and a receiver
  that peeks at each type and calls its decoder gets back the same frames in the same order, with the same
  field values and the same data bytes behind its pointers, and nothing is left over.
\<close>

theorem frames_roundtrip:
  assumes "e < 64" "ack_room a0" "conn_id_room n0"
    and "env_ok E" "\<forall>p. we_sub E p" "wp_fwd pkt" "wp_subs pkt \<noteq> []" "wp_staticbuf pkt \<noteq> None"
    and "wp_written pkt + length (concat (map (frame_enc e) fs)) \<le> wp_maxsize pkt" "wp_maxsize pkt \<le> SIZE_MAX div 2"
    and "list_all (frame_valid e) fs"
  shows "\<exists>pkt' gs p'. put_all (put_frame e E) fs pkt = Some (Some (), pkt')
    \<and> get_all (get_frame e a0 n0) (length fs) (packet_over pkt' (wp_written pkt)) = Some (Some gs, p')
    \<and> map frame_view gs = map Some fs \<and> pkt_remaining p' = 0"
  using wire_rw.list_roundtrip [OF frames_rw [OF assms(1-3)] assms(4-)] .

definition example_frames :: "quic_frame list" where
  "example_frames =
     [Ping,
      Ack \<lparr>ack_ranges = [\<lparr>ar_start = 7, ar_end = 9\<rparr>, \<lparr>ar_start = 0, ar_end = 5\<rparr>], num_ack_ranges = 2, delay_time = 80000,
           ect0 = 0, ect1 = 0, ecnce = 0, ecn_present = False\<rparr>,
      Stream_Data \<lparr>fs_stream_id = 4, fs_offset = 100, fs_len = 2, fs_data = (Some [104, 105], 0),
           fs_has_explicit_len = True, fs_is_fin = True\<rparr>,
      Max_Streams True 16]"

theorem frames_roundtrip_witness:
  "\<exists>pkt' gs p'. put_all (put_frame 3 example_env) example_frames (example_writer 30) = Some (Some (), pkt')
    \<and> get_all (get_frame 3 example_ack blank_new_conn_id) (length example_frames) (packet_over pkt' 0) = Some (Some gs, p')
    \<and> map frame_view gs = map Some example_frames \<and> pkt_remaining p' = 0"
proof -
  have fwd: "wp_fwd (example_writer 30)" by (rule example_writer_fwd) simp
  have room: "wp_written (example_writer 30) + length (concat (map (frame_enc 3) example_frames)) \<le> wp_maxsize (example_writer 30)"
    by code_simp
  have small: "wp_maxsize (example_writer 30) \<le> SIZE_MAX div 2" by (simp add: example_writer_fwd)
  have a0: "ack_room example_ack" by (simp add: ack_room_def example_ack_def)
  have n0: "conn_id_room blank_new_conn_id" by (simp add: conn_id_room_def blank_new_conn_id_def)
  have fs: "list_all (frame_valid 3) example_frames" by code_simp
  from frames_roundtrip [OF _ a0 n0 example_env_ok example_writer_fwd(6) fwd example_writer_fwd(2,3) room small fs,
      unfolded example_writer_fwd(4)]
  show ?thesis by simp
qed

text \<open>
  C10.  The decoders are memory safe and accept exactly their formats: on any packet they read only its bytes, fail exactly
  when the byte-level specification of the frame or transport parameter fails, and otherwise return its value and leave
  the bytes after it.
\<close>

theorem wire_decoders_refine:
  assumes "e < 64" "ack_room a0" "conn_id_room n0" "length (cid_id cid) = QUIC_MAX_CONN_ID_LEN" "preferred_addr_wf pa"
  shows "reads frame_view (get_frame e a0 n0) (frame_dec e a0)
    \<and> reads tparam_view ossl_quic_wire_decode_transport_param_bytes tparam_dec
    \<and> reads Some ossl_quic_wire_decode_transport_param_int tparam_int_dec
    \<and> reads tparam_cid_view (ossl_quic_wire_decode_transport_param_cid cid) tparam_cid_dec
    \<and> reads Some (ossl_quic_wire_decode_transport_param_preferred_addr pa) (tparam_preferred_addr_dec pa)"
  using assms by (intro conjI reads_get_frame reads_tparam reads_tparam_int reads_tparam_cid reads_tparam_preferred_addr)

definition example_preferred_addr :: QUIC_PREFERRED_ADDR where
  "example_preferred_addr = \<lparr>pa_ipv4_port = 0, pa_ipv6_port = 0, pa_ipv4 = replicate 4 0, pa_ipv6 = replicate 16 0,
     pa_stateless_reset = replicate 16 0, pa_cid = \<lparr>id_len = 0, cid_id = replicate 20 0\<rparr>\<rparr>"

theorem wire_decoders_refine_witness:
  "reads frame_view (get_frame 3 example_ack blank_new_conn_id) (frame_dec 3 example_ack)
    \<and> reads Some (ossl_quic_wire_decode_transport_param_preferred_addr example_preferred_addr)
        (tparam_preferred_addr_dec example_preferred_addr)"
proof -
  have "ack_room example_ack" "conn_id_room blank_new_conn_id" "preferred_addr_wf example_preferred_addr"
    by (simp_all add: ack_room_def example_ack_def conn_id_room_def blank_new_conn_id_def preferred_addr_wf_def
        example_preferred_addr_def)
  then show ?thesis
    using wire_decoders_refine [of 3 example_ack blank_new_conn_id "pa_cid example_preferred_addr" example_preferred_addr]
    by (simp add: example_preferred_addr_def)
qed

text \<open>
  C29.  Transport parameters survive the wire: any sequence of integer parameters written with the encoder into a buffer
  with room for them is read back by the decoder, identifiers and values unchanged.
\<close>

theorem transport_params_roundtrip:
  assumes "env_ok E" "\<forall>p. we_sub E p" "wp_fwd pkt" "wp_subs pkt \<noteq> []" "wp_staticbuf pkt \<noteq> None"
    and "wp_written pkt + length (concat (map tparam_int_enc ts)) \<le> wp_maxsize pkt" "wp_maxsize pkt \<le> SIZE_MAX div 2"
    and "list_all (\<lambda>t. vlint_ok (fst t) \<and> vlint_ok (snd t)) ts"
  shows "\<exists>pkt' p'. put_all (\<lambda>t. ossl_quic_wire_encode_transport_param_int E (fst t) (snd t)) ts pkt = Some (Some (), pkt')
    \<and> get_all ossl_quic_wire_decode_transport_param_int (length ts) (packet_over pkt' (wp_written pkt)) = Some (Some ts, p')
    \<and> pkt_remaining p' = 0"
proof -
  obtain pkt' us p' where "put_all (\<lambda>t. ossl_quic_wire_encode_transport_param_int E (fst t) (snd t)) ts pkt = Some (Some (), pkt')"
    "get_all ossl_quic_wire_decode_transport_param_int (length ts) (packet_over pkt' (wp_written pkt)) = Some (Some us, p')"
    "map Some us = map Some ts" "pkt_remaining p' = 0"
    using rw_tparam_int.list_roundtrip [OF assms] by blast
  moreover from this(3) have "us = ts" by (simp add: inj_map_eq_map)
  ultimately show ?thesis by blast
qed

theorem transport_params_roundtrip_witness:
  "\<exists>pkt' p'. put_all (\<lambda>t. ossl_quic_wire_encode_transport_param_int example_env (fst t) (snd t)) [(4, 1048576), (10, 3)]
        (example_writer 9) = Some (Some (), pkt')
    \<and> get_all ossl_quic_wire_decode_transport_param_int 2 (packet_over pkt' 0) = Some (Some [(4, 1048576), (10, 3)], p')
    \<and> pkt_remaining p' = 0"
proof -
  have fwd: "wp_fwd (example_writer 9)" by (rule example_writer_fwd) simp
  have room: "wp_written (example_writer 9) + length (concat (map tparam_int_enc [(4, 1048576), (10, 3)])) \<le> wp_maxsize (example_writer 9)"
    by code_simp
  have small: "wp_maxsize (example_writer 9) \<le> SIZE_MAX div 2" by (simp add: example_writer_fwd)
  have ts: "list_all (\<lambda>t. vlint_ok (fst t) \<and> vlint_ok (snd t)) [(4, 1048576), (10, 3)]" by simp
  have len: "length [(4 :: u64, 1048576 :: u64), (10, 3)] = 2" by simp
  from transport_params_roundtrip [OF example_env_ok example_writer_fwd(6) fwd example_writer_fwd(2,3) room small ts,
      unfolded len example_writer_fwd(4)]
  show ?thesis .
qed

text \<open>
  C30.  A STREAM frame without a length field, written as the last frame of a packet, is read back with its stream,
  offset, FIN flag and all its data, which then reach to the end of the packet.
\<close>

theorem stream_frame_to_end:
  assumes "env_ok E" "\<forall>p. we_sub E p" "wp_fwd pkt" "wp_subs pkt \<noteq> []" "wp_staticbuf pkt \<noteq> None"
    and "wp_written pkt + length (stream_enc f) \<le> wp_maxsize pkt" "wp_maxsize pkt \<le> SIZE_MAX div 2"
    and "stream_valid f" "\<not> fs_has_explicit_len f"
  shows "\<exists>pkt' q g p'. ossl_quic_wire_encode_frame_stream E f pkt = Some (Some q, pkt')
      \<and> ossl_quic_wire_decode_frame_stream False (packet_over pkt' (wp_written pkt)) = Some (Some g, p')
      \<and> stream_view g = Some f \<and> pkt_remaining p' = 0"
proof -
  obtain r pkt' where w: "ossl_quic_wire_encode_frame_stream E f pkt = Some (r, pkt')"
    "r \<noteq> None \<longrightarrow> wp_becomes pkt pkt' (wp_output pkt @ stream_enc f)"
    "wp_staticbuf pkt \<noteq> None \<longrightarrow> (\<forall>p. we_sub E p) \<longrightarrow> wp_written pkt + length (stream_enc f) \<le> wp_maxsize pkt \<longrightarrow> r \<noteq> None"
    using writesE [OF writes_stream [OF assms(8)] assms(1,3,4)] by blast
  then obtain q where q: "r = Some q" and b: "wp_becomes pkt pkt' (wp_output pkt @ stream_enc f)" using assms by auto
  have out: "wp_fwd pkt'" "wp_maxsize pkt' \<le> SIZE_MAX div 2" "wp_output pkt' = wp_output pkt @ stream_enc f"
    using b assms(7) by (auto simp: wp_becomes_def)
  have len: "length (wp_output pkt) = wp_written pkt" "wp_written pkt \<le> wp_written pkt'"
    using length_wp_output [OF assms(3)] length_wp_output [OF out(1)] out(3) by simp_all
  have p: "packet_wf (packet_over pkt' (wp_written pkt))" "packet_bytes (packet_over pkt' (wp_written pkt)) = stream_enc f"
    using packet_over_bytes [OF out(1,2) len(2)] out(3) len(1) by simp_all
  have "stream_dec (packet_bytes (packet_over pkt' (wp_written pkt))) = Some (f, [])"
    using p(2) stream_dec_enc [OF assms(8), of "[]"] by simp
  from reads_Some [OF reads_stream p(1) this] w(1) q show ?thesis
    by (metis length_packet_bytes list.size(3))
qed

definition example_stream :: OSSL_QUIC_FRAME_STREAM where
  "example_stream = \<lparr>fs_stream_id = 4, fs_offset = 0, fs_len = 2, fs_data = (Some [104, 105], 0),
     fs_has_explicit_len = False, fs_is_fin = True\<rparr>"

theorem stream_frame_to_end_witness:
  "\<exists>pkt' q g p'. ossl_quic_wire_encode_frame_stream example_env example_stream (example_writer 4) = Some (Some q, pkt')
      \<and> ossl_quic_wire_decode_frame_stream False (packet_over pkt' 0) = Some (Some g, p')
      \<and> stream_view g = Some example_stream \<and> pkt_remaining p' = 0"
proof -
  have fwd: "wp_fwd (example_writer 4)" by (rule example_writer_fwd) simp
  have room: "wp_written (example_writer 4) + length (stream_enc example_stream) \<le> wp_maxsize (example_writer 4)" by code_simp
  have small: "wp_maxsize (example_writer 4) \<le> SIZE_MAX div 2" by (simp add: example_writer_fwd)
  have f: "stream_valid example_stream" "\<not> fs_has_explicit_len example_stream" by code_simp+
  from stream_frame_to_end [OF example_env_ok example_writer_fwd(6) fwd example_writer_fwd(2,3) room small f,
      unfolded example_writer_fwd(4)]
  show ?thesis .
qed

text \<open>
  C31.  The sizes that the packet builder plans with are exact: when the computed size of a STREAM or CRYPTO header is
  not zero, the header writer appends exactly that many bytes, and it is zero exactly if some field of the header is
  too large for a QUIC integer.
\<close>

theorem planned_header_lengths:
  "(ossl_quic_wire_get_encoded_frame_len_stream_hdr f \<noteq> 0 \<longrightarrow>
      (\<exists>bs. length bs = ossl_quic_wire_get_encoded_frame_len_stream_hdr f \<and> writes E (ossl_quic_wire_encode_frame_stream_hdr E f) bs))
   \<and> (ossl_quic_wire_get_encoded_frame_len_stream_hdr f \<noteq> 0 \<longleftrightarrow>
        vlint_ok (fs_stream_id f) \<and> vlint_ok (fs_offset f) \<and> (fs_has_explicit_len f \<longrightarrow> vlint_ok (fs_len f)))
   \<and> (ossl_quic_wire_get_encoded_frame_len_crypto_hdr c \<noteq> 0 \<longrightarrow>
      (\<exists>bs. length bs = ossl_quic_wire_get_encoded_frame_len_crypto_hdr c \<and> writes E (ossl_quic_wire_encode_frame_crypto_hdr E c) bs))
   \<and> (ossl_quic_wire_get_encoded_frame_len_crypto_hdr c \<noteq> 0 \<longleftrightarrow> vlint_ok (fc_offset c) \<and> vlint_ok (fc_len c))"
proof -
  have "length (ossl_quic_vlint_encode v) \<noteq> 0" if "vlint_ok v" for v
    using that by (simp add: length_encode encode_len_0_iff)
  then have pos: "stream_hdr_enc f \<noteq> []" "ossl_quic_vlint_encode OSSL_QUIC_FRAME_TYPE_CRYPTO \<noteq> []"
    using stream_frame_type_bits(5) [of f] by (auto simp: stream_hdr_enc_def)
  have c: "\<exists>bs. length bs = ossl_quic_wire_get_encoded_frame_len_crypto_hdr c \<and> writes E (ossl_quic_wire_encode_frame_crypto_hdr E c) bs"
    if "vlint_ok (fc_offset c)" "vlint_ok (fc_len c)"
  proof -
    have "writes E (ossl_quic_wire_encode_frame_crypto_hdr E c) (ossl_quic_vlint_encode OSSL_QUIC_FRAME_TYPE_CRYPTO
        @ ossl_quic_vlint_encode (fc_offset c) @ ossl_quic_vlint_encode (fc_len c))"
      unfolding ossl_quic_wire_encode_frame_crypto_hdr_def using that by (intro frame_writing) simp_all
    then show ?thesis using that by (intro exI conjI) (simp_all add: crypto_hdr_len crypto_enc_def)
  qed
  have f: "\<exists>bs. length bs = ossl_quic_wire_get_encoded_frame_len_stream_hdr f \<and> writes E (ossl_quic_wire_encode_frame_stream_hdr E f) bs"
    if "vlint_ok (fs_stream_id f)" "vlint_ok (fs_offset f)" "fs_has_explicit_len f \<longrightarrow> vlint_ok (fs_len f)"
    using writes_stream_hdr [OF that] that by (intro exI conjI) (auto simp: stream_hdr_len)
  have "ossl_quic_wire_get_encoded_frame_len_stream_hdr f \<noteq> 0 \<longleftrightarrow>
        vlint_ok (fs_stream_id f) \<and> vlint_ok (fs_offset f) \<and> (fs_has_explicit_len f \<longrightarrow> vlint_ok (fs_len f))"
    using pos(1) by (simp add: stream_hdr_len)
  moreover have "ossl_quic_wire_get_encoded_frame_len_crypto_hdr c \<noteq> 0 \<longleftrightarrow> vlint_ok (fc_offset c) \<and> vlint_ok (fc_len c)"
    using pos(2) by (simp add: crypto_hdr_len crypto_enc_def)
  ultimately show ?thesis using c f by blast
qed

theorem planned_header_lengths_witness:
  "\<exists>bs. length bs = 2 \<and> writes example_env (ossl_quic_wire_encode_frame_stream_hdr example_env example_stream) bs"
proof -
  have "ossl_quic_wire_get_encoded_frame_len_stream_hdr example_stream = 2" by code_simp
  then show ?thesis using planned_header_lengths [of example_stream example_env] by simp
qed

end
