(* ===== verification/Sframe_List.thy ===== *)
theory Sframe_List
  imports Ossl_Prelude
begin

text \<open>
  The list of received stream frames of \<open>ssl/quic/quic_sf_list.c\<close>, which the receive part of a stream keeps until the
  application has read them.

  The doubly linked list is the list of its frames from \<open>head\<close> to \<open>tail\<close>.  The data a frame points to in its packet are
  the bytes, \<open>None\<close> for the null pointer, which stands for data that were moved to the ring buffer.  The reference
  counts of the packets, which all lists share, are part of the state.  Overwriting the bytes of a frame that is freed
  or moved while \<open>cleanse\<close> is set is not: the list has dropped its pointer to them.  An operation is \<open>None\<close> when an \<open>assert\<close> fails or
  an access is outside the data; an \<open>ossl_assert\<close> returns its argument.
\<close>

section \<open>The program\<close>

record STREAM_FRAME =
  sf_start :: nat
  sf_end :: nat
  sf_pkt :: "nat option"
  sf_data :: "u8 list option"

record SFRAME_LIST =
  fl_frames :: "STREAM_FRAME list"
  fl_fin :: bool
  fl_num_frames :: nat
  fl_offset :: nat
  fl_head_locked :: bool
  fl_cleanse :: bool
  pkt_refs :: "nat \<Rightarrow> nat"

definition ossl_qrx_pkt_up_ref :: "nat \<Rightarrow> SFRAME_LIST \<Rightarrow> SFRAME_LIST option" where
  "ossl_qrx_pkt_up_ref pkt fl =
     (if pkt_refs fl pkt > 0 then Some (fl\<lparr>pkt_refs := (pkt_refs fl)(pkt := pkt_refs fl pkt + 1)\<rparr>) else None)"

definition ossl_qrx_pkt_release :: "nat option \<Rightarrow> SFRAME_LIST \<Rightarrow> SFRAME_LIST option" where
  "ossl_qrx_pkt_release pkt fl =
     (case pkt of
        None \<Rightarrow> Some fl
      | Some p \<Rightarrow> if pkt_refs fl p > 0 then Some (fl\<lparr>pkt_refs := (pkt_refs fl)(p := pkt_refs fl p - 1)\<rparr>) else None)"

definition stream_frame_free :: "STREAM_FRAME \<Rightarrow> SFRAME_LIST \<Rightarrow> SFRAME_LIST option" where
  "stream_frame_free sf fl = ossl_qrx_pkt_release (sf_pkt sf) fl"

text \<open>The new frame, or \<open>None\<close> inside when there is no memory for it.\<close>

definition stream_frame_new ::
  "bool \<Rightarrow> nat \<times> nat \<Rightarrow> nat option \<Rightarrow> u8 list option \<Rightarrow> SFRAME_LIST \<Rightarrow> (STREAM_FRAME option \<times> SFRAME_LIST) option" where
  "stream_frame_new no_memory rng pkt data fl =
     (if no_memory then Some (None, fl)
      else do {
        fl \<leftarrow> (case pkt of None \<Rightarrow> Some fl | Some p \<Rightarrow> ossl_qrx_pkt_up_ref p fl);
        Some (Some \<lparr>sf_start = fst rng, sf_end = snd rng, sf_pkt = pkt, sf_data = data\<rparr>, fl) })"

definition ossl_sframe_list_init :: "(nat \<Rightarrow> nat) \<Rightarrow> SFRAME_LIST" where
  "ossl_sframe_list_init refs = \<lparr>fl_frames = [], fl_fin = False, fl_num_frames = 0, fl_offset = 0,
     fl_head_locked = False, fl_cleanse = False, pkt_refs = refs\<rparr>"

fun free_frames :: "STREAM_FRAME list \<Rightarrow> SFRAME_LIST \<Rightarrow> SFRAME_LIST option" where
  "free_frames [] fl = Some fl"
| "free_frames (sf # sfs) fl = do { fl \<leftarrow> stream_frame_free sf fl; free_frames sfs fl }"

definition ossl_sframe_list_destroy :: "SFRAME_LIST \<Rightarrow> SFRAME_LIST option" where
  "ossl_sframe_list_destroy fl = free_frames (fl_frames fl) fl"

definition append_frame ::
  "bool \<Rightarrow> nat \<times> nat \<Rightarrow> nat option \<Rightarrow> u8 list option \<Rightarrow> SFRAME_LIST \<Rightarrow> (bool \<times> SFRAME_LIST) option" where
  "append_frame no_memory rng pkt data fl = do {
     (new_frame, fl) \<leftarrow> stream_frame_new no_memory rng pkt data fl;
     Some (case new_frame of
             None \<Rightarrow> (False, fl)
           | Some sf \<Rightarrow> (True, fl\<lparr>fl_frames := fl_frames fl @ [sf], fl_num_frames := u64_add (fl_num_frames fl) 1\<rparr>)) }"

text \<open>The loop that drops the frames within the new one: it returns what is left of the list behind it.\<close>

fun drop_covered :: "nat \<Rightarrow> STREAM_FRAME list \<Rightarrow> SFRAME_LIST \<Rightarrow> (STREAM_FRAME list \<times> SFRAME_LIST) option" where
  "drop_covered end' [] fl = Some ([], fl)"
| "drop_covered end' (sf # sfs) fl =
     (if sf_end sf \<le> end'
      then do {
        fl \<leftarrow> stream_frame_free sf (fl\<lparr>fl_num_frames := u64_sub (fl_num_frames fl) 1\<rparr>);
        drop_covered end' sfs fl }
      else Some (sf # sfs, fl))"

definition sf_insert_frames ::
  "bool \<Rightarrow> nat \<times> nat \<Rightarrow> nat option \<Rightarrow> u8 list option \<Rightarrow> SFRAME_LIST \<Rightarrow> (bool \<times> SFRAME_LIST) option" where
  "sf_insert_frames no_memory rng pkt data fl =
     (let frames = fl_frames fl
      in if fl_offset fl \<ge> snd rng then Some (True, fl)
         else if frames = [] \<or> sf_start (last frames) < fst rng
         then (if frames \<noteq> [] \<and> sf_end (last frames) \<ge> snd rng then Some (True, fl)
               else append_frame no_memory rng pkt data fl)
         else
           let before = takeWhile (\<lambda>sf. sf_start sf < fst rng) frames;
               rest = dropWhile (\<lambda>sf. sf_start sf < fst rng) frames
           in if rest = [] then Some (False, fl)
              else if before \<noteq> [] \<and> sf_end (last before) \<ge> snd rng then Some (True, fl)
              else do {
                (new_frame, fl) \<leftarrow> stream_frame_new no_memory rng pkt data fl;
                (case new_frame of
                   None \<Rightarrow> Some (False, fl)
                 | Some sf \<Rightarrow> do {
                     (rest, fl) \<leftarrow> drop_covered (snd rng) rest fl;
                     if rest \<noteq> [] \<and> before \<noteq> [] \<and> sf_start (hd rest) \<le> sf_end (last before)
                     then do { fl \<leftarrow> stream_frame_free sf fl; Some (True, fl\<lparr>fl_frames := before @ rest\<rparr>) }
                     else Some (True, fl\<lparr>fl_frames := before @ sf # rest, fl_num_frames := u64_add (fl_num_frames fl) 1\<rparr>) }) })"

definition ossl_sframe_list_insert ::
  "bool \<Rightarrow> nat \<times> nat \<Rightarrow> nat option \<Rightarrow> u8 list option \<Rightarrow> bool \<Rightarrow> SFRAME_LIST \<Rightarrow> (bool \<times> SFRAME_LIST) option" where
  "ossl_sframe_list_insert no_memory rng pkt data fin fl =
     (let curr_end = (if fl_frames fl \<noteq> [] then sf_end (last (fl_frames fl)) else fl_offset fl)
      in if \<not> ((\<not> fin \<or> curr_end \<le> snd rng) \<and> (\<not> fl_fin fl \<or> curr_end \<ge> snd rng)) then None
         else do {
           (ok, fl) \<leftarrow> sf_insert_frames no_memory rng pkt data fl;
           Some (ok, if ok then fl\<lparr>fl_fin := (fin \<or> fl_fin fl)\<rparr> else fl) })"

text \<open>
  An iterator is the index of the frame it points to, \<open>None\<close> for the null pointer.  The results are the return value,
  the range, the data, the final flag and the new iterator.
\<close>

definition ossl_sframe_list_peek ::
  "SFRAME_LIST \<Rightarrow> nat option \<Rightarrow> bool \<times> (nat \<times> nat) \<times> u8 list option \<times> bool \<times> nat option" where
  "ossl_sframe_list_peek fl iter =
     (let frames = fl_frames fl;
          (start, i) = (case iter of None \<Rightarrow> (fl_offset fl, 0) | Some j \<Rightarrow> (sf_end (frames ! j), j + 1))
      in if \<not> i < length frames \<or> sf_start (frames ! i) > start \<or> \<not> start < sf_end (frames ! i)
         then (False, (start, start), None, if \<not> i < length frames then fl_fin fl else False, None)
         else
           (True, (start, sf_end (frames ! i)),
            (case sf_data (frames ! i) of None \<Rightarrow> None | Some d \<Rightarrow> Some (drop (start - sf_start (frames ! i)) d)),
            if \<not> i + 1 < length frames then fl_fin fl else False, Some i))"

fun drop_read :: "nat \<Rightarrow> STREAM_FRAME list \<Rightarrow> SFRAME_LIST \<Rightarrow> (STREAM_FRAME list \<times> SFRAME_LIST) option" where
  "drop_read limit [] fl = Some ([], fl)"
| "drop_read limit (sf # sfs) fl =
     (if sf_end sf \<le> limit
      then do {
        fl \<leftarrow> stream_frame_free sf (fl\<lparr>fl_num_frames := u64_sub (fl_num_frames fl) 1\<rparr>);
        drop_read limit sfs fl }
      else Some (sf # sfs, fl))"

definition ossl_sframe_list_drop_frames :: "nat \<Rightarrow> SFRAME_LIST \<Rightarrow> (bool \<times> SFRAME_LIST) option" where
  "ossl_sframe_list_drop_frames limit fl =
     (if \<not> limit \<ge> fl_offset fl \<or> \<not> (fl_frames fl = [] \<or> limit \<le> sf_end (last (fl_frames fl)))
         \<or> \<not> (fl_frames fl \<noteq> [] \<or> limit = fl_offset fl)
      then Some (False, fl)
      else do {
        (frames, fl) \<leftarrow> drop_read limit (fl_frames fl) (fl\<lparr>fl_offset := limit\<rparr>);
        Some (True, fl\<lparr>fl_frames := frames, fl_head_locked := False\<rparr>) })"

definition ossl_sframe_list_lock_head ::
  "SFRAME_LIST \<Rightarrow> (bool \<times> ((nat \<times> nat) \<times> u8 list option \<times> bool) option) \<times> SFRAME_LIST" where
  "ossl_sframe_list_lock_head fl =
     (if fl_head_locked fl then ((False, None), fl)
      else
        let (ret, rng, data, fin, iter) = ossl_sframe_list_peek fl None
        in ((ret, Some (rng, data, fin)), if ret then fl\<lparr>fl_head_locked := True\<rparr> else fl))"

definition ossl_sframe_list_is_head_locked :: "SFRAME_LIST \<Rightarrow> bool" where
  "ossl_sframe_list_is_head_locked fl = fl_head_locked fl"

text \<open>
  One frame of the move: its data from \<open>limit\<close> on are written, and its packet is released.  The result of the callback
  comes first.
\<close>

definition move_frame ::
  "(nat \<Rightarrow> u8 list \<Rightarrow> 'r \<Rightarrow> (bool \<times> 'r) option) \<Rightarrow> nat \<Rightarrow> STREAM_FRAME \<Rightarrow> 'r \<Rightarrow> SFRAME_LIST
    \<Rightarrow> (bool \<times> STREAM_FRAME \<times> 'r \<times> SFRAME_LIST) option" where
  "move_frame write_at limit sf r fl =
     (case sf_data sf of
        None \<Rightarrow> Some (True, sf, r, fl)
      | Some data \<Rightarrow>
          let data = (if limit > sf_start sf then drop (u64_sub limit (sf_start sf)) data else data);
              len = u64_sub (sf_end sf) limit
          in if len > length data then None
             else do {
               (ok, r) \<leftarrow> write_at limit (take len data) r;
               if \<not> ok then Some (False, sf, r, fl)
               else do {
                 fl \<leftarrow> ossl_qrx_pkt_release (sf_pkt sf) fl;
                 Some (True, sf\<lparr>sf_data := None, sf_pkt := None\<rparr>, r, fl) } })"

text \<open>The frames done so far are in \<open>acc\<close>; the last of them is \<open>prev_frame\<close> when \<open>has_prev\<close>.\<close>

fun move_loop ::
  "(nat \<Rightarrow> u8 list \<Rightarrow> 'r \<Rightarrow> (bool \<times> 'r) option) \<Rightarrow> nat \<Rightarrow> STREAM_FRAME list \<Rightarrow> bool \<Rightarrow> STREAM_FRAME list \<Rightarrow> 'r
    \<Rightarrow> SFRAME_LIST \<Rightarrow> (bool \<times> 'r \<times> SFRAME_LIST) option" where
  "move_loop write_at limit acc has_prev [] r fl = Some (True, r, fl\<lparr>fl_frames := acc\<rparr>)"
| "move_loop write_at limit acc has_prev (sf # sfs) r fl =
     (let limit = (if limit < sf_start sf then sf_start sf else limit)
      in case move_frame write_at limit sf r fl of
           None \<Rightarrow> None
         | Some (ok, sf', r, fl) \<Rightarrow>
             if \<not> ok then Some (False, r, fl\<lparr>fl_frames := acc @ sf' # sfs\<rparr>)
             else if has_prev \<and> sf_end (last acc) \<ge> sf_start sf'
             then (case stream_frame_free sf' (fl\<lparr>fl_num_frames := u64_sub (fl_num_frames fl) 1\<rparr>) of
                     None \<Rightarrow> None
                   | Some fl \<Rightarrow>
                       move_loop write_at (sf_end sf') (butlast acc @ [(last acc)\<lparr>sf_end := sf_end sf'\<rparr>]) True sfs r fl)
             else move_loop write_at (sf_end sf') (acc @ [sf']) True sfs r fl)"

definition ossl_sframe_list_move_data ::
  "(nat \<Rightarrow> u8 list \<Rightarrow> 'r \<Rightarrow> (bool \<times> 'r) option) \<Rightarrow> 'r \<Rightarrow> SFRAME_LIST \<Rightarrow> (bool \<times> 'r \<times> SFRAME_LIST) option" where
  "ossl_sframe_list_move_data write_at r fl =
     (case fl_frames fl of
        [] \<Rightarrow> Some (True, r, fl)
      | sf # sfs \<Rightarrow>
          if fl_head_locked fl then move_loop write_at (fl_offset fl) [sf] False sfs r fl
          else move_loop write_at (fl_offset fl) [] False (sf # sfs) r fl)"

section \<open>The order of the frames\<close>

text \<open>The ends increase strictly; the starts may stay the same.\<close>

definition sf_sorted :: "STREAM_FRAME list \<Rightarrow> bool" where
  "sf_sorted = sorted_wrt (\<lambda>f g. sf_start f \<le> sf_start g \<and> sf_end f < sf_end g)"

lemma sf_sorted_simps [simp]:
  "sf_sorted []"
  "sf_sorted (f # fs) \<longleftrightarrow> (\<forall>g\<in>set fs. sf_start f \<le> sf_start g \<and> sf_end f < sf_end g) \<and> sf_sorted fs"
  "sf_sorted (fs @ gs) \<longleftrightarrow> sf_sorted fs \<and> sf_sorted gs
     \<and> (\<forall>f\<in>set fs. \<forall>g\<in>set gs. sf_start f \<le> sf_start g \<and> sf_end f < sf_end g)"
  by (simp_all add: sf_sorted_def sorted_wrt_append)

lemma sf_sorted_last:
  assumes "sf_sorted fs" "f \<in> set fs"
  shows "sf_start f \<le> sf_start (last fs)" "sf_end f \<le> sf_end (last fs)"
proof -
  have "fs \<noteq> []" using assms(2) by auto
  then obtain gs where "fs = gs @ [last fs]" using append_butlast_last_id by metis
  with assms have "f = last fs \<or> sf_start f \<le> sf_start (last fs) \<and> sf_end f < sf_end (last fs)"
    by (metis Un_iff empty_iff empty_set insert_iff list.simps(15) set_append sf_sorted_simps(3))
  then show "sf_start f \<le> sf_start (last fs)" "sf_end f \<le> sf_end (last fs)" by auto
qed

lemma sf_sorted_length:
  assumes "sf_sorted fs" "\<forall>f\<in>set fs. sf_end f < n"
  shows "length fs \<le> n"
proof -
  have "distinct (map sf_end fs)" using assms(1) by (induction fs) auto
  then have "length fs = card (set (map sf_end fs))" by (metis distinct_card length_map)
  also have "\<dots> \<le> card {..<n}" using assms(2) by (intro card_mono) auto
  finally show ?thesis by simp
qed

lemma takeWhile_start:
  assumes "sf_sorted fs" "f \<in> set (dropWhile (\<lambda>sf. sf_start sf < s) fs)"
  shows "s \<le> sf_start f"
  using assms by (induction fs) (auto split: if_splits)

lemma dropWhile_end:
  assumes "sf_sorted fs" "f \<in> set (dropWhile (\<lambda>sf. sf_end sf \<le> e) fs)"
  shows "e < sf_end f"
  using assms by (induction fs) (auto split: if_splits)

lemma sf_sorted_dropWhile [simp]: "sf_sorted fs \<Longrightarrow> sf_sorted (dropWhile P fs)"
  by (induction fs) auto

lemma sf_sorted_takeWhile_dropWhile:
  "sf_sorted fs \<Longrightarrow> sf_sorted (takeWhile P fs @ dropWhile Q (dropWhile P fs))"
  using takeWhile_dropWhile_id [of P fs]
  by (metis (no_types) sf_sorted_dropWhile sf_sorted_simps(3) set_dropWhileD)

section \<open>Reference counts\<close>

definition held :: "STREAM_FRAME list \<Rightarrow> nat \<Rightarrow> nat" where
  "held fs p = length (filter (\<lambda>f. sf_pkt f = Some p) fs)"

lemma held_simps [simp]:
  "held [] p = 0"
  "held (f # fs) p = (if sf_pkt f = Some p then 1 else 0) + held fs p"
  "held (fs @ gs) p = held fs p + held gs p"
  by (simp_all add: held_def)

lemma stream_frame_free_eq:
  assumes "\<And>p. sf_pkt sf = Some p \<Longrightarrow> 0 < pkt_refs fl p"
  shows "stream_frame_free sf fl = Some (fl\<lparr>pkt_refs := (\<lambda>p. pkt_refs fl p - held [sf] p)\<rparr>)"
  using assms by (cases "sf_pkt sf") (auto simp: stream_frame_free_def ossl_qrx_pkt_release_def fun_eq_iff)

lemma drop_read_eq: "drop_read limit fs = drop_covered limit fs"
proof (induction fs)
  case (Cons f fs)
  then show ?case by (intro ext) simp
qed (intro ext, simp)

lemma drop_covered_eq:
  assumes "\<And>p. held (takeWhile (\<lambda>sf. sf_end sf \<le> e) fs) p \<le> pkt_refs fl p"
    and "length (takeWhile (\<lambda>sf. sf_end sf \<le> e) fs) \<le> fl_num_frames fl" "fl_num_frames fl < U64"
  shows "drop_covered e fs fl = Some (dropWhile (\<lambda>sf. sf_end sf \<le> e) fs,
    fl\<lparr>fl_num_frames := fl_num_frames fl - length (takeWhile (\<lambda>sf. sf_end sf \<le> e) fs),
       pkt_refs := (\<lambda>p. pkt_refs fl p - held (takeWhile (\<lambda>sf. sf_end sf \<le> e) fs) p)\<rparr>)"
  using assms
proof (induction fs arbitrary: fl)
  case (Cons sf fs)
  show ?case
  proof (cases "sf_end sf \<le> e")
    case True
    let ?fl = "fl\<lparr>fl_num_frames := fl_num_frames fl - 1, pkt_refs := (\<lambda>p. pkt_refs fl p - held [sf] p)\<rparr>"
    have sub: "u64_sub (fl_num_frames fl) 1 = fl_num_frames fl - 1"
      using Cons.prems True by (simp add: u64_sub_exact)
    have "held (takeWhile (\<lambda>sf. sf_end sf \<le> e) fs) p \<le> pkt_refs ?fl p" for p
      using Cons.prems(1) [of p] True by auto
    moreover have "length (takeWhile (\<lambda>sf. sf_end sf \<le> e) fs) \<le> fl_num_frames ?fl" "fl_num_frames ?fl < U64"
      using Cons.prems(2,3) True by auto
    moreover have "0 < pkt_refs fl p" if "sf_pkt sf = Some p" for p
      using Cons.prems(1) [of p] True that by simp
    ultimately show ?thesis
      using Cons.IH [of ?fl] True stream_frame_free_eq [of sf "fl\<lparr>fl_num_frames := fl_num_frames fl - 1\<rparr>"]
      by (simp add: sub diff_diff_add fun_eq_iff)
  qed simp
qed simp

lemma free_frames_refs:
  assumes "\<And>p. held fs p \<le> pkt_refs fl p"
  shows "\<exists>fl'. free_frames fs fl = Some fl' \<and> (\<forall>p. pkt_refs fl' p = pkt_refs fl p - held fs p)"
  using assms
proof (induction fs arbitrary: fl)
  case (Cons f fs)
  let ?fl = "fl\<lparr>pkt_refs := (\<lambda>p. pkt_refs fl p - held [f] p)\<rparr>"
  have "stream_frame_free f fl = Some ?fl"
  proof (rule stream_frame_free_eq)
    fix p assume "sf_pkt f = Some p"
    then show "0 < pkt_refs fl p" using Cons.prems [of p] by simp
  qed
  moreover have "held fs p \<le> pkt_refs ?fl p" for p using Cons.prems [of p] by auto
  ultimately show ?case using Cons.IH [of ?fl] by auto
qed simp

section \<open>The invariant of the list\<close>

definition frame_ok :: "nat \<Rightarrow> STREAM_FRAME \<Rightarrow> bool" where
  "frame_ok offset f \<longleftrightarrow> sf_start f \<le> sf_end f \<and> offset < sf_end f \<and> sf_end f < 2 ^ 62
     \<and> (\<forall>d. sf_data f = Some d \<longrightarrow> length d = sf_end f - sf_start f)"

text \<open>\<open>ext p\<close> is the number of references to the packet \<open>p\<close> that are held elsewhere.\<close>

definition sf_wf :: "(nat \<Rightarrow> nat) \<Rightarrow> SFRAME_LIST \<Rightarrow> bool" where
  "sf_wf ext fl \<longleftrightarrow> sf_sorted (fl_frames fl) \<and> (\<forall>f\<in>set (fl_frames fl). frame_ok (fl_offset fl) f)
     \<and> fl_num_frames fl = length (fl_frames fl) \<and> fl_offset fl < 2 ^ 62
     \<and> (\<forall>p. pkt_refs fl p = ext p + held (fl_frames fl) p)"

text \<open>The offsets the frames cover, and where the data received so far end.\<close>

definition covered :: "STREAM_FRAME list \<Rightarrow> nat set" where
  "covered fs = (\<Union>f\<in>set fs. {sf_start f..<sf_end f})"

definition curr_end :: "SFRAME_LIST \<Rightarrow> nat" where
  "curr_end fl = (if fl_frames fl \<noteq> [] then sf_end (last (fl_frames fl)) else fl_offset fl)"

lemma covered_simps [simp]:
  "covered [] = {}" "covered (f # fs) = {sf_start f..<sf_end f} \<union> covered fs" "covered (fs @ gs) = covered fs \<union> covered gs"
  by (auto simp: covered_def)

lemma sf_wf_small:
  assumes "sf_wf ext fl"
  shows "length (fl_frames fl) \<le> 2 ^ 62"
  using assms sf_sorted_length [of "fl_frames fl" "2 ^ 62"] by (simp add: sf_wf_def frame_ok_def)

lemma sf_wf_last: "sf_wf ext fl \<Longrightarrow> fl_frames fl \<noteq> [] \<Longrightarrow> frame_ok (fl_offset fl) (last (fl_frames fl))"
  by (simp add: sf_wf_def)

lemma curr_end_less: "sf_wf ext fl \<Longrightarrow> curr_end fl < 2 ^ 62"
  using sf_wf_last [of ext fl] by (cases "fl_frames fl = []") (simp_all add: curr_end_def frame_ok_def sf_wf_def)

lemma covered_part: "f \<in> set fs \<Longrightarrow> sf_start f \<le> a \<Longrightarrow> b \<le> sf_end f \<Longrightarrow> {a..<b} \<subseteq> covered fs"
  by (force simp: covered_def)

lemma sf_eta: "\<lparr>sf_start = sf_start sf, sf_end = sf_end sf, sf_pkt = sf_pkt sf, sf_data = sf_data sf\<rparr> = (sf::STREAM_FRAME)"
  by simp

lemma stream_frame_new_eq:
  assumes "\<And>p. pkt = Some p \<Longrightarrow> 0 < pkt_refs fl p"
  shows "stream_frame_new no_memory (s, e) pkt data fl =
    (let sf = \<lparr>sf_start = s, sf_end = e, sf_pkt = pkt, sf_data = data\<rparr>
     in Some (if no_memory then (None, fl) else (Some sf, fl\<lparr>pkt_refs := (\<lambda>p. pkt_refs fl p + held [sf] p)\<rparr>)))"
  using assms by (cases pkt) (auto simp: stream_frame_new_def ossl_qrx_pkt_up_ref_def fun_eq_iff)

text \<open>
  What an insertion does: whatever the overlaps, the list covers the new range besides what it covered, its frames are
  old ones or the new one, and no reference is lost or leaked.
\<close>

definition inserts :: "(nat \<Rightarrow> nat) \<Rightarrow> SFRAME_LIST \<Rightarrow> STREAM_FRAME \<Rightarrow> SFRAME_LIST \<Rightarrow> bool" where
  "inserts ext fl sf fl' \<longleftrightarrow> sf_wf ext fl' \<and> set (fl_frames fl') \<subseteq> insert sf (set (fl_frames fl))
     \<and> covered (fl_frames fl') \<inter> {fl_offset fl..} = (covered (fl_frames fl) \<union> {sf_start sf..<sf_end sf}) \<inter> {fl_offset fl..}
     \<and> curr_end fl' = max (curr_end fl) (sf_end sf) \<and> fl_offset fl' = fl_offset fl \<and> fl_fin fl' = fl_fin fl
     \<and> fl_head_locked fl' = fl_head_locked fl \<and> fl_cleanse fl' = fl_cleanse fl"

lemma inserts_redundant:
  assumes "sf_wf ext fl" "{sf_start sf..<sf_end sf} \<inter> {fl_offset fl..} \<subseteq> covered (fl_frames fl)" "sf_end sf \<le> curr_end fl"
  shows "inserts ext fl sf fl"
  using assms by (auto simp: inserts_def)

lemma append_frame_inserts:
  assumes wf: "sf_wf ext fl" and sf: "frame_ok (fl_offset fl) sf" and pkt: "\<And>p. sf_pkt sf = Some p \<Longrightarrow> 0 < pkt_refs fl p"
    and last: "fl_frames fl \<noteq> [] \<Longrightarrow> sf_start (last (fl_frames fl)) < sf_start sf \<and> sf_end (last (fl_frames fl)) < sf_end sf"
  shows "\<exists>fl'. append_frame False (sf_start sf, sf_end sf) (sf_pkt sf) (sf_data sf) fl = Some (True, fl') \<and> inserts ext fl sf fl'"
proof -
  have "sf_start f \<le> sf_start sf \<and> sf_end f < sf_end sf" if f: "f \<in> set (fl_frames fl)" for f
  proof -
    have "fl_frames fl \<noteq> []" using f by auto
    with last wf sf_sorted_last [of "fl_frames fl" f] f show ?thesis by (fastforce simp: sf_wf_def)
  qed
  then have "sf_sorted (fl_frames fl @ [sf])" using wf by (simp add: sf_wf_def)
  moreover have "u64_add (fl_num_frames fl) 1 = fl_num_frames fl + 1"
    using sf_wf_small [OF wf] wf by (simp add: sf_wf_def u64_add_exact)
  moreover have "curr_end fl \<le> sf_end sf" using last sf by (auto simp: curr_end_def frame_ok_def)
  ultimately have "inserts ext fl sf (fl\<lparr>pkt_refs := (\<lambda>p. pkt_refs fl p + held [sf] p), fl_frames := fl_frames fl @ [sf],
         fl_num_frames := u64_add (fl_num_frames fl) 1\<rparr>)"
    using wf sf by (auto simp: inserts_def sf_wf_def curr_end_def)
  then show ?thesis by (simp add: append_frame_def stream_frame_new_eq [OF pkt] sf_eta)
qed

text \<open>The search and the loop in the middle of the list.\<close>

lemma insert_middle:
  fixes fl sf
  defines "before \<equiv> takeWhile (\<lambda>f. sf_start f < sf_start sf) (fl_frames fl)"
    and "rest \<equiv> dropWhile (\<lambda>f. sf_start f < sf_start sf) (fl_frames fl)"
  defines "gone \<equiv> takeWhile (\<lambda>f. sf_end f \<le> sf_end sf) rest"
    and "after \<equiv> dropWhile (\<lambda>f. sf_end f \<le> sf_end sf) rest"
  assumes wf: "sf_wf ext fl" and sf: "frame_ok (fl_offset fl) sf"
    and prev: "before \<noteq> [] \<Longrightarrow> sf_end (last before) < sf_end sf" and rest: "rest \<noteq> []"
  shows "sf_sorted (before @ sf # after)" "sf_sorted (before @ after)"
    "covered (before @ sf # after) = covered (fl_frames fl) \<union> {sf_start sf..<sf_end sf}"
    "after \<noteq> [] \<Longrightarrow> before \<noteq> [] \<Longrightarrow> sf_start (hd after) \<le> sf_end (last before)
       \<Longrightarrow> covered (before @ after) = covered (fl_frames fl) \<union> {sf_start sf..<sf_end sf}"
    "fl_frames fl = before @ gone @ after"
    "after \<noteq> [] \<Longrightarrow> last after = last (fl_frames fl) \<and> sf_end sf < sf_end (last after)"
    "after = [] \<Longrightarrow> sf_end (last (fl_frames fl)) \<le> sf_end sf"
proof -
  show split: "fl_frames fl = before @ gone @ after"
    by (simp add: before_def gone_def after_def rest_def)
  have sorted: "sf_sorted (before @ gone @ after)" using wf split by (simp add: sf_wf_def)
  have b: "sf_start f < sf_start sf" "sf_end f < sf_end sf" if "f \<in> set before" for f
  proof -
    have "sf_end f \<le> sf_end (last before)" using sf_sorted_last [of before f] sorted that by simp
    then show "sf_end f < sf_end sf" using prev that by fastforce
    show "sf_start f < sf_start sf" using that set_takeWhileD by (fastforce simp: before_def)
  qed
  have r: "sf_start sf \<le> sf_start f" if "f \<in> set gone \<union> set after" for f
    using takeWhile_start [of "fl_frames fl" f "sf_start sf"] wf that
    by (auto simp: gone_def after_def rest_def sf_wf_def dest: set_takeWhileD set_dropWhileD)
  have g: "sf_end f \<le> sf_end sf" if "f \<in> set gone" for f
    using that set_takeWhileD by (fastforce simp: gone_def)
  have a: "sf_end sf < sf_end f" if "f \<in> set after" for f
    using dropWhile_end [of rest f "sf_end sf"] wf that by (simp add: after_def rest_def sf_wf_def)
  show "sf_sorted (before @ sf # after)" "sf_sorted (before @ after)"
    using sorted b r a by (auto simp: less_imp_le)
  have gone_in: "covered gone \<subseteq> {sf_start sf..<sf_end sf}" using r g by (fastforce simp: covered_def)
  then show cov: "covered (before @ sf # after) = covered (fl_frames fl) \<union> {sf_start sf..<sf_end sf}"
    by (auto simp: split)
  show "covered (before @ after) = covered (fl_frames fl) \<union> {sf_start sf..<sf_end sf}"
    if "after \<noteq> []" "before \<noteq> []" "sf_start (hd after) \<le> sf_end (last before)"
  proof -
    have "last before \<in> set before" "hd after \<in> set after" using that by simp_all
    with that b a have "{sf_start sf..<sf_end sf} \<subseteq> {sf_start (last before)..<sf_end (last before)} \<union> {sf_start (hd after)..<sf_end (hd after)}"
      by fastforce
    also have "\<dots> \<subseteq> covered (before @ after)"
      using \<open>last before \<in> set before\<close> \<open>hd after \<in> set after\<close> by (auto simp: covered_def)
    finally show ?thesis using gone_in by (auto simp: split)
  qed
  show "last after = last (fl_frames fl) \<and> sf_end sf < sf_end (last after)" if "after \<noteq> []"
    using that a [of "last after"] by (simp add: split)
  show "sf_end (last (fl_frames fl)) \<le> sf_end sf" if "after = []"
  proof -
    have "rest = gone @ after" by (simp add: gone_def after_def)
    with rest that have "last (fl_frames fl) \<in> set gone" using that split by simp
    then show ?thesis using g by blast
  qed
qed

lemma sf_insert_frames_inserts:
  assumes wf: "sf_wf ext fl" and se: "s \<le> e" "e < 2 ^ 62" and data: "\<And>d. data = Some d \<Longrightarrow> length d = e - s"
    and pkt: "\<And>p. pkt = Some p \<Longrightarrow> 0 < pkt_refs fl p"
  defines "sf \<equiv> \<lparr>sf_start = s, sf_end = e, sf_pkt = pkt, sf_data = data\<rparr>"
  shows "\<exists>fl'. sf_insert_frames False (s, e) pkt data fl = Some (True, fl') \<and> inserts ext fl sf fl'"
proof -
  have sel [simp]: "sf_start sf = s" "sf_end sf = e" "sf_pkt sf = pkt" "sf_data sf = data" by (simp_all add: sf_def)
  let ?frames = "fl_frames fl"
  define before rest where "before = takeWhile (\<lambda>sf. sf_start sf < s) ?frames" and "rest = dropWhile (\<lambda>sf. sf_start sf < s) ?frames"
  have sorted: "sf_sorted ?frames" using wf by (simp add: sf_wf_def)
  consider (old) "e \<le> fl_offset fl"
    | (append) "fl_offset fl < e" "?frames = [] \<or> sf_start (last ?frames) < s"
    | (middle) "fl_offset fl < e" "?frames \<noteq> []" "s \<le> sf_start (last ?frames)" by linarith
  then show ?thesis
  proof cases
    case old
    moreover have "e \<le> curr_end fl"
      using old sf_wf_last [OF wf] by (auto simp: curr_end_def frame_ok_def)
    ultimately show ?thesis using wf by (auto simp: sf_insert_frames_def intro!: inserts_redundant)
  next
    case append
    have ok: "frame_ok (fl_offset fl) sf" using append se data by (auto simp: frame_ok_def)
    show ?thesis
    proof (cases "?frames \<noteq> [] \<and> e \<le> sf_end (last ?frames)")
      case True
      then have "{s..<e} \<subseteq> covered ?frames" using append(2) by (intro covered_part [of "last ?frames"]) auto
      moreover have "e \<le> curr_end fl" using True by (simp add: curr_end_def)
      ultimately show ?thesis using True append wf by (auto simp: sf_insert_frames_def intro!: inserts_redundant)
    next
      case False
      with append_frame_inserts [OF wf ok] pkt append show ?thesis by (auto simp: sf_insert_frames_def)
    qed
  next
    case middle
    have ok: "frame_ok (fl_offset fl) sf" using middle se data by (auto simp: frame_ok_def)
    have rest: "rest \<noteq> []" using middle by (auto simp: rest_def dropWhile_eq_Nil_conv not_less dest: last_in_set)
    show ?thesis
    proof (cases "before \<noteq> [] \<and> e \<le> sf_end (last before)")
      case True
      then have "last before \<in> set before" by simp
      then have lb: "last before \<in> set ?frames" "sf_start (last before) < s"
        using set_takeWhileD [of "last before"] unfolding before_def by blast+
      have "{s..<e} \<subseteq> covered ?frames" using lb True by (intro covered_part [of "last before"]) auto
      moreover have "e \<le> curr_end fl"
        using True middle(2) sf_sorted_last(2) [OF sorted lb(1)] by (simp add: curr_end_def)
      ultimately show ?thesis
        using True middle wf rest unfolding sf_insert_frames_def Let_def fst_conv snd_conv before_def rest_def
        by (auto intro!: inserts_redundant)
    next
      case False
      then have prev: "before \<noteq> [] \<Longrightarrow> sf_end (last before) < e" by auto
      define gone after where "gone = takeWhile (\<lambda>f. sf_end f \<le> e) rest" and "after = dropWhile (\<lambda>f. sf_end f \<le> e) rest"
      note m = insert_middle [OF wf ok, unfolded sel, folded before_def rest_def, folded gone_def after_def, OF prev rest]
      define red where "red \<longleftrightarrow> after \<noteq> [] \<and> before \<noteq> [] \<and> sf_start (hd after) \<le> sf_end (last before)"
      have refs: "pkt_refs fl p = ext p + held before p + held gone p + held after p" for p
        using wf m(5) by (simp add: sf_wf_def)
      have num: "fl_num_frames fl = length before + length gone + length after" "fl_num_frames fl \<le> 2 ^ 62"
        using wf m(5) sf_wf_small [OF wf] by (simp_all add: sf_wf_def)
      let ?fl = "fl\<lparr>pkt_refs := (\<lambda>p. ext p + held before p + held after p + held [sf] p),
          fl_num_frames := length before + length after\<rparr>"
      have "drop_covered e rest (fl\<lparr>pkt_refs := (\<lambda>p. pkt_refs fl p + held [sf] p)\<rparr>) = Some (after, ?fl)"
        using drop_covered_eq [of e rest "fl\<lparr>pkt_refs := (\<lambda>p. pkt_refs fl p + held [sf] p)\<rparr>", folded gone_def after_def]
          refs num by (simp add: fun_eq_iff)
      moreover have "stream_frame_free sf ?fl = Some (?fl\<lparr>pkt_refs := (\<lambda>p. ext p + held before p + held after p)\<rparr>)"
        using stream_frame_free_eq [of sf ?fl] by simp
      moreover have "u64_add (length before + length after) 1 = length before + length after + 1"
        using num by (simp add: u64_add_exact)
      ultimately have eq: "sf_insert_frames False (s, e) pkt data fl = Some (True,
          if red then fl\<lparr>pkt_refs := (\<lambda>p. ext p + held before p + held after p),
            fl_num_frames := length before + length after, fl_frames := before @ after\<rparr>
          else ?fl\<lparr>fl_frames := before @ sf # after, fl_num_frames := length before + length after + 1\<rparr>)"
        using middle False rest stream_frame_new_eq [of pkt fl False s e data, folded sf_def] pkt
        unfolding sf_insert_frames_def Let_def fst_conv snd_conv before_def [symmetric] rest_def [symmetric] red_def
        by auto
      have oks: "\<forall>f\<in>set before \<union> set after. frame_ok (fl_offset fl) f" "fl_offset fl < 2 ^ 62"
        using wf m(5) by (auto simp: sf_wf_def)
      have sub: "set before \<union> set after \<subseteq> set ?frames" using m(5) by auto
      show ?thesis
      proof (cases red)
        case True
        then have "curr_end fl = sf_end (last after)" "e < sf_end (last after)"
          using m(6) middle(2) by (auto simp: red_def curr_end_def)
        with True m(2,4) oks sub show ?thesis
          unfolding eq by (auto simp: red_def inserts_def sf_wf_def curr_end_def)
      next
        case F: False
        have "(if after = [] then e else sf_end (last after)) = max (curr_end fl) e"
          using m(6,7) middle(2) by (auto simp: curr_end_def)
        with F m(1,3) oks ok sub show ?thesis
          unfolding eq by (auto simp: inserts_def sf_wf_def curr_end_def)
      qed
    qed
  qed
qed

lemma sf_insert_frames_no_memory:
  assumes "sf_insert_frames True rng pkt data fl = Some (ok, fl')"
  shows "fl' = fl"
  using assms by (auto simp: sf_insert_frames_def append_frame_def stream_frame_new_def Let_def split: if_splits)

text \<open>The final flag is consistent when the caller has checked the final size.\<close>

definition fin_consistent :: "nat \<Rightarrow> bool \<Rightarrow> SFRAME_LIST \<Rightarrow> bool" where
  "fin_consistent e fin fl \<longleftrightarrow> (fin \<longrightarrow> curr_end fl \<le> e) \<and> (fl_fin fl \<longrightarrow> e \<le> curr_end fl)"

lemma sframe_list_insert_spec:
  assumes wf: "sf_wf ext fl" and se: "s \<le> e" "e < 2 ^ 62" and data: "\<And>d. data = Some d \<Longrightarrow> length d = e - s"
    and pkt: "\<And>p. pkt = Some p \<Longrightarrow> 0 < pkt_refs fl p" and fin: "fin_consistent e fin fl"
  obtains fl' where "ossl_sframe_list_insert False (s, e) pkt data fin fl = Some (True, fl'\<lparr>fl_fin := fin \<or> fl_fin fl\<rparr>)"
    "inserts ext fl \<lparr>sf_start = s, sf_end = e, sf_pkt = pkt, sf_data = data\<rparr> fl'"
proof -
  obtain fl' where fl': "sf_insert_frames False (s, e) pkt data fl = Some (True, fl')"
    "inserts ext fl \<lparr>sf_start = s, sf_end = e, sf_pkt = pkt, sf_data = data\<rparr> fl'"
    using sf_insert_frames_inserts [OF wf se data pkt] by blast
  moreover have "fl_fin fl' = fl_fin fl" using fl'(2) by (simp add: inserts_def)
  ultimately show thesis
    using that [of fl'] fin
    by (auto simp: ossl_sframe_list_insert_def fin_consistent_def curr_end_def Let_def)
qed

section \<open>Reading\<close>

text \<open>Where the contiguous data from \<open>start\<close> on end.\<close>

fun reach :: "nat \<Rightarrow> STREAM_FRAME list \<Rightarrow> nat" where
  "reach start [] = start"
| "reach start (f # fs) = (if sf_start f > start then start else reach (sf_end f) fs)"

lemma reach_covered:
  assumes "sf_sorted fs" "\<forall>f\<in>set fs. sf_start f \<le> sf_end f \<and> start < sf_end f"
  shows "start \<le> reach start fs \<and> {start..<reach start fs} \<subseteq> covered fs \<and> reach start fs \<notin> covered fs"
  using assms
proof (induction fs arbitrary: start)
  case (Cons f fs)
  show ?case
  proof (cases "sf_start f > start")
    case True
    with Cons.prems show ?thesis by (auto simp: covered_def)
  next
    case False
    have "\<forall>g\<in>set fs. sf_start g \<le> sf_end g \<and> sf_end f < sf_end g" using Cons.prems by auto
    with Cons.IH [of "sf_end f"] Cons.prems(1)
    have IH: "sf_end f \<le> reach (sf_end f) fs" "{sf_end f..<reach (sf_end f) fs} \<subseteq> covered fs" "reach (sf_end f) fs \<notin> covered fs"
      by auto
    have "{start..<reach (sf_end f) fs} \<subseteq> {sf_start f..<sf_end f} \<union> {sf_end f..<reach (sf_end f) fs}"
      using False by auto
    with IH False Cons.prems(2) show ?thesis by auto
  qed
qed simp

definition position :: "SFRAME_LIST \<Rightarrow> nat option \<Rightarrow> nat \<times> nat" where
  "position fl iter = (case iter of None \<Rightarrow> (fl_offset fl, 0) | Some j \<Rightarrow> (sf_end (fl_frames fl ! j), j + 1))"

lemma sframe_list_peek_end:
  assumes "position fl iter = (start, i)" "drop i (fl_frames fl) = []"
  shows "ossl_sframe_list_peek fl iter = (False, (start, start), None, fl_fin fl, None)"
  using assms by (auto simp: ossl_sframe_list_peek_def position_def split: option.splits)

lemma sframe_list_peek_gap:
  assumes "position fl iter = (start, i)" "drop i (fl_frames fl) = f # fs" "start < sf_start f"
  shows "ossl_sframe_list_peek fl iter = (False, (start, start), None, False, None)"
proof -
  have "i < length (fl_frames fl)" "fl_frames fl ! i = f"
    using assms(2) by (auto simp: nth_via_drop not_le [symmetric])
  then show ?thesis using assms by (auto simp: ossl_sframe_list_peek_def position_def split: option.splits)
qed

lemma sframe_list_peek_frame:
  assumes "position fl iter = (start, i)" "drop i (fl_frames fl) = f # fs" "sf_start f \<le> start" "start < sf_end f"
  shows "ossl_sframe_list_peek fl iter = (True, (start, sf_end f), map_option (drop (start - sf_start f)) (sf_data f),
      fs = [] \<and> fl_fin fl, Some i)"
    "position fl (Some i) = (sf_end f, i + 1)" "drop (i + 1) (fl_frames fl) = fs"
proof -
  have f: "i < length (fl_frames fl)" "fl_frames fl ! i = f"
    using assms(2) by (auto simp: nth_via_drop not_le [symmetric])
  have fs: "fs = drop (i + 1) (fl_frames fl)" using assms(2) by (metis Suc_eq_plus1 drop_Suc list.sel(3) tl_drop)
  then have "fs = [] \<longleftrightarrow> \<not> i + 1 < length (fl_frames fl)" by auto
  with f assms(1,3,4) show "ossl_sframe_list_peek fl iter = (True, (start, sf_end f),
      map_option (drop (start - sf_start f)) (sf_data f), fs = [] \<and> fl_fin fl, Some i)"
    by (auto simp: ossl_sframe_list_peek_def position_def Let_def map_option_case split: option.splits)
  show "position fl (Some i) = (sf_end f, i + 1)" by (simp add: position_def f)
  show "drop (i + 1) (fl_frames fl) = fs" by (simp add: fs)
qed

section \<open>Dropping what was read\<close>

lemma sframe_list_drop_frames_spec:
  assumes wf: "sf_wf ext fl" and limit: "fl_offset fl \<le> limit" "limit \<le> curr_end fl"
  obtains fl' where "ossl_sframe_list_drop_frames limit fl = Some (True, fl')" "sf_wf ext fl'"
    "fl_frames fl' = dropWhile (\<lambda>f. sf_end f \<le> limit) (fl_frames fl)" "fl_offset fl' = limit"
    "curr_end fl' = curr_end fl" "fl_fin fl' = fl_fin fl" "fl_cleanse fl' = fl_cleanse fl" "\<not> fl_head_locked fl'"
    "covered (fl_frames fl') \<inter> {limit..} = covered (fl_frames fl) \<inter> {limit..}"
proof -
  let ?gone = "takeWhile (\<lambda>f. sf_end f \<le> limit) (fl_frames fl)"
    and ?left = "dropWhile (\<lambda>f. sf_end f \<le> limit) (fl_frames fl)"
  have split: "fl_frames fl = ?gone @ ?left" by simp
  have refs: "pkt_refs fl p = ext p + held ?gone p + held ?left p" for p
    using wf held_simps(3) [of ?gone ?left p] by (simp add: sf_wf_def)
  have num: "fl_num_frames fl = length ?gone + length ?left" "fl_num_frames fl < U64"
    using wf sf_wf_small [OF wf] length_append [of ?gone ?left] by (simp_all add: sf_wf_def)
  let ?fl = "fl\<lparr>fl_offset := limit, fl_num_frames := length ?left, pkt_refs := (\<lambda>p. ext p + held ?left p),
     fl_frames := ?left, fl_head_locked := False\<rparr>"
  have "drop_read limit (fl_frames fl) (fl\<lparr>fl_offset := limit\<rparr>) = Some (?left,
      fl\<lparr>fl_offset := limit, fl_num_frames := length ?left, pkt_refs := (\<lambda>p. ext p + held ?left p)\<rparr>)"
    unfolding drop_read_eq using drop_covered_eq [of limit "fl_frames fl" "fl\<lparr>fl_offset := limit\<rparr>"] refs num
    by (simp add: fun_eq_iff)
  then have eq: "ossl_sframe_list_drop_frames limit fl = Some (True, ?fl)"
    using limit by (simp add: ossl_sframe_list_drop_frames_def curr_end_def split: if_splits)
  have left: "\<forall>f\<in>set ?left. limit < sf_end f" "set ?left \<subseteq> set (fl_frames fl)"
    using wf dropWhile_end by (auto simp: sf_wf_def dest: set_dropWhileD)
  have small: "limit < 2 ^ 62" using limit curr_end_less [OF wf] by linarith
  have "curr_end ?fl = curr_end fl"
  proof (cases "?left = []")
    case True
    then have "\<forall>f\<in>set (fl_frames fl). sf_end f \<le> limit" by (simp add: dropWhile_eq_Nil_conv)
    then have "curr_end fl \<le> limit" using limit(1) by (simp add: curr_end_def)
    with limit True show ?thesis by (simp add: curr_end_def)
  next
    case False
    then have "last ?left = last (fl_frames fl)" using last_appendR [of ?left ?gone] by simp
    moreover have "fl_frames fl \<noteq> []" using False by auto
    ultimately show ?thesis using False by (simp add: curr_end_def)
  qed
  moreover have "sf_end f \<le> limit" if "f \<in> set ?gone" for f using set_takeWhileD [OF that] by simp
  then have "covered ?gone \<subseteq> {..<limit}" by (fastforce simp: covered_def)
  then have "covered ?left \<inter> {limit..} = covered (fl_frames fl) \<inter> {limit..}"
    using covered_simps(3) [of ?gone ?left] by auto
  moreover have "sf_wf ext ?fl"
    using wf left small by (auto simp: sf_wf_def frame_ok_def)
  ultimately show thesis using that [OF eq] by simp
qed

section \<open>Moving the data to a buffer\<close>

text \<open>
  What the move relies on: a write that succeeds stores its bytes at their offsets and keeps every other byte the
  buffer holds; one that fails changes nothing.
\<close>

locale offset_writer =
  fixes write_at :: "nat \<Rightarrow> u8 list \<Rightarrow> 'r \<Rightarrow> (bool \<times> 'r) option"
    and good :: "'r \<Rightarrow> bool"
    and byte_at :: "'r \<Rightarrow> nat \<Rightarrow> u8 option"
  assumes write_returns: "good r \<Longrightarrow> off + length bs < 2 ^ 62 \<Longrightarrow> \<exists>ok r'. write_at off bs r = Some (ok, r')"
    and write_good: "good r \<Longrightarrow> off + length bs < 2 ^ 62 \<Longrightarrow> write_at off bs r = Some (ok, r') \<Longrightarrow> good r'"
    and write_fails: "good r \<Longrightarrow> off + length bs < 2 ^ 62 \<Longrightarrow> write_at off bs r = Some (False, r') \<Longrightarrow> r' = r"
    and write_stores: "good r \<Longrightarrow> off + length bs < 2 ^ 62 \<Longrightarrow> write_at off bs r = Some (True, r')
      \<Longrightarrow> off \<le> x \<Longrightarrow> x < off + length bs \<Longrightarrow> byte_at r' x = Some (bs ! (x - off))"
    and write_keeps: "good r \<Longrightarrow> off + length bs < 2 ^ 62 \<Longrightarrow> write_at off bs r = Some (True, r')
      \<Longrightarrow> \<not> (off \<le> x \<and> x < off + length bs) \<Longrightarrow> byte_at r x = Some b \<Longrightarrow> byte_at r' x = Some b"
begin

text \<open>The data of a frame are those of the stream: in its packet, or, once moved, in the buffer.\<close>

definition carries :: "(nat \<Rightarrow> u8) \<Rightarrow> nat \<Rightarrow> 'r \<Rightarrow> STREAM_FRAME \<Rightarrow> bool" where
  "carries content offset r f \<longleftrightarrow>
     (case sf_data f of
        Some d \<Rightarrow> d = map content [sf_start f..<sf_end f]
      | None \<Rightarrow> \<forall>x. max offset (sf_start f) \<le> x \<and> x < sf_end f \<longrightarrow> byte_at r x = Some (content x))"

lemma carries_mono:
  assumes "carries content offset r f" "\<And>x. byte_at r x = Some (content x) \<Longrightarrow> byte_at r' x = Some (content x)"
  shows "carries content offset r' f"
  using assms by (auto simp: carries_def split: option.splits)

lemma carries_offset: "carries content offset r f \<Longrightarrow> offset \<le> offset' \<Longrightarrow> carries content offset' r f"
  by (auto simp: carries_def split: option.splits)

lemma write_content:
  assumes good: "good r" and e: "limit \<le> e" "e < 2 ^ 62" and w: "write_at limit (map content [limit..<e]) r = Some (ok, r')"
  shows "good r' \<and> (\<forall>x. byte_at r x = Some (content x) \<longrightarrow> byte_at r' x = Some (content x))
    \<and> (if ok then \<forall>x. limit \<le> x \<and> x < e \<longrightarrow> byte_at r' x = Some (content x) else r' = r)"
proof -
  let ?bs = "map content [limit..<e]"
  have len: "limit + length ?bs < 2 ^ 62" "limit + length ?bs = e" using e by simp_all
  show ?thesis
  proof (cases ok)
    case True
    have st: "byte_at r' x = Some (content x)" if "limit \<le> x" "x < e" for x
      using write_stores [OF good len(1), of r' x] w True that len(2) by simp
    have "byte_at r' x = Some (content x)" if "byte_at r x = Some (content x)" for x
      using st [of x] write_keeps [OF good len(1), of r' x] w True that len(2) by (cases "limit \<le> x \<and> x < e") auto
    with st True write_good [OF good len(1) w] show ?thesis by simp
  next
    case False
    then show ?thesis using write_good [OF good len(1) w] write_fails [OF good len(1), of r'] w by simp
  qed
qed

lemma move_frame_spec:
  assumes good: "good r" and ok: "frame_ok offset sf" and c: "carries content offset r sf"
    and limit: "max offset (sf_start sf) \<le> limit" "limit \<le> sf_end sf"
    and prior: "\<And>x. max offset (sf_start sf) \<le> x \<Longrightarrow> x < limit \<Longrightarrow> byte_at r x = Some (content x)"
    and refs: "\<And>p. sf_pkt sf = Some p \<Longrightarrow> 0 < pkt_refs fl p"
  obtains moved sf' r' where
    "move_frame write_at limit sf r fl = Some (moved, sf', r', fl\<lparr>pkt_refs := (\<lambda>p. pkt_refs fl p + held [sf'] p - held [sf] p)\<rparr>)"
    "good r'" "\<forall>x. byte_at r x = Some (content x) \<longrightarrow> byte_at r' x = Some (content x)"
    "sf_start sf' = sf_start sf" "sf_end sf' = sf_end sf" "carries content offset r' sf'" "frame_ok offset sf'"
    "moved \<longrightarrow> sf_data sf' = None" "\<forall>p. held [sf'] p \<le> held [sf] p"
proof (cases "sf_data sf")
  case None
  then show thesis using that [of True sf r] good c ok by (simp add: move_frame_def)
next
  case (Some d)
  have d: "d = map content [sf_start sf..<sf_end sf]" using c Some by (simp add: carries_def)
  define bs where "bs = map content [limit..<sf_end sf]"
  have u: "u64_sub limit (sf_start sf) = limit - sf_start sf" "u64_sub (sf_end sf) limit = sf_end sf - limit"
    using limit ok by (simp_all add: frame_ok_def u64_sub_exact)
  define d' where "d' = (if limit > sf_start sf then drop (limit - sf_start sf) d else d)"
  have d': "d' = bs" "length bs = sf_end sf - limit" using limit by (auto simp: d'_def d bs_def drop_map)
  have small: "sf_end sf < 2 ^ 62" using ok by (simp add: frame_ok_def)
  obtain moved r' where w: "write_at limit bs r = Some (moved, r')"
    using write_returns [OF good, of limit bs] d'(2) limit small by auto
  note wc = write_content [OF good limit(2) small, of content, folded bs_def, OF w]
  let ?sf = "sf\<lparr>sf_data := None, sf_pkt := None\<rparr>"
  have eq: "move_frame write_at limit sf r fl = (if \<not> moved then Some (False, sf, r', fl)
      else Some (True, ?sf, r', fl\<lparr>pkt_refs := (\<lambda>p. pkt_refs fl p - held [sf] p)\<rparr>))"
    unfolding move_frame_def Some option.case Let_def u d'_def [symmetric] d'(1)
    using w d'(2) stream_frame_free_eq [of sf fl] refs by (simp add: stream_frame_free_def)
  show thesis
  proof (cases moved)
    case False
    with eq wc that [of False sf r'] c ok good show thesis by simp
  next
    case True
    have "carries content offset r' ?sf"
      using wc True prior by (auto simp: carries_def not_less [symmetric])
    with True eq wc that [of True ?sf r'] ok show thesis by (simp add: frame_ok_def)
  qed
qed

lemma merge_frames:
  assumes "sf_sorted (acc @ [a] @ sf # sfs)" "frame_ok offset a" "frame_ok offset sf" "sf_start sf \<le> sf_end a"
    and data: "sf_data a = None" "sf_data sf = None" and "carries content offset r a" "carries content offset r sf"
  defines "m \<equiv> a\<lparr>sf_end := sf_end sf\<rparr>"
  shows "sf_sorted (acc @ [m] @ sfs)" "frame_ok offset m" "carries content offset r m"
    "covered (acc @ [m] @ sfs) = covered (acc @ [a] @ sf # sfs)"
proof -
  show "sf_sorted (acc @ [m] @ sfs)" using assms(1) by (fastforce simp: m_def)
  show "frame_ok offset m" using assms(1-4) data by (auto simp: frame_ok_def m_def)
  have "byte_at r x = Some (content x)" if "max offset (sf_start a) \<le> x" "x < sf_end sf" for x
    using assms(4,7,8) data that by (cases "x < sf_end a") (auto simp: carries_def)
  then show "carries content offset r m" using data by (simp add: carries_def m_def)
  have "{sf_start a..<sf_end sf} = {sf_start a..<sf_end a} \<union> {sf_start sf..<sf_end sf}"
    using assms(1,4) by auto
  then show "covered (acc @ [m] @ sfs) = covered (acc @ [a] @ sf # sfs)" by (auto simp: m_def)
qed

text \<open>What a move changes: nothing of what the list covers, only where the data are.\<close>

definition moves :: "(nat \<Rightarrow> nat) \<Rightarrow> (nat \<Rightarrow> u8) \<Rightarrow> STREAM_FRAME list \<Rightarrow> 'r \<Rightarrow> SFRAME_LIST \<Rightarrow> 'r \<Rightarrow> SFRAME_LIST \<Rightarrow> bool" where
  "moves ext content frames r fl r' fl' \<longleftrightarrow> good r' \<and> sf_wf ext fl'
     \<and> (\<forall>x. byte_at r x = Some (content x) \<longrightarrow> byte_at r' x = Some (content x))
     \<and> (\<forall>f\<in>set (fl_frames fl'). carries content (fl_offset fl) r' f)
     \<and> covered (fl_frames fl') = covered frames \<and> (fl_frames fl' = [] \<longleftrightarrow> frames = [])
     \<and> (frames \<noteq> [] \<longrightarrow> sf_end (last (fl_frames fl')) = sf_end (last frames))
     \<and> fl_offset fl' = fl_offset fl \<and> fl_fin fl' = fl_fin fl \<and> fl_head_locked fl' = fl_head_locked fl
     \<and> fl_cleanse fl' = fl_cleanse fl"

definition move_state ::
  "(nat \<Rightarrow> nat) \<Rightarrow> (nat \<Rightarrow> u8) \<Rightarrow> nat \<Rightarrow> STREAM_FRAME list \<Rightarrow> bool \<Rightarrow> STREAM_FRAME list \<Rightarrow> 'r \<Rightarrow> SFRAME_LIST \<Rightarrow> bool" where
  "move_state ext content limit acc has_prev sfs r fl \<longleftrightarrow> good r \<and> sf_sorted (acc @ sfs)
     \<and> (\<forall>f\<in>set (acc @ sfs). frame_ok (fl_offset fl) f \<and> carries content (fl_offset fl) r f)
     \<and> fl_num_frames fl = length (acc @ sfs) \<and> fl_offset fl < 2 ^ 62 \<and> (\<forall>p. pkt_refs fl p = ext p + held (acc @ sfs) p)
     \<and> (if has_prev then acc \<noteq> [] \<and> limit = sf_end (last acc) \<and> sf_data (last acc) = None else limit = fl_offset fl)"

lemma move_state_step:
  assumes st: "move_state ext content limit acc has_prev (sf # sfs) r fl"
  defines "limit' \<equiv> (if limit < sf_start sf then sf_start sf else limit)"
  obtains moved sf' r' fl' where "move_frame write_at limit' sf r fl = Some (moved, sf', r', fl')"
    "\<forall>x. byte_at r x = Some (content x) \<longrightarrow> byte_at r' x = Some (content x)"
    "sf_start sf' = sf_start sf" "sf_end sf' = sf_end sf" "moved \<longrightarrow> sf_data sf' = None"
    "good r'" "sf_sorted (acc @ sf' # sfs)"
    "\<forall>f\<in>set (acc @ sf' # sfs). frame_ok (fl_offset fl) f \<and> carries content (fl_offset fl) r' f"
    "fl' = fl\<lparr>pkt_refs := (\<lambda>p. ext p + held (acc @ sf' # sfs) p)\<rparr>"
proof -
  let ?off = "fl_offset fl"
  have sf: "frame_ok ?off sf" "carries content ?off r sf" and good: "good r"
    and all: "\<And>f. f \<in> set (acc @ sf # sfs) \<Longrightarrow> frame_ok ?off f \<and> carries content ?off r f"
    using st by (auto simp: move_state_def)
  have prev: "last acc \<in> set acc" "sf_start (last acc) \<le> sf_start sf" "sf_end (last acc) < sf_end sf"
      "limit = sf_end (last acc)" "sf_data (last acc) = None" "carries content ?off r (last acc)" "?off < sf_end (last acc)" if has_prev
    using st that by (auto simp: move_state_def frame_ok_def)
  have noprev: "limit = ?off" if "\<not> has_prev" using st that by (simp add: move_state_def)
  have end': "sf_start sf \<le> sf_end sf" "?off < sf_end sf" using sf(1) by (simp_all add: frame_ok_def)
  have limit: "max ?off (sf_start sf) \<le> limit'" "limit' \<le> sf_end sf"
    using prev(3,4,7) noprev end' by (cases has_prev; simp add: limit'_def)+
  have prior: "byte_at r x = Some (content x)" if "max ?off (sf_start sf) \<le> x" "x < limit'" for x
  proof -
    have x: "?off \<le> x" "sf_start sf \<le> x" "x < limit" using that by (auto simp: limit'_def split: if_splits)
    then have has_prev using noprev by fastforce
    note prev = prev [OF this]
    have "max ?off (sf_start (last acc)) \<le> x" "x < sf_end (last acc)" using x prev(2,4) by simp_all
    then show ?thesis using prev(5,6) by (simp add: carries_def)
  qed
  have refs: "0 < pkt_refs fl p" if "sf_pkt sf = Some p" for p using st that by (simp add: move_state_def)
  obtain moved sf' r' where m: "move_frame write_at limit' sf r fl =
      Some (moved, sf', r', fl\<lparr>pkt_refs := (\<lambda>p. pkt_refs fl p + held [sf'] p - held [sf] p)\<rparr>)"
    "good r'" "\<forall>x. byte_at r x = Some (content x) \<longrightarrow> byte_at r' x = Some (content x)"
    "sf_start sf' = sf_start sf" "sf_end sf' = sf_end sf" "carries content ?off r' sf'" "frame_ok ?off sf'"
    "moved \<longrightarrow> sf_data sf' = None" "\<forall>p. held [sf'] p \<le> held [sf] p"
    by (rule move_frame_spec [OF good sf limit prior refs])
  have "(\<lambda>p. pkt_refs fl p + held [sf'] p - held [sf] p) = (\<lambda>p. ext p + held (acc @ sf' # sfs) p)"
    using st by (intro ext) (simp add: move_state_def)
  moreover have "carries content ?off r' f" if "f \<in> set (acc @ sf # sfs)" for f
    using carries_mono [of content ?off r f r'] all [OF that] m(3) by blast
  then have "\<forall>f\<in>set (acc @ sf' # sfs). frame_ok ?off f \<and> carries content ?off r' f" using all m(6,7) by simp
  moreover have "sf_sorted (acc @ sf' # sfs)" using st m(4,5) by (simp add: move_state_def)
  ultimately show thesis using that [OF m(1,3,4,5,8,2)] by simp
qed

lemma move_loop_moves:
  assumes "move_state ext content limit acc has_prev sfs r fl"
  shows "\<exists>ok r' fl'. move_loop write_at limit acc has_prev sfs r fl = Some (ok, r', fl')
    \<and> moves ext content (acc @ sfs) r fl r' fl'"
  using assms
proof (induction sfs arbitrary: limit acc has_prev r fl)
  case Nil
  then show ?case by (auto simp: move_state_def moves_def sf_wf_def)
next
  case (Cons sf sfs)
  define limit' where "limit' = (if limit < sf_start sf then sf_start sf else limit)"
  obtain moved sf' r' fl1 where m: "move_frame write_at limit' sf r fl = Some (moved, sf', r', fl1)"
    "\<forall>x. byte_at r x = Some (content x) \<longrightarrow> byte_at r' x = Some (content x)"
    "sf_start sf' = sf_start sf" "sf_end sf' = sf_end sf" "moved \<longrightarrow> sf_data sf' = None"
    "good r'" "sf_sorted (acc @ sf' # sfs)"
    "\<forall>f\<in>set (acc @ sf' # sfs). frame_ok (fl_offset fl) f \<and> carries content (fl_offset fl) r' f"
    "fl1 = fl\<lparr>pkt_refs := (\<lambda>p. ext p + held (acc @ sf' # sfs) p)\<rparr>"
    unfolding limit'_def by (rule move_state_step [OF Cons.prems])
  have num: "fl_num_frames fl = length acc + length sfs + 1" "fl_offset fl < 2 ^ 62"
    using Cons.prems by (simp_all add: move_state_def)
  have cov: "covered (acc @ sf' # sfs) = covered (acc @ sf # sfs)" "sf_end (last (acc @ sf' # sfs)) = sf_end (last (acc @ sf # sfs))"
    using m(3,4) by (simp_all add: last_append)
  consider (failed) "\<not> moved" | (merge) "moved" "has_prev" "sf_start sf' \<le> sf_end (last acc)"
    | (keep) "moved" "\<not> (has_prev \<and> sf_start sf' \<le> sf_end (last acc))" by blast
  then show ?case
  proof cases
    case failed
    have "moves ext content (acc @ sf # sfs) r fl r' (fl1\<lparr>fl_frames := acc @ sf' # sfs\<rparr>)"
      using m(2,6,7,8,9) num cov by (simp add: moves_def sf_wf_def)
    with failed m(1) show ?thesis by (auto simp: limit'_def [symmetric])
  next
    case merge
    define a g where "a = last acc" and "g = a\<lparr>sf_end := sf_end sf'\<rparr>"
    have "acc \<noteq> []" and a: "sf_data a = None" using Cons.prems merge(2) by (auto simp: move_state_def a_def)
    then have acc: "acc = butlast acc @ [a]" by (simp add: a_def)
    have aok: "frame_ok (fl_offset fl) a" "carries content (fl_offset fl) r' a" using m(8) \<open>acc \<noteq> []\<close> by (simp_all add: a_def)
    have fok: "frame_ok (fl_offset fl) sf'" "carries content (fl_offset fl) r' sf'" using m(8) by simp_all
    have "sf_sorted (butlast acc @ [a] @ sf' # sfs)" using m(7) by (subst (asm) acc) simp
    note g = merge_frames [OF this aok(1) fok(1) merge(3) [folded a_def] a mp [OF m(5) merge(1)] aok(2) fok(2), folded g_def]
    have held_acc: "held acc p = held (butlast acc) p + held [g] p" for p
      by (subst acc) (simp add: g_def)
    let ?fl = "fl\<lparr>fl_num_frames := length acc + length sfs, pkt_refs := (\<lambda>p. ext p + held (butlast acc @ [g] @ sfs) p)\<rparr>"
    have "u64_sub (fl_num_frames fl1) 1 = length acc + length sfs"
      using num sf_sorted_length [OF m(7), of "2 ^ 62"] m(8) by (simp add: m(9) frame_ok_def u64_sub_exact)
    then have free: "stream_frame_free sf' (fl1\<lparr>fl_num_frames := u64_sub (fl_num_frames fl1) 1\<rparr>) = Some ?fl"
      using stream_frame_free_eq [of sf' "fl1\<lparr>fl_num_frames := length acc + length sfs\<rparr>"]
      by (simp add: m(9) held_acc fun_eq_iff)
    have "length acc = length (butlast acc) + 1" by (subst acc) simp
    moreover have "\<forall>f\<in>set (butlast acc @ [g] @ sfs). frame_ok (fl_offset fl) f \<and> carries content (fl_offset fl) r' f"
      using m(8) g(2,3) by (auto dest: in_set_butlastD)
    ultimately have "move_state ext content (sf_end sf') (butlast acc @ [g]) True sfs r' ?fl"
      using m(6) g(1) a num by (simp add: move_state_def g_def)
    from Cons.IH [OF this] obtain ok r2 fl2 where
      loop: "move_loop write_at (sf_end sf') (butlast acc @ [g]) True sfs r' ?fl = Some (ok, r2, fl2)"
      "moves ext content ((butlast acc @ [g]) @ sfs) r' ?fl r2 fl2" by auto
    have "covered ((butlast acc @ [g]) @ sfs) = covered (acc @ sf # sfs)"
    proof -
      have "covered acc = covered (butlast acc) \<union> {sf_start a..<sf_end a}" by (subst acc) simp
      with g(4) cov(1) show ?thesis by (simp add: Un_assoc)
    qed
    moreover have "sf_end (last ((butlast acc @ [g]) @ sfs)) = sf_end (last (acc @ sf # sfs))"
      using m(4) by (simp add: g_def last_append)
    ultimately have "moves ext content (acc @ sf # sfs) r fl r2 fl2"
      using loop(2) m(2) by (auto simp: moves_def)
    with loop(1) free merge m(1) show ?thesis by (auto simp: limit'_def [symmetric] a_def g_def)
  next
    case keep
    have "move_state ext content (sf_end sf') (acc @ [sf']) True sfs r' fl1"
      using m(5-9) keep(1) num by (simp add: move_state_def)
    from Cons.IH [OF this] obtain ok r2 fl2 where
      "move_loop write_at (sf_end sf') (acc @ [sf']) True sfs r' fl1 = Some (ok, r2, fl2)"
      "moves ext content (acc @ sf' # sfs) r' fl1 r2 fl2" by auto
    moreover have "moves ext content (acc @ sf # sfs) r fl r2 fl2"
      using calculation(2) m(2,9) cov by (auto simp: moves_def)
    ultimately show ?thesis using keep m(1) by (auto simp: limit'_def [symmetric])
  qed
qed

lemma move_data_moves:
  assumes "good r" "sf_wf ext fl" "\<forall>f\<in>set (fl_frames fl). carries content (fl_offset fl) r f"
  shows "\<exists>ok r' fl'. ossl_sframe_list_move_data write_at r fl = Some (ok, r', fl')
    \<and> moves ext content (fl_frames fl) r fl r' fl'"
proof (cases "fl_frames fl")
  case Nil
  then show ?thesis using assms by (auto simp: ossl_sframe_list_move_data_def moves_def)
next
  case (Cons sf sfs)
  have "move_state ext content (fl_offset fl) [sf] False sfs r fl" "move_state ext content (fl_offset fl) [] False (sf # sfs) r fl"
    using assms Cons by (auto simp: move_state_def sf_wf_def)
  from move_loop_moves [OF this(1)] move_loop_moves [OF this(2)] show ?thesis
    using Cons by (simp add: ossl_sframe_list_move_data_def)
qed

end

end
