(* ===== verification/Quic_Fc.thy ===== *)
theory Quic_Fc
  imports Ossl_Time
begin

text \<open>
  The flow controllers of \<open>ssl/quic/quic_fc.c\<close>.

  The controllers of the streams point to the controller of their connection, which they share; so the state is a
  store from addresses to controllers, and every operation takes the address of the controller it is called on.
  \<open>None\<close> stands for an access through a pointer to no controller and for a failed \<open>assert\<close>.  The watermarks are
  \<open>uint64_t\<close> values.  The clock is the function \<open>now\<close>: its \<open>i\<close>-th call returns \<open>now i\<close>, and the state counts the calls.
\<close>

section \<open>The transmit side\<close>

record QUIC_TXFC =
  tx_parent :: "nat option"
  tx_swm :: nat
  tx_cwm :: nat
  tx_has_become_blocked :: bool

type_synonym txfcs = "nat \<rightharpoonup> QUIC_TXFC"

definition ossl_quic_txfc_init :: "nat \<Rightarrow> nat option \<Rightarrow> txfcs \<Rightarrow> (bool \<times> txfcs) option" where
  "ossl_quic_txfc_init txfc conn_txfc h = do {
     refuse \<leftarrow> (case conn_txfc of None \<Rightarrow> Some False | Some c \<Rightarrow> map_option (\<lambda>p. tx_parent p \<noteq> None) (h c));
     Some (if refuse then (False, h)
           else (True, h(txfc \<mapsto> \<lparr>tx_parent = conn_txfc, tx_swm = 0, tx_cwm = 0, tx_has_become_blocked = False\<rparr>))) }"

definition ossl_quic_txfc_get_parent :: "nat \<Rightarrow> txfcs \<Rightarrow> nat option option" where
  "ossl_quic_txfc_get_parent txfc h = map_option tx_parent (h txfc)"

definition ossl_quic_txfc_bump_cwm :: "nat \<Rightarrow> nat \<Rightarrow> txfcs \<Rightarrow> (bool \<times> txfcs) option" where
  "ossl_quic_txfc_bump_cwm txfc cwm h = do {
     t \<leftarrow> h txfc;
     Some (if cwm \<le> tx_cwm t then (False, h) else (True, h(txfc \<mapsto> t\<lparr>tx_cwm := cwm\<rparr>))) }"

definition ossl_quic_txfc_get_credit_local :: "nat \<Rightarrow> nat \<Rightarrow> txfcs \<Rightarrow> nat option" where
  "ossl_quic_txfc_get_credit_local txfc consumed h = do {
     t \<leftarrow> h txfc;
     if u64_add (tx_swm t) consumed \<le> tx_cwm t
     then Some (u64_sub (tx_cwm t) (u64_add consumed (tx_swm t))) else None }"

definition ossl_quic_txfc_get_credit :: "nat \<Rightarrow> nat \<Rightarrow> txfcs \<Rightarrow> nat option" where
  "ossl_quic_txfc_get_credit txfc consumed h = do {
     r \<leftarrow> ossl_quic_txfc_get_credit_local txfc 0 h;
     t \<leftarrow> h txfc;
     (case tx_parent t of
        None \<Rightarrow> Some r
      | Some c \<Rightarrow> do {
          p \<leftarrow> h c;
          conn_r \<leftarrow> (if tx_parent p = None then ossl_quic_txfc_get_credit_local c consumed h else None);
          Some (if conn_r < r then conn_r else r) }) }"

definition ossl_quic_txfc_consume_credit_local :: "nat \<Rightarrow> nat \<Rightarrow> txfcs \<Rightarrow> (bool \<times> txfcs) option" where
  "ossl_quic_txfc_consume_credit_local txfc num_bytes h = do {
     credit \<leftarrow> ossl_quic_txfc_get_credit_local txfc 0 h;
     t \<leftarrow> h txfc;
     let (ok, num_bytes) = (if num_bytes > credit then (False, credit) else (True, num_bytes));
         t = (if num_bytes > 0 \<and> num_bytes = credit then t\<lparr>tx_has_become_blocked := True\<rparr> else t)
     in Some (ok, h(txfc \<mapsto> t\<lparr>tx_swm := u64_add (tx_swm t) num_bytes\<rparr>)) }"

definition ossl_quic_txfc_consume_credit :: "nat \<Rightarrow> nat \<Rightarrow> txfcs \<Rightarrow> (bool \<times> txfcs) option" where
  "ossl_quic_txfc_consume_credit txfc num_bytes h = do {
     (ok, h) \<leftarrow> ossl_quic_txfc_consume_credit_local txfc num_bytes h;
     t \<leftarrow> h txfc;
     (case tx_parent t of
        None \<Rightarrow> Some (ok, h)
      | Some c \<Rightarrow> do {
          p \<leftarrow> h c;
          (conn_ok, h) \<leftarrow> (if tx_parent p = None then ossl_quic_txfc_consume_credit_local c num_bytes h else None);
          Some (if \<not> conn_ok then False else ok, h) }) }"

definition ossl_quic_txfc_has_become_blocked :: "nat \<Rightarrow> bool \<Rightarrow> txfcs \<Rightarrow> (bool \<times> txfcs) option" where
  "ossl_quic_txfc_has_become_blocked txfc clear h = do {
     t \<leftarrow> h txfc;
     Some (tx_has_become_blocked t, if clear then h(txfc \<mapsto> t\<lparr>tx_has_become_blocked := False\<rparr>) else h) }"

definition ossl_quic_txfc_get_cwm :: "nat \<Rightarrow> txfcs \<Rightarrow> nat option" where
  "ossl_quic_txfc_get_cwm txfc h = map_option tx_cwm (h txfc)"

definition ossl_quic_txfc_get_swm :: "nat \<Rightarrow> txfcs \<Rightarrow> nat option" where
  "ossl_quic_txfc_get_swm txfc h = map_option tx_swm (h txfc)"

section \<open>The receive side\<close>

abbreviation (input) OSSL_QUIC_ERR_NO_ERROR :: nat where "OSSL_QUIC_ERR_NO_ERROR \<equiv> 0x00"
abbreviation (input) OSSL_QUIC_ERR_FLOW_CONTROL_ERROR :: nat where "OSSL_QUIC_ERR_FLOW_CONTROL_ERROR \<equiv> 0x03"
abbreviation (input) OSSL_QUIC_ERR_FINAL_SIZE_ERROR :: nat where "OSSL_QUIC_ERR_FINAL_SIZE_ERROR \<equiv> 0x06"

record QUIC_RXFC =
  rx_cwm :: nat
  rx_swm :: nat
  rx_rwm :: nat
  rx_esrwm :: nat
  rx_hwm :: nat
  rx_cur_window_size :: nat
  rx_max_window_size :: nat
  rx_epoch_start :: ossl_time
  rx_parent :: "nat option"
  rx_error_code :: nat
  rx_has_cwm_changed :: bool
  rx_is_fin :: bool
  rx_standalone :: bool

record rxfcs =
  rx_at :: "nat \<rightharpoonup> QUIC_RXFC"
  rx_calls :: nat

definition ossl_quic_rxfc_init :: "nat \<Rightarrow> nat option \<Rightarrow> nat \<Rightarrow> nat \<Rightarrow> rxfcs \<Rightarrow> (bool \<times> rxfcs) option" where
  "ossl_quic_rxfc_init rxfc conn_rxfc initial_window_size max_window_size s = do {
     refuse \<leftarrow> (case conn_rxfc of None \<Rightarrow> Some False | Some c \<Rightarrow> map_option (\<lambda>p. rx_parent p \<noteq> None) (rx_at s c));
     Some (if refuse then (False, s)
           else (True, s\<lparr>rx_at := (rx_at s)(rxfc \<mapsto>
             \<lparr>rx_cwm = initial_window_size, rx_swm = 0, rx_rwm = 0, rx_esrwm = 0, rx_hwm = 0,
              rx_cur_window_size = initial_window_size, rx_max_window_size = max_window_size,
              rx_epoch_start = ossl_time_zero, rx_parent = conn_rxfc, rx_error_code = 0, rx_has_cwm_changed = False,
              rx_is_fin = False, rx_standalone = False\<rparr>)\<rparr>)) }"

definition ossl_quic_rxfc_init_standalone :: "nat \<Rightarrow> nat \<Rightarrow> rxfcs \<Rightarrow> (bool \<times> rxfcs) option" where
  "ossl_quic_rxfc_init_standalone rxfc initial_window_size s = do {
     (ok, s) \<leftarrow> ossl_quic_rxfc_init rxfc None initial_window_size initial_window_size s;
     if \<not> ok then Some (False, s)
     else do {
       r \<leftarrow> rx_at s rxfc;
       Some (True, s\<lparr>rx_at := (rx_at s)(rxfc \<mapsto> r\<lparr>rx_standalone := True\<rparr>)\<rparr>) } }"

definition ossl_quic_rxfc_get_parent :: "nat \<Rightarrow> rxfcs \<Rightarrow> nat option option" where
  "ossl_quic_rxfc_get_parent rxfc s = map_option rx_parent (rx_at s rxfc)"

text \<open>An update of one controller.\<close>

definition rx_update :: "nat \<Rightarrow> (QUIC_RXFC \<Rightarrow> QUIC_RXFC) \<Rightarrow> rxfcs \<Rightarrow> rxfcs option" where
  "rx_update rxfc f s = do { r \<leftarrow> rx_at s rxfc; Some (s\<lparr>rx_at := (rx_at s)(rxfc \<mapsto> f r)\<rparr>) }"

definition ossl_quic_rxfc_set_max_window_size :: "nat \<Rightarrow> nat \<Rightarrow> rxfcs \<Rightarrow> rxfcs option" where
  "ossl_quic_rxfc_set_max_window_size rxfc max_window_size = rx_update rxfc (\<lambda>r. r\<lparr>rx_max_window_size := max_window_size\<rparr>)"

text \<open>The functions on one controller that do not follow its parent pointer; \<open>t\<close> is what the clock returned.\<close>

definition rxfc_start_epoch :: "ossl_time \<Rightarrow> QUIC_RXFC \<Rightarrow> QUIC_RXFC" where
  "rxfc_start_epoch t r = r\<lparr>rx_epoch_start := t, rx_esrwm := rx_rwm r\<rparr>"

definition on_rx_controlled_bytes :: "nat \<Rightarrow> QUIC_RXFC \<Rightarrow> bool \<times> QUIC_RXFC" where
  "on_rx_controlled_bytes num_bytes r =
     (let credit = u64_sub (rx_cwm r) (rx_swm r);
          (ok, num_bytes, r) = (if num_bytes > credit
             then (False, credit, r\<lparr>rx_error_code := OSSL_QUIC_ERR_FLOW_CONTROL_ERROR\<rparr>) else (True, num_bytes, r))
      in (ok, r\<lparr>rx_swm := u64_add (rx_swm r) num_bytes\<rparr>))"

definition ossl_quic_rxfc_on_rx_stream_frame :: "nat \<Rightarrow> nat \<Rightarrow> bool \<Rightarrow> rxfcs \<Rightarrow> (bool \<times> rxfcs) option" where
  "ossl_quic_rxfc_on_rx_stream_frame rxfc end' is_fin s = do {
     r \<leftarrow> rx_at s rxfc;
     if \<not> rx_standalone r \<and> rx_parent r = None then Some (False, s)
     else if rx_is_fin r \<and> ((is_fin \<and> rx_hwm r \<noteq> end') \<or> end' > rx_hwm r)
     then map_option (Pair True) (rx_update rxfc (\<lambda>r. r\<lparr>rx_error_code := OSSL_QUIC_ERR_FINAL_SIZE_ERROR\<rparr>) s)
     else do {
       s \<leftarrow> (if is_fin then rx_update rxfc (\<lambda>r. r\<lparr>rx_is_fin := True\<rparr>) s else Some s);
       if end' > rx_hwm r then do {
         let delta = u64_sub end' (rx_hwm r);
         s \<leftarrow> rx_update rxfc (\<lambda>r. snd (on_rx_controlled_bytes delta (r\<lparr>rx_hwm := end'\<rparr>))) s;
         s \<leftarrow> (case rx_parent r of None \<Rightarrow> Some s | Some c \<Rightarrow> rx_update c (\<lambda>p. snd (on_rx_controlled_bytes delta p)) s);
         Some (True, s) }
       else if end' < rx_hwm r \<and> is_fin
       then map_option (Pair True) (rx_update rxfc (\<lambda>r. r\<lparr>rx_error_code := OSSL_QUIC_ERR_FINAL_SIZE_ERROR\<rparr>) s)
       else Some (True, s) } }"

definition WINDOW_THRESHOLD_NUM :: nat where "WINDOW_THRESHOLD_NUM = 3"
definition WINDOW_THRESHOLD_DEN :: nat where "WINDOW_THRESHOLD_DEN = 4"

definition rxfc_cwm_bump_desired :: "QUIC_RXFC \<Rightarrow> bool" where
  "rxfc_cwm_bump_desired r =
     (let window_rem = u64_sub (rx_cwm r) (rx_rwm r);
          (threshold, err) = safe_muldivu UINT64_MAX (rx_cur_window_size r) WINDOW_THRESHOLD_NUM WINDOW_THRESHOLD_DEN False;
          threshold = (if err then rx_cur_window_size r div 2 else threshold)
      in \<not> rx_is_fin r \<and> window_rem \<le> threshold)"

text \<open>The clock is read only when bytes have been retired in the epoch; the result tells whether it was.\<close>

definition rxfc_should_bump_window_size :: "ossl_time \<Rightarrow> ossl_time \<Rightarrow> QUIC_RXFC \<Rightarrow> bool \<times> bool" where
  "rxfc_should_bump_window_size t rtt r =
     (let b = u64_sub (rx_rwm r) (rx_esrwm r)
      in if b = 0 then (False, False)
         else
           let dt = ossl_time_subtract t (rx_epoch_start r);
               t_window = ossl_time_muldiv dt (rx_cur_window_size r) b
           in (ossl_time_compare t_window (ossl_time_multiply rtt 4) < 0, True))"

text \<open>The functions that read the clock take the number of its calls so far and return the new number.\<close>

definition rxfc_adjust_window_size :: "clock \<Rightarrow> nat \<Rightarrow> ossl_time \<Rightarrow> nat \<times> QUIC_RXFC \<Rightarrow> nat \<times> QUIC_RXFC" where
  "rxfc_adjust_window_size now min_window_size rtt ir =
     (let (i, r) = ir;
          new_window_size = rx_cur_window_size r;
          (bump, read) = rxfc_should_bump_window_size (now i) rtt r;
          i = (if read then i + 1 else i);
          new_window_size = (if bump then u64_mul new_window_size 2 else new_window_size);
          new_window_size = (if new_window_size < min_window_size then min_window_size else new_window_size);
          new_window_size = (if new_window_size > rx_max_window_size r then rx_max_window_size r else new_window_size)
      in (i + 1, rxfc_start_epoch (now i) (r\<lparr>rx_cur_window_size := new_window_size\<rparr>)))"

definition rxfc_update_cwm :: "clock \<Rightarrow> nat \<Rightarrow> ossl_time \<Rightarrow> nat \<times> QUIC_RXFC \<Rightarrow> nat \<times> QUIC_RXFC" where
  "rxfc_update_cwm now min_window_size rtt ir =
     (if \<not> rxfc_cwm_bump_desired (snd ir) then ir
      else
        let (i, r) = rxfc_adjust_window_size now min_window_size rtt ir;
            new_cwm = u64_add (rx_rwm r) (rx_cur_window_size r)
        in (i, if new_cwm > rx_cwm r then r\<lparr>rx_cwm := new_cwm, rx_has_cwm_changed := True\<rparr> else r))"

definition rxfc_on_retire :: "clock \<Rightarrow> nat \<Rightarrow> nat \<Rightarrow> ossl_time \<Rightarrow> nat \<times> QUIC_RXFC \<Rightarrow> nat \<times> QUIC_RXFC" where
  "rxfc_on_retire now num_bytes min_window_size rtt ir =
     (let (i, r) = ir;
          (i, r) = (if ossl_time_is_zero (rx_epoch_start r) then (i + 1, rxfc_start_epoch (now i) r) else (i, r))
      in rxfc_update_cwm now min_window_size rtt (i, r\<lparr>rx_rwm := u64_add (rx_rwm r) num_bytes\<rparr>))"

text \<open>One of these calls on the controller at an address.\<close>

definition rx_retire_at :: "clock \<Rightarrow> nat \<Rightarrow> nat \<Rightarrow> ossl_time \<Rightarrow> nat \<Rightarrow> rxfcs \<Rightarrow> rxfcs option" where
  "rx_retire_at now num_bytes min_window_size rtt rxfc s = do {
     r \<leftarrow> rx_at s rxfc;
     let (i, r) = rxfc_on_retire now num_bytes min_window_size rtt (rx_calls s, r)
     in Some (s\<lparr>rx_at := (rx_at s)(rxfc \<mapsto> r), rx_calls := i\<rparr>) }"

definition ossl_quic_rxfc_on_retire :: "clock \<Rightarrow> nat \<Rightarrow> nat \<Rightarrow> ossl_time \<Rightarrow> rxfcs \<Rightarrow> (bool \<times> rxfcs) option" where
  "ossl_quic_rxfc_on_retire now rxfc num_bytes rtt s = do {
     r \<leftarrow> rx_at s rxfc;
     if rx_parent r = None \<and> \<not> rx_standalone r then Some (False, s)
     else if num_bytes = 0 then Some (True, s)
     else if u64_add (rx_rwm r) num_bytes > rx_swm r then Some (False, s)
     else do {
       s \<leftarrow> rx_retire_at now num_bytes 0 rtt rxfc s;
       r \<leftarrow> rx_at s rxfc;
       if rx_standalone r then Some (True, s)
       else do {
         c \<leftarrow> rx_parent r;
         s \<leftarrow> rx_retire_at now num_bytes (rx_cur_window_size r) rtt c s;
         Some (True, s) } } }"

definition ossl_quic_rxfc_get_cwm :: "QUIC_RXFC \<Rightarrow> nat" where
  "ossl_quic_rxfc_get_cwm r = rx_cwm r"

definition ossl_quic_rxfc_get_swm :: "QUIC_RXFC \<Rightarrow> nat" where
  "ossl_quic_rxfc_get_swm r = rx_swm r"

definition ossl_quic_rxfc_get_rwm :: "QUIC_RXFC \<Rightarrow> nat" where
  "ossl_quic_rxfc_get_rwm r = rx_rwm r"

definition ossl_quic_rxfc_get_credit :: "QUIC_RXFC \<Rightarrow> nat" where
  "ossl_quic_rxfc_get_credit r = u64_sub (ossl_quic_rxfc_get_cwm r) (ossl_quic_rxfc_get_swm r)"

definition ossl_quic_rxfc_has_cwm_changed :: "nat \<Rightarrow> bool \<Rightarrow> rxfcs \<Rightarrow> (bool \<times> rxfcs) option" where
  "ossl_quic_rxfc_has_cwm_changed rxfc clear s = do {
     r \<leftarrow> rx_at s rxfc;
     s \<leftarrow> (if clear then rx_update rxfc (\<lambda>r. r\<lparr>rx_has_cwm_changed := False\<rparr>) s else Some s);
     Some (rx_has_cwm_changed r, s) }"

definition ossl_quic_rxfc_get_error :: "nat \<Rightarrow> bool \<Rightarrow> rxfcs \<Rightarrow> (nat \<times> rxfcs) option" where
  "ossl_quic_rxfc_get_error rxfc clear s = do {
     r \<leftarrow> rx_at s rxfc;
     s \<leftarrow> (if clear then rx_update rxfc (\<lambda>r. r\<lparr>rx_error_code := 0\<rparr>) s else Some s);
     Some (rx_error_code r, s) }"

definition ossl_quic_rxfc_get_final_size :: "QUIC_RXFC \<Rightarrow> nat option" where
  "ossl_quic_rxfc_get_final_size r = (if rx_is_fin r then Some (rx_hwm r) else None)"

section \<open>Spending a bounded credit\<close>

text \<open>
  Both sides count bytes against a limit with the same contract: a request within the credit is counted in full, one
  beyond it is refused and uses the credit up.
\<close>

locale credit_counter =
  fixes sane :: "'s \<Rightarrow> bool"
    and used :: "'s \<Rightarrow> nat"
    and limit :: "'s \<Rightarrow> nat"
    and spend :: "nat \<Rightarrow> 's \<Rightarrow> bool \<times> 's"
  assumes spend_sane: "sane s \<Longrightarrow> sane (snd (spend n s))"
    and used_le_limit: "sane s \<Longrightarrow> used s \<le> limit s"
    and spend_ok: "sane s \<Longrightarrow> fst (spend n s) \<longleftrightarrow> used s + n \<le> limit s"
    and spend_used: "sane s \<Longrightarrow> used (snd (spend n s)) = min (used s + n) (limit s)"
    and spend_limit: "sane s \<Longrightarrow> limit (snd (spend n s)) = limit s"
begin

primrec spend_all :: "nat list \<Rightarrow> 's \<Rightarrow> bool \<times> 's" where
  "spend_all [] s = (True, s)"
| "spend_all (n # ns) s = (let (ok, s) = spend n s; (oks, s) = spend_all ns s in (ok \<and> oks, s))"

lemma spend_all_total:
  assumes "sane s"
  shows "used (snd (spend_all ns s)) = min (used s + sum_list ns) (limit s)
    \<and> (fst (spend_all ns s) \<longleftrightarrow> used s + sum_list ns \<le> limit s)"
  using assms
proof (induction ns arbitrary: s)
  case Nil
  then show ?case using used_le_limit by simp
next
  case (Cons n ns)
  note IH = Cons.IH [OF spend_sane [OF Cons.prems]]
  show ?case
    using IH [of n] by (auto simp: case_prod_unfold Let_def spend_ok spend_used spend_limit Cons.prems)
qed

end

subsection \<open>The transmit controller\<close>

definition tx_sane :: "nat \<Rightarrow> txfcs \<Rightarrow> bool" where
  "tx_sane a h = (case h a of None \<Rightarrow> False | Some t \<Rightarrow> tx_swm t \<le> tx_cwm t \<and> tx_cwm t < U64)"

lemma tx_sane_Some [simp]: "h a = Some t \<Longrightarrow> tx_sane a h \<longleftrightarrow> tx_swm t \<le> tx_cwm t \<and> tx_cwm t < U64"
  by (simp add: tx_sane_def)

lemma tx_saneE:
  assumes "tx_sane a h"
  obtains t where "h a = Some t" "tx_swm t \<le> tx_cwm t" "tx_cwm t < U64"
  using assms by (auto simp: tx_sane_def split: option.splits)

lemma get_credit_local_0:
  assumes "h a = Some t" "tx_swm t \<le> tx_cwm t" "tx_cwm t < U64"
  shows "ossl_quic_txfc_get_credit_local a 0 h = Some (tx_cwm t - tx_swm t)"
  using assms by (simp add: ossl_quic_txfc_get_credit_local_def u64_arith)

lemma consume_credit_local_eq:
  assumes "h a = Some t" "tx_swm t \<le> tx_cwm t" "tx_cwm t < U64"
  shows "ossl_quic_txfc_consume_credit_local a n h =
    Some (tx_swm t + n \<le> tx_cwm t,
      h(a \<mapsto> t\<lparr>tx_swm := min (tx_swm t + n) (tx_cwm t),
             tx_has_become_blocked := (tx_has_become_blocked t \<or> tx_swm t < tx_cwm t \<and> tx_cwm t \<le> tx_swm t + n)\<rparr>))"
  using assms
  by (cases "tx_has_become_blocked t"; cases "tx_cwm t = tx_swm t + n")
    (auto simp: ossl_quic_txfc_consume_credit_local_def get_credit_local_0 Let_def u64_add_exact min_def)

interpretation tx_credit: credit_counter "tx_sane a" "\<lambda>h. tx_swm (the (h a))" "\<lambda>h. tx_cwm (the (h a))"
  "\<lambda>n h. the (ossl_quic_txfc_consume_credit_local a n h)" for a
  by unfold_locales (auto elim!: tx_saneE simp: consume_credit_local_eq)

subsection \<open>The receive controller\<close>

definition rx_sane :: "QUIC_RXFC \<Rightarrow> bool" where
  "rx_sane r \<longleftrightarrow> rx_swm r \<le> rx_cwm r \<and> rx_cwm r < U64"

lemma on_rx_controlled_bytes_eq:
  assumes "rx_sane r"
  shows "on_rx_controlled_bytes n r =
    (rx_swm r + n \<le> rx_cwm r,
     r\<lparr>rx_swm := min (rx_swm r + n) (rx_cwm r),
       rx_error_code := (if rx_swm r + n \<le> rx_cwm r then rx_error_code r else OSSL_QUIC_ERR_FLOW_CONTROL_ERROR)\<rparr>)"
  using assms
  by (auto simp: on_rx_controlled_bytes_def rx_sane_def Let_def u64_arith min_def)

interpretation rx_credit: credit_counter rx_sane rx_swm rx_cwm on_rx_controlled_bytes
  by unfold_locales (simp_all add: on_rx_controlled_bytes_eq, simp_all add: rx_sane_def)

section \<open>The history of a connection that sends\<close>

text \<open>
  What a connection does with its controllers: it makes the one of the connection, at \<open>c\<close>, and those of the streams,
  raises their limits when the peer grants credit, and consumes credit for a stream.  \<open>ok\<close> tells that every
  consumption so far reported success; \<open>S\<close> holds the addresses of the streams.
\<close>

inductive tx_history :: "nat \<Rightarrow> bool \<Rightarrow> nat set \<Rightarrow> txfcs \<Rightarrow> bool" for c where
  conn: "ossl_quic_txfc_init c None h = Some (True, h') \<Longrightarrow> tx_history c True {} h'"
| stream: "tx_history c ok S h \<Longrightarrow> a \<notin> insert c S \<Longrightarrow> ossl_quic_txfc_init a (Some c) h = Some (True, h')
    \<Longrightarrow> tx_history c ok (insert a S) h'"
| bump: "tx_history c ok S h \<Longrightarrow> x \<in> insert c S \<Longrightarrow> cwm < U64 \<Longrightarrow> ossl_quic_txfc_bump_cwm x cwm h = Some (b, h')
    \<Longrightarrow> tx_history c ok S h'"
| consume: "tx_history c ok S h \<Longrightarrow> a \<in> S \<Longrightarrow> ossl_quic_txfc_consume_credit a n h = Some (b, h')
    \<Longrightarrow> tx_history c (ok \<and> b) S h'"
| blocked: "tx_history c ok S h \<Longrightarrow> x \<in> insert c S \<Longrightarrow> ossl_quic_txfc_has_become_blocked x clear h = Some (b, h')
    \<Longrightarrow> tx_history c ok S h'"

text \<open>The sum of a field over the controllers at the addresses of a set.\<close>

definition sum_at :: "('b \<Rightarrow> nat) \<Rightarrow> nat set \<Rightarrow> (nat \<rightharpoonup> 'b) \<Rightarrow> nat" where
  "sum_at f S h = (\<Sum>a\<in>S. f (the (h a)))"

lemma sum_at_upd:
  assumes "finite S" "a \<in> S"
  shows "sum_at f S (h(a \<mapsto> y)) + f (the (h a)) = sum_at f S h + f y"
proof -
  have "(\<Sum>x\<in>S - {a}. f (the ((h(a \<mapsto> y)) x))) = (\<Sum>x\<in>S - {a}. f (the (h x)))"
    by (intro sum.cong) auto
  then show ?thesis using sum.remove [OF assms, of "\<lambda>x. f (the ((h(a \<mapsto> y)) x))"]
    sum.remove [OF assms, of "\<lambda>x. f (the (h x))"] by (simp add: sum_at_def)
qed

lemma sum_at_other [simp]: "a \<notin> S \<Longrightarrow> sum_at f S (h(a \<mapsto> y)) = sum_at f S h"
  unfolding sum_at_def by (intro sum.cong) auto

lemma sum_at_same:
  assumes "finite S" "f y = f (the (h a))"
  shows "sum_at f S (h(a \<mapsto> y)) = sum_at f S h"
  using sum_at_upd [OF assms(1), of a f h y] assms(2) by (cases "a \<in> S") auto

lemma sum_at_mono_diff:
  assumes "finite S" "a \<in> S" "\<And>x. x \<in> S \<Longrightarrow> f (the (h x)) \<le> g (the (h x))"
  shows "sum_at f S h + (g (the (h a)) - f (the (h a))) \<le> sum_at g S h"
proof -
  have "(\<Sum>x\<in>S - {a}. f (the (h x))) \<le> (\<Sum>x\<in>S - {a}. g (the (h x)))"
    using assms(3) by (intro sum_mono) auto
  with assms(3) [OF assms(2)] show ?thesis
    using sum.remove [OF assms(1,2), of "\<lambda>x. f (the (h x))"] sum.remove [OF assms(1,2), of "\<lambda>x. g (the (h x))"]
    by (simp add: sum_at_def)
qed

lemma sum_at_insert [simp]:
  "finite S \<Longrightarrow> a \<notin> S \<Longrightarrow> sum_at f (insert a S) h = f (the (h a)) + sum_at f S h"
  by (simp add: sum_at_def)

lemma sum_at_empty [simp]: "sum_at f {} h = 0"
  by (simp add: sum_at_def)

definition tx_node :: "nat \<Rightarrow> nat \<Rightarrow> QUIC_TXFC \<Rightarrow> bool" where
  "tx_node c x t \<longleftrightarrow> tx_swm t \<le> tx_cwm t \<and> tx_cwm t < U64 \<and> tx_parent t = (if x = c then None else Some c)"

text \<open>Every controller of a store satisfies a condition on its address.\<close>

definition all_at :: "nat set \<Rightarrow> (nat \<Rightarrow> 'b \<Rightarrow> bool) \<Rightarrow> (nat \<rightharpoonup> 'b) \<Rightarrow> bool" where
  "all_at S P h \<longleftrightarrow> (\<forall>x\<in>S. \<exists>t. h x = Some t \<and> P x t)"

lemma all_atE:
  assumes "all_at S P h" "x \<in> S"
  obtains t where "h x = Some t" "P x t"
  using assms by (auto simp: all_at_def)

lemma all_at_upd [intro]: "all_at S P h \<Longrightarrow> P x t \<Longrightarrow> all_at S P (h(x \<mapsto> t))"
  by (simp add: all_at_def)

lemma all_at_insert [intro]: "all_at S P h \<Longrightarrow> P x t \<Longrightarrow> all_at (insert x S) P (h(x \<mapsto> t))"
  by (simp add: all_at_def)

definition tx_inv :: "nat \<Rightarrow> bool \<Rightarrow> nat set \<Rightarrow> txfcs \<Rightarrow> bool" where
  "tx_inv c ok S h \<longleftrightarrow> finite S \<and> c \<notin> S \<and> all_at (insert c S) (tx_node c) h
     \<and> (ok \<longrightarrow> tx_swm (the (h c)) = sum_at tx_swm S h)"

lemma tx_invE:
  assumes "tx_inv c ok S h" "x \<in> insert c S"
  obtains t where "h x = Some t" "tx_node c x t"
  using assms by (auto simp: tx_inv_def elim!: all_atE)

text \<open>A change of one controller that keeps what it has sent.\<close>

lemma tx_inv_upd:
  assumes inv: "tx_inv c ok S h" and "h x = Some t" "tx_swm t' = tx_swm t" "tx_node c x t'"
  shows "tx_inv c ok S (h(x \<mapsto> t'))"
proof -
  have "sum_at tx_swm S (h(x \<mapsto> t')) = sum_at tx_swm S h"
    by (rule sum_at_same) (use assms in \<open>auto simp: tx_inv_def\<close>)
  with assms show ?thesis by (cases "x = c") (simp_all add: tx_inv_def all_at_upd)
qed

lemma consume_credit_eq:
  assumes a: "a \<noteq> c" "h a = Some t" "h c = Some p" and t: "tx_node c a t" and p: "tx_node c c p"
  defines "spent \<equiv> \<lambda>t n. t\<lparr>tx_swm := min (tx_swm t + n) (tx_cwm t),
     tx_has_become_blocked := (tx_has_become_blocked t \<or> tx_swm t < tx_cwm t \<and> tx_cwm t \<le> tx_swm t + n)\<rparr>"
  shows "ossl_quic_txfc_consume_credit a n h =
    Some (tx_swm t + n \<le> tx_cwm t \<and> tx_swm p + n \<le> tx_cwm p, h(a \<mapsto> spent t n, c \<mapsto> spent p n))"
proof -
  have "ossl_quic_txfc_consume_credit_local a n h = Some (tx_swm t + n \<le> tx_cwm t, h(a \<mapsto> spent t n))"
    using consume_credit_local_eq [of h a t n] a t by (simp add: tx_node_def spent_def)
  moreover have "ossl_quic_txfc_consume_credit_local c n (h(a \<mapsto> spent t n)) =
      Some (tx_swm p + n \<le> tx_cwm p, h(a \<mapsto> spent t n, c \<mapsto> spent p n))"
    using consume_credit_local_eq [of "h(a \<mapsto> spent t n)" c p n] a p by (simp add: tx_node_def spent_def)
  moreover have "tx_parent (spent t n) = Some c" "tx_parent p = None"
    using a t p by (simp_all add: tx_node_def spent_def)
  ultimately show ?thesis using a by (simp add: ossl_quic_txfc_consume_credit_def conj_commute)
qed

lemma tx_inv_consume:
  assumes inv: "tx_inv c ok S h" and a: "a \<in> S"
    and consume: "ossl_quic_txfc_consume_credit a n h = Some (b, h')"
  shows "tx_inv c (ok \<and> b) S h'"
proof -
  from inv a have ac: "a \<noteq> c" "finite S" "c \<notin> S" by (auto simp: tx_inv_def)
  obtain t p where t: "h a = Some t" "tx_node c a t" and p: "h c = Some p" "tx_node c c p"
    by (rule tx_invE [OF inv insertI2 [OF a]], rule tx_invE [OF inv insertI1])
  note eq = consume_credit_eq [OF ac(1) t(1) p(1) t(2) p(2), of n]
  define spent where "spent = (\<lambda>(t::QUIC_TXFC) n. t\<lparr>tx_swm := min (tx_swm t + n) (tx_cwm t),
     tx_has_become_blocked := (tx_has_become_blocked t \<or> tx_swm t < tx_cwm t \<and> tx_cwm t \<le> tx_swm t + n)\<rparr>)"
  obtain t' p' where h': "h' = h(a \<mapsto> t', c \<mapsto> p')" and b: "b \<longleftrightarrow> tx_swm t + n \<le> tx_cwm t \<and> tx_swm p + n \<le> tx_cwm p"
    and t': "tx_node c a t'" "tx_swm t' = min (tx_swm t + n) (tx_cwm t)"
    and p': "tx_node c c p'" "tx_swm p' = min (tx_swm p + n) (tx_cwm p)"
    by (rule that [of "spent t n" "spent p n"])
      (use consume t(2) p(2) ac(1) eq in \<open>simp_all add: tx_node_def spent_def\<close>)
  have "sum_at tx_swm S h' + tx_swm t = sum_at tx_swm S h + tx_swm t'"
    using sum_at_upd [OF ac(2) a, of tx_swm h t'] t(1) ac(3) by (simp add: h')
  then have "ok \<and> b \<longrightarrow> tx_swm p' = sum_at tx_swm S h'"
    using inv b t' p' p by (auto simp: tx_inv_def)
  then show ?thesis using inv t' p' by (simp add: tx_inv_def h' all_at_upd)
qed

lemma tx_history_inv: "tx_history c ok S h \<Longrightarrow> tx_inv c ok S h"
proof (induction rule: tx_history.induct)
  case (conn h h')
  then show ?case by (auto simp: ossl_quic_txfc_init_def tx_inv_def tx_node_def all_at_def)
next
  case (stream ok S h a h')
  then obtain t where t: "h' = h(a \<mapsto> t)" "tx_swm t = 0" "tx_cwm t = 0" "tx_parent t = Some c"
    by (auto simp: ossl_quic_txfc_init_def bind_eq_Some_conv split: if_splits)
  have "tx_node c a t" using t stream.hyps(2) by (simp add: tx_node_def)
  with stream.IH have "all_at (insert c (insert a S)) (tx_node c) (h(a \<mapsto> t))"
    unfolding tx_inv_def insert_commute [of c a] by blast
  moreover have "sum_at tx_swm (insert a S) (h(a \<mapsto> t)) = sum_at tx_swm S h"
    using stream.IH stream.hyps(2) t(2) by (simp add: tx_inv_def)
  ultimately have "tx_inv c ok (insert a S) (h(a \<mapsto> t))" using stream.IH stream.hyps(2) by (simp add: tx_inv_def)
  with t(1) show ?case by blast
next
  case (bump ok S h x cwm b h')
  obtain t where t: "h x = Some t" "tx_node c x t" using tx_invE [OF bump.IH bump.hyps(2)] .
  have "tx_inv c ok S (h(x \<mapsto> t\<lparr>tx_cwm := cwm\<rparr>))" if "\<not> cwm \<le> tx_cwm t"
    by (rule tx_inv_upd [OF bump.IH t(1)]) (use bump.hyps(3) t(2) that in \<open>auto simp: tx_node_def\<close>)
  with bump.hyps(4) bump.IH t(1) show ?case by (simp add: ossl_quic_txfc_bump_cwm_def split: if_splits)
next
  case (consume ok S h a n b h')
  then show ?case using tx_inv_consume by blast
next
  case (blocked ok S h x clear b h')
  obtain t where t: "h x = Some t" "tx_node c x t" using tx_invE [OF blocked.IH blocked.hyps(2)] .
  have "tx_inv c ok S (h(x \<mapsto> t\<lparr>tx_has_become_blocked := False\<rparr>))"
    by (rule tx_inv_upd [OF blocked.IH t(1)]) (use t(2) in \<open>auto simp: tx_node_def\<close>)
  with blocked.hyps(3) blocked.IH t(1) show ?case
    by (simp add: ossl_quic_txfc_has_become_blocked_def split: if_splits)
qed

text \<open>
  C32.  Sending within flow control.  Whatever a connection and its streams have done with their controllers (streams
  made, limits raised by the peer, any credit consumed, also beyond what was there), no controller has counted more
  bytes than the peer allowed it.  The assertions of \<open>consume_credit\<close> hold for any number of bytes and those of \<open>get_credit\<close>
  for any number of bytes already planned for the connection within its limit; the latter reports what both limits leave.
  A consumption succeeds exactly when it stays within the reported credit, and one that uses the credit up marks the
  stream or the connection blocked.  As long as every consumption succeeded, the connection has counted exactly the
  bytes of its streams.
\<close>

theorem txfc_within_credit:
  assumes "tx_history c ok S h"
  shows "(\<forall>x\<in>insert c S. \<exists>t. h x = Some t \<and> tx_swm t \<le> tx_cwm t)
    \<and> (ok \<longrightarrow> ossl_quic_txfc_get_swm c h = Some (\<Sum>a\<in>S. tx_swm (the (h a))))
    \<and> (\<forall>a\<in>S. \<forall>k. tx_swm (the (h c)) + k \<le> tx_cwm (the (h c)) \<longrightarrow> ossl_quic_txfc_get_credit a k h =
         Some (min (tx_cwm (the (h a)) - tx_swm (the (h a))) (tx_cwm (the (h c)) - tx_swm (the (h c)) - k)))
    \<and> (\<forall>a\<in>S. \<exists>credit. ossl_quic_txfc_get_credit a 0 h = Some credit
         \<and> (\<forall>n. \<exists>h'. ossl_quic_txfc_consume_credit a n h = Some (n \<le> credit, h')
              \<and> (0 < credit \<longrightarrow> credit \<le> n \<longrightarrow> tx_has_become_blocked (the (h' a)) \<or> tx_has_become_blocked (the (h' c)))))"
proof -
  note inv = tx_history_inv [OF assms]
  obtain p where p: "h c = Some p" "tx_node c c p" by (rule tx_invE [OF inv insertI1])
  have credit: "\<exists>credit. ossl_quic_txfc_get_credit a 0 h = Some credit
         \<and> (\<forall>n. \<exists>h'. ossl_quic_txfc_consume_credit a n h = Some (n \<le> credit, h')
              \<and> (0 < credit \<longrightarrow> credit \<le> n \<longrightarrow> tx_has_become_blocked (the (h' a)) \<or> tx_has_become_blocked (the (h' c))))"
    if a: "a \<in> S" for a
  proof -
    obtain t where t: "h a = Some t" "tx_node c a t" by (rule tx_invE [OF inv insertI2 [OF a]])
    have ac: "a \<noteq> c" using a inv by (auto simp: tx_inv_def)
    define credit where "credit = min (tx_cwm t - tx_swm t) (tx_cwm p - tx_swm p)"
    have "ossl_quic_txfc_get_credit a 0 h = Some credit"
      using t p ac by (simp add: ossl_quic_txfc_get_credit_def get_credit_local_0 credit_def tx_node_def min_def)
    moreover have "\<exists>h'. ossl_quic_txfc_consume_credit a n h = Some (n \<le> credit, h')
        \<and> (0 < credit \<longrightarrow> credit \<le> n \<longrightarrow> tx_has_become_blocked (the (h' a)) \<or> tx_has_become_blocked (the (h' c)))" for n
    proof -
      have iff: "n \<le> credit \<longleftrightarrow> tx_swm t + n \<le> tx_cwm t \<and> tx_swm p + n \<le> tx_cwm p"
        using t(2) p(2) by (auto simp: credit_def tx_node_def)
      have "0 < credit \<longrightarrow> credit \<le> n \<longrightarrow>
          tx_swm t < tx_cwm t \<and> tx_cwm t \<le> tx_swm t + n \<or> tx_swm p < tx_cwm p \<and> tx_cwm p \<le> tx_swm p + n"
        by (auto simp: credit_def min_le_iff_disj)
      then show ?thesis
        unfolding consume_credit_eq [OF ac t(1) p(1) t(2) p(2)] iff using ac by simp blast
    qed
    ultimately show ?thesis by (intro exI [of _ credit] conjI allI)
  qed
  have within: "\<exists>t. h x = Some t \<and> tx_swm t \<le> tx_cwm t" if "x \<in> insert c S" for x
    by (rule tx_invE [OF inv that]) (auto simp: tx_node_def)
  have sum: "ok \<longrightarrow> ossl_quic_txfc_get_swm c h = Some (\<Sum>a\<in>S. tx_swm (the (h a)))"
    using inv p by (simp add: ossl_quic_txfc_get_swm_def tx_inv_def sum_at_def)
  have report: "ossl_quic_txfc_get_credit a k h =
      Some (min (tx_cwm (the (h a)) - tx_swm (the (h a))) (tx_cwm (the (h c)) - tx_swm (the (h c)) - k))"
    if a: "a \<in> S" and k: "tx_swm (the (h c)) + k \<le> tx_cwm (the (h c))" for a k
  proof -
    obtain t where t: "h a = Some t" "tx_node c a t" by (rule tx_invE [OF inv insertI2 [OF a]])
    have ac: "a \<noteq> c" using a inv by (auto simp: tx_inv_def)
    have "u64_add (tx_swm p) k = tx_swm p + k" "u64_sub (tx_cwm p) (u64_add k (tx_swm p)) = tx_cwm p - tx_swm p - k"
      using k p by (simp_all add: tx_node_def u64_add_exact u64_sub_exact)
    then show ?thesis using t p ac k
      by (auto simp: ossl_quic_txfc_get_credit_def ossl_quic_txfc_get_credit_local_def get_credit_local_0 tx_node_def u64_add_exact u64_sub_exact)
  qed
  from report have "\<forall>a\<in>S. \<forall>k. tx_swm (the (h c)) + k \<le> tx_cwm (the (h c)) \<longrightarrow> ossl_quic_txfc_get_credit a k h =
      Some (min (tx_cwm (the (h a)) - tx_swm (the (h a))) (tx_cwm (the (h c)) - tx_swm (the (h c)) - k))" by blast
  then show ?thesis using within credit sum by blast
qed

text \<open>A connection that was granted 100 bytes and has sent 30 of the 50 bytes its stream was granted.\<close>

definition example_tx :: "nat \<Rightarrow> nat \<Rightarrow> nat \<Rightarrow> txfcs" where
  "example_tx conn_cwm cwm sent =
     [0 \<mapsto> \<lparr>tx_parent = None, tx_swm = sent, tx_cwm = conn_cwm, tx_has_become_blocked = False\<rparr>,
      1 \<mapsto> \<lparr>tx_parent = Some 0, tx_swm = sent, tx_cwm = cwm, tx_has_become_blocked = False\<rparr>]"

lemma example_tx_history: "tx_history 0 True {1} (example_tx 100 50 30)"
proof -
  let ?c = "[0 \<mapsto> \<lparr>tx_parent = None, tx_swm = 0, tx_cwm = 0, tx_has_become_blocked = False\<rparr>]"
  have "tx_history 0 True {} ?c" by (rule tx_history.conn [of _ Map.empty]) (simp add: ossl_quic_txfc_init_def)
  then have "tx_history 0 True {1} (example_tx 0 0 0)"
    by (rule tx_history.stream) (simp_all add: ossl_quic_txfc_init_def example_tx_def)
  then have "tx_history 0 True {1} (example_tx 100 0 0)"
    by (rule tx_history.bump [where x = 0 and cwm = 100])
      (auto simp: ossl_quic_txfc_bump_cwm_def example_tx_def)
  then have "tx_history 0 True {1} (example_tx 100 50 0)"
    by (rule tx_history.bump [where x = 1 and cwm = 50])
      (auto simp: ossl_quic_txfc_bump_cwm_def example_tx_def)
  then have "tx_history 0 (True \<and> True) {1} (example_tx 100 50 30)"
    by (rule tx_history.consume [where a = 1 and n = 30])
      (auto simp: ossl_quic_txfc_consume_credit_def consume_credit_local_eq example_tx_def)
  then show ?thesis by simp
qed

theorem txfc_within_credit_witness:
  "ossl_quic_txfc_get_credit 1 0 (example_tx 100 50 30) = Some 20
   \<and> (\<exists>h'. ossl_quic_txfc_consume_credit 1 20 (example_tx 100 50 30) = Some (True, h'))
   \<and> (\<exists>h'. ossl_quic_txfc_consume_credit 1 21 (example_tx 100 50 30) = Some (False, h'))"
proof -
  have credit: "ossl_quic_txfc_get_credit 1 0 (example_tx 100 50 30) = Some 20"
    by (simp add: ossl_quic_txfc_get_credit_def ossl_quic_txfc_get_credit_local_def example_tx_def u64_arith)
  have "\<forall>n. \<exists>h'. ossl_quic_txfc_consume_credit 1 n (example_tx 100 50 30) = Some (n \<le> 20, h')"
    using txfc_within_credit [OF example_tx_history] credit by simp blast
  from spec [OF this, of 20] spec [OF this, of 21] credit show ?thesis by simp
qed

section \<open>The history of a connection that receives\<close>

text \<open>
  The watermarks of a controller: retired, received and allowed bytes in this order, the limit at most one window
  beyond what was retired, and, as long as the final size is not known, at least three quarters of a window.
\<close>

definition rx_ok :: "QUIC_RXFC \<Rightarrow> bool" where
  "rx_ok r \<longleftrightarrow> rx_rwm r \<le> rx_swm r \<and> rx_swm r \<le> rx_cwm r \<and> rx_cwm r \<le> rx_rwm r + rx_cur_window_size r
     \<and> rx_cur_window_size r \<le> rx_max_window_size r \<and> rx_max_window_size r < 2 ^ 62 \<and> rx_swm r < 2 ^ 62
     \<and> (\<not> rx_is_fin r \<longrightarrow> 3 * rx_cur_window_size r \<le> 4 * (rx_cwm r - rx_rwm r))"

lemma rx_ok_sane: "rx_ok r \<Longrightarrow> rx_sane r"
  by (simp add: rx_ok_def rx_sane_def)

lemma rxfc_cwm_bump_desired_iff:
  assumes "rx_rwm r \<le> rx_cwm r" "rx_cwm r < U64" "rx_cur_window_size r < 2 ^ 62"
  shows "rxfc_cwm_bump_desired r \<longleftrightarrow> \<not> rx_is_fin r \<and> rx_cwm r - rx_rwm r \<le> 3 * rx_cur_window_size r div 4"
proof -
  have "safe_muldivu UINT64_MAX (rx_cur_window_size r) 3 4 False = (3 * rx_cur_window_size r div 4, False)"
    using assms(3) by (simp add: safe_muldivu_def safe_mulu_def mult.commute)
  with assms show ?thesis
    by (simp add: rxfc_cwm_bump_desired_def WINDOW_THRESHOLD_NUM_def WINDOW_THRESHOLD_DEN_def u64_arith)
qed

text \<open>The window never shrinks below what it was or above the maximum, and nothing else changes but the epoch.\<close>

lemma rxfc_adjust_window_size_cases:
  assumes "rx_cur_window_size r \<le> rx_max_window_size r" "rx_max_window_size r < 2 ^ 62"
    and "rxfc_adjust_window_size now min_window_size rtt (i, r) = (j, r')"
  obtains w t where "rx_cur_window_size r \<le> w" "w \<le> rx_max_window_size r"
    "r' = r\<lparr>rx_cur_window_size := w, rx_epoch_start := t, rx_esrwm := rx_rwm r\<rparr>"
proof -
  have "u64_mul (rx_cur_window_size r) 2 = rx_cur_window_size r * 2"
    using assms by (simp add: u64_mul_exact)
  then show thesis
    by (intro that [of "rx_cur_window_size r'" "rx_epoch_start r'"])
      (use assms in \<open>auto simp: rxfc_adjust_window_size_def rxfc_start_epoch_def Let_def case_prod_unfold split: if_splits\<close>)
qed

text \<open>What a retirement of received bytes does to one controller.\<close>

lemma rxfc_on_retire_ok:
  assumes ok: "rx_ok r" and n: "rx_rwm r + n \<le> rx_swm r"
    and eq: "rxfc_on_retire now n min_window_size rtt (i, r) = (j, r')"
  shows "rx_ok r' \<and> rx_rwm r' = rx_rwm r + n \<and> rx_swm r' = rx_swm r \<and> rx_hwm r' = rx_hwm r
    \<and> rx_parent r' = rx_parent r \<and> rx_error_code r' = rx_error_code r \<and> rx_standalone r' = rx_standalone r
    \<and> rx_is_fin r' = rx_is_fin r \<and> rx_max_window_size r' = rx_max_window_size r \<and> rx_cwm r \<le> rx_cwm r'
    \<and> rx_cur_window_size r \<le> rx_cur_window_size r'"
proof -
  define r0 where "r0 = (if ossl_time_is_zero (rx_epoch_start r) then rxfc_start_epoch (now i) r else r)"
  define r1 where "r1 = r0\<lparr>rx_rwm := rx_rwm r + n\<rparr>"
  have "rx_rwm r + n < U64" using ok n by (simp add: rx_ok_def)
  then obtain i' where eq': "rxfc_update_cwm now min_window_size rtt (i', r1) = (j, r')"
    using eq by (auto simp: rxfc_on_retire_def r1_def r0_def rxfc_start_epoch_def u64_add_exact split: if_splits)
  have r1: "rx_rwm r1 = rx_rwm r + n" "rx_swm r1 = rx_swm r" "rx_hwm r1 = rx_hwm r" "rx_cwm r1 = rx_cwm r"
    "rx_parent r1 = rx_parent r" "rx_error_code r1 = rx_error_code r" "rx_standalone r1 = rx_standalone r"
    "rx_is_fin r1 = rx_is_fin r" "rx_max_window_size r1 = rx_max_window_size r"
    "rx_cur_window_size r1 = rx_cur_window_size r"
    by (simp_all add: r1_def r0_def rxfc_start_epoch_def)
  have bump: "rxfc_cwm_bump_desired r1 \<longleftrightarrow> \<not> rx_is_fin r \<and> rx_cwm r - (rx_rwm r + n) \<le> 3 * rx_cur_window_size r div 4"
    using rxfc_cwm_bump_desired_iff [of r1] ok n by (simp add: r1 rx_ok_def)
  show ?thesis
  proof (cases "rxfc_cwm_bump_desired r1")
    case False
    then have "r' = r1" using eq' by (simp add: rxfc_update_cwm_def)
    moreover have "rx_ok r1" using ok n False unfolding bump rx_ok_def r1 by auto
    ultimately show ?thesis by (simp add: r1)
  next
    case True
    obtain r2 where r2: "rxfc_adjust_window_size now min_window_size rtt (i', r1) = (j, r2)"
      and r': "r' = (if u64_add (rx_rwm r2) (rx_cur_window_size r2) > rx_cwm r2
        then r2\<lparr>rx_cwm := u64_add (rx_rwm r2) (rx_cur_window_size r2), rx_has_cwm_changed := True\<rparr> else r2)"
      using eq' True
      by (cases "rxfc_adjust_window_size now min_window_size rtt (i', r1)") (simp add: rxfc_update_cwm_def Let_def)
    obtain w t where w: "rx_cur_window_size r \<le> w" "w \<le> rx_max_window_size r"
      and r2': "r2 = r1\<lparr>rx_cur_window_size := w, rx_epoch_start := t, rx_esrwm := rx_rwm r + n\<rparr>"
      using rxfc_adjust_window_size_cases [OF _ _ r2] ok by (auto simp: rx_ok_def r1)
    have "u64_add (rx_rwm r + n) w = rx_rwm r + n + w" using ok n w by (simp add: rx_ok_def u64_add_exact)
    with ok n w show ?thesis unfolding r' r2' by (auto simp: r1 rx_ok_def)
  qed
qed

text \<open>
  What a connection does with its receive controllers, as long as no frame broke a limit: it makes the controller of
  the connection and those of the streams, counts the stream frames that arrive, retires the bytes the application has
  read, changes the maximum window, and reads the flags.  The offsets are variable-length integers, so below \<open>2 ^ 62\<close>.
\<close>

definition rx_errorless :: "nat \<Rightarrow> rxfcs \<Rightarrow> bool" where
  "rx_errorless x s = (case rx_at s x of None \<Rightarrow> False | Some r \<Rightarrow> rx_error_code r = OSSL_QUIC_ERR_NO_ERROR)"

definition rx_received :: "nat \<Rightarrow> rxfcs \<Rightarrow> nat" where
  "rx_received x s = ossl_quic_rxfc_get_swm (the (rx_at s x))"

inductive rx_history :: "clock \<Rightarrow> nat \<Rightarrow> nat set \<Rightarrow> rxfcs \<Rightarrow> bool" for now c where
  conn: "ossl_quic_rxfc_init c None w m s = Some (True, s') \<Longrightarrow> w \<le> m \<Longrightarrow> m < 2 ^ 62 \<Longrightarrow> rx_history now c {} s'"
| stream: "rx_history now c S s \<Longrightarrow> a \<notin> insert c S \<Longrightarrow> w \<le> m \<Longrightarrow> m < 2 ^ 62
    \<Longrightarrow> ossl_quic_rxfc_init a (Some c) w m s = Some (True, s') \<Longrightarrow> rx_history now c (insert a S) s'"
| frame: "rx_history now c S s \<Longrightarrow> a \<in> S \<Longrightarrow> end' < 2 ^ 62
    \<Longrightarrow> ossl_quic_rxfc_on_rx_stream_frame a end' is_fin s = Some (b, s')
    \<Longrightarrow> rx_errorless a s' \<Longrightarrow> rx_errorless c s' \<Longrightarrow> rx_received c s' < 2 ^ 62 \<Longrightarrow> rx_history now c S s'"
| retire: "rx_history now c S s \<Longrightarrow> a \<in> S \<Longrightarrow> n < 2 ^ 62 \<Longrightarrow> ossl_quic_rxfc_on_retire now a n rtt s = Some (b, s')
    \<Longrightarrow> rx_history now c S s'"
| set_max: "rx_history now c S s \<Longrightarrow> x \<in> insert c S \<Longrightarrow> rx_cur_window_size (the (rx_at s x)) \<le> m \<Longrightarrow> m < 2 ^ 62
    \<Longrightarrow> ossl_quic_rxfc_set_max_window_size x m s = Some s' \<Longrightarrow> rx_history now c S s'"
| changed: "rx_history now c S s \<Longrightarrow> x \<in> insert c S \<Longrightarrow> ossl_quic_rxfc_has_cwm_changed x clear s = Some (b, s')
    \<Longrightarrow> rx_history now c S s'"
| error: "rx_history now c S s \<Longrightarrow> x \<in> insert c S \<Longrightarrow> ossl_quic_rxfc_get_error x clear s = Some (e, s')
    \<Longrightarrow> rx_history now c S s'"

definition rx_node :: "nat \<Rightarrow> nat \<Rightarrow> QUIC_RXFC \<Rightarrow> bool" where
  "rx_node c x r \<longleftrightarrow> rx_ok r \<and> rx_error_code r = OSSL_QUIC_ERR_NO_ERROR \<and> \<not> rx_standalone r
     \<and> (if x = c then rx_parent r = None \<and> \<not> rx_is_fin r else rx_parent r = Some c \<and> rx_hwm r = rx_swm r)"

definition rx_inv :: "nat \<Rightarrow> nat set \<Rightarrow> rxfcs \<Rightarrow> bool" where
  "rx_inv c S s \<longleftrightarrow> finite S \<and> c \<notin> S \<and> all_at (insert c S) (rx_node c) (rx_at s)
     \<and> rx_swm (the (rx_at s c)) = sum_at rx_swm S (rx_at s) \<and> rx_rwm (the (rx_at s c)) = sum_at rx_rwm S (rx_at s)"

lemma rx_invE:
  assumes "rx_inv c S s" "x \<in> insert c S"
  obtains r where "rx_at s x = Some r" "rx_node c x r"
  using assms by (auto simp: rx_inv_def elim!: all_atE)

lemma rx_inv_upd:
  assumes inv: "rx_inv c S s" and s': "rx_at s' = (rx_at s)(x \<mapsto> r')"
    and r: "rx_at s x = Some r" "rx_swm r' = rx_swm r" "rx_rwm r' = rx_rwm r" and node: "rx_node c x r'"
  shows "rx_inv c S s'"
proof -
  have "sum_at rx_swm S ((rx_at s)(x \<mapsto> r')) = sum_at rx_swm S (rx_at s)"
    "sum_at rx_rwm S ((rx_at s)(x \<mapsto> r')) = sum_at rx_rwm S (rx_at s)"
    by (rule sum_at_same; use inv r in \<open>simp add: rx_inv_def\<close>)+
  with inv r node show ?thesis by (cases "x = c") (simp_all add: rx_inv_def s' all_at_upd)
qed

text \<open>A change of a stream and of the connection by the same amounts.\<close>

lemma rx_inv_upd2:
  assumes inv: "rx_inv c S s" and a: "a \<in> S" and s': "rx_at s' = (rx_at s)(a \<mapsto> r', c \<mapsto> p')"
    and r: "rx_at s a = Some r" and p: "rx_at s c = Some p"
    and swm: "rx_swm r' + rx_swm p = rx_swm r + rx_swm p'" and rwm: "rx_rwm r' + rx_rwm p = rx_rwm r + rx_rwm p'"
    and node: "rx_node c a r'" "rx_node c c p'"
  shows "rx_inv c S s'"
proof -
  from inv a have ac: "a \<noteq> c" "finite S" "c \<notin> S" by (auto simp: rx_inv_def)
  have "rx_swm p' = sum_at rx_swm S (rx_at s')" "rx_rwm p' = sum_at rx_rwm S (rx_at s')"
    using sum_at_upd [OF ac(2) a, of rx_swm "rx_at s" r'] sum_at_upd [OF ac(2) a, of rx_rwm "rx_at s" r']
      ac r p swm rwm inv by (simp_all add: s' rx_inv_def)
  with inv node show ?thesis by (simp add: rx_inv_def s' all_at_upd)
qed

lemma rx_node_sane: "rx_node c x r \<Longrightarrow> rx_sane r"
  by (simp add: rx_node_def rx_ok_sane)

text \<open>What a stream frame does to the controllers of its stream and of the connection.\<close>

definition frame_effect :: "nat \<Rightarrow> bool \<Rightarrow> QUIC_RXFC \<Rightarrow> QUIC_RXFC \<Rightarrow> QUIC_RXFC \<times> QUIC_RXFC" where
  "frame_effect end' is_fin r p =
     (let r1 = (if is_fin then r\<lparr>rx_is_fin := True\<rparr> else r); delta = end' - rx_hwm r
      in if rx_is_fin r \<and> (is_fin \<and> rx_hwm r \<noteq> end' \<or> end' > rx_hwm r)
         then (r\<lparr>rx_error_code := OSSL_QUIC_ERR_FINAL_SIZE_ERROR\<rparr>, p)
         else if end' > rx_hwm r
         then (snd (on_rx_controlled_bytes delta (r1\<lparr>rx_hwm := end'\<rparr>)), snd (on_rx_controlled_bytes delta p))
         else if end' < rx_hwm r \<and> is_fin then (r1\<lparr>rx_error_code := OSSL_QUIC_ERR_FINAL_SIZE_ERROR\<rparr>, p)
         else (r1, p))"

lemma on_rx_stream_frame_child:
  assumes ac: "a \<noteq> c" and r: "rx_at s a = Some r" and par: "\<not> rx_standalone r" "rx_parent r = Some c" and p: "rx_at s c = Some p"
    and small: "end' < U64"
  shows "ossl_quic_rxfc_on_rx_stream_frame a end' is_fin s =
    Some (True, s\<lparr>rx_at := (rx_at s)(a \<mapsto> fst (frame_effect end' is_fin r p), c \<mapsto> snd (frame_effect end' is_fin r p))\<rparr>)"
proof -
  have triv: "(rx_at s)(a \<mapsto> r', c \<mapsto> p) = (rx_at s)(a \<mapsto> r')" for r'
    using ac p by (auto simp: fun_eq_iff)
  have triv': "s\<lparr>rx_at := (rx_at s)(a \<mapsto> r, c \<mapsto> p)\<rparr> = s" using r p by (simp add: map_upd_triv)
  consider (fin) "rx_is_fin r \<and> (is_fin \<and> rx_hwm r \<noteq> end' \<or> end' > rx_hwm r)"
    | (more) "\<not> (rx_is_fin r \<and> (is_fin \<and> rx_hwm r \<noteq> end' \<or> end' > rx_hwm r))" "end' > rx_hwm r"
    | (less) "\<not> rx_is_fin r" "end' < rx_hwm r" "is_fin"
    | (old) "\<not> (rx_is_fin r \<and> (is_fin \<and> rx_hwm r \<noteq> end' \<or> end' > rx_hwm r))"
        "\<not> end' > rx_hwm r" "\<not> (end' < rx_hwm r \<and> is_fin)" by linarith
  then show ?thesis
  proof cases
    case fin
    then show ?thesis
      using r par triv by (simp add: ossl_quic_rxfc_on_rx_stream_frame_def rx_update_def frame_effect_def Let_def)
  next
    case more
    then have "u64_sub end' (rx_hwm r) = end' - rx_hwm r" using small by (simp add: u64_sub_exact)
    with more show ?thesis
      using r par p ac
      by (cases is_fin) (simp_all add: ossl_quic_rxfc_on_rx_stream_frame_def rx_update_def frame_effect_def Let_def)
  next
    case less
    then show ?thesis
      using r par triv by (simp add: ossl_quic_rxfc_on_rx_stream_frame_def rx_update_def frame_effect_def Let_def)
  next
    case old
    then show ?thesis
      using r par triv triv'
      by (cases is_fin) (simp_all del: fun_upd_apply add: ossl_quic_rxfc_on_rx_stream_frame_def rx_update_def frame_effect_def Let_def)
  qed
qed

lemma on_rx_stream_frame_eq:
  assumes "a \<noteq> c" "rx_at s a = Some r" "rx_node c a r" "rx_at s c = Some p" "end' < 2 ^ 62"
  shows "ossl_quic_rxfc_on_rx_stream_frame a end' is_fin s =
    Some (True, s\<lparr>rx_at := (rx_at s)(a \<mapsto> fst (frame_effect end' is_fin r p), c \<mapsto> snd (frame_effect end' is_fin r p))\<rparr>)"
  using assms by (intro on_rx_stream_frame_child) (simp_all add: rx_node_def)

lemma rx_inv_frame:
  assumes inv: "rx_inv c S s" and a: "a \<in> S" and small: "end' < 2 ^ 62"
    and frame: "ossl_quic_rxfc_on_rx_stream_frame a end' is_fin s = Some (b, s')"
    and noerr: "rx_errorless a s'" "rx_errorless c s'" and sum: "rx_received c s' < 2 ^ 62"
  shows "rx_inv c S s'"
proof -
  from inv a have ac: "a \<noteq> c" by (auto simp: rx_inv_def)
  obtain r where r: "rx_at s a = Some r" "rx_node c a r" by (rule rx_invE [OF inv insertI2 [OF a]])
  obtain p where p: "rx_at s c = Some p" "rx_node c c p" by (rule rx_invE [OF inv insertI1])
  define r1 where "r1 = (if is_fin then r\<lparr>rx_is_fin := True\<rparr> else r)"
  obtain r' p' where eff: "frame_effect end' is_fin r p = (r', p')" by fastforce
  have s': "rx_at s' = (rx_at s)(a \<mapsto> r', c \<mapsto> p')"
    using frame unfolding on_rx_stream_frame_eq [OF ac r p(1) small] eff by auto
  have err: "rx_error_code r' = 0" "rx_error_code p' = 0" using noerr ac by (simp_all add: rx_errorless_def s')
  have final: "\<not> (rx_is_fin r \<and> (is_fin \<and> rx_hwm r \<noteq> end' \<or> end' > rx_hwm r))"
    using err(1) by (rule contrapos_pn) (use eff in \<open>auto simp: frame_effect_def\<close>)
  show ?thesis
  proof (cases "end' > rx_hwm r")
    case True
    define d where "d = end' - rx_hwm r"
    have r'_def: "r' = snd (on_rx_controlled_bytes d (r1\<lparr>rx_hwm := end'\<rparr>))" and p'_def: "p' = snd (on_rx_controlled_bytes d p)"
      using eff final True by (simp_all add: frame_effect_def d_def r1_def Let_def)
    have sane: "rx_sane (r1\<lparr>rx_hwm := end'\<rparr>)" "rx_sane p" "rx_swm r1 = rx_swm r" "rx_cwm r1 = rx_cwm r"
      using rx_node_sane [OF r(2)] rx_node_sane [OF p(2)] by (simp_all add: r1_def rx_sane_def)
    have within: "rx_swm r + d \<le> rx_cwm r" "rx_swm p + d \<le> rx_cwm p"
      using err sane(3,4) unfolding r'_def p'_def
      by (simp_all add: on_rx_controlled_bytes_eq sane(1,2) split: if_splits)
    then have r': "r' = r1\<lparr>rx_hwm := end', rx_swm := end'\<rparr>" and p': "p' = p\<lparr>rx_swm := rx_swm p + d\<rparr>"
      using sane r(2) True ac unfolding r'_def p'_def
      by (simp_all add: on_rx_controlled_bytes_eq rx_node_def d_def)
    have hwm: "rx_hwm r = rx_swm r" using r(2) ac by (simp add: rx_node_def)
    have "rx_node c a r'" using r(2) ac small within hwm d_def True unfolding r' r1_def rx_node_def rx_ok_def by auto
    moreover have "rx_node c c p'" using p(2) sum within(2) by (simp add: rx_node_def rx_ok_def p' s' rx_received_def ossl_quic_rxfc_get_swm_def)
    ultimately show ?thesis
      using hwm d_def True by (intro rx_inv_upd2 [OF inv a s' r(1) p(1)]) (simp_all add: r' p' r1_def)
  next
    case False
    have "\<not> (end' < rx_hwm r \<and> is_fin)"
      using err(1) by (rule contrapos_pn) (use eff final False in \<open>auto simp: frame_effect_def\<close>)
    with final False have "frame_effect end' is_fin r p = (r1, p)"
      unfolding frame_effect_def Let_def r1_def by (simp only: if_False if_not_P)
    with eff have "r' = r1" "p' = p" by simp_all
    then show ?thesis
      by (intro rx_inv_upd2 [OF inv a s' r(1) p(1)]) (use r(2) p(2) ac in \<open>auto simp: r1_def rx_node_def rx_ok_def\<close>)
  qed
qed

lemma rx_inv_retire:
  assumes inv: "rx_inv c S s" and a: "a \<in> S" and n: "n < 2 ^ 62"
    and retire: "ossl_quic_rxfc_on_retire now a n rtt s = Some (b, s')"
  shows "rx_inv c S s'"
proof -
  from inv a have ac: "a \<noteq> c" "finite S" by (auto simp: rx_inv_def)
  obtain r where r: "rx_at s a = Some r" "rx_node c a r" by (rule rx_invE [OF inv insertI2 [OF a]])
  obtain p where p: "rx_at s c = Some p" "rx_node c c p" by (rule rx_invE [OF inv insertI1])
  have rok: "rx_ok r" and pok: "rx_ok p" using r p by (simp_all add: rx_node_def)
  have wrap: "u64_add (rx_rwm r) n = rx_rwm r + n" using rok n by (simp add: rx_ok_def u64_add_exact)
  show ?thesis
  proof (cases "n = 0 \<or> rx_rwm r + n > rx_swm r")
    case True
    then have "s' = s" using retire r ac by (auto simp: ossl_quic_rxfc_on_retire_def rx_node_def wrap split: if_splits)
    with inv show ?thesis by simp
  next
    case False
    obtain i r' where r': "rxfc_on_retire now n 0 rtt (rx_calls s, r) = (i, r')" by fastforce
    obtain j p' where p': "rxfc_on_retire now n (rx_cur_window_size r') rtt (i, p) = (j, p')" by fastforce
    have "rx_rwm r + n \<le> rx_swm r" using False by simp
    note rr = rxfc_on_retire_ok [OF rok this r']
    have "rx_rwm (the (rx_at s x)) \<le> rx_swm (the (rx_at s x))" if "x \<in> S" for x
      by (rule rx_invE [OF inv insertI2 [OF that]]) (simp add: rx_node_def rx_ok_def)
    from sum_at_mono_diff [where f = rx_rwm and g = rx_swm and h = "rx_at s", OF ac(2) a this]
    have "rx_rwm p + n \<le> rx_swm p" using False inv r(1) p(1) rok by (auto simp: rx_inv_def rx_ok_def)
    note pp = rxfc_on_retire_ok [OF pok this p']
    have "rx_at s' = (rx_at s)(a \<mapsto> r', c \<mapsto> p')"
      using retire False r(1) r(2) p(1) r' p' rr ac
      by (auto simp: ossl_quic_rxfc_on_retire_def rx_node_def wrap rx_retire_at_def)
    then show ?thesis
      by (rule rx_inv_upd2 [OF inv a _ r(1) p(1)]) (use rr pp r(2) p(2) ac in \<open>simp_all add: rx_node_def\<close>)
  qed
qed

lemma rx_history_inv: "rx_history now c S s \<Longrightarrow> rx_inv c S s"
proof (induction rule: rx_history.induct)
  case (conn w m s s')
  then show ?case
    by (auto simp: ossl_quic_rxfc_init_def rx_inv_def rx_node_def rx_ok_def all_at_def)
next
  case (stream S s a w m s')
  then obtain r where s': "rx_at s' = (rx_at s)(a \<mapsto> r)" and r: "rx_node c a r" "rx_swm r = 0" "rx_rwm r = 0"
    by (auto simp: ossl_quic_rxfc_init_def bind_eq_Some_conv rx_node_def rx_ok_def split: if_splits)
  from r(1) stream.IH have "all_at (insert c (insert a S)) (rx_node c) ((rx_at s)(a \<mapsto> r))"
    unfolding rx_inv_def insert_commute [of c a] by blast
  moreover have "sum_at rx_swm (insert a S) ((rx_at s)(a \<mapsto> r)) = sum_at rx_swm S (rx_at s)"
    "sum_at rx_rwm (insert a S) ((rx_at s)(a \<mapsto> r)) = sum_at rx_rwm S (rx_at s)"
    using stream.IH stream.hyps(2) r by (simp_all add: rx_inv_def)
  ultimately show ?case using stream.IH stream.hyps(2) by (simp add: rx_inv_def s')
next
  case (frame S s a end' is_fin b s')
  then show ?case using rx_inv_frame by blast
next
  case (retire S s a n rtt b s')
  then show ?case using rx_inv_retire by blast
next
  case (set_max S s x m s')
  obtain r where r: "rx_at s x = Some r" "rx_node c x r" by (rule rx_invE [OF set_max.IH set_max.hyps(2)])
  have "rx_at s' = (rx_at s)(x \<mapsto> r\<lparr>rx_max_window_size := m\<rparr>)"
    using set_max.hyps(5) r(1) by (auto simp: ossl_quic_rxfc_set_max_window_size_def rx_update_def)
  then show ?case
    by (rule rx_inv_upd [OF set_max.IH _ r(1)]) (use set_max.hyps(3,4) r in \<open>auto simp: rx_node_def rx_ok_def\<close>)
next
  case (changed S s x clear b s')
  obtain r where r: "rx_at s x = Some r" "rx_node c x r" by (rule rx_invE [OF changed.IH changed.hyps(2)])
  have "rx_at s' = (rx_at s)(x \<mapsto> if clear then r\<lparr>rx_has_cwm_changed := False\<rparr> else r)"
    using changed.hyps(3) r(1)
    by (auto simp: ossl_quic_rxfc_has_cwm_changed_def rx_update_def map_upd_triv split: if_splits)
  then show ?case
    by (rule rx_inv_upd [OF changed.IH _ r(1)]) (use r(2) in \<open>auto simp: rx_node_def rx_ok_def\<close>)
next
  case (error S s x clear e s')
  obtain r where r: "rx_at s x = Some r" "rx_node c x r" by (rule rx_invE [OF error.IH error.hyps(2)])
  have "rx_at s' = (rx_at s)(x \<mapsto> if clear then r\<lparr>rx_error_code := 0\<rparr> else r)"
    using error.hyps(3) r(1)
    by (auto simp: ossl_quic_rxfc_get_error_def rx_update_def map_upd_triv split: if_splits)
  then show ?case
    by (rule rx_inv_upd [OF error.IH _ r(1)]) (use r(2) in \<open>auto simp: rx_node_def rx_ok_def\<close>)
qed

lemma rx_inv_sum_hwm:
  assumes inv: "rx_inv c S s"
  shows "rx_swm (the (rx_at s c)) = (\<Sum>a\<in>S. rx_hwm (the (rx_at s a)))"
proof -
  have "rx_swm (the (rx_at s a)) = rx_hwm (the (rx_at s a))" if "a \<in> S" for a
  proof (rule rx_invE [OF inv insertI2 [OF that]])
    fix r assume "rx_at s a = Some r" "rx_node c a r"
    moreover have "a \<noteq> c" using inv that by (auto simp: rx_inv_def)
    ultimately show ?thesis by (simp add: rx_node_def)
  qed
  then have "sum_at rx_swm S (rx_at s) = (\<Sum>a\<in>S. rx_hwm (the (rx_at s a)))"
    unfolding sum_at_def by (intro sum.cong) auto
  with inv show ?thesis by (simp add: rx_inv_def)
qed

lemma frame_effect_errors:
  assumes r: "rx_node c a r" "a \<noteq> c" and p: "rx_node c c p"
  shows "rx_error_code (fst (frame_effect end' is_fin r p)) =
      (if rx_is_fin r \<and> (end' > rx_hwm r \<or> is_fin \<and> end' \<noteq> rx_hwm r) \<or> \<not> rx_is_fin r \<and> is_fin \<and> end' < rx_hwm r
       then OSSL_QUIC_ERR_FINAL_SIZE_ERROR
       else if end' > rx_cwm r then OSSL_QUIC_ERR_FLOW_CONTROL_ERROR else OSSL_QUIC_ERR_NO_ERROR)
    \<and> rx_error_code (snd (frame_effect end' is_fin r p)) =
      (if \<not> (rx_is_fin r \<and> end' > rx_hwm r) \<and> rx_swm p + (end' - rx_hwm r) > rx_cwm p
       then OSSL_QUIC_ERR_FLOW_CONTROL_ERROR else OSSL_QUIC_ERR_NO_ERROR)"
proof -
  define r1 where "r1 = (if is_fin then r\<lparr>rx_is_fin := True\<rparr> else r)"
  have "rx_sane (r1\<lparr>rx_hwm := end'\<rparr>)" using rx_node_sane [OF r(1)] by (simp add: r1_def rx_sane_def)
  note counted = on_rx_controlled_bytes_eq [OF this] on_rx_controlled_bytes_eq [OF rx_node_sane [OF p]]
  have node: "rx_error_code r = 0" "rx_error_code p = 0" "rx_hwm r = rx_swm r" "rx_swm r \<le> rx_cwm r" "rx_swm p \<le> rx_cwm p"
    "rx_error_code r1 = 0" "rx_swm r1 = rx_swm r" "rx_cwm r1 = rx_cwm r"
    using r p by (simp_all add: rx_node_def rx_ok_def r1_def)
  show ?thesis
    unfolding frame_effect_def Let_def r1_def [symmetric] counted using node by auto
qed

text \<open>A connection with a window of 100 bytes and a stream with one of 50: 45 bytes arrive, and all are retired.\<close>

definition example_clock :: clock where "example_clock i = 1000 * (i + 1)"

definition example_rx0 :: rxfcs where
  "example_rx0 = snd (the (ossl_quic_rxfc_init 0 None 100 1000 \<lparr>rx_at = Map.empty, rx_calls = 0\<rparr>))"

definition example_rx1 :: rxfcs where
  "example_rx1 = snd (the (ossl_quic_rxfc_init 1 (Some 0) 50 500 example_rx0))"

definition example_rx2 :: rxfcs where
  "example_rx2 = snd (the (ossl_quic_rxfc_on_rx_stream_frame 1 45 False example_rx1))"

definition example_rx3 :: rxfcs where
  "example_rx3 = snd (the (ossl_quic_rxfc_on_retire example_clock 1 45 2000 example_rx2))"

lemma the_pair_eq: "x \<noteq> None \<Longrightarrow> x = Some (fst (the x), snd (the x))"
  by auto

lemma example_rx2_history: "rx_history example_clock 0 {1} example_rx2"
proof -
  have "ossl_quic_rxfc_init 0 None 100 1000 \<lparr>rx_at = Map.empty, rx_calls = 0\<rparr> = Some (True, example_rx0)"
    by (simp add: example_rx0_def ossl_quic_rxfc_init_def)
  then have h0: "rx_history example_clock 0 {} example_rx0" by (rule rx_history.conn) simp_all
  have "ossl_quic_rxfc_init 1 (Some 0) 50 500 example_rx0 = Some (True, example_rx1)"
    by (simp add: example_rx0_def example_rx1_def ossl_quic_rxfc_init_def)
  then have h1: "rx_history example_clock 0 {1} example_rx1" by (rule rx_history.stream [OF h0, rotated -1]) simp_all
  have "ossl_quic_rxfc_on_rx_stream_frame 1 45 False example_rx1 \<noteq> None" by code_simp
  note frame = the_pair_eq [OF this, folded example_rx2_def]
  have ok: "rx_errorless 1 example_rx2" "rx_errorless 0 example_rx2" "rx_received 0 example_rx2 < 2 ^ 62" by code_simp+
  show ?thesis by (rule rx_history.frame [OF h1 _ _ frame ok]) simp_all
qed

lemma example_rx3_history: "rx_history example_clock 0 {1} example_rx3"
proof -
  have "ossl_quic_rxfc_on_retire example_clock 1 45 2000 example_rx2 \<noteq> None" by code_simp
  from rx_history.retire [OF example_rx2_history _ _ the_pair_eq [OF this, folded example_rx3_def]]
  show ?thesis by simp
qed

text \<open>
  C33.  Received data stay within the windows.  After any history without an error, on every stream and on the
  connection, the bytes retired are at most those received, those at most the limit that was advertised, and the limit
  is at most one current window, itself at most the maximum window, beyond the bytes retired; so the data the
  application has not read yet fit in the maximum window.  The connection has counted exactly what its streams have
  received and retired, and the received count of a stream is its highest offset.
\<close>

theorem rxfc_window_bound:
  assumes "rx_history now c S s"
  shows "(\<forall>x\<in>insert c S. \<exists>r. rx_at s x = Some r
            \<and> ossl_quic_rxfc_get_rwm r \<le> ossl_quic_rxfc_get_swm r \<and> ossl_quic_rxfc_get_swm r \<le> ossl_quic_rxfc_get_cwm r
            \<and> ossl_quic_rxfc_get_cwm r \<le> ossl_quic_rxfc_get_rwm r + rx_cur_window_size r
            \<and> ossl_quic_rxfc_get_swm r - ossl_quic_rxfc_get_rwm r \<le> rx_max_window_size r)
    \<and> ossl_quic_rxfc_get_swm (the (rx_at s c)) = (\<Sum>a\<in>S. rx_hwm (the (rx_at s a)))
    \<and> ossl_quic_rxfc_get_rwm (the (rx_at s c)) = (\<Sum>a\<in>S. ossl_quic_rxfc_get_rwm (the (rx_at s a)))"
proof -
  note inv = rx_history_inv [OF assms]
  have nodes: "\<exists>r. rx_at s x = Some r \<and> rx_rwm r \<le> rx_swm r \<and> rx_swm r \<le> rx_cwm r
      \<and> rx_cwm r \<le> rx_rwm r + rx_cur_window_size r \<and> rx_swm r - rx_rwm r \<le> rx_max_window_size r"
    if "x \<in> insert c S" for x
    by (rule rx_invE [OF inv that]) (auto simp: rx_node_def rx_ok_def)
  with nodes rx_inv_sum_hwm [OF inv] inv show ?thesis
    by (simp add: rx_inv_def sum_at_def ossl_quic_rxfc_get_swm_def ossl_quic_rxfc_get_rwm_def ossl_quic_rxfc_get_cwm_def)
qed

theorem rxfc_window_bound_witness:
  "rx_history example_clock 0 {1} example_rx2
   \<and> ossl_quic_rxfc_get_swm (the (rx_at example_rx2 0)) = rx_hwm (the (rx_at example_rx2 1))
   \<and> rx_hwm (the (rx_at example_rx2 1)) = 45"
proof -
  have "rx_hwm (the (rx_at example_rx2 1)) = 45" by code_simp
  with rxfc_window_bound [OF example_rx2_history] example_rx2_history show ?thesis by simp
qed

text \<open>
  C34.  Limits are enforced.  In a state reached without an error, a frame that ends at \<open>end'\<close> gives the stream the
  error \<open>FINAL_SIZE_ERROR\<close> exactly when it contradicts the final size: one is known and the frame goes beyond it or
  names another, or the frame names one below what was received.  Otherwise it gives \<open>FLOW_CONTROL_ERROR\<close> on the
  stream exactly when it ends beyond the stream's limit, and on the connection exactly when the new bytes take the sum
  over the streams beyond the connection's limit.
\<close>

theorem rxfc_frame_errors:
  assumes hist: "rx_history now c S s" and a: "a \<in> S" and small: "end' < 2 ^ 62"
    and r: "rx_at s a = Some r" and p: "rx_at s c = Some p"
  shows "\<exists>s' r' p'. ossl_quic_rxfc_on_rx_stream_frame a end' is_fin s = Some (True, s')
    \<and> rx_at s' a = Some r' \<and> rx_at s' c = Some p'
    \<and> rx_error_code r' =
        (if (case ossl_quic_rxfc_get_final_size r of
               None \<Rightarrow> is_fin \<and> end' < rx_hwm r | Some final_size \<Rightarrow> end' > final_size \<or> is_fin \<and> end' \<noteq> final_size)
         then OSSL_QUIC_ERR_FINAL_SIZE_ERROR
         else if end' > rx_cwm r then OSSL_QUIC_ERR_FLOW_CONTROL_ERROR else OSSL_QUIC_ERR_NO_ERROR)
    \<and> rx_error_code p' =
        (if \<not> (rx_is_fin r \<and> end' > rx_hwm r) \<and> (\<Sum>x\<in>S. rx_hwm (the (rx_at s x))) + (end' - rx_hwm r) > rx_cwm p
         then OSSL_QUIC_ERR_FLOW_CONTROL_ERROR else OSSL_QUIC_ERR_NO_ERROR)"
proof -
  note inv = rx_history_inv [OF hist]
  have ac: "a \<noteq> c" using inv a by (auto simp: rx_inv_def)
  have rn: "rx_node c a r" by (rule rx_invE [OF inv insertI2 [OF a]]) (use r in simp)
  have pn: "rx_node c c p" by (rule rx_invE [OF inv insertI1]) (use p in simp)
  have sum: "(\<Sum>x\<in>S. rx_hwm (the (rx_at s x))) = rx_swm p"
    using rx_inv_sum_hwm [OF inv] p by simp
  note errors = frame_effect_errors [OF rn ac pn, of end' is_fin]
  show ?thesis
    unfolding on_rx_stream_frame_eq [OF ac r rn p small] sum
    using ac errors by (auto simp: ossl_quic_rxfc_get_final_size_def)
qed

theorem rxfc_frame_errors_witness:
  "\<exists>s' r' p'. ossl_quic_rxfc_on_rx_stream_frame 1 51 False example_rx2 = Some (True, s')
    \<and> rx_at s' 1 = Some r' \<and> rx_at s' 0 = Some p'
    \<and> rx_error_code r' = OSSL_QUIC_ERR_FLOW_CONTROL_ERROR \<and> rx_error_code p' = OSSL_QUIC_ERR_NO_ERROR"
proof -
  define r p where "r = the (rx_at example_rx2 1)" and "p = the (rx_at example_rx2 0)"
  have "rx_at example_rx2 1 \<noteq> None" "rx_at example_rx2 0 \<noteq> None" by code_simp+
  then have at: "rx_at example_rx2 1 = Some r" "rx_at example_rx2 0 = Some p" by (auto simp: r_def p_def)
  have r: "ossl_quic_rxfc_get_final_size r = None" "rx_is_fin r = False" "rx_hwm r = 45" "rx_cwm r = 50" "rx_cwm p = 100"
    unfolding r_def p_def by code_simp+
  show ?thesis
    using rxfc_frame_errors [OF example_rx2_history, of 1 51 r p False] at r by simp
qed

text \<open>
  C35.  Credit comes back.  After any history without an error, a stream whose final size is not known, and whose
  received bytes have all been retired, lets the peer send at least three quarters of its window, whatever the clock
  and the round-trip times were; and so does the connection once this holds for the received bytes of every stream.
\<close>

theorem rxfc_credit_returns:
  assumes "rx_history now c S s"
  shows "(\<forall>a\<in>S. \<exists>r. rx_at s a = Some r \<and> (ossl_quic_rxfc_get_final_size r = None
            \<longrightarrow> ossl_quic_rxfc_get_rwm r = ossl_quic_rxfc_get_swm r
            \<longrightarrow> 3 * rx_cur_window_size r \<le> 4 * ossl_quic_rxfc_get_credit r))
    \<and> (\<exists>p. rx_at s c = Some p
        \<and> ((\<forall>a\<in>S. \<exists>r. rx_at s a = Some r \<and> ossl_quic_rxfc_get_rwm r = ossl_quic_rxfc_get_swm r)
             \<longrightarrow> 3 * rx_cur_window_size p \<le> 4 * ossl_quic_rxfc_get_credit p))"
proof -
  note inv = rx_history_inv [OF assms]
  have credit: "3 * rx_cur_window_size r \<le> 4 * ossl_quic_rxfc_get_credit r"
    if "rx_node c x r" "\<not> rx_is_fin r" "rx_rwm r = rx_swm r" for x r
    using that
    by (simp add: ossl_quic_rxfc_get_credit_def ossl_quic_rxfc_get_cwm_def ossl_quic_rxfc_get_swm_def
        rx_node_def rx_ok_def u64_sub_exact)
  obtain p where p: "rx_at s c = Some p" "rx_node c c p" by (rule rx_invE [OF inv insertI1])
  have all: "rx_rwm p = rx_swm p" if "\<forall>a\<in>S. \<exists>r. rx_at s a = Some r \<and> rx_rwm r = rx_swm r"
  proof -
    have "sum_at rx_rwm S (rx_at s) = sum_at rx_swm S (rx_at s)"
      unfolding sum_at_def by (intro sum.cong) (use that in auto)
    with inv p show ?thesis by (simp add: rx_inv_def)
  qed
  have "\<exists>r. rx_at s a = Some r \<and> (ossl_quic_rxfc_get_final_size r = None
            \<longrightarrow> ossl_quic_rxfc_get_rwm r = ossl_quic_rxfc_get_swm r
            \<longrightarrow> 3 * rx_cur_window_size r \<le> 4 * ossl_quic_rxfc_get_credit r)" if "a \<in> S" for a
    by (rule rx_invE [OF inv insertI2 [OF that]])
      (auto simp: ossl_quic_rxfc_get_final_size_def ossl_quic_rxfc_get_rwm_def ossl_quic_rxfc_get_swm_def intro: credit)
  moreover have "\<not> rx_is_fin p" using p by (simp add: rx_node_def)
  ultimately show ?thesis
    using p all credit [OF p(2)] by (simp add: ossl_quic_rxfc_get_rwm_def ossl_quic_rxfc_get_swm_def)
qed

theorem rxfc_credit_returns_witness:
  "\<exists>r p. rx_at example_rx3 1 = Some r \<and> rx_at example_rx3 0 = Some p
    \<and> 3 * rx_cur_window_size r \<le> 4 * ossl_quic_rxfc_get_credit r \<and> 3 * rx_cur_window_size p \<le> 4 * ossl_quic_rxfc_get_credit p
    \<and> rx_cur_window_size r = 100"
proof -
  have facts: "rx_at example_rx3 1 \<noteq> None" "ossl_quic_rxfc_get_final_size (the (rx_at example_rx3 1)) = None"
    "ossl_quic_rxfc_get_rwm (the (rx_at example_rx3 1)) = ossl_quic_rxfc_get_swm (the (rx_at example_rx3 1))"
    "rx_cur_window_size (the (rx_at example_rx3 1)) = 100" by code_simp+
  show ?thesis using rxfc_credit_returns [OF example_rx3_history] facts by auto
qed

end
