(* ===== verification/Quic_Statm.thy ===== *)
theory Quic_Statm
  imports Ossl_Time
begin

text \<open>
  The round-trip time estimator of \<open>ssl/quic/quic_statm.c\<close>: the smoothed round-trip time, its variance and the
  minimum, updated with every sample.  The history theorem bounds the estimates by the samples seen.
\<close>

record OSSL_STATM =
  smoothed_rtt :: ossl_time
  latest_rtt :: ossl_time
  min_rtt :: ossl_time
  rtt_variance :: ossl_time
  have_first_sample :: bool

record OSSL_RTT_INFO =
  info_smoothed_rtt :: ossl_time
  info_latest_rtt :: ossl_time
  info_rtt_variance :: ossl_time
  info_min_rtt :: ossl_time

definition ossl_statm_update_rtt :: "ossl_time \<Rightarrow> ossl_time \<Rightarrow> OSSL_STATM \<Rightarrow> OSSL_STATM" where
  "ossl_statm_update_rtt ack_delay override_latest_rtt statm =
     (let latest = override_latest_rtt;
          (latest, statm) = (if ossl_time_is_zero latest then (latest_rtt statm, statm)
                             else (latest, statm\<lparr>latest_rtt := latest\<rparr>))
      in if \<not> have_first_sample statm
         then statm\<lparr>min_rtt := latest, smoothed_rtt := latest, rtt_variance := ossl_time_divide latest 2,
                    have_first_sample := True\<rparr>
         else
           let statm = (if ossl_time_compare latest (min_rtt statm) < 0 then statm\<lparr>min_rtt := latest\<rparr> else statm);
               adjusted_rtt = (if ossl_time_compare latest (ossl_time_add (min_rtt statm) ack_delay) \<ge> 0
                               then ossl_time_subtract latest ack_delay else latest);
               statm = statm\<lparr>rtt_variance := ossl_time_divide (ossl_time_add (ossl_time_multiply (rtt_variance statm) 3)
                                (ossl_time_abs_difference (smoothed_rtt statm) adjusted_rtt)) 4\<rparr>
           in statm\<lparr>smoothed_rtt := ossl_time_divide (ossl_time_add (ossl_time_multiply (smoothed_rtt statm) 7)
                                adjusted_rtt) 8\<rparr>)"

definition K_INITIAL_RTT :: ossl_time where
  "K_INITIAL_RTT = ossl_ms2time 333"

definition ossl_statm_init :: OSSL_STATM where
  "ossl_statm_init = \<lparr>smoothed_rtt = K_INITIAL_RTT, latest_rtt = ossl_time_zero, min_rtt = ossl_time_infinite,
     rtt_variance = ossl_time_divide K_INITIAL_RTT 2, have_first_sample = False\<rparr>"

definition ossl_statm_get_rtt_info :: "OSSL_STATM \<Rightarrow> OSSL_RTT_INFO" where
  "ossl_statm_get_rtt_info statm = \<lparr>info_smoothed_rtt = smoothed_rtt statm, info_latest_rtt = latest_rtt statm,
     info_rtt_variance = rtt_variance statm, info_min_rtt = min_rtt statm\<rparr>"

section \<open>The estimates stay within the samples\<close>

text \<open>
  A sample is the acknowledgement delay and the measured round-trip time.  A time of zero stands for the latest
  measurement, which is zero itself before the first one.
\<close>

definition statm_run :: "(ossl_time \<times> ossl_time) list \<Rightarrow> OSSL_STATM" where
  "statm_run samples = fold (\<lambda>(d, r). ossl_statm_update_rtt d r) samples ossl_statm_init"

fun effective_rtts :: "ossl_time \<Rightarrow> (ossl_time \<times> ossl_time) list \<Rightarrow> ossl_time list" where
  "effective_rtts latest [] = []"
| "effective_rtts latest ((d, r) # samples) =
     (let rtt = (if r = 0 then latest else r) in rtt # effective_rtts rtt samples)"

definition statm_within :: "ossl_time \<Rightarrow> ossl_time \<Rightarrow> ossl_time \<Rightarrow> OSSL_STATM \<Rightarrow> bool" where
  "statm_within lo hi l s \<longleftrightarrow> have_first_sample s \<and> min_rtt s = lo \<and> latest_rtt s = l
     \<and> lo \<le> smoothed_rtt s \<and> smoothed_rtt s \<le> hi \<and> rtt_variance s \<le> hi"

lemma ossl_time_compare_sign:
  "ossl_time_compare a b < 0 \<longleftrightarrow> a < b" "ossl_time_compare a b \<ge> 0 \<longleftrightarrow> a \<ge> b"
  by (simp_all add: ossl_time_compare_def)

lemma statm_within_first: "statm_within r r r (ossl_statm_update_rtt d r ossl_statm_init)"
  by (simp add: statm_within_def ossl_statm_update_rtt_def ossl_statm_init_def time_simps)

lemma statm_within_update:
  assumes s: "statm_within lo hi l s" and d: "d < U64" and e: "e = (if r = 0 then l else r)" and hi: "max hi e \<le> 2 ^ 60" and lo: "lo \<le> hi"
  shows "statm_within (min lo e) (max hi e) e (ossl_statm_update_rtt d r s)"
proof -
  define m adj where "m = min lo e" and "adj = (if e \<ge> min (m + d) UINT64_MAX then e - d else e)"
  have adj: "m \<le> adj" "adj \<le> max hi e" using hi by (auto simp: adj_def m_def min_def split: if_splits)
  have U: "e < U64" "m < U64" "smoothed_rtt s < U64" "rtt_variance s < U64" "adj < U64"
    using s hi lo adj by (auto simp: statm_within_def m_def)
  define diff where "diff = (if smoothed_rtt s > adj then smoothed_rtt s - adj else adj - smoothed_rtt s)"
  have bounds: "3 * rtt_variance s + diff < U64" "7 * smoothed_rtt s + adj < U64" "3 * rtt_variance s + diff \<le> 4 * max hi e"
    using s hi adj by (auto simp: statm_within_def diff_def)
  have "ossl_time_divide (ossl_time_add (ossl_time_multiply (rtt_variance s) 3) (ossl_time_abs_difference (smoothed_rtt s) adj)) 4
      = (3 * rtt_variance s + diff) div 4"
    using U bounds(1) by (simp add: time_simps diff_def mult.commute)
  moreover have "ossl_time_divide (ossl_time_add (ossl_time_multiply (smoothed_rtt s) 7) adj) 8 = (7 * smoothed_rtt s + adj) div 8"
    using U bounds(2) by (simp add: time_simps mult.commute)
  moreover have "(if ossl_time_compare e (ossl_time_add m d) \<ge> 0 then ossl_time_subtract e d else e) = adj"
    using U d by (simp add: ossl_time_compare_sign time_simps adj_def)
  moreover have "(if ossl_time_is_zero r then (latest_rtt s, s) else (r, s\<lparr>latest_rtt := r\<rparr>)) = (e, s\<lparr>latest_rtt := e\<rparr>)"
    using s e by (simp add: ossl_time_is_zero_iff statm_within_def)
  ultimately have "ossl_statm_update_rtt d r s = s\<lparr>latest_rtt := e, min_rtt := m,
      rtt_variance := (3 * rtt_variance s + diff) div 4, smoothed_rtt := (7 * smoothed_rtt s + adj) div 8\<rparr>"
    using s unfolding ossl_statm_update_rtt_def statm_within_def
    by (cases "e < lo") (simp_all add: m_def ossl_time_compare_sign)
  with s adj bounds(3) show ?thesis by (auto simp: statm_within_def m_def)
qed

lemma statm_within_fold:
  assumes "statm_within lo hi l s" "lo \<le> l" "l \<le> hi" "hi \<le> 2 ^ 60" "\<forall>(d, r)\<in>set samples. d < U64 \<and> r \<le> 2 ^ 60"
  shows "statm_within (fold min (effective_rtts l samples) lo) (fold max (effective_rtts l samples) hi)
    (last (l # effective_rtts l samples)) (fold (\<lambda>(d, r). ossl_statm_update_rtt d r) samples s)"
  using assms
proof (induction samples arbitrary: lo hi l s)
  case (Cons x samples)
  obtain d r where x: "x = (d, r)" by fastforce
  define e where "e = (if r = 0 then l else r)"
  have e: "max hi e \<le> 2 ^ 60" "lo \<le> hi" "d < U64" using Cons.prems x by (auto simp: e_def)
  have "statm_within (min lo e) (max hi e) e (ossl_statm_update_rtt d r s)"
    by (rule statm_within_update [OF Cons.prems(1) e(3) e_def e(1,2)])
  from Cons.IH [OF this] e Cons.prems(5) show ?case by (simp add: x e_def Let_def min.commute max.commute)
qed simp

lemma statm_run_within:
  assumes "samples \<noteq> []" "\<forall>(d, r)\<in>set samples. d < U64 \<and> r \<le> 2 ^ 60"
  defines "rtts \<equiv> effective_rtts 0 samples"
  shows "statm_within (Min (set rtts)) (Max (set rtts)) (last rtts) (statm_run samples)"
proof -
  obtain d r ss where ss: "samples = (d, r) # ss" using assms(1) by (cases samples) auto
  have rtts: "rtts = r # effective_rtts r ss" by (simp add: rtts_def ss)
  have "statm_within (fold min (effective_rtts r ss) r) (fold max (effective_rtts r ss) r) (last (r # effective_rtts r ss))
      (fold (\<lambda>(d, r). ossl_statm_update_rtt d r) ss (ossl_statm_update_rtt d r ossl_statm_init))"
    using assms(2) ss by (intro statm_within_fold [OF statm_within_first]) auto
  then show ?thesis unfolding rtts statm_run_def ss by (simp only: Min.set_eq_fold Max.set_eq_fold fold_simps prod.case)
qed

text \<open>
  C36.  The round-trip estimates and the samples.  After any non-empty sequence of samples of at most \<open>2 ^ 60\<close> nanoseconds,
  whatever the acknowledgement delays, and with a sample of zero taken as a repetition of the latest one, the minimum is
  the least sample, the latest is the last one, the smoothed round-trip time lies between the least and the greatest
  sample, and the variance is at most the greatest.
\<close>

theorem statm_estimates:
  assumes "samples \<noteq> []" "\<forall>(d, r)\<in>set samples. d < U64 \<and> r \<le> 2 ^ 60"
  shows "let info = ossl_statm_get_rtt_info (statm_run samples); rtts = effective_rtts 0 samples
         in info_min_rtt info = Min (set rtts) \<and> info_latest_rtt info = last rtts
            \<and> Min (set rtts) \<le> info_smoothed_rtt info \<and> info_smoothed_rtt info \<le> Max (set rtts)
            \<and> info_rtt_variance info \<le> Max (set rtts)"
  using statm_run_within [OF assms] by (simp add: statm_within_def ossl_statm_get_rtt_info_def)

theorem statm_estimates_witness:
  "let info = ossl_statm_get_rtt_info (statm_run [(0, 100), (20, 60), (3, 0), (5, 90)])
   in info_min_rtt info = 60 \<and> info_latest_rtt info = 90 \<and> 60 \<le> info_smoothed_rtt info \<and> info_smoothed_rtt info \<le> 100
      \<and> info_rtt_variance info \<le> 100"
  using statm_estimates [of "[(0, 100), (20, 60), (3, 0), (5, 90)]"] by (simp add: Let_def)

end
