(* ===== verification/Quic_Rstream.thy ===== *)
theory Quic_Rstream
  imports Sframe_List Ring_Buf Quic_Fc Quic_Statm
begin

text \<open>
  The receive part of a stream, \<open>ssl/quic/quic_rstream.c\<close>: the list of received frames, the ring buffer their data can
  be moved to, and the flow controller that is told about the bytes read.

  The controller is an address in the store of \<open>Quic_Fc\<close>; the statistics behind the pointer are a value.  The outputs
  of a read are the bytes copied to the buffer of the caller, which has room for the size it names.  \<open>None\<close> is an
  access outside an allocation or a failed assertion of a callee.
\<close>

section \<open>The program\<close>

record QUIC_RSTREAM =
  rs_fl :: SFRAME_LIST
  rs_rxfc :: "nat option"
  rs_statm :: "OSSL_STATM option"
  rs_head_range :: "nat \<times> nat"
  rs_rbuf :: ring_buf

definition ossl_quic_rstream_new ::
  "bool \<Rightarrow> (nat \<Rightarrow> object) \<Rightarrow> (nat \<Rightarrow> nat) \<Rightarrow> nat option \<Rightarrow> OSSL_STATM option \<Rightarrow> nat \<Rightarrow> QUIC_RSTREAM option option" where
  "ossl_quic_rstream_new no_memory malloc refs rxfc statm rbuf_size =
     (if no_memory then Some None
      else do {
        (ok, rbuf) \<leftarrow> ring_buf_resize malloc ring_buf_init rbuf_size;
        Some (if \<not> ok then None
              else Some \<lparr>rs_fl = ossl_sframe_list_init refs, rs_rxfc = rxfc, rs_statm = statm, rs_head_range = (0, 0),
                         rs_rbuf = rbuf\<rparr>) })"

definition ossl_quic_rstream_free :: "QUIC_RSTREAM \<Rightarrow> SFRAME_LIST option" where
  "ossl_quic_rstream_free qrs = ossl_sframe_list_destroy (rs_fl qrs)"

definition ossl_quic_rstream_queue_data ::
  "bool \<Rightarrow> nat option \<Rightarrow> nat \<Rightarrow> u8 list option \<Rightarrow> nat \<Rightarrow> bool \<Rightarrow> QUIC_RSTREAM \<Rightarrow> (bool \<times> QUIC_RSTREAM) option" where
  "ossl_quic_rstream_queue_data no_memory pkt offset data data_len fin qrs =
     (if (data = None \<and> data_len \<noteq> 0) \<or> (data_len = 0 \<and> \<not> fin) then Some (False, qrs)
      else do {
        (ok, fl) \<leftarrow> ossl_sframe_list_insert no_memory (offset, u64_add offset data_len) pkt data fin (rs_fl qrs);
        Some (ok, qrs\<lparr>rs_fl := fl\<rparr>) })"

text \<open>
  The copy of \<open>l\<close> bytes of a peeked range, from the data of the frame or, in at most two parts, from the ring buffer.
  \<open>Some None\<close> is the return of 0.
\<close>

definition copy_range :: "ring_buf \<Rightarrow> nat \<Rightarrow> nat \<Rightarrow> u8 list option \<Rightarrow> u8 list option option" where
  "copy_range rbuf start l data =
     (case data of
        Some d \<Rightarrow> if l \<le> length d then Some (Some (take l d)) else None
      | None \<Rightarrow> do {
          p \<leftarrow> ring_buf_get_ptr rbuf start;
          (case p of
             None \<Rightarrow> Some None
           | Some (idx, max_len) \<Rightarrow>
               if max_len < l
               then do {
                 first \<leftarrow> mem_read (rb_start rbuf) idx max_len;
                 q \<leftarrow> ring_buf_get_ptr rbuf (u64_add start max_len);
                 (case q of
                    None \<Rightarrow> Some None
                  | Some (idx', max_len') \<Rightarrow>
                      if \<not> max_len' > l - max_len then Some None
                      else do { second \<leftarrow> mem_read (rb_start rbuf) idx' (l - max_len); Some (Some (first @ second)) }) }
               else do { bs \<leftarrow> mem_read (rb_start rbuf) idx l; Some (Some bs) }) })"

text \<open>The loop of \<open>read_internal\<close>: the return value, the bytes read, the offset and the final flag.\<close>

lemma peek_advances:
  assumes "ossl_sframe_list_peek fl iter = (True, rng, data, fin, iter')"
  shows "\<exists>i. iter' = Some i \<and> i < length (fl_frames fl) \<and> (case iter of None \<Rightarrow> i = 0 | Some j \<Rightarrow> i = j + 1)"
  using assms by (auto simp: ossl_sframe_list_peek_def Let_def split: option.splits if_splits)

function read_loop :: "SFRAME_LIST \<Rightarrow> ring_buf \<Rightarrow> nat option \<Rightarrow> nat \<Rightarrow> u8 list \<Rightarrow> nat \<Rightarrow> (bool \<times> u8 list \<times> nat \<times> bool) option" where
  "read_loop fl rbuf iter sz buf offset =
     (case ossl_sframe_list_peek fl iter of (ret, rng, data, fin, iter') \<Rightarrow>
        if \<not> ret then Some (True, buf, offset, fin)
        else
          let l = u64_sub (snd rng) (fst rng);
              (l, fin) = (if l > sz then (sz, False) else (l, fin));
              offset = u64_add (fst rng) l
          in if l = 0 then Some (True, buf, offset, fin)
             else (case copy_range rbuf (fst rng) l data of
                     None \<Rightarrow> None
                   | Some None \<Rightarrow> Some (False, buf, offset, fin)
                   | Some (Some bs) \<Rightarrow>
                       if sz - l = 0 then Some (True, buf @ bs, offset, fin)
                       else read_loop fl rbuf iter' (sz - l) (buf @ bs) offset))"
  by pat_completeness auto

termination read_loop
proof (relation "measure (\<lambda>(fl, rbuf, iter, sz, buf, offset). length (fl_frames fl) - (case iter of None \<Rightarrow> 0 | Some j \<Rightarrow> j + 1))", goal_cases)
  case (2 fl rbuf iter sz buf offset ret y rng ya data yb fin iter')
  then have "ossl_sframe_list_peek fl iter = (True, rng, data, fin, iter')" by simp
  from peek_advances [OF this] show ?case by (auto split: option.splits)
qed simp

declare read_loop.simps [simp del]

definition read_internal :: "nat \<Rightarrow> bool \<Rightarrow> QUIC_RSTREAM \<Rightarrow> ((bool \<times> u8 list \<times> bool) \<times> QUIC_RSTREAM) option" where
  "read_internal sz drop' qrs = do {
     (ok, buf, offset, fin) \<leftarrow> read_loop (rs_fl qrs) (rs_rbuf qrs) None sz [] 0;
     if \<not> ok then Some ((False, buf, fin), qrs)
     else if drop' \<and> offset \<noteq> 0
     then do {
       (ret, fl) \<leftarrow> ossl_sframe_list_drop_frames offset (rs_fl qrs);
       rbuf \<leftarrow> ring_buf_cpop_range (rs_rbuf qrs) 0 (u64_sub offset 1) (fl_cleanse fl);
       Some ((ret, buf, fin), qrs\<lparr>rs_fl := fl, rs_rbuf := rbuf\<rparr>) }
     else Some ((True, buf, fin), qrs) }"

definition get_rtt :: "QUIC_RSTREAM \<Rightarrow> ossl_time" where
  "get_rtt qrs =
     (case rs_statm qrs of Some statm \<Rightarrow> info_smoothed_rtt (ossl_statm_get_rtt_info statm) | None \<Rightarrow> ossl_time_zero)"

definition ossl_quic_rstream_read ::
  "clock \<Rightarrow> nat \<Rightarrow> QUIC_RSTREAM \<Rightarrow> rxfcs \<Rightarrow> ((bool \<times> u8 list \<times> bool) \<times> QUIC_RSTREAM \<times> rxfcs) option" where
  "ossl_quic_rstream_read now sz qrs rx =
     (let rtt = get_rtt qrs in do {
        ((ok, buf, fin), qrs) \<leftarrow> read_internal sz True qrs;
        if \<not> ok then Some ((False, buf, fin), qrs, rx)
        else (case rs_rxfc qrs of
                None \<Rightarrow> Some ((True, buf, fin), qrs, rx)
              | Some rxfc \<Rightarrow> do {
                  (ok, rx) \<leftarrow> ossl_quic_rxfc_on_retire now rxfc (length buf) rtt rx;
                  Some ((ok, buf, fin), qrs, rx) }) })"

definition ossl_quic_rstream_peek :: "nat \<Rightarrow> QUIC_RSTREAM \<Rightarrow> ((bool \<times> u8 list \<times> bool) \<times> QUIC_RSTREAM) option" where
  "ossl_quic_rstream_peek sz qrs = read_internal sz False qrs"

function avail_loop :: "SFRAME_LIST \<Rightarrow> nat option \<Rightarrow> nat \<Rightarrow> nat \<times> bool" where
  "avail_loop fl iter avail =
     (case ossl_sframe_list_peek fl iter of (ret, rng, data, fin, iter') \<Rightarrow>
        if \<not> ret then (avail, fin)
        else avail_loop fl iter' (u64_add avail (u64_sub (snd rng) (fst rng))))"
  by pat_completeness auto

termination avail_loop
proof (relation "measure (\<lambda>(fl, iter, avail). length (fl_frames fl) - (case iter of None \<Rightarrow> 0 | Some j \<Rightarrow> j + 1))", goal_cases)
  case (2 fl iter avail ret y rng ya data yb fin iter')
  then have "ossl_sframe_list_peek fl iter = (True, rng, data, fin, iter')" by simp
  from peek_advances [OF this] show ?case by (auto split: option.splits)
qed simp

declare avail_loop.simps [simp del]

definition ossl_quic_rstream_available :: "QUIC_RSTREAM \<Rightarrow> bool \<times> nat \<times> bool" where
  "ossl_quic_rstream_available qrs = (True, avail_loop (rs_fl qrs) None 0)"

text \<open>
  A record is the bytes the returned pointer gives access to, \<open>None\<close> for the null pointer; the final flag is \<open>None\<close>
  when it is not set.
\<close>

definition ossl_quic_rstream_get_record ::
  "QUIC_RSTREAM \<Rightarrow> ((bool \<times> u8 list option \<times> nat \<times> bool option) \<times> QUIC_RSTREAM) option" where
  "ossl_quic_rstream_get_record qrs =
     (case ossl_sframe_list_lock_head (rs_fl qrs) of
        ((ok, out), fl) \<Rightarrow>
          (case out of
             None \<Rightarrow> Some ((True, None, 0, None), qrs\<lparr>rs_fl := fl\<rparr>)
           | Some (rng, data, fin) \<Rightarrow>
               let qrs = qrs\<lparr>rs_fl := fl, rs_head_range := rng\<rparr>
               in if \<not> ok then Some ((True, None, 0, Some fin), qrs)
                  else do {
                    (ok, qrs) \<leftarrow>
                      (if snd rng = fst rng
                       then if \<not> fin then Some (False, qrs)
                            else do { (ok, fl) \<leftarrow> ossl_sframe_list_drop_frames (snd rng) fl; Some (ok, qrs\<lparr>rs_fl := fl\<rparr>) }
                       else Some (True, qrs));
                    if \<not> ok then Some ((False, None, 0, Some fin), qrs)
                    else
                      let rec_len = u64_sub (snd rng) (fst rng)
                      in if data = None \<and> rec_len \<noteq> 0
                         then do {
                           p \<leftarrow> ring_buf_get_ptr (rs_rbuf qrs) (fst rng);
                           (case p of
                              None \<Rightarrow> Some ((False, None, 0, Some fin), qrs)
                            | Some (idx, max_len) \<Rightarrow>
                                let (rec_len, qrs) =
                                      (if max_len < rec_len
                                       then (max_len, qrs\<lparr>rs_head_range := (fst rng, u64_add (fst rng) max_len)\<rparr>)
                                       else (rec_len, qrs))
                                in do { bs \<leftarrow> mem_read (rb_start (rs_rbuf qrs)) idx rec_len;
                                        Some ((True, Some bs, rec_len, Some fin), qrs) }) }
                         else Some ((True, map_option (take rec_len) data, rec_len, Some fin), qrs) }))"

definition ossl_quic_rstream_release_record ::
  "clock \<Rightarrow> nat \<Rightarrow> QUIC_RSTREAM \<Rightarrow> rxfcs \<Rightarrow> (bool \<times> QUIC_RSTREAM \<times> rxfcs) option" where
  "ossl_quic_rstream_release_record now read_len qrs rx =
     (let rng = rs_head_range qrs
      in if \<not> ossl_sframe_list_is_head_locked (rs_fl qrs) then Some (False, qrs, rx)
         else if read_len > u64_sub (snd rng) (fst rng) \<and> read_len \<noteq> SIZE_MAX then Some (False, qrs, rx)
         else
           let offset = (if read_len > u64_sub (snd rng) (fst rng) then snd rng else u64_add (fst rng) read_len)
           in do {
             (ok, fl) \<leftarrow> ossl_sframe_list_drop_frames offset (rs_fl qrs);
             let qrs = qrs\<lparr>rs_fl := fl\<rparr> in
             if \<not> ok then Some (False, qrs, rx)
             else do {
               rbuf \<leftarrow> (if offset > 0 then ring_buf_cpop_range (rs_rbuf qrs) 0 (u64_sub offset 1) (fl_cleanse fl)
                        else Some (rs_rbuf qrs));
               let qrs = qrs\<lparr>rs_rbuf := rbuf\<rparr> in
               (case rs_rxfc qrs of
                  None \<Rightarrow> Some (True, qrs, rx)
                | Some rxfc \<Rightarrow> do {
                    (ok, rx) \<leftarrow> ossl_quic_rxfc_on_retire now rxfc offset (get_rtt qrs) rx;
                    Some (ok, qrs, rx) }) } })"

definition write_at_ring_buf_cb :: "nat \<Rightarrow> u8 list \<Rightarrow> ring_buf \<Rightarrow> (bool \<times> ring_buf) option" where
  "write_at_ring_buf_cb logical_offset buf rbuf = ring_buf_write_at rbuf logical_offset buf"

definition ossl_quic_rstream_move_to_rbuf :: "QUIC_RSTREAM \<Rightarrow> (bool \<times> QUIC_RSTREAM) option" where
  "ossl_quic_rstream_move_to_rbuf qrs =
     (if ring_buf_avail (rs_rbuf qrs) = 0 then Some (False, qrs)
      else do {
        (ok, rbuf, fl) \<leftarrow> ossl_sframe_list_move_data write_at_ring_buf_cb (rs_rbuf qrs) (rs_fl qrs);
        Some (ok, qrs\<lparr>rs_fl := fl, rs_rbuf := rbuf\<rparr>) })"

definition ossl_quic_rstream_resize_rbuf :: "(nat \<Rightarrow> object) \<Rightarrow> nat \<Rightarrow> QUIC_RSTREAM \<Rightarrow> (bool \<times> QUIC_RSTREAM) option" where
  "ossl_quic_rstream_resize_rbuf malloc rbuf_size qrs =
     (if ossl_sframe_list_is_head_locked (rs_fl qrs) then Some (False, qrs)
      else do {
        (ok, rbuf) \<leftarrow> ring_buf_resize malloc (rs_rbuf qrs) rbuf_size;
        Some (ok, qrs\<lparr>rs_rbuf := rbuf\<rparr>) })"

definition ossl_quic_rstream_set_cleanse :: "bool \<Rightarrow> QUIC_RSTREAM \<Rightarrow> QUIC_RSTREAM" where
  "ossl_quic_rstream_set_cleanse cleanse qrs = qrs\<lparr>rs_fl := (rs_fl qrs)\<lparr>fl_cleanse := cleanse\<rparr>\<rparr>"

section \<open>The ring buffer as the target of the move\<close>

definition rb_byte_at :: "ring_buf \<Rightarrow> nat \<Rightarrow> u8 option" where
  "rb_byte_at r x = (if rb_ctail r \<le> x \<and> x < rb_head r then Some (rb_byte r x) else None)"

lemma write_at_cb_spec:
  assumes wf: "ring_buf_wf r" and fits: "off + length bs < 2 ^ 62"
  obtains ok r' where "write_at_ring_buf_cb off bs r = Some (ok, r')" "ring_buf_wf r'" "rb_ctail r' = rb_ctail r"
    "\<not> ok \<longrightarrow> r' = r" "ok \<longrightarrow> rb_ctail r \<le> off \<and> rb_updates (rb_ctail r) r off bs r' \<and> off + length bs \<le> rb_ctail r + rb_alloc r"
    "ok \<longrightarrow> rb_head r' = (if bs = [] then rb_head r else max (rb_head r) (off + length bs))"
proof -
  have small: "off < U64" "length bs < U64" using fits by simp_all
  show thesis
  proof (rule ring_buf_write_at_spec [OF wf small])
    let ?ok = "rb_ctail r \<le> off \<and> off + length bs \<le> rb_ctail r + rb_alloc r \<and> rb_head r + length bs \<le> MAX_OFFSET"
    fix r'
    assume r': "ring_buf_write_at r off bs = Some (?ok, r')" "?ok \<Longrightarrow> rb_updates (rb_ctail r) r off bs r'"
      "?ok \<Longrightarrow> rb_head r' = (if bs = [] then rb_head r else max (rb_head r) (off + length bs))"
      "rb_ctail r' = rb_ctail r" "\<not> ?ok \<Longrightarrow> r' = r"
    have "ring_buf_wf r'"
    proof (cases ?ok)
      case True
      have "rb_mem_ok r'" "rb_alloc r' = rb_alloc r" using rb_updates_alloc [OF r'(2) [OF True]] by simp_all
      with True wf fits r'(3) [OF True] r'(4) show ?thesis by (auto simp: ring_buf_wf_def)
    next
      case False
      with r'(5) wf show ?thesis by simp
    qed
    then show thesis
      by (intro that [of ?ok r']) (use r' in \<open>simp_all only: write_at_ring_buf_cb_def, simp_all\<close>)
  qed
qed

interpretation rb_writer: offset_writer write_at_ring_buf_cb "\<lambda>r. ring_buf_wf r \<and> rb_ctail r = k" rb_byte_at for k
proof
  fix r off and bs :: "u8 list" and ok r' x b
  assume good: "ring_buf_wf r \<and> rb_ctail r = k" and fits: "off + length bs < 2 ^ 62"
  then have wf: "ring_buf_wf r" by simp
  obtain ok0 r0 where w: "write_at_ring_buf_cb off bs r = Some (ok0, r0)" "ring_buf_wf r0" "rb_ctail r0 = rb_ctail r"
    "\<not> ok0 \<longrightarrow> r0 = r" "ok0 \<longrightarrow> rb_ctail r \<le> off \<and> rb_updates (rb_ctail r) r off bs r0 \<and> off + length bs \<le> rb_ctail r + rb_alloc r"
    "ok0 \<longrightarrow> rb_head r0 = (if bs = [] then rb_head r else max (rb_head r) (off + length bs))"
    by (rule write_at_cb_spec [OF wf fits])
  show "\<exists>ok r'. write_at_ring_buf_cb off bs r = Some (ok, r')" using w(1) by blast
  show "write_at_ring_buf_cb off bs r = Some (ok, r') \<Longrightarrow> ring_buf_wf r' \<and> rb_ctail r' = k" using w good by simp
  show "write_at_ring_buf_cb off bs r = Some (False, r') \<Longrightarrow> r' = r" using w by simp
  show "rb_byte_at r' x = Some (bs ! (x - off))"
    if "write_at_ring_buf_cb off bs r = Some (True, r')" "off \<le> x" "x < off + length bs"
    using that w wf by (auto simp: rb_byte_at_def rb_updates_def)
  show "rb_byte_at r' x = Some b"
    if "write_at_ring_buf_cb off bs r = Some (True, r')" "\<not> (off \<le> x \<and> x < off + length bs)" "rb_byte_at r x = Some b"
  proof -
    have x: "rb_ctail r \<le> x" "x < rb_head r" "rb_byte r x = b" using that(3) by (auto simp: rb_byte_at_def split: if_splits)
    have "x < rb_ctail r + rb_alloc r" using x(2) wf by (auto simp: ring_buf_wf_def)
    with that(1,2) x w show ?thesis by (auto simp: rb_byte_at_def rb_updates_def)
  qed
qed

section \<open>Reading\<close>

lemma ring_read:
  assumes wf: "ring_buf_wf r" and k: "k \<le> rb_alloc r - x mod rb_alloc r" and a: "0 < rb_alloc r"
  shows "mem_read (rb_start r) (x mod rb_alloc r) k = Some (map (rb_byte r) [x..<x + k])"
proof -
  obtain b where b: "rb_start r = Some b" "rb_alloc r = length b"
    using wf a by (auto simp: ring_buf_wf_def rb_mem_ok_def split: option.splits)
  have m: "x mod rb_alloc r + k \<le> rb_alloc r" using k mod_less_divisor [OF a, of x] by linarith
  have "take k (drop (x mod rb_alloc r) b) = map (rb_byte r) [x..<x + k]"
  proof (rule nth_equalityI)
    show "length (take k (drop (x mod rb_alloc r) b)) = length (map (rb_byte r) [x..<x + k])" using m b by simp
    fix i assume i: "i < length (take k (drop (x mod rb_alloc r) b))"
    then have "(x + i) mod rb_alloc r = x mod rb_alloc r + i"
      using ring_index_in [of x "rb_alloc r" k "x + i"] m by simp
    with i m b show "take k (drop (x mod rb_alloc r) b) ! i = map (rb_byte r) [x..<x + k] ! i"
      by (simp add: rb_byte_def)
  qed
  with m b show ?thesis by (simp add: mem_read_def)
qed

lemma copy_range_ring:
  assumes wf: "ring_buf_wf r" and l: "0 < l" "start + l < 2 ^ 62"
    and c: "\<And>x. start \<le> x \<Longrightarrow> x < start + l \<Longrightarrow> rb_byte_at r x = Some (content x)"
  shows "copy_range r start l None = Some (Some (map content [start..<start + l]))"
proof -
  have x: "rb_ctail r \<le> x \<and> x < rb_head r \<and> rb_byte r x = content x" if "start \<le> x" "x < start + l" for x
    using c [OF that] by (auto simp: rb_byte_at_def split: if_splits)
  have bounds: "rb_ctail r \<le> start" "start + l \<le> rb_head r" using x [of start] x [of "start + (l - 1)", OF le_add1] l by auto
  have a: "0 < rb_alloc r" "l \<le> rb_alloc r" using wf bounds l(1) by (auto simp: ring_buf_wf_def)
  define m where "m = rb_alloc r - start mod rb_alloc r"
  have m: "0 < m" "m \<le> rb_alloc r" using mod_less_divisor [OF a(1), of start] by (simp_all add: m_def)
  have p: "ring_buf_get_ptr r start = Some (Some (start mod rb_alloc r, m))"
    using bounds l(1) a(1) by (simp add: ring_buf_get_ptr_def m_def Let_def)
  show ?thesis
  proof (cases "m < l")
    case False
    then have "mem_read (rb_start r) (start mod rb_alloc r) l = Some (map (rb_byte r) [start..<start + l])"
      by (intro ring_read [OF wf _ a(1)]) (simp add: m_def)
    with p False x show ?thesis by (simp add: copy_range_def)
  next
    case True
    have wrap: "(start + m) mod rb_alloc r = 0" unfolding m_def using a(1) by (rule mod_add_to_end)
    have add: "u64_add start m = start + m" using True l by (simp add: u64_add_exact)
    have q: "ring_buf_get_ptr r (start + m) = Some (Some (0, rb_alloc r))"
      using bounds True a(1) wrap by (simp add: ring_buf_get_ptr_def)
    have "mem_read (rb_start r) (start mod rb_alloc r) m = Some (map (rb_byte r) [start..<start + m])"
      by (intro ring_read [OF wf _ a(1)]) (simp add: m_def)
    moreover have "mem_read (rb_start r) 0 (l - m) = Some (map (rb_byte r) [start + m..<start + l])"
      using ring_read [OF wf, of "l - m" "start + m"] a True wrap by simp
    moreover have "[start..<start + l] = [start..<start + m] @ [start + m..<start + l]"
      using True upt_add_eq_append [of start "start + m" "l - m"] by simp
    ultimately show ?thesis using p q add True m a x by (simp add: copy_range_def)
  qed
qed

lemma copy_range_frame:
  assumes wf: "ring_buf_wf r" and c: "rb_writer.carries content off r f" and f: "frame_ok off f"
    and l: "0 < l" "sf_start f \<le> start" "off \<le> start" "start + l \<le> sf_end f"
  shows "copy_range r start l (map_option (drop (start - sf_start f)) (sf_data f)) = Some (Some (map content [start..<start + l]))"
proof (cases "sf_data f")
  case (Some d)
  then have "d = map content [sf_start f..<sf_end f]" using c by (simp add: rb_writer.carries_def)
  moreover have "take l (drop (start - sf_start f) [sf_start f..<sf_end f]) = [start..<start + l]"
    using l by simp
  ultimately show ?thesis using Some l by (simp add: copy_range_def take_map drop_map)
next
  case None
  have "start + l < 2 ^ 62" using l f by (simp add: frame_ok_def)
  moreover have "rb_byte_at r x = Some (content x)" if "start \<le> x" "x < start + l" for x
    using c None l that by (simp add: rb_writer.carries_def)
  ultimately show ?thesis using copy_range_ring [OF wf l(1)] None by simp
qed

text \<open>Where the data of the frames end, when those before \<open>start\<close> are gone.\<close>

definition frames_end :: "nat \<Rightarrow> STREAM_FRAME list \<Rightarrow> nat" where
  "frames_end start fs = (if fs \<noteq> [] then sf_end (last fs) else start)"

lemma reach_le_end:
  assumes "sf_sorted fs" "\<forall>f\<in>set fs. start < sf_end f"
  shows "reach start fs \<le> frames_end start fs"
  using assms
proof (induction fs arbitrary: start)
  case (Cons f fs)
  then have "reach (sf_end f) fs \<le> frames_end (sf_end f) fs" by simp
  moreover have "start < sf_end (last (f # fs))" using Cons.prems(2) last_in_set [of "f # fs"] by blast
  ultimately show ?case by (auto simp: frames_end_def)
qed (simp add: frames_end_def)

lemma read_loop_spec:
  fixes sz :: nat
  assumes pos: "position fl iter = (start, i)" "drop i (fl_frames fl) = fs" and off: "fl_offset fl \<le> start"
    and sorted: "sf_sorted fs" and ok: "\<forall>f\<in>set fs. frame_ok (fl_offset fl) f \<and> start < sf_end f
      \<and> rb_writer.carries content (fl_offset fl) r f" and wf: "ring_buf_wf r"
  defines "n \<equiv> min sz (reach start fs - start)"
  shows "read_loop fl r iter sz buf offset = Some (True, buf @ map content [start..<start + n],
      if fs = [] \<or> start < sf_start (hd fs) then offset else start + n, fl_fin fl \<and> start + n = frames_end start fs)"
  using pos off sorted ok unfolding n_def
proof (induction fs arbitrary: iter start i sz buf offset)
  case Nil
  then show ?case by (subst read_loop.simps) (simp add: sframe_list_peek_end frames_end_def)
next
  case (Cons f fs)
  note p = Cons.prems
  have last: "start < sf_end (last (f # fs))" using p(5) last_in_set [of "f # fs"] by blast
  show ?case
  proof (cases "start < sf_start f")
    case True
    with p(1,2) last show ?thesis
      by (subst read_loop.simps) (simp add: sframe_list_peek_gap [OF p(1,2)] frames_end_def)
  next
    case False
    have f: "frame_ok (fl_offset fl) f" "start < sf_end f" "rb_writer.carries content (fl_offset fl) r f" using p(5) by simp_all
    have start: "sf_start f \<le> start" using False by simp
    note peek = sframe_list_peek_frame [OF p(1,2) start f(2)]
    define l where "l = min (sf_end f - start) sz"
    have small: "sf_end f < 2 ^ 62" using f(1) by (simp add: frame_ok_def)
    have u: "u64_sub (sf_end f) start = sf_end f - start" "u64_add start l = start + l"
      using small f(2) by (simp_all add: u64_sub_exact u64_add_exact l_def)
    have sorted: "sf_sorted fs" "\<forall>g\<in>set fs. sf_end f < sf_end g" using p(4) by auto
    have reach: "sf_end f \<le> reach (sf_end f) fs"
      using reach_covered [OF sorted(1), of "sf_end f"] p(5) sorted(2) by (auto simp: frame_ok_def)
    have copy: "copy_range r start l (map_option (drop (start - sf_start f)) (sf_data f)) = Some (Some (map content [start..<start + l]))"
      if "0 < l" using that p(3) start f(2) by (intro copy_range_frame [OF wf f(3,1)]) (simp_all add: l_def)
    have end_less: "sf_end f < sf_end (last fs)" if "fs \<noteq> []" using sorted(2) that by simp
    show ?thesis
    proof (cases "sz \<le> sf_end f - start")
      case True
      then have "l = sz" "min sz (reach start (f # fs) - start) = sz" using reach False by (simp_all add: l_def)
      moreover have "frames_end start (f # fs) = start + sz \<longleftrightarrow> sz = sf_end f - start \<and> fs = []"
        using True end_less f(2) by (auto simp: frames_end_def)
      ultimately show ?thesis
        using True False copy u f(2) by (subst read_loop.simps) (auto simp: peek(1) Let_def)
    next
      case more: False
      then have l: "l = sf_end f - start" "0 < l" "l < sz" "start + l = sf_end f" using f(2) by (simp_all add: l_def)
      have step: "read_loop fl r iter sz buf offset =
          read_loop fl r (Some i) (sz - l) (buf @ map content [start..<sf_end f]) (sf_end f)"
        using more copy u l by (subst read_loop.simps) (auto simp: peek(1) Let_def)
      have pre: "fl_offset fl \<le> sf_end f" "\<forall>g\<in>set fs. frame_ok (fl_offset fl) g \<and> sf_end f < sf_end g
          \<and> rb_writer.carries content (fl_offset fl) r g" using p(3,5) f(2) sorted(2) by auto
      have n: "min sz (reach start (f # fs) - start) = l + min (sz - l) (reach (sf_end f) fs - sf_end f)"
        using False reach l by auto
      have "[start..<sf_end f] @ [sf_end f..<sf_end f + k] = [start..<sf_end f + k]" for k
        using f(2) by (metis less_imp_le upt_add_eq_append)
      then have "map content [start..<sf_end f] @ map content [sf_end f..<sf_end f + k] = map content [start..<sf_end f + k]" for k
        by (metis map_append)
      moreover have "frames_end start (f # fs) = frames_end (sf_end f) fs" by (simp add: frames_end_def)
      moreover have "fs = [] \<or> sf_end f < sf_start (hd fs) \<Longrightarrow> reach (sf_end f) fs = sf_end f"
        by (cases fs) auto
      ultimately show ?thesis
        unfolding step Cons.IH [OF peek(2,3) pre(1) sorted(1) pre(2)] n using False l by (auto simp: add.assoc [symmetric])
    qed
  qed
qed

lemma avail_loop_spec:
  assumes "position fl iter = (start, i)" "drop i (fl_frames fl) = fs" "sf_sorted fs"
    "\<forall>f\<in>set fs. sf_start f \<le> sf_end f \<and> start < sf_end f \<and> sf_end f < 2 ^ 62" "avail + (reach start fs - start) < U64"
  shows "avail_loop fl iter avail = (avail + (reach start fs - start), fl_fin fl \<and> reach start fs = frames_end start fs)"
  using assms
proof (induction fs arbitrary: iter start i avail)
  case Nil
  then show ?case by (subst avail_loop.simps) (simp add: sframe_list_peek_end frames_end_def)
next
  case (Cons f fs)
  note p = Cons.prems
  have last: "start < sf_end (last (f # fs))" using p(4) last_in_set [of "f # fs"] by blast
  show ?case
  proof (cases "start < sf_start f")
    case True
    with last show ?thesis
      by (subst avail_loop.simps) (simp add: sframe_list_peek_gap [OF p(1,2)] frames_end_def)
  next
    case False
    have f: "start < sf_end f" "sf_start f \<le> start" "sf_end f < 2 ^ 62" using p(4) False by auto
    note peek = sframe_list_peek_frame [OF p(1,2) f(2,1)]
    have sorted: "sf_sorted fs" "\<forall>g\<in>set fs. sf_start g \<le> sf_end g \<and> sf_end f < sf_end g \<and> sf_end g < 2 ^ 62" using p(3,4) by auto
    have reach: "sf_end f \<le> reach (sf_end f) fs" using reach_covered [OF sorted(1), of "sf_end f"] sorted(2) by auto
    have "u64_sub (sf_end f) start = sf_end f - start" "u64_add avail (sf_end f - start) = avail + (sf_end f - start)"
      using f reach p(5) False by (simp_all add: u64_sub_exact u64_add_exact)
    then have "avail_loop fl iter avail = avail_loop fl (Some i) (avail + (sf_end f - start))"
      by (subst avail_loop.simps) (simp add: peek(1))
    also have "\<dots> = (avail + (sf_end f - start) + (reach (sf_end f) fs - sf_end f),
        fl_fin fl \<and> reach (sf_end f) fs = frames_end (sf_end f) fs)"
      using p(5) False reach f by (intro Cons.IH [OF peek(2,3) sorted]) simp
    finally show ?thesis using False reach f by (simp add: frames_end_def)
  qed
qed

section \<open>The invariant\<close>

text \<open>
  The data of every frame are those of the stream \<open>content\<close>, in the packet or in the ring buffer, which starts at the
  offset up to which the stream has been read.
\<close>

definition rs_inv :: "(nat \<Rightarrow> nat) \<Rightarrow> (nat \<Rightarrow> u8) \<Rightarrow> QUIC_RSTREAM \<Rightarrow> bool" where
  "rs_inv ext content qrs \<longleftrightarrow> sf_wf ext (rs_fl qrs) \<and> ring_buf_wf (rs_rbuf qrs)
     \<and> rb_ctail (rs_rbuf qrs) = fl_offset (rs_fl qrs)
     \<and> (\<forall>f\<in>set (fl_frames (rs_fl qrs)). rb_writer.carries content (fl_offset (rs_fl qrs)) (rs_rbuf qrs) f)"

text \<open>The bytes from the read offset on that have been received, and how far they reach without a gap.\<close>

definition rs_received :: "QUIC_RSTREAM \<Rightarrow> nat set" where
  "rs_received qrs = covered (fl_frames (rs_fl qrs)) \<inter> {fl_offset (rs_fl qrs)..}"

definition rs_reach :: "QUIC_RSTREAM \<Rightarrow> nat" where
  "rs_reach qrs = reach (fl_offset (rs_fl qrs)) (fl_frames (rs_fl qrs))"

lemma rs_reach_spec:
  assumes "rs_inv ext content qrs"
  shows "fl_offset (rs_fl qrs) \<le> rs_reach qrs" "{fl_offset (rs_fl qrs)..<rs_reach qrs} \<subseteq> rs_received qrs"
    "rs_reach qrs \<notin> rs_received qrs" "rs_reach qrs \<le> curr_end (rs_fl qrs)"
proof -
  let ?fs = "fl_frames (rs_fl qrs)" and ?off = "fl_offset (rs_fl qrs)"
  have s: "sf_sorted ?fs" "\<forall>f\<in>set ?fs. sf_start f \<le> sf_end f \<and> ?off < sf_end f"
    using assms by (auto simp: rs_inv_def sf_wf_def frame_ok_def)
  from reach_covered [OF s] show "?off \<le> rs_reach qrs" "{?off..<rs_reach qrs} \<subseteq> rs_received qrs" "rs_reach qrs \<notin> rs_received qrs"
    by (auto simp: rs_reach_def rs_received_def)
  show "rs_reach qrs \<le> curr_end (rs_fl qrs)"
    using reach_le_end [OF s(1), of ?off] s(2) by (simp add: rs_reach_def curr_end_def frames_end_def split: if_splits)
qed

section \<open>The operations keep the invariant\<close>

lemma carries_cong:
  assumes "rb_writer.carries content off r f" "off \<le> off'"
    and "\<And>x. off' \<le> x \<Longrightarrow> x < sf_end f \<Longrightarrow> rb_byte_at r x = Some (content x) \<Longrightarrow> rb_byte_at r' x = Some (content x)"
  shows "rb_writer.carries content off' r' f"
  using assms by (auto simp: rb_writer.carries_def split: option.splits)

lemma read_internal_loop:
  assumes inv: "rs_inv ext content qrs"
  defines "off \<equiv> fl_offset (rs_fl qrs)"
  shows "\<exists>offset. read_loop (rs_fl qrs) (rs_rbuf qrs) None sz [] 0 = Some (True,
      map content [off..<off + min sz (rs_reach qrs - off)], offset,
      fl_fin (rs_fl qrs) \<and> off + min sz (rs_reach qrs - off) = curr_end (rs_fl qrs))
    \<and> (offset \<noteq> 0 \<longrightarrow> offset = off + min sz (rs_reach qrs - off))
    \<and> (offset = 0 \<longrightarrow> min sz (rs_reach qrs - off) = 0)"
proof -
  let ?fs = "fl_frames (rs_fl qrs)"
  have "position (rs_fl qrs) None = (off, 0)" "drop 0 ?fs = ?fs" by (simp_all add: position_def off_def)
  moreover have "sf_sorted ?fs" "\<forall>f\<in>set ?fs. frame_ok (fl_offset (rs_fl qrs)) f \<and> off < sf_end f
      \<and> rb_writer.carries content (fl_offset (rs_fl qrs)) (rs_rbuf qrs) f" "ring_buf_wf (rs_rbuf qrs)"
    using inv by (auto simp: rs_inv_def sf_wf_def frame_ok_def off_def)
  ultimately have "read_loop (rs_fl qrs) (rs_rbuf qrs) None sz [] 0 = Some (True,
      [] @ map content [off..<off + min sz (rs_reach qrs - off)],
      if ?fs = [] \<or> off < sf_start (hd ?fs) then 0 else off + min sz (rs_reach qrs - off),
      fl_fin (rs_fl qrs) \<and> off + min sz (rs_reach qrs - off) = frames_end off ?fs)"
    unfolding rs_reach_def off_def [symmetric] by (intro read_loop_spec [where i = 0]) (simp_all add: off_def)
  moreover have "frames_end off ?fs = curr_end (rs_fl qrs)" by (simp add: frames_end_def curr_end_def off_def)
  moreover have "?fs = [] \<or> off < sf_start (hd ?fs) \<Longrightarrow> rs_reach qrs = off"
    by (cases ?fs) (auto simp: rs_reach_def off_def)
  ultimately show ?thesis by auto
qed

lemma read_internal_spec:
  assumes inv: "rs_inv ext content qrs"
  defines "off \<equiv> fl_offset (rs_fl qrs)"
  defines "n \<equiv> \<lambda>sz. min sz (rs_reach qrs - off)"
  obtains qrs' where
    "read_internal sz True qrs =
       Some ((True, map content [off..<off + n sz], fl_fin (rs_fl qrs) \<and> off + n sz = curr_end (rs_fl qrs)), qrs')"
    "rs_inv ext content qrs'" "fl_offset (rs_fl qrs') = off + n sz" "rs_received qrs' = rs_received qrs \<inter> {off + n sz..}"
    "curr_end (rs_fl qrs') = curr_end (rs_fl qrs)" "fl_fin (rs_fl qrs') = fl_fin (rs_fl qrs)"
    "rs_rxfc qrs' = rs_rxfc qrs" "rs_statm qrs' = rs_statm qrs"
proof -
  let ?n = "n sz"
  obtain offset where loop: "read_loop (rs_fl qrs) (rs_rbuf qrs) None sz [] 0 = Some (True,
      map content [off..<off + ?n], offset, fl_fin (rs_fl qrs) \<and> off + ?n = curr_end (rs_fl qrs))"
    and o: "offset \<noteq> 0 \<longrightarrow> offset = off + ?n" "offset = 0 \<longrightarrow> ?n = 0"
    using read_internal_loop [OF inv, of sz] unfolding n_def off_def by blast
  have wf: "sf_wf ext (rs_fl qrs)" "ring_buf_wf (rs_rbuf qrs)" "rb_ctail (rs_rbuf qrs) = off"
    using inv by (simp_all add: rs_inv_def off_def)
  show thesis
  proof (cases "offset = 0")
    case True
    then have n0: "?n = 0" using o(2) by simp
    have "rs_received qrs \<inter> {off..} = rs_received qrs" by (auto simp: rs_received_def off_def)
    moreover have "read_internal sz True qrs =
       Some ((True, map content [off..<off + ?n], fl_fin (rs_fl qrs) \<and> off + ?n = curr_end (rs_fl qrs)), qrs)"
      using loop True by (simp add: read_internal_def)
    ultimately show thesis by (intro that [of qrs] inv) (simp_all add: n0 off_def)
  next
    case False
    with o(1) have offset: "offset = off + ?n" by simp
    have le: "off \<le> offset" "offset \<le> curr_end (rs_fl qrs)" "offset < 2 ^ 62"
      using rs_reach_spec(1,4) [OF inv] curr_end_less [OF wf(1)] by (simp_all add: offset n_def off_def)
    obtain fl' where fl': "ossl_sframe_list_drop_frames offset (rs_fl qrs) = Some (True, fl')" "sf_wf ext fl'"
      "fl_frames fl' = dropWhile (\<lambda>f. sf_end f \<le> offset) (fl_frames (rs_fl qrs))" "fl_offset fl' = offset"
      "curr_end fl' = curr_end (rs_fl qrs)" "fl_fin fl' = fl_fin (rs_fl qrs)" "fl_cleanse fl' = fl_cleanse (rs_fl qrs)"
      "\<not> fl_head_locked fl'" "covered (fl_frames fl') \<inter> {offset..} = covered (fl_frames (rs_fl qrs)) \<inter> {offset..}"
      using le(1) by (rule sframe_list_drop_frames_spec [OF wf(1) _ le(2), folded off_def])
    have u: "u64_sub offset 1 = offset - 1" using False le(3) by (simp add: u64_sub_exact)
    show thesis
    proof (rule ring_buf_cpop_range_spec [OF wf(2), of 0 "offset - 1" "fl_cleanse fl'"])
      fix r'
      assume r': "ring_buf_cpop_range (rs_rbuf qrs) 0 (offset - 1) (fl_cleanse fl') = Some r'" "ring_buf_wf r'"
        "rb_ctail r' = offset - 1 + 1" "rb_head r' = max (rb_head (rs_rbuf qrs)) (offset - 1 + 1)"
        "\<And>x. offset - 1 + 1 \<le> x \<Longrightarrow> x < rb_ctail (rs_rbuf qrs) + rb_alloc (rs_rbuf qrs) \<Longrightarrow> rb_byte r' x = rb_byte (rs_rbuf qrs) x"
      have keep: "rb_byte_at r' x = Some (content x)" if "offset \<le> x" "rb_byte_at (rs_rbuf qrs) x = Some (content x)" for x
      proof -
        have "rb_head (rs_rbuf qrs) \<le> rb_ctail (rs_rbuf qrs) + rb_alloc (rs_rbuf qrs)" using wf(2) by (auto simp: ring_buf_wf_def)
        then show ?thesis using that r'(3-5) False by (auto simp: rb_byte_at_def split: if_splits)
      qed
      have "rb_writer.carries content offset r' f" if "f \<in> set (fl_frames fl')" for f
      proof (rule carries_cong [OF _ le(1)])
        show "rb_writer.carries content off (rs_rbuf qrs) f"
          using inv that set_dropWhileD by (fastforce simp: fl'(3) rs_inv_def off_def)
      qed (rule keep)
      then have "rs_inv ext content (qrs\<lparr>rs_fl := fl', rs_rbuf := r'\<rparr>)"
        using fl'(2,4) r'(2,3) False by (simp add: rs_inv_def)
      moreover have "read_internal sz True qrs =
         Some ((True, map content [off..<off + ?n], fl_fin (rs_fl qrs) \<and> off + ?n = curr_end (rs_fl qrs)), qrs\<lparr>rs_fl := fl', rs_rbuf := r'\<rparr>)"
        using loop False fl'(1) r'(1) u by (simp add: read_internal_def)
      moreover have "rs_received (qrs\<lparr>rs_fl := fl', rs_rbuf := r'\<rparr>) = rs_received qrs \<inter> {off + ?n..}"
        using fl'(4,9) le(1) by (auto simp: rs_received_def offset off_def)
      ultimately show thesis
        by (intro that [of "qrs\<lparr>rs_fl := fl', rs_rbuf := r'\<rparr>"]) (use fl'(4-6) offset in simp_all)
    qed (use wf(3) le False in auto)
  qed
qed

text \<open>What the operations that deliver nothing keep.\<close>

definition same_stream :: "(nat \<Rightarrow> nat) \<Rightarrow> (nat \<Rightarrow> u8) \<Rightarrow> QUIC_RSTREAM \<Rightarrow> QUIC_RSTREAM \<Rightarrow> bool" where
  "same_stream ext content qrs qrs' \<longleftrightarrow> rs_inv ext content qrs' \<and> fl_offset (rs_fl qrs') = fl_offset (rs_fl qrs)
     \<and> rs_received qrs' = rs_received qrs \<and> curr_end (rs_fl qrs') = curr_end (rs_fl qrs)
     \<and> fl_fin (rs_fl qrs') = fl_fin (rs_fl qrs) \<and> rs_rxfc qrs' = rs_rxfc qrs \<and> rs_statm qrs' = rs_statm qrs"

lemma same_stream_refl: "rs_inv ext content qrs \<Longrightarrow> same_stream ext content qrs qrs"
  by (simp add: same_stream_def)

lemma peek_spec:
  assumes "rs_inv ext content qrs"
  defines "off \<equiv> fl_offset (rs_fl qrs)"
  defines "n \<equiv> \<lambda>sz. min sz (rs_reach qrs - off)"
  shows "ossl_quic_rstream_peek sz qrs =
    Some ((True, map content [off..<off + n sz], fl_fin (rs_fl qrs) \<and> off + n sz = curr_end (rs_fl qrs)), qrs)"
  using read_internal_loop [OF assms(1), of sz]
  by (auto simp: ossl_quic_rstream_peek_def read_internal_def off_def n_def)

lemma available_spec:
  assumes inv: "rs_inv ext content qrs"
  shows "ossl_quic_rstream_available qrs =
    (True, rs_reach qrs - fl_offset (rs_fl qrs), fl_fin (rs_fl qrs) \<and> rs_reach qrs = curr_end (rs_fl qrs))"
proof -
  let ?fs = "fl_frames (rs_fl qrs)" and ?off = "fl_offset (rs_fl qrs)"
  have "rs_reach qrs < 2 ^ 62" using rs_reach_spec(4) [OF inv] curr_end_less [of ext "rs_fl qrs"] inv by (simp add: rs_inv_def)
  then have "avail_loop (rs_fl qrs) None 0 = (0 + (reach ?off ?fs - ?off), fl_fin (rs_fl qrs) \<and> reach ?off ?fs = frames_end ?off ?fs)"
    using inv by (intro avail_loop_spec [where i = 0]) (auto simp: position_def rs_inv_def sf_wf_def frame_ok_def rs_reach_def)
  moreover have "frames_end ?off ?fs = curr_end (rs_fl qrs)" by (simp add: frames_end_def curr_end_def)
  ultimately show ?thesis by (simp add: ossl_quic_rstream_available_def rs_reach_def)
qed

lemma move_to_rbuf_spec:
  assumes inv: "rs_inv ext content qrs"
  obtains ok qrs' where "ossl_quic_rstream_move_to_rbuf qrs = Some (ok, qrs')" "same_stream ext content qrs qrs'"
proof (cases "ring_buf_avail (rs_rbuf qrs) = 0")
  case True
  with that [of False qrs] same_stream_refl [OF inv] show thesis by (simp add: ossl_quic_rstream_move_to_rbuf_def)
next
  case False
  obtain ok r' fl' where m: "ossl_sframe_list_move_data write_at_ring_buf_cb (rs_rbuf qrs) (rs_fl qrs) = Some (ok, r', fl')"
    "rb_writer.moves (fl_offset (rs_fl qrs)) ext content (fl_frames (rs_fl qrs)) (rs_rbuf qrs) (rs_fl qrs) r' fl'"
    using rb_writer.move_data_moves [of "rs_rbuf qrs" "fl_offset (rs_fl qrs)" ext "rs_fl qrs" content] inv
    by (auto simp: rs_inv_def)
  then have "same_stream ext content qrs (qrs\<lparr>rs_fl := fl', rs_rbuf := r'\<rparr>)"
    using m(2) inv by (auto simp: same_stream_def rb_writer.moves_def rs_inv_def rs_received_def curr_end_def)
  moreover have "ossl_quic_rstream_move_to_rbuf qrs = Some (ok, qrs\<lparr>rs_fl := fl', rs_rbuf := r'\<rparr>)"
    using False m(1) by (simp add: ossl_quic_rstream_move_to_rbuf_def)
  ultimately show thesis using that by blast
qed

lemma rb_byte_at_data:
  assumes "ring_buf_data r' = ring_buf_data r" "rb_head r' = rb_head r" "rb_ctail r' = rb_ctail r"
  shows "rb_byte_at r' x = rb_byte_at r x"
proof -
  have "rb_byte r' x = rb_byte r x" if "rb_ctail r \<le> x" "x < rb_head r"
  proof -
    have "ring_buf_data r' ! (x - rb_ctail r) = rb_byte r' x" "ring_buf_data r ! (x - rb_ctail r) = rb_byte r x"
      using that assms(2,3) by (simp_all add: ring_buf_data_def)
    with assms(1) show ?thesis by simp
  qed
  then show ?thesis using assms(2,3) by (auto simp: rb_byte_at_def)
qed

lemma resize_rbuf_spec:
  assumes inv: "rs_inv ext content qrs" and m: "malloc_ok malloc"
  obtains ok qrs' where "ossl_quic_rstream_resize_rbuf malloc sz qrs = Some (ok, qrs')" "same_stream ext content qrs qrs'"
proof (cases "ossl_sframe_list_is_head_locked (rs_fl qrs)")
  case True
  with that [of False qrs] same_stream_refl [OF inv] show thesis by (simp add: ossl_quic_rstream_resize_rbuf_def)
next
  case False
  have wf: "ring_buf_wf (rs_rbuf qrs)" using inv by (simp add: rs_inv_def)
  show thesis
  proof (rule ring_buf_resize_spec [OF wf m, of sz])
    let ?ok = "sz = rb_alloc (rs_rbuf qrs) \<or> rb_head (rs_rbuf qrs) - rb_ctail (rs_rbuf qrs) \<le> sz \<and> malloc sz \<noteq> None"
    fix r'
    assume r': "ring_buf_resize malloc (rs_rbuf qrs) sz = Some (?ok, r')" "ring_buf_wf r'"
      "rb_head r' = rb_head (rs_rbuf qrs)" "rb_ctail r' = rb_ctail (rs_rbuf qrs)" "ring_buf_data r' = ring_buf_data (rs_rbuf qrs)"
    have "rb_byte_at r' x = rb_byte_at (rs_rbuf qrs) x" for x using rb_byte_at_data [OF r'(5,3,4)] .
    then have "rb_writer.carries content off r' f" if "rb_writer.carries content off (rs_rbuf qrs) f" for off f
      using rb_writer.carries_mono [OF that] by simp
    then have "same_stream ext content qrs (qrs\<lparr>rs_rbuf := r'\<rparr>)"
      using inv r'(2,4) by (simp add: same_stream_def rs_inv_def rs_received_def)
    with that [of ?ok "qrs\<lparr>rs_rbuf := r'\<rparr>"] False r'(1) show thesis by (simp add: ossl_quic_rstream_resize_rbuf_def)
  qed
qed

lemma set_cleanse_spec:
  "rs_inv ext content qrs \<Longrightarrow> same_stream ext content qrs (ossl_quic_rstream_set_cleanse c qrs)"
  by (simp add: same_stream_def ossl_quic_rstream_set_cleanse_def rs_inv_def sf_wf_def rs_received_def curr_end_def)

lemma queue_data_spec:
  assumes inv: "rs_inv ext content qrs" and e: "s + len < 2 ^ 62" and len: "0 < len \<or> fin"
    and pkt: "\<And>p. pkt = Some p \<Longrightarrow> 0 < ext p" and fin: "fin_consistent (s + len) fin (rs_fl qrs)"
  obtains qrs' where
    "ossl_quic_rstream_queue_data False pkt s (Some (map content [s..<s + len])) len fin qrs = Some (True, qrs')"
    "rs_inv ext content qrs'" "fl_offset (rs_fl qrs') = fl_offset (rs_fl qrs)"
    "rs_received qrs' = rs_received qrs \<union> {s..<s + len} \<inter> {fl_offset (rs_fl qrs)..}"
    "curr_end (rs_fl qrs') = max (curr_end (rs_fl qrs)) (s + len)" "fl_fin (rs_fl qrs') = (fin \<or> fl_fin (rs_fl qrs))"
    "rs_rxfc qrs' = rs_rxfc qrs" "rs_statm qrs' = rs_statm qrs"
proof -
  have wf: "sf_wf ext (rs_fl qrs)" using inv by (simp add: rs_inv_def)
  have u: "u64_add s len = s + len" using e by (simp add: u64_add_exact)
  let ?d = "map content [s..<s + len]"
  let ?sf = "\<lparr>sf_start = s, sf_end = s + len, sf_pkt = pkt, sf_data = Some ?d\<rparr>"
  have refs: "0 < pkt_refs (rs_fl qrs) p" if "pkt = Some p" for p using pkt [OF that] wf by (simp add: sf_wf_def)
  have d: "length d = s + len - s" if "Some ?d = Some d" for d using that by auto
  obtain fl' where fl': "ossl_sframe_list_insert False (s, s + len) pkt (Some ?d) fin (rs_fl qrs) =
      Some (True, fl'\<lparr>fl_fin := fin \<or> fl_fin (rs_fl qrs)\<rparr>)" "inserts ext (rs_fl qrs) ?sf fl'"
    by (rule sframe_list_insert_spec [OF wf le_add1 e d refs fin])
  let ?qrs = "qrs\<lparr>rs_fl := fl'\<lparr>fl_fin := fin \<or> fl_fin (rs_fl qrs)\<rparr>\<rparr>"
  have "rb_writer.carries content off r ?sf" for off r by (simp add: rb_writer.carries_def)
  then have "rs_inv ext content ?qrs"
    using inv fl'(2) by (auto simp: rs_inv_def inserts_def sf_wf_def)
  moreover have "rs_received ?qrs = rs_received qrs \<union> {s..<s + len} \<inter> {fl_offset (rs_fl qrs)..}"
    using fl'(2) by (auto simp: rs_received_def inserts_def)
  moreover have "curr_end (rs_fl ?qrs) = max (curr_end (rs_fl qrs)) (s + len)"
  proof -
    have "curr_end (rs_fl ?qrs) = curr_end fl'" by (simp add: curr_end_def)
    with fl'(2) show ?thesis by (simp add: inserts_def)
  qed
  moreover have "ossl_quic_rstream_queue_data False pkt s (Some ?d) len fin qrs = Some (True, ?qrs)"
    using fl'(1) len by (simp add: ossl_quic_rstream_queue_data_def u)
  ultimately show thesis using that fl'(2) by (auto simp: inserts_def)
qed

lemma new_spec:
  assumes "ossl_quic_rstream_new False malloc ext rxfc statm sz = Some (Some qrs)" and m: "malloc_ok malloc"
  shows "rs_inv ext content qrs \<and> fl_offset (rs_fl qrs) = 0 \<and> rs_received qrs = {} \<and> curr_end (rs_fl qrs) = 0
    \<and> \<not> fl_fin (rs_fl qrs) \<and> rs_rxfc qrs = rxfc \<and> rs_statm qrs = statm"
proof -
  have wf: "ring_buf_wf ring_buf_init" by (simp add: ring_buf_init_def ring_buf_wf_def rb_mem_ok_def)
  obtain rbuf where r: "ring_buf_resize malloc ring_buf_init sz = Some (True, rbuf)"
    "qrs = \<lparr>rs_fl = ossl_sframe_list_init ext, rs_rxfc = rxfc, rs_statm = statm, rs_head_range = (0, 0), rs_rbuf = rbuf\<rparr>"
    using assms(1) by (auto simp: ossl_quic_rstream_new_def bind_eq_Some_conv split: if_splits)
  have "ring_buf_wf rbuf \<and> rb_ctail rbuf = 0"
    by (rule ring_buf_resize_spec [OF wf m, of sz]) (use r(1) in \<open>auto simp: ring_buf_init_def\<close>)
  then show ?thesis
    by (simp add: r(2) rs_inv_def ossl_sframe_list_init_def sf_wf_def rs_received_def curr_end_def)
qed

section \<open>The history of a stream\<close>

text \<open>
  Frames of a stream with the given content arrive in any order, with any overlaps and repetitions; the data are moved
  to the ring buffer, the buffer is resized, and the application reads, in any interleaving.  \<open>out\<close> are the bytes read
  so far, \<open>R\<close> the offsets received, \<open>E\<close> the highest end and \<open>final\<close> whether it is the final size; that frames respect the
  final size is what the flow controller has checked.
\<close>

inductive rs_history :: "(nat \<Rightarrow> u8) \<Rightarrow> (nat \<Rightarrow> nat) \<Rightarrow> u8 list \<Rightarrow> nat set \<Rightarrow> nat \<Rightarrow> bool \<Rightarrow> QUIC_RSTREAM \<Rightarrow> bool" for content ext where
  new: "ossl_quic_rstream_new False malloc ext None statm sz = Some (Some qrs) \<Longrightarrow> malloc_ok malloc
    \<Longrightarrow> rs_history content ext [] {} 0 False qrs"
| queue: "rs_history content ext out R E final qrs \<Longrightarrow> s + len < 2 ^ 62 \<Longrightarrow> 0 < len \<or> fin \<Longrightarrow> \<forall>p. pkt = Some p \<longrightarrow> 0 < ext p
    \<Longrightarrow> (fin \<longrightarrow> E \<le> s + len) \<Longrightarrow> (final \<longrightarrow> s + len \<le> E)
    \<Longrightarrow> ossl_quic_rstream_queue_data False pkt s (Some (map content [s..<s + len])) len fin qrs = Some (ok, qrs')
    \<Longrightarrow> rs_history content ext out (R \<union> {s..<s + len}) (max E (s + len)) (fin \<or> final) qrs'"
| queue_fails: "rs_history content ext out R E final qrs
    \<Longrightarrow> ossl_quic_rstream_queue_data True pkt s data len fin qrs = Some (False, qrs') \<Longrightarrow> rs_history content ext out R E final qrs'"
| move: "rs_history content ext out R E final qrs \<Longrightarrow> ossl_quic_rstream_move_to_rbuf qrs = Some (ok, qrs')
    \<Longrightarrow> rs_history content ext out R E final qrs'"
| resize: "rs_history content ext out R E final qrs \<Longrightarrow> malloc_ok malloc
    \<Longrightarrow> ossl_quic_rstream_resize_rbuf malloc sz qrs = Some (ok, qrs') \<Longrightarrow> rs_history content ext out R E final qrs'"
| cleanse: "rs_history content ext out R E final qrs \<Longrightarrow> rs_history content ext out R E final (ossl_quic_rstream_set_cleanse c qrs)"
| peek: "rs_history content ext out R E final qrs \<Longrightarrow> ossl_quic_rstream_peek sz qrs = Some (res, qrs')
    \<Longrightarrow> rs_history content ext out R E final qrs'"
| read: "rs_history content ext out R E final qrs \<Longrightarrow> ossl_quic_rstream_read now sz qrs rx = Some ((ok, bs, eof), qrs', rx')
    \<Longrightarrow> rs_history content ext (out @ bs) R E final qrs'"

definition rs_abs :: "(nat \<Rightarrow> u8) \<Rightarrow> (nat \<Rightarrow> nat) \<Rightarrow> u8 list \<Rightarrow> nat set \<Rightarrow> nat \<Rightarrow> bool \<Rightarrow> QUIC_RSTREAM \<Rightarrow> bool" where
  "rs_abs content ext out R E final qrs \<longleftrightarrow> rs_inv ext content qrs \<and> rs_rxfc qrs = None
     \<and> out = map content [0..<fl_offset (rs_fl qrs)] \<and> {0..<fl_offset (rs_fl qrs)} \<subseteq> R
     \<and> rs_received qrs = R \<inter> {fl_offset (rs_fl qrs)..} \<and> curr_end (rs_fl qrs) = E \<and> fl_fin (rs_fl qrs) = final"

lemma rs_abs_same: "rs_abs content ext out R E final qrs \<Longrightarrow> same_stream ext content qrs qrs' \<Longrightarrow> rs_abs content ext out R E final qrs'"
  by (simp add: rs_abs_def same_stream_def)

lemma read_spec:
  assumes abs: "rs_abs content ext out R E final qrs"
  defines "n \<equiv> \<lambda>sz. min sz (rs_reach qrs - length out)"
  obtains qrs' where
    "ossl_quic_rstream_read now sz qrs rx =
       Some ((True, map content [length out..<length out + n sz], final \<and> length out + n sz = E), qrs', rx)"
    "rs_abs content ext (out @ map content [length out..<length out + n sz]) R E final qrs'"
proof -
  have inv: "rs_inv ext content qrs" and off: "fl_offset (rs_fl qrs) = length out" using abs by (simp_all add: rs_abs_def)
  obtain qrs' where r: "read_internal sz True qrs =
       Some ((True, map content [length out..<length out + n sz], fl_fin (rs_fl qrs) \<and> length out + n sz = curr_end (rs_fl qrs)), qrs')"
    "rs_inv ext content qrs'" "fl_offset (rs_fl qrs') = length out + n sz" "rs_received qrs' = rs_received qrs \<inter> {length out + n sz..}"
    "curr_end (rs_fl qrs') = curr_end (rs_fl qrs)" "fl_fin (rs_fl qrs') = fl_fin (rs_fl qrs)"
    "rs_rxfc qrs' = rs_rxfc qrs" "rs_statm qrs' = rs_statm qrs"
    unfolding n_def by (rule read_internal_spec [OF inv, unfolded off])
  have "{0..<length out + n sz} \<subseteq> {0..<length out} \<union> {length out..<rs_reach qrs}" by (auto simp: n_def)
  also have "\<dots> \<subseteq> R" using rs_reach_spec(2) [OF inv] abs off by (simp add: rs_abs_def)
  finally have "{0..<length out + n sz} \<subseteq> R" .
  moreover have "map content [0..<length out + n sz] = map content [0..<length out] @ map content [length out..<length out + n sz]"
    by (simp add: upt_add_eq_append [of 0])
  ultimately have "rs_abs content ext (out @ map content [length out..<length out + n sz]) R E final qrs'"
    using r abs off by (auto simp: rs_abs_def)
  moreover have "ossl_quic_rstream_read now sz qrs rx =
       Some ((True, map content [length out..<length out + n sz], final \<and> length out + n sz = E), qrs', rx)"
    using r(1,7) abs by (simp add: ossl_quic_rstream_read_def rs_abs_def)
  ultimately show thesis using that by blast
qed

lemma queue_data_fails:
  assumes "ossl_quic_rstream_queue_data True pkt s data len fin qrs = Some (False, qrs')"
  shows "qrs' = qrs"
proof -
  have "fl = rs_fl qrs" if "ossl_sframe_list_insert True rng pkt data fin (rs_fl qrs) = Some (False, fl)" for rng fl
    using that sf_insert_frames_no_memory [of rng pkt data "rs_fl qrs"]
    by (auto simp: ossl_sframe_list_insert_def Let_def bind_eq_Some_conv split: if_splits)
  with assms show ?thesis
    by (auto simp: ossl_quic_rstream_queue_data_def bind_eq_Some_conv split: if_splits)
qed

lemma rs_history_abs: "rs_history content ext out R E final qrs \<Longrightarrow> rs_abs content ext out R E final qrs"
proof (induction rule: rs_history.induct)
  case (new malloc statm sz qrs)
  then show ?case using new_spec [OF new.hyps, of content] by (simp add: rs_abs_def)
next
  case (queue out R E final qrs s len fin pkt ok qrs')
  have inv: "rs_inv ext content qrs" and fin: "fin_consistent (s + len) fin (rs_fl qrs)"
    using queue.IH queue.hyps(5,6) by (auto simp: rs_abs_def fin_consistent_def)
  have pkt: "\<And>p. pkt = Some p \<Longrightarrow> 0 < ext p" using queue.hyps(4) by simp
  obtain q where q: "ossl_quic_rstream_queue_data False pkt s (Some (map content [s..<s + len])) len fin qrs = Some (True, q)"
    "rs_inv ext content q" "fl_offset (rs_fl q) = fl_offset (rs_fl qrs)"
    "rs_received q = rs_received qrs \<union> {s..<s + len} \<inter> {fl_offset (rs_fl qrs)..}"
    "curr_end (rs_fl q) = max (curr_end (rs_fl qrs)) (s + len)" "fl_fin (rs_fl q) = (fin \<or> fl_fin (rs_fl qrs))"
    "rs_rxfc q = rs_rxfc qrs" "rs_statm q = rs_statm qrs"
    by (rule queue_data_spec [OF inv queue.hyps(2,3) pkt fin])
  have "qrs' = q" using q(1) queue.hyps(7) by (simp only: option.inject prod.inject)
  moreover have "rs_abs content ext out (R \<union> {s..<s + len}) (max E (s + len)) (fin \<or> final) q"
    using queue.IH q(2-7) by (auto simp: rs_abs_def)
  ultimately show ?case by (simp only:)
next
  case (queue_fails out R E final qrs pkt s data len fin qrs')
  from queue_data_fails [OF queue_fails.hyps(2)] queue_fails.IH show ?case by (simp only:)
next
  case (move out R E final qrs ok qrs')
  have inv: "rs_inv ext content qrs" using move.IH by (simp add: rs_abs_def)
  obtain ok' q where "ossl_quic_rstream_move_to_rbuf qrs = Some (ok', q)" "same_stream ext content qrs q"
    by (rule move_to_rbuf_spec [OF inv])
  with move.hyps(2) have "same_stream ext content qrs qrs'" by simp
  then show ?case by (rule rs_abs_same [OF move.IH])
next
  case (resize out R E final qrs malloc sz ok qrs')
  have inv: "rs_inv ext content qrs" using resize.IH by (simp add: rs_abs_def)
  obtain ok' q where "ossl_quic_rstream_resize_rbuf malloc sz qrs = Some (ok', q)" "same_stream ext content qrs q"
    by (rule resize_rbuf_spec [OF inv resize.hyps(2)])
  with resize.hyps(3) have "same_stream ext content qrs qrs'" by simp
  then show ?case by (rule rs_abs_same [OF resize.IH])
next
  case (cleanse out R E final qrs c)
  then have "rs_inv ext content qrs" by (simp add: rs_abs_def)
  then show ?case by (rule rs_abs_same [OF cleanse.IH set_cleanse_spec])
next
  case (peek out R E final qrs sz res qrs')
  then have inv: "rs_inv ext content qrs" by (simp add: rs_abs_def)
  have "qrs' = qrs" using peek.hyps(2) peek_spec [OF inv, of sz] by simp
  with peek.IH show ?case by simp
next
  case (read out R E final qrs now sz rx ok bs eof qrs' rx')
  obtain q where "ossl_quic_rstream_read now sz qrs rx =
      Some ((True, map content [length out..<length out + min sz (rs_reach qrs - length out)],
        final \<and> length out + min sz (rs_reach qrs - length out) = E), q, rx)"
    "rs_abs content ext (out @ map content [length out..<length out + min sz (rs_reach qrs - length out)]) R E final q"
    by (rule read_spec [OF read.IH])
  moreover from this(1) read.hyps(2)
  have "bs = map content [length out..<length out + min sz (rs_reach qrs - length out)]" "qrs' = q"
    by (simp_all only: option.inject prod.inject)
  ultimately show ?case by (simp only:)
qed

text \<open>
  An example: four bytes arrive in two overlapping frames, the second one first, and are moved to the ring buffer
  before two of them are read.
\<close>

definition example_malloc :: "nat \<Rightarrow> object" where
  "example_malloc n = (if n = 0 \<or> n > 100 then None else Some (replicate n 0))"

definition example_content :: "nat \<Rightarrow> u8" where
  "example_content x = of_nat (x + 10)"

definition example_rs0 :: QUIC_RSTREAM where
  "example_rs0 = the (the (ossl_quic_rstream_new False example_malloc (\<lambda>_. 1) None None 4))"

definition example_rs1 :: QUIC_RSTREAM where
  "example_rs1 = snd (the (ossl_quic_rstream_queue_data False (Some 1) 2 (Some (map example_content [2..<2 + 2])) 2 True example_rs0))"

definition example_rs2 :: QUIC_RSTREAM where
  "example_rs2 = snd (the (ossl_quic_rstream_queue_data False (Some 2) 0 (Some (map example_content [0..<0 + 3])) 3 False example_rs1))"

definition example_rs3 :: QUIC_RSTREAM where
  "example_rs3 = snd (the (ossl_quic_rstream_move_to_rbuf example_rs2))"

lemma example_rs2_history: "rs_history example_content (\<lambda>_. 1) [] {0..<4} 4 True example_rs2"
proof -
  have "malloc_ok example_malloc" by (simp add: malloc_ok_def example_malloc_def)
  moreover have "ossl_quic_rstream_new False example_malloc (\<lambda>_. 1) None None 4 = Some (Some example_rs0)"
  proof -
    have "case ossl_quic_rstream_new False example_malloc (\<lambda>_. 1) None None 4 of Some (Some _) \<Rightarrow> True | _ \<Rightarrow> False" by code_simp
    then show ?thesis by (auto simp: example_rs0_def split: option.splits)
  qed
  ultimately have h: "rs_history example_content (\<lambda>_. 1) [] {} 0 False example_rs0" by (rule rs_history.new [rotated])
  have "ossl_quic_rstream_queue_data False (Some 1) 2 (Some (map example_content [2..<2 + 2])) 2 True example_rs0 \<noteq> None" by code_simp
  note q = the_pair_eq [OF this, folded example_rs1_def]
  have h: "rs_history example_content (\<lambda>_. 1) [] ({} \<union> {2..<2 + 2}) (max 0 (2 + 2)) (True \<or> False) example_rs1"
    by (rule rs_history.queue [OF h _ _ _ _ _ q]) simp_all
  have "ossl_quic_rstream_queue_data False (Some 2) 0 (Some (map example_content [0..<0 + 3])) 3 False example_rs1 \<noteq> None" by code_simp
  note q = the_pair_eq [OF this, folded example_rs2_def]
  have h: "rs_history example_content (\<lambda>_. 1) [] ({} \<union> {2..<2 + 2} \<union> {0..<0 + 3}) (max (max 0 (2 + 2)) (0 + 3)) (False \<or> True \<or> False) example_rs2"
    by (rule rs_history.queue [OF h _ _ _ _ _ q]) simp_all
  have "{} \<union> {2..<2 + 2} \<union> {0..<0 + 3} = {0..<4 :: nat}" by auto
  with h show ?thesis by simp
qed

lemma example_rs3_history: "rs_history example_content (\<lambda>_. 1) [] {0..<4} 4 True example_rs3"
proof -
  have "ossl_quic_rstream_move_to_rbuf example_rs2 \<noteq> None" by code_simp
  from rs_history.move [OF example_rs2_history the_pair_eq [OF this, folded example_rs3_def]] show ?thesis .
qed

text \<open>
  C3.  A stream is reassembled.  Whatever the order, overlaps and repetitions in which the frames of a stream arrive,
  and however moves to the ring buffer, resizings, failed allocations and reads are interleaved with them, the bytes
  the application has read are the stream from its beginning, without a gap.  Everything received up to the first
  missing offset \<open>k\<close> can be read: a read of \<open>sz\<close> bytes returns as many of these bytes as there are, and it reports
  the end of the stream exactly when it delivers the last byte of a stream whose final size is known.
\<close>

theorem rstream_reassembles:
  assumes hist: "rs_history content ext out R E final qrs"
  shows "out = map content [0..<length out]
    \<and> (\<exists>k\<ge>length out. {0..<k} \<subseteq> R \<and> k \<notin> R
        \<and> ossl_quic_rstream_available qrs = (True, k - length out, final \<and> k = E)
        \<and> (\<forall>sz. \<exists>qrs'. ossl_quic_rstream_read now sz qrs rx =
              Some ((True, map content [length out..<length out + min sz (k - length out)],
                     final \<and> length out + min sz (k - length out) = E), qrs', rx)))"
proof -
  note abs = rs_history_abs [OF hist]
  have inv: "rs_inv ext content qrs" and off: "fl_offset (rs_fl qrs) = length out"
    and out: "out = map content [0..<length out]" and R: "{0..<length out} \<subseteq> R" "rs_received qrs = R \<inter> {length out..}"
    using abs by (auto simp: rs_abs_def)
  note reach = rs_reach_spec [OF inv, unfolded off]
  have "{0..<rs_reach qrs} = {0..<length out} \<union> {length out..<rs_reach qrs}" using reach(1) by auto
  then have "{0..<rs_reach qrs} \<subseteq> R" using R reach(2) by auto
  moreover have "rs_reach qrs \<notin> R" using R(2) reach(1,3) by auto
  moreover have "ossl_quic_rstream_available qrs = (True, rs_reach qrs - length out, final \<and> rs_reach qrs = E)"
    using available_spec [OF inv] abs off by (simp add: rs_abs_def)
  moreover have "\<exists>qrs'. ossl_quic_rstream_read now sz qrs rx =
      Some ((True, map content [length out..<length out + min sz (rs_reach qrs - length out)],
        final \<and> length out + min sz (rs_reach qrs - length out) = E), qrs', rx)" for sz
    by (rule read_spec [OF abs, of now sz rx]) blast
  ultimately show ?thesis using out reach(1) by (intro conjI exI [of _ "rs_reach qrs"] allI) simp_all
qed

theorem rstream_reassembles_witness:
  "\<exists>qrs'. ossl_quic_rstream_read (\<lambda>_. 0) 3 example_rs3 \<lparr>rx_at = Map.empty, rx_calls = 0\<rparr> =
     Some ((True, [10, 11, 12], False), qrs', \<lparr>rx_at = Map.empty, rx_calls = 0\<rparr>)"
proof -
  obtain k where "{0..<k} \<subseteq> {0..<4}" "k \<notin> {0..<4}"
    and read: "\<forall>sz. \<exists>qrs'. ossl_quic_rstream_read (\<lambda>_. 0) sz example_rs3 \<lparr>rx_at = Map.empty, rx_calls = 0\<rparr> =
      Some ((True, map example_content [0..<0 + min sz (k - 0)], True \<and> 0 + min sz (k - 0) = 4), qrs', \<lparr>rx_at = Map.empty, rx_calls = 0\<rparr>)"
    using rstream_reassembles [OF example_rs3_history, of "\<lambda>_. 0" "\<lparr>rx_at = Map.empty, rx_calls = 0\<rparr>"]
    unfolding list.size by blast
  then have "k = 4" by (cases "k \<le> 4") (auto simp: subset_iff not_le)
  moreover have "map example_content [0..<0 + min 3 (4 - 0)] = [10, 11, 12]" by code_simp
  ultimately show ?thesis using read [rule_format, of 3] by simp
qed

text \<open>
  C4.  The frame list stays well-formed.  After every history its frames are in order of their starts with strictly
  increasing ends, none of them lies before the read offset, each carries as many bytes as its range or none, the frame
  counter is the length of the list, and every packet has exactly one reference for each frame that points to it beside
  those held elsewhere.  So freeing the stream runs without releasing a packet too often and leaves just the other
  references.
\<close>

theorem rstream_frames_well_formed:
  assumes hist: "rs_history content ext out R E final qrs"
  shows "sf_sorted (fl_frames (rs_fl qrs)) \<and> (\<forall>f\<in>set (fl_frames (rs_fl qrs)). frame_ok (fl_offset (rs_fl qrs)) f)
    \<and> fl_num_frames (rs_fl qrs) = length (fl_frames (rs_fl qrs))
    \<and> (\<forall>p. pkt_refs (rs_fl qrs) p = ext p + held (fl_frames (rs_fl qrs)) p)
    \<and> (\<exists>fl'. ossl_quic_rstream_free qrs = Some fl' \<and> (\<forall>p. pkt_refs fl' p = ext p))"
proof -
  have "rs_inv ext content qrs" using rs_history_abs [OF hist] by (simp add: rs_abs_def)
  then have wf: "sf_wf ext (rs_fl qrs)" by (simp add: rs_inv_def)
  then have "held (fl_frames (rs_fl qrs)) p \<le> pkt_refs (rs_fl qrs) p" for p by (simp add: sf_wf_def)
  from free_frames_refs [OF this] wf show ?thesis
    by (simp add: sf_wf_def ossl_quic_rstream_free_def ossl_sframe_list_destroy_def)
qed

theorem rstream_frames_well_formed_witness:
  "fl_num_frames (rs_fl example_rs2) = 2 \<and> (\<exists>fl'. ossl_quic_rstream_free example_rs2 = Some fl' \<and> pkt_refs fl' 1 = 1)"
proof -
  have "length (fl_frames (rs_fl example_rs2)) = 2" by code_simp
  with rstream_frames_well_formed [OF example_rs2_history] show ?thesis by auto
qed

end
