(* ===== verification/Quic_Stream_Map.thy ===== *)
theory Quic_Stream_Map
  imports Quic_Sstream Quic_Rstream
begin

text \<open>
  The streams of a connection: the states of their send and receive parts and the map that holds them, from
  \<open>ssl/quic/quic_stream_map.c\<close> and the inline functions of \<open>include/internal/quic_stream_map.h\<close>.

  A stream is named by its ID: it is in the hash table of the map from its allocation to its release, and the table is a
  map from IDs.  A circular list with its head is the list of the IDs of its members; the links of a node are null just
  when its stream is not a member.  The flow controllers, which a stream contains, are at addresses of the stores of
  \<open>Quic_Fc\<close>, since they point to the controllers of the connection.  \<open>None\<close> is a failed \<open>assert\<close> or an access through a
  pointer to nothing.  The fields that only the packetiser uses are left out.
\<close>

section \<open>Streams\<close>

datatype send_state = QUIC_SSTREAM_STATE_NONE | QUIC_SSTREAM_STATE_READY | QUIC_SSTREAM_STATE_SEND
  | QUIC_SSTREAM_STATE_DATA_SENT | QUIC_SSTREAM_STATE_DATA_RECVD | QUIC_SSTREAM_STATE_RESET_SENT
  | QUIC_SSTREAM_STATE_RESET_RECVD

datatype recv_state = QUIC_RSTREAM_STATE_NONE | QUIC_RSTREAM_STATE_RECV | QUIC_RSTREAM_STATE_SIZE_KNOWN
  | QUIC_RSTREAM_STATE_DATA_RECVD | QUIC_RSTREAM_STATE_DATA_READ | QUIC_RSTREAM_STATE_RESET_RECVD
  | QUIC_RSTREAM_STATE_RESET_READ

record QUIC_STREAM =
  qs_id :: nat
  qs_stop_sending_aec :: nat
  qs_reset_stream_aec :: nat
  qs_peer_stop_sending_aec :: nat
  qs_peer_reset_stream_aec :: nat
  qs_send_final_size :: nat
  qs_sstream :: "quic_sstream option"
  qs_rstream :: "QUIC_RSTREAM option"
  qs_txfc :: nat
  qs_rxfc :: nat
  qs_type :: nat
  qs_send_state :: send_state
  qs_recv_state :: recv_state
  qs_active :: bool
  qs_as_server :: bool
  qs_stop_sending :: bool
  qs_peer_stop_sending :: bool
  qs_want_max_stream_data :: bool
  qs_want_stop_sending :: bool
  qs_want_reset_stream :: bool
  qs_acked_stop_sending :: bool
  qs_deleted :: bool
  qs_ready_for_gc :: bool
  qs_shutdown_flush :: bool

abbreviation (input) QUIC_STREAM_INITIATOR_CLIENT :: nat where "QUIC_STREAM_INITIATOR_CLIENT \<equiv> 0"
abbreviation (input) QUIC_STREAM_INITIATOR_SERVER :: nat where "QUIC_STREAM_INITIATOR_SERVER \<equiv> 1"
abbreviation (input) QUIC_STREAM_DIR_BIDI :: nat where "QUIC_STREAM_DIR_BIDI \<equiv> 0"
abbreviation (input) QUIC_STREAM_DIR_UNI :: nat where "QUIC_STREAM_DIR_UNI \<equiv> 2"

text \<open>The masks select the two lowest bits of the type.\<close>

definition ossl_quic_stream_is_server_init :: "QUIC_STREAM \<Rightarrow> bool" where
  "ossl_quic_stream_is_server_init s = bit (qs_type s) 0"

definition ossl_quic_stream_is_bidi :: "QUIC_STREAM \<Rightarrow> bool" where
  "ossl_quic_stream_is_bidi s = (\<not> bit (qs_type s) 1)"

definition ossl_quic_stream_is_local_init :: "QUIC_STREAM \<Rightarrow> bool" where
  "ossl_quic_stream_is_local_init s = (ossl_quic_stream_is_server_init s = qs_as_server s)"

definition ossl_quic_stream_has_send :: "QUIC_STREAM \<Rightarrow> bool" where
  "ossl_quic_stream_has_send s = (qs_send_state s \<noteq> QUIC_SSTREAM_STATE_NONE)"

definition ossl_quic_stream_has_recv :: "QUIC_STREAM \<Rightarrow> bool" where
  "ossl_quic_stream_has_recv s = (qs_recv_state s \<noteq> QUIC_RSTREAM_STATE_NONE)"

definition ossl_quic_stream_has_send_buffer :: "QUIC_STREAM \<Rightarrow> bool" where
  "ossl_quic_stream_has_send_buffer s =
     (case qs_send_state s of
        QUIC_SSTREAM_STATE_READY \<Rightarrow> True
      | QUIC_SSTREAM_STATE_SEND \<Rightarrow> True
      | QUIC_SSTREAM_STATE_DATA_SENT \<Rightarrow> True
      | _ \<Rightarrow> False)"

definition ossl_quic_stream_send_is_reset :: "QUIC_STREAM \<Rightarrow> bool" where
  "ossl_quic_stream_send_is_reset s =
     (qs_send_state s = QUIC_SSTREAM_STATE_RESET_SENT \<or> qs_send_state s = QUIC_SSTREAM_STATE_RESET_RECVD)"

definition ossl_quic_stream_has_recv_buffer :: "QUIC_STREAM \<Rightarrow> bool" where
  "ossl_quic_stream_has_recv_buffer s =
     (case qs_recv_state s of
        QUIC_RSTREAM_STATE_RECV \<Rightarrow> True
      | QUIC_RSTREAM_STATE_SIZE_KNOWN \<Rightarrow> True
      | QUIC_RSTREAM_STATE_DATA_RECVD \<Rightarrow> True
      | _ \<Rightarrow> False)"

definition ossl_quic_stream_recv_is_reset :: "QUIC_STREAM \<Rightarrow> bool" where
  "ossl_quic_stream_recv_is_reset s =
     (qs_recv_state s = QUIC_RSTREAM_STATE_RESET_RECVD \<or> qs_recv_state s = QUIC_RSTREAM_STATE_RESET_READ)"

text \<open>The final size inside, \<open>None\<close> there for the return of 0.\<close>

definition ossl_quic_stream_send_get_final_size :: "QUIC_STREAM \<Rightarrow> nat option option" where
  "ossl_quic_stream_send_get_final_size s =
     (case qs_send_state s of
        QUIC_SSTREAM_STATE_SEND \<Rightarrow> map_option ossl_quic_sstream_get_final_size (qs_sstream s)
      | QUIC_SSTREAM_STATE_DATA_SENT \<Rightarrow> Some (Some (qs_send_final_size s))
      | QUIC_SSTREAM_STATE_DATA_RECVD \<Rightarrow> Some (Some (qs_send_final_size s))
      | QUIC_SSTREAM_STATE_RESET_SENT \<Rightarrow> Some (Some (qs_send_final_size s))
      | QUIC_SSTREAM_STATE_RESET_RECVD \<Rightarrow> Some (Some (qs_send_final_size s))
      | _ \<Rightarrow> Some None)"

definition ossl_quic_stream_recv_get_final_size :: "QUIC_STREAM \<Rightarrow> rxfcs \<Rightarrow> nat option option" where
  "ossl_quic_stream_recv_get_final_size s rx =
     (case qs_recv_state s of
        QUIC_RSTREAM_STATE_NONE \<Rightarrow> Some None
      | QUIC_RSTREAM_STATE_RECV \<Rightarrow> Some None
      | _ \<Rightarrow> map_option ossl_quic_rxfc_get_final_size (rx_at rx (qs_rxfc s)))"

definition ossl_quic_stream_recv_pending :: "QUIC_STREAM \<Rightarrow> bool \<Rightarrow> nat option" where
  "ossl_quic_stream_recv_pending s include_fin =
     (if ossl_quic_stream_has_recv_buffer s
      then map_option (\<lambda>rs.
             let (ok, avail, fin) = ossl_quic_rstream_available rs;
                 avail = (if \<not> ok then 0 else avail)
             in if avail = 0 \<and> include_fin \<and> fin then 1 else avail) (qs_rstream s)
      else Some (if qs_recv_state s = QUIC_RSTREAM_STATE_RESET_RECVD \<and> include_fin then 1 else 0))"

section \<open>The map\<close>

text \<open>
  \<open>qsm_is_server\<close> is the role of the channel, \<open>qsm_stream_limit\<close> the callback for the limit on local streams, and
  \<open>qsm_flush_done\<close> counts the calls of \<open>ossl_quic_channel_notify_flush_done\<close>.
\<close>

record QUIC_STREAM_MAP =
  qsm_map :: "nat \<rightharpoonup> QUIC_STREAM"
  qsm_active_list :: "nat list"
  qsm_accept_list :: "nat list"
  qsm_ready_for_gc_list :: "nat list"
  qsm_rr_stepping :: nat
  qsm_rr_counter :: nat
  qsm_num_accept_bidi :: nat
  qsm_num_accept_uni :: nat
  qsm_num_shutdown_flush :: nat
  qsm_rr_cur :: "nat option"
  qsm_stream_limit :: "(bool \<Rightarrow> nat) option"
  qsm_max_streams_bidi_rxfc :: "nat option"
  qsm_max_streams_uni_rxfc :: "nat option"
  qsm_is_server :: bool
  qsm_flush_done :: nat
  qsm_tx :: txfcs
  qsm_rx :: rxfcs

definition list_insert_tail :: "nat list \<Rightarrow> nat \<Rightarrow> nat list option" where
  "list_insert_tail l n = (if n \<in> set l then None else Some (l @ [n]))"

definition list_remove :: "nat list \<Rightarrow> nat \<Rightarrow> nat list option" where
  "list_remove l n = (if n \<in> set l then Some (remove1 n l) else None)"

text \<open>The member behind \<open>n\<close>, past the head of the list; and the first member.\<close>

definition list_next :: "nat list \<Rightarrow> nat \<Rightarrow> nat option" where
  "list_next l n =
     (case dropWhile (\<lambda>m. m \<noteq> n) l of
        [] \<Rightarrow> None
      | [_] \<Rightarrow> Some (hd l)
      | _ # m # _ \<Rightarrow> Some m)"

definition list_head :: "nat list \<Rightarrow> nat option" where
  "list_head l = (case l of [] \<Rightarrow> None | n # _ \<Rightarrow> Some n)"

definition qs_set :: "QUIC_STREAM \<Rightarrow> QUIC_STREAM_MAP \<Rightarrow> QUIC_STREAM_MAP" where
  "qs_set s qsm = qsm\<lparr>qsm_map := (qsm_map qsm)(qs_id s \<mapsto> s)\<rparr>"

definition ossl_quic_stream_map_init ::
  "(bool \<Rightarrow> nat) option \<Rightarrow> nat option \<Rightarrow> nat option \<Rightarrow> bool \<Rightarrow> txfcs \<Rightarrow> rxfcs \<Rightarrow> QUIC_STREAM_MAP" where
  "ossl_quic_stream_map_init get_stream_limit_cb max_streams_bidi_rxfc max_streams_uni_rxfc is_server tx rx =
     \<lparr>qsm_map = Map.empty, qsm_active_list = [], qsm_accept_list = [], qsm_ready_for_gc_list = [],
      qsm_rr_stepping = 1, qsm_rr_counter = 0, qsm_num_accept_bidi = 0, qsm_num_accept_uni = 0,
      qsm_num_shutdown_flush = 0, qsm_rr_cur = None, qsm_stream_limit = get_stream_limit_cb,
      qsm_max_streams_bidi_rxfc = max_streams_bidi_rxfc, qsm_max_streams_uni_rxfc = max_streams_uni_rxfc,
      qsm_is_server = is_server, qsm_flush_done = 0, qsm_tx = tx, qsm_rx = rx\<rparr>"

text \<open>The new stream; its flow controllers are at the address \<open>fc\<close> of the two stores.\<close>

definition ossl_quic_stream_map_alloc ::
  "bool \<Rightarrow> nat \<Rightarrow> nat \<Rightarrow> nat \<Rightarrow> QUIC_STREAM_MAP \<Rightarrow> nat option \<times> QUIC_STREAM_MAP" where
  "ossl_quic_stream_map_alloc no_memory fc stream_id type qsm =
     (if qsm_map qsm stream_id \<noteq> None then (None, qsm)
      else if no_memory then (None, qsm)
      else
        let s = \<lparr>qs_id = stream_id, qs_stop_sending_aec = 0, qs_reset_stream_aec = 0, qs_peer_stop_sending_aec = 0,
                 qs_peer_reset_stream_aec = 0, qs_send_final_size = 0, qs_sstream = None, qs_rstream = None,
                 qs_txfc = fc, qs_rxfc = fc, qs_type = type, qs_send_state = QUIC_SSTREAM_STATE_NONE,
                 qs_recv_state = QUIC_RSTREAM_STATE_NONE, qs_active = False, qs_as_server = qsm_is_server qsm,
                 qs_stop_sending = False, qs_peer_stop_sending = False, qs_want_max_stream_data = False,
                 qs_want_stop_sending = False, qs_want_reset_stream = False, qs_acked_stop_sending = False,
                 qs_deleted = False, qs_ready_for_gc = False, qs_shutdown_flush = False\<rparr>;
            s = s\<lparr>qs_send_state := (if ossl_quic_stream_is_local_init s \<or> ossl_quic_stream_is_bidi s
                    then QUIC_SSTREAM_STATE_READY else QUIC_SSTREAM_STATE_NONE)\<rparr>;
            s = s\<lparr>qs_recv_state := (if \<not> ossl_quic_stream_is_local_init s \<or> ossl_quic_stream_is_bidi s
                    then QUIC_RSTREAM_STATE_RECV else QUIC_RSTREAM_STATE_NONE),
                  qs_send_final_size := UINT64_MAX\<rparr>
        in (Some stream_id, qs_set s qsm))"

definition rstream_free :: "QUIC_RSTREAM option \<Rightarrow> unit option" where
  "rstream_free rs = (case rs of None \<Rightarrow> Some () | Some rs \<Rightarrow> map_option (\<lambda>_. ()) (ossl_quic_rstream_free rs))"

definition unlink :: "nat list \<Rightarrow> nat \<Rightarrow> nat list option" where
  "unlink l n = (if n \<in> set l then list_remove l n else Some l)"

definition ossl_quic_stream_map_release :: "nat \<Rightarrow> QUIC_STREAM_MAP \<Rightarrow> QUIC_STREAM_MAP option" where
  "ossl_quic_stream_map_release i qsm = do {
     s \<leftarrow> qsm_map qsm i;
     active \<leftarrow> unlink (qsm_active_list qsm) i;
     accept \<leftarrow> unlink (qsm_accept_list qsm) i;
     gc \<leftarrow> unlink (qsm_ready_for_gc_list qsm) i;
     _ \<leftarrow> rstream_free (qs_rstream s);
     Some (qsm\<lparr>qsm_active_list := active, qsm_accept_list := accept, qsm_ready_for_gc_list := gc,
               qsm_map := (qsm_map qsm)(i := None)\<rparr>) }"

text \<open>The visit takes the order in which the hash table enumerates its entries.\<close>

fun ossl_quic_stream_map_visit :: "nat list \<Rightarrow> (nat \<Rightarrow> QUIC_STREAM_MAP \<Rightarrow> QUIC_STREAM_MAP option) \<Rightarrow> QUIC_STREAM_MAP
    \<Rightarrow> QUIC_STREAM_MAP option" where
  "ossl_quic_stream_map_visit [] visit_cb qsm = Some qsm"
| "ossl_quic_stream_map_visit (i # order) visit_cb qsm = do {
     qsm \<leftarrow> visit_cb i qsm;
     ossl_quic_stream_map_visit order visit_cb qsm }"

definition ossl_quic_stream_map_cleanup :: "nat list \<Rightarrow> QUIC_STREAM_MAP \<Rightarrow> QUIC_STREAM_MAP option" where
  "ossl_quic_stream_map_cleanup order qsm =
     ossl_quic_stream_map_visit order ossl_quic_stream_map_release qsm"

definition ossl_quic_stream_map_get_by_id :: "nat \<Rightarrow> QUIC_STREAM_MAP \<Rightarrow> QUIC_STREAM option" where
  "ossl_quic_stream_map_get_by_id stream_id qsm = qsm_map qsm stream_id"

definition stream_map_mark_active :: "nat \<Rightarrow> QUIC_STREAM_MAP \<Rightarrow> QUIC_STREAM_MAP option" where
  "stream_map_mark_active i qsm = do {
     s \<leftarrow> qsm_map qsm i;
     if qs_active s then Some qsm
     else do {
       l \<leftarrow> list_insert_tail (qsm_active_list qsm) i;
       let qsm = qsm\<lparr>qsm_active_list := l\<rparr>;
           qsm = (if qsm_rr_cur qsm = None then qsm\<lparr>qsm_rr_cur := Some i\<rparr> else qsm)
       in Some (qs_set (s\<lparr>qs_active := True\<rparr>) qsm) } }"

definition stream_map_mark_inactive :: "nat \<Rightarrow> QUIC_STREAM_MAP \<Rightarrow> QUIC_STREAM_MAP option" where
  "stream_map_mark_inactive i qsm = do {
     s \<leftarrow> qsm_map qsm i;
     if \<not> qs_active s then Some qsm
     else do {
       qsm \<leftarrow> (if qsm_rr_cur qsm = Some i
                then do { n \<leftarrow> list_next (qsm_active_list qsm) i; Some (qsm\<lparr>qsm_rr_cur := Some n\<rparr>) }
                else Some qsm);
       let qsm = (if qsm_rr_cur qsm = Some i then qsm\<lparr>qsm_rr_cur := None\<rparr> else qsm) in do {
       l \<leftarrow> list_remove (qsm_active_list qsm) i;
       Some (qs_set (s\<lparr>qs_active := False\<rparr>) (qsm\<lparr>qsm_active_list := l\<rparr>)) } } }"

definition ossl_quic_stream_map_set_rr_stepping :: "nat \<Rightarrow> QUIC_STREAM_MAP \<Rightarrow> QUIC_STREAM_MAP" where
  "ossl_quic_stream_map_set_rr_stepping stepping qsm = qsm\<lparr>qsm_rr_stepping := stepping, qsm_rr_counter := 0\<rparr>"

definition stream_has_data_to_send :: "QUIC_STREAM \<Rightarrow> txfcs \<Rightarrow> bool option" where
  "stream_has_data_to_send s tx =
     (if ossl_quic_stream_has_send_buffer s
      then do {
        ss \<leftarrow> qs_sstream s;
        res \<leftarrow> ossl_quic_sstream_get_stream_frame ss 0 2;
        (case res of
           None \<Rightarrow> Some False
         | Some (shdr, iov) \<Rightarrow> do {
             fc_credit \<leftarrow> ossl_quic_txfc_get_credit (qs_txfc s) 0 tx;
             fc_swm \<leftarrow> ossl_quic_txfc_get_swm (qs_txfc s) tx;
             let fc_limit = u64_add fc_swm fc_credit
             in Some ((sh_is_fin shdr \<and> sh_len shdr = 0) \<or> sh_offset shdr < fc_limit) }) }
      else Some False)"

definition qsm_send_part_permits_gc :: "QUIC_STREAM \<Rightarrow> bool" where
  "qsm_send_part_permits_gc qs =
     (case qs_send_state qs of
        QUIC_SSTREAM_STATE_NONE \<Rightarrow> True
      | QUIC_SSTREAM_STATE_DATA_RECVD \<Rightarrow> True
      | QUIC_SSTREAM_STATE_RESET_RECVD \<Rightarrow> True
      | _ \<Rightarrow> False)"

definition qsm_ready_for_gc :: "QUIC_STREAM \<Rightarrow> bool option" where
  "qsm_ready_for_gc qs =
     (let recv_stream_fully_drained = False in do {
        ok \<leftarrow> (if \<not> qs_deleted qs \<or> \<not> ossl_quic_stream_has_send qs \<or> ossl_quic_stream_send_is_reset qs then Some True
               else map_option (\<lambda>sz. sz \<noteq> None) (ossl_quic_stream_send_get_final_size qs));
        if \<not> ok then None
        else Some (qs_deleted qs
                \<and> (\<not> ossl_quic_stream_has_recv qs \<or> recv_stream_fully_drained \<or> qs_acked_stop_sending qs)
                \<and> (\<not> ossl_quic_stream_has_send qs
                    \<or> qs_send_state qs = QUIC_SSTREAM_STATE_DATA_RECVD
                    \<or> qs_send_state qs = QUIC_SSTREAM_STATE_RESET_RECVD)) })"

definition ossl_quic_stream_map_is_local_allowed_by_stream_limit :: "nat \<Rightarrow> bool \<Rightarrow> QUIC_STREAM_MAP \<Rightarrow> bool" where
  "ossl_quic_stream_map_is_local_allowed_by_stream_limit stream_ordinal is_uni qsm =
     (case qsm_stream_limit qsm of None \<Rightarrow> True | Some cb \<Rightarrow> stream_ordinal < cb is_uni)"

definition shutdown_flush_done :: "nat \<Rightarrow> QUIC_STREAM_MAP \<Rightarrow> QUIC_STREAM_MAP option" where
  "shutdown_flush_done i qsm = do {
     qs \<leftarrow> qsm_map qsm i;
     if \<not> qs_shutdown_flush qs then Some qsm
     else if \<not> qsm_num_shutdown_flush qsm > 0 then None
     else
       let qsm = (qs_set (qs\<lparr>qs_shutdown_flush := False\<rparr>) qsm)\<lparr>qsm_num_shutdown_flush := qsm_num_shutdown_flush qsm - 1\<rparr>
       in Some (if qsm_num_shutdown_flush qsm = 0 then qsm\<lparr>qsm_flush_done := qsm_flush_done qsm + 1\<rparr> else qsm) }"

definition ossl_quic_stream_map_notify_totally_acked :: "nat \<Rightarrow> QUIC_STREAM_MAP \<Rightarrow> (bool \<times> QUIC_STREAM_MAP) option" where
  "ossl_quic_stream_map_notify_totally_acked i qsm = do {
     qs \<leftarrow> qsm_map qsm i;
     (case qs_send_state qs of
        QUIC_SSTREAM_STATE_DATA_SENT \<Rightarrow> do {
          qsm \<leftarrow> shutdown_flush_done i
            (qs_set (qs\<lparr>qs_send_state := QUIC_SSTREAM_STATE_DATA_RECVD, qs_sstream := None\<rparr>) qsm);
          Some (True, qsm) }
      | _ \<Rightarrow> Some (False, qsm)) }"

text \<open>
  The tests of \<open>update_state\<close>, and its steps: finishing the send part or the flush when everything is acknowledged,
  queueing for garbage collection, and the active list.
\<close>

definition should_be_active :: "QUIC_STREAM \<Rightarrow> bool \<Rightarrow> QUIC_STREAM_MAP \<Rightarrow> bool option" where
  "should_be_active s allowed_by_stream_limit qsm =
     (if \<not> allowed_by_stream_limit \<or> qs_ready_for_gc s then Some False
      else do {
        want_fc \<leftarrow>
          (if ossl_quic_stream_has_recv s \<and> \<not> ossl_quic_stream_recv_is_reset s \<and> qs_recv_state s = QUIC_RSTREAM_STATE_RECV
           then if qs_want_max_stream_data s then Some True
                else map_option fst (ossl_quic_rxfc_has_cwm_changed (qs_rxfc s) False (qsm_rx qsm))
           else Some False);
        if want_fc \<or> qs_want_stop_sending s \<or> qs_want_reset_stream s then Some True
        else if qs_peer_stop_sending s then Some False
        else stream_has_data_to_send s (qsm_tx qsm) })"

definition update_acked :: "nat \<Rightarrow> QUIC_STREAM_MAP \<Rightarrow> QUIC_STREAM_MAP option" where
  "update_acked i qsm = do {
     s \<leftarrow> qsm_map qsm i;
     data_acked \<leftarrow> (if qs_send_state s = QUIC_SSTREAM_STATE_DATA_SENT
                    then map_option ossl_quic_sstream_is_totally_acked (qs_sstream s) else Some False);
     if data_acked then map_option snd (ossl_quic_stream_map_notify_totally_acked i qsm)
     else do {
       flushed \<leftarrow> (if qs_shutdown_flush s \<and> qs_send_state s = QUIC_SSTREAM_STATE_SEND
                   then map_option ossl_quic_sstream_is_totally_acked (qs_sstream s) else Some False);
       if flushed then shutdown_flush_done i qsm else Some qsm } }"

definition update_gc :: "nat \<Rightarrow> QUIC_STREAM_MAP \<Rightarrow> QUIC_STREAM_MAP option" where
  "update_gc i qsm = do {
     s \<leftarrow> qsm_map qsm i;
     if qs_ready_for_gc s then Some qsm
     else do {
       ready \<leftarrow> qsm_ready_for_gc s;
       let qsm = qs_set (s\<lparr>qs_ready_for_gc := ready\<rparr>) qsm
       in if ready
          then do { l \<leftarrow> list_insert_tail (qsm_ready_for_gc_list qsm) i; Some (qsm\<lparr>qsm_ready_for_gc_list := l\<rparr>) }
          else Some qsm } }"

definition ossl_quic_stream_map_update_state :: "nat \<Rightarrow> QUIC_STREAM_MAP \<Rightarrow> QUIC_STREAM_MAP option" where
  "ossl_quic_stream_map_update_state i qsm = do {
     s \<leftarrow> qsm_map qsm i;
     let allowed_by_stream_limit =
           (if ossl_quic_stream_is_server_init s = qsm_is_server qsm
            then ossl_quic_stream_map_is_local_allowed_by_stream_limit (qs_id s div 4) (\<not> ossl_quic_stream_is_bidi s) qsm
            else True) in do {
     qsm \<leftarrow> update_acked i qsm;
     qsm \<leftarrow> update_gc i qsm;
     s \<leftarrow> qsm_map qsm i;
     active \<leftarrow> should_be_active s allowed_by_stream_limit qsm;
     if active then stream_map_mark_active i qsm else stream_map_mark_inactive i qsm } }"

section \<open>The send part\<close>

definition ossl_quic_stream_map_ensure_send_part_id :: "nat \<Rightarrow> QUIC_STREAM_MAP \<Rightarrow> (bool \<times> QUIC_STREAM_MAP) option" where
  "ossl_quic_stream_map_ensure_send_part_id i qsm = do {
     qs \<leftarrow> qsm_map qsm i;
     Some (case qs_send_state qs of
             QUIC_SSTREAM_STATE_NONE \<Rightarrow> (False, qsm)
           | QUIC_SSTREAM_STATE_READY \<Rightarrow> (True, qs_set (qs\<lparr>qs_send_state := QUIC_SSTREAM_STATE_SEND\<rparr>) qsm)
           | _ \<Rightarrow> (True, qsm)) }"

definition ossl_quic_stream_map_notify_all_data_sent :: "nat \<Rightarrow> QUIC_STREAM_MAP \<Rightarrow> (bool \<times> QUIC_STREAM_MAP) option" where
  "ossl_quic_stream_map_notify_all_data_sent i qsm = do {
     qs \<leftarrow> qsm_map qsm i;
     (case qs_send_state qs of
        QUIC_SSTREAM_STATE_SEND \<Rightarrow> do {
          ss \<leftarrow> qs_sstream qs;
          Some (case ossl_quic_sstream_get_final_size ss of
                  None \<Rightarrow> (False, qsm)
                | Some final_size \<Rightarrow>
                    (True, qs_set (qs\<lparr>qs_send_final_size := final_size, qs_send_state := QUIC_SSTREAM_STATE_DATA_SENT\<rparr>) qsm)) }
      | _ \<Rightarrow> Some (False, qsm)) }"

text \<open>The common end of the cases \<open>READY\<close>, \<open>SEND\<close> and \<open>DATA_SENT\<close>, which fall through.\<close>

definition reset_send_part :: "nat \<Rightarrow> nat \<Rightarrow> QUIC_STREAM_MAP \<Rightarrow> (bool \<times> QUIC_STREAM_MAP) option" where
  "reset_send_part i aec qsm = do {
     qs \<leftarrow> qsm_map qsm i;
     qsm \<leftarrow> shutdown_flush_done i
       (qs_set (qs\<lparr>qs_reset_stream_aec := aec, qs_want_reset_stream := True,
                    qs_send_state := QUIC_SSTREAM_STATE_RESET_SENT, qs_sstream := None\<rparr>) qsm);
     qsm \<leftarrow> ossl_quic_stream_map_update_state i qsm;
     Some (True, qsm) }"

definition ossl_quic_stream_map_reset_stream_send_part ::
  "nat \<Rightarrow> nat \<Rightarrow> QUIC_STREAM_MAP \<Rightarrow> (bool \<times> QUIC_STREAM_MAP) option" where
  "ossl_quic_stream_map_reset_stream_send_part i aec qsm =
     (let reset_unsent = (\<lambda>qsm. do {
            qs \<leftarrow> qsm_map qsm i;
            swm \<leftarrow> ossl_quic_txfc_get_swm (qs_txfc qs) (qsm_tx qsm);
            reset_send_part i aec (qs_set (qs\<lparr>qs_send_final_size := swm\<rparr>) qsm) })
      in do {
        qs \<leftarrow> qsm_map qsm i;
        (case qs_send_state qs of
           QUIC_SSTREAM_STATE_READY \<Rightarrow> do {
             (ok, qsm) \<leftarrow> ossl_quic_stream_map_ensure_send_part_id i qsm;
             if \<not> ok then Some (False, qsm) else reset_unsent qsm }
         | QUIC_SSTREAM_STATE_SEND \<Rightarrow> reset_unsent qsm
         | QUIC_SSTREAM_STATE_DATA_SENT \<Rightarrow> reset_send_part i aec qsm
         | QUIC_SSTREAM_STATE_RESET_SENT \<Rightarrow> Some (True, qsm)
         | QUIC_SSTREAM_STATE_RESET_RECVD \<Rightarrow> Some (True, qsm)
         | _ \<Rightarrow> Some (False, qsm)) })"

definition ossl_quic_stream_map_notify_reset_stream_acked :: "nat \<Rightarrow> QUIC_STREAM_MAP \<Rightarrow> (bool \<times> QUIC_STREAM_MAP) option" where
  "ossl_quic_stream_map_notify_reset_stream_acked i qsm = do {
     qs \<leftarrow> qsm_map qsm i;
     Some (case qs_send_state qs of
             QUIC_SSTREAM_STATE_RESET_SENT \<Rightarrow> (True, qs_set (qs\<lparr>qs_send_state := QUIC_SSTREAM_STATE_RESET_RECVD\<rparr>) qsm)
           | QUIC_SSTREAM_STATE_RESET_RECVD \<Rightarrow> (True, qsm)
           | _ \<Rightarrow> (False, qsm)) }"

section \<open>The receive part\<close>

definition ossl_quic_stream_map_notify_size_known_recv_part ::
  "nat \<Rightarrow> nat \<Rightarrow> QUIC_STREAM_MAP \<Rightarrow> (bool \<times> QUIC_STREAM_MAP) option" where
  "ossl_quic_stream_map_notify_size_known_recv_part i final_size qsm = do {
     qs \<leftarrow> qsm_map qsm i;
     Some (case qs_recv_state qs of
             QUIC_RSTREAM_STATE_RECV \<Rightarrow> (True, qs_set (qs\<lparr>qs_recv_state := QUIC_RSTREAM_STATE_SIZE_KNOWN\<rparr>) qsm)
           | _ \<Rightarrow> (False, qsm)) }"

definition ossl_quic_stream_map_notify_totally_received :: "nat \<Rightarrow> QUIC_STREAM_MAP \<Rightarrow> (bool \<times> QUIC_STREAM_MAP) option" where
  "ossl_quic_stream_map_notify_totally_received i qsm = do {
     qs \<leftarrow> qsm_map qsm i;
     Some (case qs_recv_state qs of
             QUIC_RSTREAM_STATE_SIZE_KNOWN \<Rightarrow>
               (True, qs_set (qs\<lparr>qs_recv_state := QUIC_RSTREAM_STATE_DATA_RECVD, qs_want_stop_sending := False\<rparr>) qsm)
           | _ \<Rightarrow> (False, qsm)) }"

definition ossl_quic_stream_map_notify_totally_read :: "nat \<Rightarrow> QUIC_STREAM_MAP \<Rightarrow> (bool \<times> QUIC_STREAM_MAP) option" where
  "ossl_quic_stream_map_notify_totally_read i qsm = do {
     qs \<leftarrow> qsm_map qsm i;
     (case qs_recv_state qs of
        QUIC_RSTREAM_STATE_DATA_RECVD \<Rightarrow> do {
          _ \<leftarrow> rstream_free (qs_rstream qs);
          Some (True, qs_set (qs\<lparr>qs_recv_state := QUIC_RSTREAM_STATE_DATA_READ, qs_rstream := None\<rparr>) qsm) }
      | _ \<Rightarrow> Some (False, qsm)) }"

definition ossl_quic_stream_map_notify_reset_recv_part ::
  "nat \<Rightarrow> nat \<Rightarrow> nat \<Rightarrow> QUIC_STREAM_MAP \<Rightarrow> (bool \<times> QUIC_STREAM_MAP) option" where
  "ossl_quic_stream_map_notify_reset_recv_part i app_error_code final_size qsm = do {
     qs \<leftarrow> qsm_map qsm i;
     if ossl_quic_stream_has_recv_buffer qs
     then do {
       prev_final_size \<leftarrow> ossl_quic_stream_recv_get_final_size qs (qsm_rx qsm);
       if prev_final_size \<noteq> None \<and> prev_final_size \<noteq> Some final_size then Some (False, qsm)
       else do {
         _ \<leftarrow> rstream_free (qs_rstream qs);
         qsm \<leftarrow> ossl_quic_stream_map_update_state i
           (qs_set (qs\<lparr>qs_recv_state := QUIC_RSTREAM_STATE_RESET_RECVD, qs_peer_reset_stream_aec := app_error_code,
                       qs_want_stop_sending := False, qs_rstream := None\<rparr>) qsm);
         Some (True, qsm) } }
     else Some (qs_recv_state qs \<noteq> QUIC_RSTREAM_STATE_NONE, qsm) }"

definition ossl_quic_stream_map_notify_app_read_reset_recv_part ::
  "nat \<Rightarrow> QUIC_STREAM_MAP \<Rightarrow> (bool \<times> QUIC_STREAM_MAP) option" where
  "ossl_quic_stream_map_notify_app_read_reset_recv_part i qsm = do {
     qs \<leftarrow> qsm_map qsm i;
     Some (case qs_recv_state qs of
             QUIC_RSTREAM_STATE_RESET_RECVD \<Rightarrow> (True, qs_set (qs\<lparr>qs_recv_state := QUIC_RSTREAM_STATE_RESET_READ\<rparr>) qsm)
           | _ \<Rightarrow> (False, qsm)) }"

definition ossl_quic_stream_map_schedule_stop_sending :: "nat \<Rightarrow> QUIC_STREAM_MAP \<Rightarrow> (bool \<times> QUIC_STREAM_MAP) option" where
  "ossl_quic_stream_map_schedule_stop_sending i qsm = do {
     qs \<leftarrow> qsm_map qsm i;
     if \<not> qs_stop_sending qs then Some (False, qsm)
     else if qs_want_stop_sending qs then Some (True, qsm)
     else if \<not> (qs_recv_state qs = QUIC_RSTREAM_STATE_RECV \<or> qs_recv_state qs = QUIC_RSTREAM_STATE_SIZE_KNOWN)
     then Some (True, qsm)
     else do {
       qsm \<leftarrow> ossl_quic_stream_map_update_state i (qs_set (qs\<lparr>qs_want_stop_sending := True\<rparr>) qsm);
       Some (True, qsm) } }"

definition ossl_quic_stream_map_stop_sending_recv_part ::
  "nat \<Rightarrow> nat \<Rightarrow> QUIC_STREAM_MAP \<Rightarrow> (bool \<times> QUIC_STREAM_MAP) option" where
  "ossl_quic_stream_map_stop_sending_recv_part i aec qsm = do {
     qs \<leftarrow> qsm_map qsm i;
     if qs_stop_sending qs then Some (False, qsm)
     else if \<not> (qs_recv_state qs = QUIC_RSTREAM_STATE_RECV \<or> qs_recv_state qs = QUIC_RSTREAM_STATE_SIZE_KNOWN)
     then Some (False, qsm)
     else ossl_quic_stream_map_schedule_stop_sending i
            (qs_set (qs\<lparr>qs_stop_sending := True, qs_stop_sending_aec := aec\<rparr>) qsm) }"

section \<open>Queues, shutdown and iteration\<close>

definition ossl_quic_stream_map_peek_accept_queue :: "QUIC_STREAM_MAP \<Rightarrow> nat option" where
  "ossl_quic_stream_map_peek_accept_queue qsm = list_head (qsm_accept_list qsm)"

definition ossl_quic_stream_map_get_accept_queue_len :: "bool \<Rightarrow> QUIC_STREAM_MAP \<Rightarrow> nat" where
  "ossl_quic_stream_map_get_accept_queue_len is_uni qsm =
     (if is_uni then qsm_num_accept_uni qsm else qsm_num_accept_bidi qsm)"

definition ossl_quic_stream_map_get_total_accept_queue_len :: "QUIC_STREAM_MAP \<Rightarrow> nat" where
  "ossl_quic_stream_map_get_total_accept_queue_len qsm =
     u64_add (ossl_quic_stream_map_get_accept_queue_len False qsm) (ossl_quic_stream_map_get_accept_queue_len True qsm)"

definition ossl_quic_stream_map_push_accept_queue :: "nat \<Rightarrow> QUIC_STREAM_MAP \<Rightarrow> QUIC_STREAM_MAP option" where
  "ossl_quic_stream_map_push_accept_queue i qsm = do {
     s \<leftarrow> qsm_map qsm i;
     l \<leftarrow> list_insert_tail (qsm_accept_list qsm) i;
     let qsm = qsm\<lparr>qsm_accept_list := l\<rparr>
     in Some (if ossl_quic_stream_is_bidi s then qsm\<lparr>qsm_num_accept_bidi := u64_add (qsm_num_accept_bidi qsm) 1\<rparr>
              else qsm\<lparr>qsm_num_accept_uni := u64_add (qsm_num_accept_uni qsm) 1\<rparr>) }"

definition qsm_get_max_streams_rxfc :: "QUIC_STREAM \<Rightarrow> QUIC_STREAM_MAP \<Rightarrow> nat option" where
  "qsm_get_max_streams_rxfc s qsm =
     (if ossl_quic_stream_is_bidi s then qsm_max_streams_bidi_rxfc qsm else qsm_max_streams_uni_rxfc qsm)"

definition ossl_quic_stream_map_remove_from_accept_queue ::
  "clock \<Rightarrow> nat \<Rightarrow> ossl_time \<Rightarrow> QUIC_STREAM_MAP \<Rightarrow> QUIC_STREAM_MAP option" where
  "ossl_quic_stream_map_remove_from_accept_queue now i rtt qsm = do {
     s \<leftarrow> qsm_map qsm i;
     l \<leftarrow> list_remove (qsm_accept_list qsm) i;
     let qsm = qsm\<lparr>qsm_accept_list := l\<rparr>;
         qsm = (if ossl_quic_stream_is_bidi s then qsm\<lparr>qsm_num_accept_bidi := u64_sub (qsm_num_accept_bidi qsm) 1\<rparr>
                else qsm\<lparr>qsm_num_accept_uni := u64_sub (qsm_num_accept_uni qsm) 1\<rparr>)
     in (case qsm_get_max_streams_rxfc s qsm of
           None \<Rightarrow> Some qsm
         | Some max_streams_rxfc \<Rightarrow> do {
             (_, rx) \<leftarrow> ossl_quic_rxfc_on_retire now max_streams_rxfc 1 rtt (qsm_rx qsm);
             Some (qsm\<lparr>qsm_rx := rx\<rparr>) }) }"

text \<open>The search runs round the circular list: it does not return when no stream of the queue matches.\<close>

partial_function (option) find_accept :: "bool \<Rightarrow> nat \<Rightarrow> QUIC_STREAM_MAP \<Rightarrow> nat option" where
  "find_accept is_uni i qsm =
     (case qsm_map qsm i of
        None \<Rightarrow> None
      | Some qs \<Rightarrow>
          if (is_uni \<and> \<not> ossl_quic_stream_is_bidi qs) \<or> (\<not> is_uni \<and> ossl_quic_stream_is_bidi qs) then Some i
          else (case list_next (qsm_accept_list qsm) i of
                  None \<Rightarrow> None
                | Some n \<Rightarrow> find_accept is_uni n qsm))"

definition ossl_quic_stream_map_find_in_accept_queue :: "bool \<Rightarrow> QUIC_STREAM_MAP \<Rightarrow> nat option option" where
  "ossl_quic_stream_map_find_in_accept_queue is_uni qsm =
     (if ossl_quic_stream_map_get_accept_queue_len is_uni qsm = 0 then Some None
      else (case ossl_quic_stream_map_peek_accept_queue qsm of
              None \<Rightarrow> Some None
            | Some qs \<Rightarrow> map_option Some (find_accept is_uni qs qsm)))"

partial_function (option) gc_loop :: "nat option \<Rightarrow> nat option \<Rightarrow> QUIC_STREAM_MAP \<Rightarrow> QUIC_STREAM_MAP option" where
  "gc_loop qs_head qs qsm =
     (case qs of
        None \<Rightarrow> Some qsm
      | Some i \<Rightarrow>
          if qs = qs_head then Some qsm
          else (case list_next (qsm_ready_for_gc_list qsm) i of
                  None \<Rightarrow> None
                | Some qsn \<Rightarrow>
                    (case ossl_quic_stream_map_release i qsm of
                       None \<Rightarrow> None
                     | Some qsm \<Rightarrow> gc_loop qs_head (Some qsn) qsm)))"

definition ossl_quic_stream_map_gc :: "QUIC_STREAM_MAP \<Rightarrow> QUIC_STREAM_MAP option" where
  "ossl_quic_stream_map_gc qsm =
     (let qs_head = list_head (qsm_ready_for_gc_list qsm) in gc_loop qs_head qs_head qsm)"

definition eligible_for_shutdown_flush :: "QUIC_STREAM \<Rightarrow> bool option" where
  "eligible_for_shutdown_flush qs =
     (if qs_send_state qs = QUIC_SSTREAM_STATE_SEND \<or> qs_send_state qs = QUIC_SSTREAM_STATE_DATA_SENT
      then map_option (\<lambda>ss. \<not> ossl_quic_sstream_is_totally_acked ss) (qs_sstream qs)
      else Some False)"

definition begin_shutdown_flush_each :: "nat \<Rightarrow> QUIC_STREAM_MAP \<Rightarrow> QUIC_STREAM_MAP option" where
  "begin_shutdown_flush_each i qsm = do {
     qs \<leftarrow> qsm_map qsm i;
     eligible \<leftarrow> eligible_for_shutdown_flush qs;
     Some (if \<not> eligible \<or> qs_shutdown_flush qs then qsm
           else (qs_set (qs\<lparr>qs_shutdown_flush := True\<rparr>) qsm)
                  \<lparr>qsm_num_shutdown_flush := u64_add (qsm_num_shutdown_flush qsm) 1\<rparr>) }"

definition ossl_quic_stream_map_begin_shutdown_flush :: "nat list \<Rightarrow> QUIC_STREAM_MAP \<Rightarrow> QUIC_STREAM_MAP option" where
  "ossl_quic_stream_map_begin_shutdown_flush order qsm =
     ossl_quic_stream_map_visit order begin_shutdown_flush_each (qsm\<lparr>qsm_num_shutdown_flush := 0\<rparr>)"

definition ossl_quic_stream_map_is_shutdown_flush_finished :: "QUIC_STREAM_MAP \<Rightarrow> bool" where
  "ossl_quic_stream_map_is_shutdown_flush_finished qsm = (qsm_num_shutdown_flush qsm = 0)"

record QUIC_STREAM_ITER =
  it_stream :: "nat option"
  it_first_stream :: "nat option"

definition ossl_quic_stream_iter_init ::
  "bool \<Rightarrow> QUIC_STREAM_MAP \<Rightarrow> (QUIC_STREAM_ITER \<times> QUIC_STREAM_MAP) option" where
  "ossl_quic_stream_iter_init advance_rr qsm =
     (let it = \<lparr>it_stream = qsm_rr_cur qsm, it_first_stream = qsm_rr_cur qsm\<rparr>
      in (case qsm_rr_cur qsm of
            None \<Rightarrow> Some (it, qsm)
          | Some cur \<Rightarrow>
              if \<not> advance_rr then Some (it, qsm)
              else
                let qsm = qsm\<lparr>qsm_rr_counter := u64_add (qsm_rr_counter qsm) 1\<rparr>
                in if qsm_rr_counter qsm \<ge> qsm_rr_stepping qsm
                   then do {
                     n \<leftarrow> list_next (qsm_active_list qsm) cur;
                     Some (it, qsm\<lparr>qsm_rr_counter := 0, qsm_rr_cur := Some n\<rparr>) }
                   else Some (it, qsm)))"

definition ossl_quic_stream_iter_next :: "QUIC_STREAM_MAP \<Rightarrow> QUIC_STREAM_ITER \<Rightarrow> QUIC_STREAM_ITER option" where
  "ossl_quic_stream_iter_next qsm it =
     (case it_stream it of
        None \<Rightarrow> Some it
      | Some i \<Rightarrow> do {
          n \<leftarrow> list_next (qsm_active_list qsm) i;
          Some (it\<lparr>it_stream := (if Some n = it_first_stream it then None else Some n)\<rparr>) })"

section \<open>Circular lists\<close>

lemma list_next_nth:
  assumes d: "distinct l" and k: "k < length l"
  shows "list_next l (l ! k) = Some (l ! (Suc k mod length l))"
proof -
  have "l ! k \<notin> set (take k l)"
    using d k by (metis distinct_append distinct.simps(2) append_take_drop_id Cons_nth_drop_Suc disjoint_iff list.set_intros(1))
  then have "dropWhile (\<lambda>m. m \<noteq> l ! k) (take k l @ drop k l) = dropWhile (\<lambda>m. m \<noteq> l ! k) (drop k l)"
    by (intro dropWhile_append2) auto
  then have dw: "dropWhile (\<lambda>m. m \<noteq> l ! k) l = l ! k # drop (Suc k) l"
    using k Cons_nth_drop_Suc [OF k] by (metis (mono_tags, lifting) append_take_drop_id dropWhile.simps(2))
  show ?thesis
  proof (cases "Suc k < length l")
    case True
    then show ?thesis using dw by (simp add: list_next_def Cons_nth_drop_Suc [symmetric])
  next
    case False
    then have "Suc k = length l" using k by simp
    moreover have "l \<noteq> []" using k by auto
    ultimately show ?thesis using dw by (simp add: list_next_def hd_conv_nth)
  qed
qed

lemma list_next_mem:
  assumes "distinct l" "n \<in> set l"
  obtains m where "list_next l n = Some m" "m \<in> set l" "m = n \<longleftrightarrow> l = [n]"
proof -
  obtain k where k: "k < length l" "n = l ! k" using assms(2) by (metis in_set_conv_nth)
  have k': "Suc k mod length l < length l" using k(1) by (intro mod_less_divisor) linarith
  have "l ! (Suc k mod length l) = n \<longleftrightarrow> Suc k mod length l = k"
    using k k' assms(1) by (metis nth_eq_iff_index_eq)
  also have "\<dots> \<longleftrightarrow> length l = 1" using k(1) by (cases "Suc k = length l") auto
  also have "\<dots> \<longleftrightarrow> l = [n]" using k by (cases l) auto
  finally show thesis using that list_next_nth [OF assms(1) k(1)] k k' by simp
qed

text \<open>The loop over the active streams that the users of the iterator run.\<close>

partial_function (option) iter_streams :: "QUIC_STREAM_MAP \<Rightarrow> QUIC_STREAM_ITER \<Rightarrow> nat list option" where
  "iter_streams qsm it =
     (case it_stream it of
        None \<Rightarrow> Some []
      | Some i \<Rightarrow>
          (case ossl_quic_stream_iter_next qsm it of
             None \<Rightarrow> None
           | Some it' \<Rightarrow> do { ids \<leftarrow> iter_streams qsm it'; Some (i # ids) }))"

lemma iter_streams_from:
  assumes d: "distinct (qsm_active_list qsm)" and k: "k < length (qsm_active_list qsm)" and j: "j \<le> length (qsm_active_list qsm)" "0 < j"
  shows "iter_streams qsm \<lparr>it_stream = Some (qsm_active_list qsm ! ((k + (length (qsm_active_list qsm) - j)) mod length (qsm_active_list qsm))),
      it_first_stream = Some (qsm_active_list qsm ! k)\<rparr> =
    Some (map (\<lambda>m. qsm_active_list qsm ! ((k + m) mod length (qsm_active_list qsm)))
      [length (qsm_active_list qsm) - j..<length (qsm_active_list qsm)])"
  using j
proof (induction j)
  case (Suc j)
  let ?l = "qsm_active_list qsm"
  let ?n = "length ?l"
  define p where "p = ?n - Suc j"
  have p: "Suc p = ?n - j" "p < ?n" "0 < ?n" using Suc.prems by (auto simp: p_def)
  have m: "(k + p) mod ?n < ?n" using p(3) by simp
  have next_elem: "list_next ?l (?l ! ((k + p) mod ?n)) = Some (?l ! ((k + Suc p) mod ?n))"
    using list_next_nth [OF d m] by (simp add: mod_Suc_eq)
  have "(k + Suc p) mod ?n = k \<longleftrightarrow> j = 0"
  proof (cases "k + Suc p < ?n")
    case False
    then have "(k + Suc p) mod ?n = k + Suc p - ?n" using k p(2) by (subst le_mod_geq) auto
    then show ?thesis using k p False by auto
  qed (use p in auto)
  then have first: "?l ! ((k + Suc p) mod ?n) = ?l ! k \<longleftrightarrow> j = 0"
    using d k mod_less_divisor [OF p(3), of "k + Suc p"] by (simp add: nth_eq_iff_index_eq)
  have upt: "[p..<?n] = p # [?n - j..<?n]" using p by (simp add: upt_conv_Cons)
  have "iter_streams qsm \<lparr>it_stream = Some (?l ! ((k + p) mod ?n)), it_first_stream = Some (?l ! k)\<rparr> =
      Some (map (\<lambda>m. ?l ! ((k + m) mod ?n)) [p..<?n])"
  proof (cases "j = 0")
    case True
    then show ?thesis using next_elem first upt
      by (subst iter_streams.simps) (simp add: ossl_quic_stream_iter_next_def iter_streams.simps)
  next
    case False
    with Suc have "iter_streams qsm \<lparr>it_stream = Some (?l ! ((k + Suc p) mod ?n)), it_first_stream = Some (?l ! k)\<rparr> =
        Some (map (\<lambda>m. ?l ! ((k + m) mod ?n)) [?n - j..<?n])" using p(1) by simp
    then show ?thesis using False next_elem first upt
      by (subst iter_streams.simps) (simp add: ossl_quic_stream_iter_next_def)
  qed
  then show ?case by (simp only: p_def)
qed simp

lemma iter_streams_rotate:
  assumes d: "distinct (qsm_active_list qsm)" and k: "k < length (qsm_active_list qsm)"
  shows "iter_streams qsm \<lparr>it_stream = Some (qsm_active_list qsm ! k), it_first_stream = Some (qsm_active_list qsm ! k)\<rparr> =
    Some (rotate k (qsm_active_list qsm))"
proof -
  have "map (\<lambda>m. qsm_active_list qsm ! ((k + m) mod length (qsm_active_list qsm))) [0..<length (qsm_active_list qsm)]
      = rotate k (qsm_active_list qsm)"
    by (intro nth_equalityI) (simp_all add: nth_rotate)
  moreover have "qsm_active_list qsm \<noteq> []" using k by auto
  ultimately show ?thesis using iter_streams_from [OF d k, of "length (qsm_active_list qsm)"] k by simp
qed

lemma list_next_split: "distinct (pre @ i # j # post) \<Longrightarrow> list_next (pre @ i # j # post) i = Some j"
  using list_next_nth [of "pre @ i # j # post" "length pre"] by (simp add: nth_append)

definition direction_matches :: "bool \<Rightarrow> QUIC_STREAM_MAP \<Rightarrow> nat \<Rightarrow> bool" where
  "direction_matches is_uni qsm i \<longleftrightarrow> (\<exists>s. qsm_map qsm i = Some s \<and> ossl_quic_stream_is_bidi s = (\<not> is_uni))"

lemma find_accept_suffix:
  assumes "distinct (qsm_accept_list qsm)" "set (qsm_accept_list qsm) \<subseteq> dom (qsm_map qsm)"
    and "qsm_accept_list qsm = pre @ i # post" "\<exists>j\<in>set (i # post). direction_matches is_uni qsm j"
  shows "find_accept is_uni i qsm = Some (hd (filter (direction_matches is_uni qsm) (i # post)))"
  using assms(3,4)
proof (induction post arbitrary: pre i)
  case Nil
  then obtain s where "qsm_map qsm i = Some s" "ossl_quic_stream_is_bidi s = (\<not> is_uni)" by (auto simp: direction_matches_def)
  then show ?case using Nil by (subst find_accept.simps) auto
next
  case (Cons j post)
  obtain s where s: "qsm_map qsm i = Some s" using assms(2) Cons.prems(1) by auto
  show ?case
  proof (cases "direction_matches is_uni qsm i")
    case True
    then show ?thesis using s by (subst find_accept.simps) (auto simp: direction_matches_def)
  next
    case False
    then have no: "\<not> ((is_uni \<and> \<not> ossl_quic_stream_is_bidi s) \<or> (\<not> is_uni \<and> ossl_quic_stream_is_bidi s))"
      using s by (auto simp: direction_matches_def)
    have "find_accept is_uni j qsm = Some (hd (filter (direction_matches is_uni qsm) (j # post)))"
      using Cons.prems False by (intro Cons.IH [of "pre @ [i]"]) auto
    moreover have "list_next (qsm_accept_list qsm) i = Some j" using list_next_split [of pre i j post] assms(1) Cons.prems(1) by simp
    then have "find_accept is_uni i qsm = find_accept is_uni j qsm"
      by (subst find_accept.simps) (simp only: s option.case if_not_P [OF no])
    ultimately show ?thesis using False by simp
  qed
qed

section \<open>The invariant of the map\<close>

text \<open>
  What the header promises of a stream in each of its states, the condition of the assertion in \<open>qsm_ready_for_gc\<close>, and
  that only a stream with unsent or unacknowledged data is counted for the flush.
\<close>

definition send_ok :: "QUIC_STREAM \<Rightarrow> bool" where
  "send_ok s \<longleftrightarrow>
     (qs_sstream s \<noteq> None \<longleftrightarrow> ossl_quic_stream_has_send_buffer s)
     \<and> (\<forall>ss. qs_sstream s = Some ss \<longrightarrow> (\<exists>sent. sstream_inv sent ss)
          \<and> (qs_send_state s = QUIC_SSTREAM_STATE_READY \<longrightarrow> \<not> ss_have_final_size ss))
     \<and> (qs_deleted s \<and> ossl_quic_stream_has_send s \<and> \<not> ossl_quic_stream_send_is_reset s
          \<longrightarrow> ossl_quic_stream_send_get_final_size s \<noteq> Some None)
     \<and> (qs_shutdown_flush s \<longrightarrow> qs_send_state s = QUIC_SSTREAM_STATE_SEND \<or> qs_send_state s = QUIC_SSTREAM_STATE_DATA_SENT)"

definition recv_ok :: "QUIC_STREAM \<Rightarrow> bool" where
  "recv_ok s \<longleftrightarrow> (qs_rstream s \<noteq> None \<longleftrightarrow> ossl_quic_stream_has_recv_buffer s)
     \<and> (\<forall>rs. qs_rstream s = Some rs \<longrightarrow> ossl_quic_rstream_free rs \<noteq> None)"

definition stream_ok :: "QUIC_STREAM \<Rightarrow> bool" where
  "stream_ok s \<longleftrightarrow> send_ok s \<and> recv_ok s"

definition members :: "(QUIC_STREAM \<Rightarrow> bool) \<Rightarrow> (nat \<rightharpoonup> QUIC_STREAM) \<Rightarrow> nat set" where
  "members P m = {i. \<exists>s. m i = Some s \<and> P s}"

definition rr_ok :: "nat option \<Rightarrow> nat list \<Rightarrow> bool" where
  "rr_ok cur active = (case cur of None \<Rightarrow> active = [] | Some i \<Rightarrow> i \<in> set active)"

definition qsm_wf :: "QUIC_STREAM_MAP \<Rightarrow> bool" where
  "qsm_wf qsm \<longleftrightarrow>
     (\<forall>i s. qsm_map qsm i = Some s \<longrightarrow> qs_id s = i \<and> i < 2 ^ 62 \<and> stream_ok s)
     \<and> distinct (qsm_active_list qsm) \<and> set (qsm_active_list qsm) = members qs_active (qsm_map qsm)
     \<and> rr_ok (qsm_rr_cur qsm) (qsm_active_list qsm)
     \<and> distinct (qsm_ready_for_gc_list qsm) \<and> set (qsm_ready_for_gc_list qsm) = members qs_ready_for_gc (qsm_map qsm)
     \<and> distinct (qsm_accept_list qsm) \<and> set (qsm_accept_list qsm) \<subseteq> dom (qsm_map qsm)
     \<and> qsm_num_accept_bidi qsm = length (filter (direction_matches False qsm) (qsm_accept_list qsm))
     \<and> qsm_num_accept_uni qsm = length (filter (direction_matches True qsm) (qsm_accept_list qsm))
     \<and> qsm_num_shutdown_flush qsm = card (members qs_shutdown_flush (qsm_map qsm))"

text \<open>The flow controllers of the streams exist and are within their limits.\<close>

definition fc_ok :: "QUIC_STREAM_MAP \<Rightarrow> bool" where
  "fc_ok qsm \<longleftrightarrow> (\<forall>i s. qsm_map qsm i = Some s \<longrightarrow>
     ossl_quic_txfc_get_credit (qs_txfc s) 0 (qsm_tx qsm) \<noteq> None \<and> rx_at (qsm_rx qsm) (qs_rxfc s) \<noteq> None)"

lemma qs_set_simps [simp]:
  "qsm_map (qs_set s qsm) = (qsm_map qsm)(qs_id s \<mapsto> s)"
  "qsm_active_list (qs_set s qsm) = qsm_active_list qsm" "qsm_accept_list (qs_set s qsm) = qsm_accept_list qsm"
  "qsm_ready_for_gc_list (qs_set s qsm) = qsm_ready_for_gc_list qsm" "qsm_rr_cur (qs_set s qsm) = qsm_rr_cur qsm"
  "qsm_rr_stepping (qs_set s qsm) = qsm_rr_stepping qsm" "qsm_rr_counter (qs_set s qsm) = qsm_rr_counter qsm"
  "qsm_num_accept_bidi (qs_set s qsm) = qsm_num_accept_bidi qsm" "qsm_num_accept_uni (qs_set s qsm) = qsm_num_accept_uni qsm"
  "qsm_num_shutdown_flush (qs_set s qsm) = qsm_num_shutdown_flush qsm" "qsm_stream_limit (qs_set s qsm) = qsm_stream_limit qsm"
  "qsm_max_streams_bidi_rxfc (qs_set s qsm) = qsm_max_streams_bidi_rxfc qsm"
  "qsm_max_streams_uni_rxfc (qs_set s qsm) = qsm_max_streams_uni_rxfc qsm" "qsm_is_server (qs_set s qsm) = qsm_is_server qsm"
  "qsm_flush_done (qs_set s qsm) = qsm_flush_done qsm" "qsm_tx (qs_set s qsm) = qsm_tx qsm" "qsm_rx (qs_set s qsm) = qsm_rx qsm"
  by (simp_all add: qs_set_def)

lemma qs_set_set: "qs_id a = qs_id b \<Longrightarrow> qs_set a (qs_set b qsm) = qs_set a qsm"
  by (simp add: qs_set_def)

lemma qs_set_same: "qsm_map qsm (qs_id s) = Some s \<Longrightarrow> qs_set s qsm = qsm"
  by (simp add: qs_set_def fun_upd_idem)

lemma members_upd: "members P (m(i \<mapsto> s)) = (if P s then insert i (members P m) else members P m - {i})"
  by (auto simp: members_def)

lemma members_upd_same: "m i = Some s0 \<Longrightarrow> P s = P s0 \<Longrightarrow> members P (m(i \<mapsto> s)) = members P m"
  by (auto simp: members_def)

lemma member_iff: "m i = Some s \<Longrightarrow> i \<in> members P m \<longleftrightarrow> P s"
  by (simp add: members_def)

lemma wf_stream: "qsm_wf qsm \<Longrightarrow> qsm_map qsm i = Some s \<Longrightarrow> qs_id s = i \<and> i < 2 ^ 62 \<and> stream_ok s"
  unfolding qsm_wf_def by blast

lemma finite_members: "qsm_wf qsm \<Longrightarrow> finite (members P (qsm_map qsm))"
  by (rule finite_subset [of _ "{..<2 ^ 62}"]) (auto simp: members_def dest: wf_stream)

lemmas stream_defs = ossl_quic_stream_has_send_def ossl_quic_stream_has_recv_def ossl_quic_stream_has_send_buffer_def
  ossl_quic_stream_has_recv_buffer_def ossl_quic_stream_send_is_reset_def ossl_quic_stream_recv_is_reset_def
  ossl_quic_stream_send_get_final_size_def ossl_quic_stream_recv_get_final_size_def ossl_quic_stream_is_bidi_def
  ossl_quic_stream_is_local_init_def ossl_quic_stream_is_server_init_def

lemma send_ok_upd [simp]:
  "send_ok (s\<lparr>qs_recv_state := x_recv_state\<rparr>) = send_ok s" "send_ok (s\<lparr>qs_rstream := x_rstream\<rparr>) = send_ok s"
  "send_ok (s\<lparr>qs_want_stop_sending := x_want_stop_sending\<rparr>) = send_ok s" "send_ok (s\<lparr>qs_peer_reset_stream_aec := x_peer_reset_stream_aec\<rparr>) = send_ok s"
  "send_ok (s\<lparr>qs_active := x_active\<rparr>) = send_ok s" "send_ok (s\<lparr>qs_ready_for_gc := x_ready_for_gc\<rparr>) = send_ok s"
  "send_ok (s\<lparr>qs_stop_sending := x_stop_sending\<rparr>) = send_ok s" "send_ok (s\<lparr>qs_stop_sending_aec := x_stop_sending_aec\<rparr>) = send_ok s"
  "send_ok (s\<lparr>qs_peer_stop_sending := x_peer_stop_sending\<rparr>) = send_ok s" "send_ok (s\<lparr>qs_peer_stop_sending_aec := x_peer_stop_sending_aec\<rparr>) = send_ok s"
  by (cases "qs_send_state s"; simp add: send_ok_def stream_defs)+

lemma recv_ok_upd [simp]:
  "recv_ok (s\<lparr>qs_send_state := x_send_state\<rparr>) = recv_ok s" "recv_ok (s\<lparr>qs_sstream := x_sstream\<rparr>) = recv_ok s"
  "recv_ok (s\<lparr>qs_send_final_size := x_send_final_size\<rparr>) = recv_ok s" "recv_ok (s\<lparr>qs_want_stop_sending := x_want_stop_sending\<rparr>) = recv_ok s"
  "recv_ok (s\<lparr>qs_peer_reset_stream_aec := x_peer_reset_stream_aec\<rparr>) = recv_ok s" "recv_ok (s\<lparr>qs_active := x_active\<rparr>) = recv_ok s"
  "recv_ok (s\<lparr>qs_ready_for_gc := x_ready_for_gc\<rparr>) = recv_ok s" "recv_ok (s\<lparr>qs_stop_sending := x_stop_sending\<rparr>) = recv_ok s"
  "recv_ok (s\<lparr>qs_stop_sending_aec := x_stop_sending_aec\<rparr>) = recv_ok s" "recv_ok (s\<lparr>qs_peer_stop_sending := x_peer_stop_sending\<rparr>) = recv_ok s"
  "recv_ok (s\<lparr>qs_peer_stop_sending_aec := x_peer_stop_sending_aec\<rparr>) = recv_ok s" "recv_ok (s\<lparr>qs_want_reset_stream := x_want_reset_stream\<rparr>) = recv_ok s"
  "recv_ok (s\<lparr>qs_reset_stream_aec := x_reset_stream_aec\<rparr>) = recv_ok s" "recv_ok (s\<lparr>qs_deleted := x_deleted\<rparr>) = recv_ok s"
  "recv_ok (s\<lparr>qs_shutdown_flush := x_shutdown_flush\<rparr>) = recv_ok s"
  by (simp_all add: recv_ok_def stream_defs)

lemma stream_ok_upd [simp]:
  "stream_ok (s\<lparr>qs_active := x_active\<rparr>) = stream_ok s" "stream_ok (s\<lparr>qs_ready_for_gc := x_ready_for_gc\<rparr>) = stream_ok s"
  "stream_ok (s\<lparr>qs_want_stop_sending := x_want_stop_sending\<rparr>) = stream_ok s" "stream_ok (s\<lparr>qs_peer_reset_stream_aec := x_peer_reset_stream_aec\<rparr>) = stream_ok s"
  "stream_ok (s\<lparr>qs_stop_sending := x_stop_sending\<rparr>) = stream_ok s" "stream_ok (s\<lparr>qs_stop_sending_aec := x_stop_sending_aec\<rparr>) = stream_ok s"
  "stream_ok (s\<lparr>qs_peer_stop_sending := x_peer_stop_sending\<rparr>) = stream_ok s" "stream_ok (s\<lparr>qs_peer_stop_sending_aec := x_peer_stop_sending_aec\<rparr>) = stream_ok s"
  by (simp_all add: stream_ok_def)

lemmas stream_ok_defs = stream_ok_def send_ok_def recv_ok_def

text \<open>What an operation on the stream \<open>i\<close> leaves as it was.\<close>

definition only_at :: "nat \<Rightarrow> QUIC_STREAM_MAP \<Rightarrow> QUIC_STREAM_MAP \<Rightarrow> bool" where
  "only_at i qsm qsm' \<longleftrightarrow> (\<forall>j. j \<noteq> i \<longrightarrow> qsm_map qsm' j = qsm_map qsm j) \<and> qsm_tx qsm' = qsm_tx qsm \<and> qsm_rx qsm' = qsm_rx qsm
     \<and> qsm_stream_limit qsm' = qsm_stream_limit qsm \<and> qsm_is_server qsm' = qsm_is_server qsm
     \<and> qsm_accept_list qsm' = qsm_accept_list qsm \<and> qsm_num_accept_bidi qsm' = qsm_num_accept_bidi qsm
     \<and> qsm_num_accept_uni qsm' = qsm_num_accept_uni qsm
     \<and> qsm_max_streams_bidi_rxfc qsm' = qsm_max_streams_bidi_rxfc qsm
     \<and> qsm_max_streams_uni_rxfc qsm' = qsm_max_streams_uni_rxfc qsm"

lemma only_at_refl [simp]: "only_at i qsm qsm" "qs_id s = i \<Longrightarrow> only_at i qsm (qs_set s qsm)"
  by (simp_all add: only_at_def)

lemma only_at_trans [trans]: "only_at i a b \<Longrightarrow> only_at i b c \<Longrightarrow> only_at i a c"
  by (simp add: only_at_def)

lemma wf_lists:
  assumes "qsm_wf qsm"
  shows "distinct (qsm_active_list qsm)" "set (qsm_active_list qsm) = members qs_active (qsm_map qsm)"
    "distinct (qsm_ready_for_gc_list qsm)" "set (qsm_ready_for_gc_list qsm) = members qs_ready_for_gc (qsm_map qsm)"
    "qsm_num_shutdown_flush qsm = card (members qs_shutdown_flush (qsm_map qsm))"
    "rr_ok (qsm_rr_cur qsm) (qsm_active_list qsm)"
  using assms by (simp_all add: qsm_wf_def)

text \<open>
  The invariant after a change of one stream and of the lists it is on: the parts that depend on the accept queue follow.
\<close>

lemma wf_update:
  assumes wf: "qsm_wf qsm" and s: "qsm_map qsm i = Some s" and s': "qs_id s' = i" "qs_type s' = qs_type s" "stream_ok s'"
    and map: "qsm_map qsm' = (qsm_map qsm)(i \<mapsto> s')"
    and accept: "qsm_accept_list qsm' = qsm_accept_list qsm" "qsm_num_accept_bidi qsm' = qsm_num_accept_bidi qsm"
      "qsm_num_accept_uni qsm' = qsm_num_accept_uni qsm"
    and active: "distinct (qsm_active_list qsm')" "set (qsm_active_list qsm') = members qs_active (qsm_map qsm')"
    and rr: "rr_ok (qsm_rr_cur qsm') (qsm_active_list qsm')"
    and gc: "distinct (qsm_ready_for_gc_list qsm')" "set (qsm_ready_for_gc_list qsm') = members qs_ready_for_gc (qsm_map qsm')"
    and flush: "qsm_num_shutdown_flush qsm' = card (members qs_shutdown_flush (qsm_map qsm'))"
  shows "qsm_wf qsm'"
proof -
  have "direction_matches is_uni qsm' = direction_matches is_uni qsm" for is_uni
    using map s s'(2) by (intro ext) (auto simp: direction_matches_def ossl_quic_stream_is_bidi_def)
  moreover have "\<forall>j t. qsm_map qsm' j = Some t \<longrightarrow> qs_id t = j \<and> j < 2 ^ 62 \<and> stream_ok t"
    using map s s' wf_stream [OF wf] by auto
  moreover have "set (qsm_accept_list qsm) \<subseteq> dom (qsm_map qsm')" using wf map by (auto simp: qsm_wf_def)
  ultimately show ?thesis using wf accept active rr gc flush unfolding qsm_wf_def by simp
qed

lemma wf_qs_set:
  assumes wf: "qsm_wf qsm" and s: "qsm_map qsm i = Some s" and s': "qs_id s' = i" "qs_type s' = qs_type s"
    and flags: "qs_active s' = qs_active s" "qs_ready_for_gc s' = qs_ready_for_gc s" "qs_shutdown_flush s' = qs_shutdown_flush s"
    and ok: "stream_ok s'"
  shows "qsm_wf (qs_set s' qsm)"
proof (rule wf_update [OF wf s s' ok])
  have same: "members P (qsm_map (qs_set s' qsm)) = members P (qsm_map qsm)" if "P s' = P s" for P
    using members_upd_same [where m = "qsm_map qsm", OF s that] s' by simp
  show "set (qsm_active_list (qs_set s' qsm)) = members qs_active (qsm_map (qs_set s' qsm))"
    "set (qsm_ready_for_gc_list (qs_set s' qsm)) = members qs_ready_for_gc (qsm_map (qs_set s' qsm))"
    "qsm_num_shutdown_flush (qs_set s' qsm) = card (members qs_shutdown_flush (qsm_map (qs_set s' qsm)))"
    using wf_lists [OF wf] by (simp_all only: same flags qs_set_simps(2-))
qed (use s' wf_lists [OF wf] in simp_all)

lemma mark_active_spec:
  assumes wf: "qsm_wf qsm" and s: "qsm_map qsm i = Some s"
  obtains qsm' where "stream_map_mark_active i qsm = Some qsm'" "qsm_wf qsm'" "only_at i qsm qsm'"
    "qsm_map qsm' i = Some (s\<lparr>qs_active := True\<rparr>)"
proof (cases "qs_active s")
  case True
  then show thesis using that [of qsm] wf s by (simp add: stream_map_mark_active_def)
next
  case False
  note id = wf_stream [OF wf s]
  have i: "i \<notin> set (qsm_active_list qsm)" using False s by (simp add: wf_lists [OF wf] member_iff)
  let ?s = "s\<lparr>qs_active := True\<rparr>"
  let ?q = "qs_set ?s (qsm\<lparr>qsm_active_list := qsm_active_list qsm @ [i],
      qsm_rr_cur := (if qsm_rr_cur qsm = None then Some i else qsm_rr_cur qsm)\<rparr>)"
  have map: "qsm_map ?q = (qsm_map qsm)(i \<mapsto> ?s)" using id by simp
  have "stream_map_mark_active i qsm = Some ?q"
    using False s i by (simp add: stream_map_mark_active_def list_insert_tail_def Let_def)
  moreover have "qsm_wf ?q"
  proof (rule wf_update [OF wf s _ _ _ map])
    show "rr_ok (qsm_rr_cur ?q) (qsm_active_list ?q)"
      using wf_lists(6) [OF wf] by (auto simp: rr_ok_def split: option.splits)
    show "qsm_num_shutdown_flush ?q = card (members qs_shutdown_flush (qsm_map ?q))"
      "set (qsm_ready_for_gc_list ?q) = members qs_ready_for_gc (qsm_map ?q)"
      using wf_lists [OF wf] s map by (simp_all add: members_upd_same [where m = "qsm_map qsm", OF s])
  qed (use id i map wf_lists [OF wf] in \<open>simp_all add: members_upd\<close>)
  moreover have "only_at i qsm ?q" "qsm_map ?q i = Some ?s" using id by (simp_all add: only_at_def)
  ultimately show thesis by (rule that)
qed

lemma mark_inactive_spec:
  assumes wf: "qsm_wf qsm" and s: "qsm_map qsm i = Some s"
  obtains qsm' where "stream_map_mark_inactive i qsm = Some qsm'" "qsm_wf qsm'" "only_at i qsm qsm'"
    "qsm_map qsm' i = Some (s\<lparr>qs_active := False\<rparr>)"
proof (cases "qs_active s")
  case False
  then show thesis using that [of qsm] wf s by (simp add: stream_map_mark_inactive_def)
next
  case True
  note id = wf_stream [OF wf s]
  let ?l = "qsm_active_list qsm"
  have i: "i \<in> set ?l" using True s by (simp add: wf_lists [OF wf] member_iff)
  obtain m where m: "list_next ?l i = Some m" "m \<in> set ?l" "m = i \<longleftrightarrow> ?l = [i]"
    by (rule list_next_mem [OF wf_lists(1) [OF wf] i])
  let ?s = "s\<lparr>qs_active := False\<rparr>"
  let ?cur = "if qsm_rr_cur qsm = Some i then if m = i then None else Some m else qsm_rr_cur qsm"
  let ?q = "qs_set ?s (qsm\<lparr>qsm_rr_cur := ?cur, qsm_active_list := remove1 i ?l\<rparr>)"
  have map: "qsm_map ?q = (qsm_map qsm)(i \<mapsto> ?s)" using id by simp
  have "stream_map_mark_inactive i qsm = Some ?q"
    using True s i m by (auto simp: stream_map_mark_inactive_def list_remove_def Let_def)
  moreover have "qsm_wf ?q"
  proof (rule wf_update [OF wf s _ _ _ map])
    have "rr_ok ?cur (remove1 i ?l)"
      using m i wf_lists(1,6) [OF wf] by (auto simp: rr_ok_def set_remove1_eq split: option.splits)
    then show "rr_ok (qsm_rr_cur ?q) (qsm_active_list ?q)" by simp
    show "set (qsm_active_list ?q) = members qs_active (qsm_map ?q)"
      using wf_lists(1,2) [OF wf] map by (simp add: members_upd set_remove1_eq)
    show "qsm_num_shutdown_flush ?q = card (members qs_shutdown_flush (qsm_map ?q))"
      "set (qsm_ready_for_gc_list ?q) = members qs_ready_for_gc (qsm_map ?q)"
      using wf_lists [OF wf] s map by (simp_all add: members_upd_same [where m = "qsm_map qsm", OF s])
  qed (use id i wf_lists [OF wf] in simp_all)
  moreover have "only_at i qsm ?q" "qsm_map ?q i = Some ?s" using id by (simp_all add: only_at_def)
  ultimately show thesis by (rule that)
qed

lemma flush_done_spec:
  assumes wf: "qsm_wf qsm" and s: "qsm_map qsm i = Some s" and s': "qs_id s' = i" "qs_type s' = qs_type s"
    and flags: "qs_active s' = qs_active s" "qs_ready_for_gc s' = qs_ready_for_gc s" "qs_shutdown_flush s' = qs_shutdown_flush s"
    and ok: "stream_ok (s'\<lparr>qs_shutdown_flush := False\<rparr>)"
  obtains qsm' where "shutdown_flush_done i (qs_set s' qsm) = Some qsm'" "qsm_wf qsm'" "only_at i qsm qsm'"
    "qsm_map qsm' i = Some (s'\<lparr>qs_shutdown_flush := False\<rparr>)"
proof (cases "qs_shutdown_flush s")
  case False
  then have eq: "s'\<lparr>qs_shutdown_flush := False\<rparr> = s'" using flags(3) by simp
  have "qsm_wf (qs_set s' qsm)" by (rule wf_qs_set [OF wf s s' flags]) (use ok eq in simp)
  then show thesis using that [of "qs_set s' qsm"] False flags s' eq by (simp add: shutdown_flush_done_def)
next
  case True
  let ?s = "s'\<lparr>qs_shutdown_flush := False\<rparr>"
  have "i \<in> members qs_shutdown_flush (qsm_map qsm)" using True s by (simp add: member_iff)
  then have num: "0 < qsm_num_shutdown_flush qsm"
    using wf_lists(5) [OF wf] finite_members [OF wf] by (auto simp: card_gt_0_iff)
  let ?n = "qsm_num_shutdown_flush qsm - 1"
  let ?q = "(qs_set ?s qsm)\<lparr>qsm_num_shutdown_flush := ?n,
      qsm_flush_done := (if ?n = 0 then qsm_flush_done qsm + 1 else qsm_flush_done qsm)\<rparr>"
  have map: "qsm_map ?q = (qsm_map qsm)(i \<mapsto> ?s)" using s' by simp
  have "shutdown_flush_done i (qs_set s' qsm) = Some ?q"
    using True num flags(3) s' by (simp add: shutdown_flush_done_def qs_set_def Let_def)
  moreover have "qsm_wf ?q"
  proof (rule wf_update [OF wf s _ _ _ map])
    show "qsm_num_shutdown_flush ?q = card (members qs_shutdown_flush (qsm_map ?q))"
      using wf_lists(5) [OF wf] True s map by (simp add: members_upd member_iff card_Diff_singleton)
    show "set (qsm_ready_for_gc_list ?q) = members qs_ready_for_gc (qsm_map ?q)" "set (qsm_active_list ?q) = members qs_active (qsm_map ?q)"
      using wf_lists [OF wf] s map flags by (simp_all add: members_upd_same [where m = "qsm_map qsm", OF s])
  qed (use s' ok wf_lists [OF wf] in simp_all)
  moreover have "only_at i qsm ?q" "qsm_map ?q i = Some ?s" using s' by (simp_all add: only_at_def)
  ultimately show thesis by (rule that)
qed

section \<open>Updating the state of a stream\<close>

lemma totally_acked_ok:
  assumes "stream_ok s" "qs_send_state s = QUIC_SSTREAM_STATE_DATA_SENT"
  shows "stream_ok (s\<lparr>qs_send_state := QUIC_SSTREAM_STATE_DATA_RECVD, qs_sstream := None, qs_shutdown_flush := False\<rparr>)"
  using assms by (simp add: stream_ok_def send_ok_def stream_defs)

lemma flush_cleared_ok: "stream_ok s \<Longrightarrow> stream_ok (s\<lparr>qs_shutdown_flush := False\<rparr>)"
  by (cases "qs_send_state s"; simp add: stream_ok_def send_ok_def stream_defs)

lemma sstream_present:
  assumes "stream_ok s" "ossl_quic_stream_has_send_buffer s"
  obtains ss sent where "qs_sstream s = Some ss" "sstream_inv sent ss"
proof -
  obtain ss where "qs_sstream s = Some ss" using assms unfolding stream_ok_def send_ok_def by blast
  moreover from this obtain sent where "sstream_inv sent ss" using assms(1) unfolding stream_ok_def send_ok_def by blast
  ultimately show thesis by (rule that)
qed

lemma notify_totally_acked_spec:
  assumes wf: "qsm_wf qsm" and s: "qsm_map qsm i = Some s" "qs_send_state s = QUIC_SSTREAM_STATE_DATA_SENT"
  obtains qsm' where "ossl_quic_stream_map_notify_totally_acked i qsm = Some (True, qsm')" "qsm_wf qsm'" "only_at i qsm qsm'"
    "qsm_map qsm' i = Some (s\<lparr>qs_send_state := QUIC_SSTREAM_STATE_DATA_RECVD, qs_sstream := None, qs_shutdown_flush := False\<rparr>)"
proof -
  note id = wf_stream [OF wf s(1)]
  let ?s = "s\<lparr>qs_send_state := QUIC_SSTREAM_STATE_DATA_RECVD, qs_sstream := None\<rparr>"
  have ok: "stream_ok (?s\<lparr>qs_shutdown_flush := False\<rparr>)" using totally_acked_ok id s(2) by simp
  obtain qsm' where "shutdown_flush_done i (qs_set ?s qsm) = Some qsm'" "qsm_wf qsm'" "only_at i qsm qsm'"
    "qsm_map qsm' i = Some (?s\<lparr>qs_shutdown_flush := False\<rparr>)"
    by (rule flush_done_spec [OF wf s(1) _ _ _ _ _ ok]) (use id in simp_all)
  then show thesis using that s by (simp add: ossl_quic_stream_map_notify_totally_acked_def)
qed

text \<open>What an update does to the stream itself.\<close>

definition acked_effect :: "QUIC_STREAM \<Rightarrow> QUIC_STREAM \<Rightarrow> bool" where
  "acked_effect s s' \<longleftrightarrow> (\<exists>f. s' = s\<lparr>qs_shutdown_flush := f\<rparr>)
     \<or> qs_send_state s = QUIC_SSTREAM_STATE_DATA_SENT \<and> (\<exists>ss. qs_sstream s = Some ss \<and> ossl_quic_sstream_is_totally_acked ss)
       \<and> s' = s\<lparr>qs_send_state := QUIC_SSTREAM_STATE_DATA_RECVD, qs_sstream := None, qs_shutdown_flush := False\<rparr>"

lemma update_acked_spec:
  assumes wf: "qsm_wf qsm" and s: "qsm_map qsm i = Some s"
  obtains qsm' s' where "update_acked i qsm = Some qsm'" "qsm_wf qsm'" "only_at i qsm qsm'"
    "qsm_map qsm' i = Some s'" "acked_effect s s'"
proof -
  note id = wf_stream [OF wf s]
  note result = that
  have same: "acked_effect s s" unfolding acked_effect_def by (intro disjI1 exI [of _ "qs_shutdown_flush s"]) simp
  consider (acked) ss where "qs_send_state s = QUIC_SSTREAM_STATE_DATA_SENT" "qs_sstream s = Some ss" "ossl_quic_sstream_is_totally_acked ss"
    | (flushed) ss where "qs_shutdown_flush s" "qs_send_state s = QUIC_SSTREAM_STATE_SEND" "qs_sstream s = Some ss"
        "ossl_quic_sstream_is_totally_acked ss"
    | (none) "update_acked i qsm = Some qsm"
  proof (cases "ossl_quic_stream_has_send_buffer s")
    case True
    obtain ss sent where "qs_sstream s = Some ss" "sstream_inv sent ss" by (rule sstream_present) (use id True in auto)
    then show thesis using that s
      by (cases "qs_send_state s"; cases "ossl_quic_sstream_is_totally_acked ss"; cases "qs_shutdown_flush s")
        (simp_all add: update_acked_def)
  next
    case False
    then have "update_acked i qsm = Some qsm"
      using s by (cases "qs_send_state s") (simp_all add: update_acked_def ossl_quic_stream_has_send_buffer_def)
    then show thesis by (rule that)
  qed
  then show thesis
  proof cases
    case acked
    let ?s = "s\<lparr>qs_send_state := QUIC_SSTREAM_STATE_DATA_RECVD, qs_sstream := None, qs_shutdown_flush := False\<rparr>"
    obtain qsm' where q: "ossl_quic_stream_map_notify_totally_acked i qsm = Some (True, qsm')" "qsm_wf qsm'" "only_at i qsm qsm'"
      "qsm_map qsm' i = Some ?s"
      by (rule notify_totally_acked_spec [OF wf s acked(1)])
    have "acked_effect s ?s" using acked unfolding acked_effect_def by blast
    moreover have "update_acked i qsm = Some qsm'" using acked s q(1) by (simp add: update_acked_def)
    ultimately show thesis using q by (intro result)
  next
    case flushed
    have ok: "stream_ok (s\<lparr>qs_shutdown_flush := False\<rparr>)" using id flush_cleared_ok by blast
    have eq: "qs_set s qsm = qsm" using s id by (simp add: qs_set_def fun_upd_idem)
    obtain qsm' where q: "shutdown_flush_done i (qs_set s qsm) = Some qsm'" "qsm_wf qsm'" "only_at i qsm qsm'"
      "qsm_map qsm' i = Some (s\<lparr>qs_shutdown_flush := False\<rparr>)"
      by (rule flush_done_spec [OF wf s _ _ _ _ _ ok]) (use id in simp_all)
    have "acked_effect s (s\<lparr>qs_shutdown_flush := False\<rparr>)" unfolding acked_effect_def by blast
    moreover have "update_acked i qsm = Some qsm'" using flushed s q(1) by (simp add: update_acked_def eq)
    ultimately show thesis using q by (intro result)
  next
    case none
    then show thesis using wf s same by (intro result [of qsm s]) simp_all
  qed
qed

lemma ready_for_gc_defined: "stream_ok s \<Longrightarrow> \<exists>g. qsm_ready_for_gc s = Some g"
  by (cases "qs_send_state s") (auto simp: stream_ok_def send_ok_def qsm_ready_for_gc_def stream_defs Let_def)

lemma update_gc_spec:
  assumes wf: "qsm_wf qsm" and s: "qsm_map qsm i = Some s"
  obtains qsm' g where "update_gc i qsm = Some qsm'" "qsm_wf qsm'" "only_at i qsm qsm'"
    "qsm_map qsm' i = Some (s\<lparr>qs_ready_for_gc := g\<rparr>)"
proof -
  note id = wf_stream [OF wf s]
  obtain g where g: "qsm_ready_for_gc s = Some g" using ready_for_gc_defined id by blast
  consider (was) "qs_ready_for_gc s" | (no) "\<not> qs_ready_for_gc s" "\<not> g" | (ready) "\<not> qs_ready_for_gc s" "g" by blast
  then show thesis
  proof cases
    case was
    then show thesis using that [of qsm True] wf s by (simp add: update_gc_def)
  next
    case no
    have "qs_set (s\<lparr>qs_ready_for_gc := False\<rparr>) qsm = qsm" using no s id by (simp add: qs_set_def fun_upd_idem)
    then show thesis using that [of qsm False] wf s no g by (simp add: update_gc_def)
  next
    case ready
    let ?s = "s\<lparr>qs_ready_for_gc := True\<rparr>"
    let ?q = "(qs_set ?s qsm)\<lparr>qsm_ready_for_gc_list := qsm_ready_for_gc_list qsm @ [i]\<rparr>"
    have i: "i \<notin> set (qsm_ready_for_gc_list qsm)" using ready s by (simp add: wf_lists [OF wf] member_iff)
    have map: "qsm_map ?q = (qsm_map qsm)(i \<mapsto> ?s)" using id by simp
    have "update_gc i qsm = Some ?q" using ready g s i by (simp add: update_gc_def list_insert_tail_def Let_def)
    moreover have "qsm_wf ?q"
    proof (rule wf_update [OF wf s _ _ _ map])
      show "set (qsm_active_list ?q) = members qs_active (qsm_map ?q)"
        "qsm_num_shutdown_flush ?q = card (members qs_shutdown_flush (qsm_map ?q))"
        using wf_lists [OF wf] s map by (simp_all add: members_upd_same [where m = "qsm_map qsm", OF s])
    qed (use id i map wf_lists [OF wf] in \<open>simp_all add: members_upd\<close>)
    moreover have "only_at i qsm ?q" "qsm_map ?q i = Some ?s" using id by (simp_all add: only_at_def)
    ultimately show thesis by (rule that)
  qed
qed

lemma get_stream_frame_defined:
  assumes "sstream_inv sent ss"
  shows "\<exists>res. ossl_quic_sstream_get_stream_frame ss 0 2 = Some res"
proof (cases "ss_new_set ss")
  case Nil
  then show ?thesis by (simp add: ossl_quic_sstream_get_stream_frame_def)
next
  case (Cons r rs)
  then show ?thesis using get_stream_frame_inv [OF assms, of 0 2] by auto
qed

lemma has_data_to_send_defined:
  assumes ok: "stream_ok s" and tx: "ossl_quic_txfc_get_credit (qs_txfc s) 0 tx \<noteq> None"
  shows "\<exists>b. stream_has_data_to_send s tx = Some b"
proof (cases "ossl_quic_stream_has_send_buffer s")
  case True
  obtain ss sent where ss: "qs_sstream s = Some ss" "sstream_inv sent ss" by (rule sstream_present [OF ok True])
  obtain res where res: "ossl_quic_sstream_get_stream_frame ss 0 2 = Some res" using get_stream_frame_defined [OF ss(2)] by blast
  obtain t where "tx (qs_txfc s) = Some t"
    using tx by (auto simp: ossl_quic_txfc_get_credit_def ossl_quic_txfc_get_credit_local_def bind_eq_None_conv split: bind_splits)
  then show ?thesis using True ss(1) res tx
    by (auto simp: stream_has_data_to_send_def ossl_quic_txfc_get_swm_def split: option.splits)
qed (auto simp: stream_has_data_to_send_def)

lemma should_be_active_defined:
  assumes ok: "stream_ok s" and tx: "ossl_quic_txfc_get_credit (qs_txfc s) 0 (qsm_tx qsm) \<noteq> None"
    and rx: "rx_at (qsm_rx qsm) (qs_rxfc s) \<noteq> None"
  shows "\<exists>b. should_be_active s allowed qsm = Some b"
proof -
  obtain d where "stream_has_data_to_send s (qsm_tx qsm) = Some d" using has_data_to_send_defined [OF ok tx] by blast
  moreover obtain r where "rx_at (qsm_rx qsm) (qs_rxfc s) = Some r" using rx by blast
  ultimately have "should_be_active s allowed qsm \<noteq> None"
    by (simp add: should_be_active_def ossl_quic_rxfc_has_cwm_changed_def del: not_None_eq)
  then show ?thesis by blast
qed

lemma should_be_active_flag: "should_be_active (s\<lparr>qs_active := b\<rparr>) allowed qsm = should_be_active s allowed qsm"
  by (simp add: should_be_active_def stream_has_data_to_send_def stream_defs cong: if_cong send_state.case_cong)

lemma should_be_active_only_at: "only_at i qsm qsm' \<Longrightarrow> should_be_active s allowed qsm' = should_be_active s allowed qsm"
  by (simp add: should_be_active_def only_at_def cong: if_cong)

definition refreshed :: "QUIC_STREAM \<Rightarrow> QUIC_STREAM \<Rightarrow> bool" where
  "refreshed s s' \<longleftrightarrow> (\<exists>t a g. acked_effect s t \<and> s' = t\<lparr>qs_ready_for_gc := g, qs_active := a\<rparr>)"

definition allowed_by_limit :: "QUIC_STREAM \<Rightarrow> QUIC_STREAM_MAP \<Rightarrow> bool" where
  "allowed_by_limit s qsm \<longleftrightarrow> (ossl_quic_stream_is_server_init s = qsm_is_server qsm \<longrightarrow>
     ossl_quic_stream_map_is_local_allowed_by_stream_limit (qs_id s div 4) (\<not> ossl_quic_stream_is_bidi s) qsm)"

text \<open>
  An update runs without a failed assertion and keeps the invariant, and the stream is on the active list just when
  there is something to send for it.
\<close>

lemma update_state_spec:
  assumes wf: "qsm_wf qsm" and fc: "fc_ok qsm" and s: "qsm_map qsm i = Some s"
  obtains qsm' s' where "ossl_quic_stream_map_update_state i qsm = Some qsm'" "qsm_wf qsm'" "only_at i qsm qsm'"
    "qsm_map qsm' i = Some s'" "refreshed s s'" "should_be_active s' (allowed_by_limit s qsm) qsm' = Some (qs_active s')"
proof -
  obtain q1 t where q1: "update_acked i qsm = Some q1" "qsm_wf q1" "only_at i qsm q1" "qsm_map q1 i = Some t" "acked_effect s t"
    by (rule update_acked_spec [OF wf s])
  obtain q2 g where q2: "update_gc i q1 = Some q2" "qsm_wf q2" "only_at i q1 q2" "qsm_map q2 i = Some (t\<lparr>qs_ready_for_gc := g\<rparr>)"
    by (rule update_gc_spec [OF q1(2,4)])
  let ?s = "t\<lparr>qs_ready_for_gc := g\<rparr>"
  have at: "only_at i qsm q2" using q1(3) q2(3) by (rule only_at_trans)
  have fcs: "qs_txfc ?s = qs_txfc s" "qs_rxfc ?s = qs_rxfc s" using q1(5) by (auto simp: acked_effect_def)
  have "ossl_quic_txfc_get_credit (qs_txfc ?s) 0 (qsm_tx q2) \<noteq> None" "rx_at (qsm_rx q2) (qs_rxfc ?s) \<noteq> None"
    using fc s at unfolding fc_ok_def fcs by (auto simp: only_at_def)
  then obtain b where b: "should_be_active ?s (allowed_by_limit s qsm) q2 = Some b"
    using should_be_active_defined wf_stream [OF q2(2,4)] by blast
  have run: "ossl_quic_stream_map_update_state i qsm = (if b then stream_map_mark_active i q2 else stream_map_mark_inactive i q2)"
    using s q1(1) q2(1,4) b unfolding allowed_by_limit_def
    by (cases "ossl_quic_stream_is_server_init s = qsm_is_server qsm") (simp_all add: ossl_quic_stream_map_update_state_def)
  have "refreshed s (?s\<lparr>qs_active := b\<rparr>)" unfolding refreshed_def using q1(5) by blast
  moreover obtain q3 where "(if b then stream_map_mark_active i q2 else stream_map_mark_inactive i q2) = Some q3"
    "qsm_wf q3" "only_at i q2 q3" "qsm_map q3 i = Some (?s\<lparr>qs_active := b\<rparr>)"
  proof (cases b)
    case True
    obtain q where "stream_map_mark_active i q2 = Some q" "qsm_wf q" "only_at i q2 q" "qsm_map q i = Some (?s\<lparr>qs_active := True\<rparr>)"
      by (rule mark_active_spec [OF q2(2,4)])
    with True show thesis using that by simp
  next
    case False
    obtain q where "stream_map_mark_inactive i q2 = Some q" "qsm_wf q" "only_at i q2 q" "qsm_map q i = Some (?s\<lparr>qs_active := False\<rparr>)"
      by (rule mark_inactive_spec [OF q2(2,4)])
    with False show thesis using that by simp
  qed
  ultimately show thesis
    using that [of q3 "?s\<lparr>qs_active := b\<rparr>"] run only_at_trans [OF at, of q3] b should_be_active_only_at [of i q2 q3]
    by (simp add: should_be_active_flag)
qed

section \<open>The operations on a stream\<close>

text \<open>The states that may follow a state: figures 2 and 3 of RFC 9000.\<close>

fun send_next :: "send_state \<Rightarrow> send_state list" where
  "send_next QUIC_SSTREAM_STATE_READY = [QUIC_SSTREAM_STATE_SEND, QUIC_SSTREAM_STATE_RESET_SENT]"
| "send_next QUIC_SSTREAM_STATE_SEND = [QUIC_SSTREAM_STATE_DATA_SENT, QUIC_SSTREAM_STATE_RESET_SENT]"
| "send_next QUIC_SSTREAM_STATE_DATA_SENT = [QUIC_SSTREAM_STATE_DATA_RECVD, QUIC_SSTREAM_STATE_RESET_SENT]"
| "send_next QUIC_SSTREAM_STATE_RESET_SENT = [QUIC_SSTREAM_STATE_RESET_RECVD]"
| "send_next _ = []"

fun recv_next :: "recv_state \<Rightarrow> recv_state list" where
  "recv_next QUIC_RSTREAM_STATE_RECV = [QUIC_RSTREAM_STATE_SIZE_KNOWN, QUIC_RSTREAM_STATE_RESET_RECVD]"
| "recv_next QUIC_RSTREAM_STATE_SIZE_KNOWN = [QUIC_RSTREAM_STATE_DATA_RECVD, QUIC_RSTREAM_STATE_RESET_RECVD]"
| "recv_next QUIC_RSTREAM_STATE_DATA_RECVD = [QUIC_RSTREAM_STATE_DATA_READ, QUIC_RSTREAM_STATE_RESET_RECVD]"
| "recv_next QUIC_RSTREAM_STATE_RESET_RECVD = [QUIC_RSTREAM_STATE_RESET_READ]"
| "recv_next _ = []"

text \<open>The send part has ended, or its end is known.\<close>

definition fin_known :: "QUIC_STREAM \<Rightarrow> bool" where
  "fin_known s \<longleftrightarrow> ossl_quic_stream_has_send s \<and> \<not> ossl_quic_stream_send_is_reset s
     \<longrightarrow> ossl_quic_stream_send_get_final_size s \<noteq> Some None"

lemma fin_known_state [simp]:
  "qs_send_state s = QUIC_SSTREAM_STATE_DATA_SENT \<Longrightarrow> fin_known s" "qs_send_state s = QUIC_SSTREAM_STATE_DATA_RECVD \<Longrightarrow> fin_known s"
  "qs_send_state s = QUIC_SSTREAM_STATE_RESET_SENT \<Longrightarrow> fin_known s" "qs_send_state s = QUIC_SSTREAM_STATE_RESET_RECVD \<Longrightarrow> fin_known s"
  "qs_send_state s = QUIC_SSTREAM_STATE_NONE \<Longrightarrow> fin_known s" "qs_send_state s = QUIC_SSTREAM_STATE_READY \<Longrightarrow> \<not> fin_known s"
  by (simp_all add: fin_known_def stream_defs)

lemma fin_known_upd [simp]:
  "fin_known (s\<lparr>qs_recv_state := x_recv_state\<rparr>) = fin_known s" "fin_known (s\<lparr>qs_rstream := x_rstream\<rparr>) = fin_known s"
  "fin_known (s\<lparr>qs_want_stop_sending := x_want_stop_sending\<rparr>) = fin_known s" "fin_known (s\<lparr>qs_peer_reset_stream_aec := x_peer_reset_stream_aec\<rparr>) = fin_known s"
  "fin_known (s\<lparr>qs_active := x_active\<rparr>) = fin_known s" "fin_known (s\<lparr>qs_ready_for_gc := x_ready_for_gc\<rparr>) = fin_known s"
  "fin_known (s\<lparr>qs_stop_sending := x_stop_sending\<rparr>) = fin_known s" "fin_known (s\<lparr>qs_stop_sending_aec := x_stop_sending_aec\<rparr>) = fin_known s"
  "fin_known (s\<lparr>qs_peer_stop_sending := x_peer_stop_sending\<rparr>) = fin_known s" "fin_known (s\<lparr>qs_peer_stop_sending_aec := x_peer_stop_sending_aec\<rparr>) = fin_known s"
  "fin_known (s\<lparr>qs_shutdown_flush := x_shutdown_flush\<rparr>) = fin_known s" "fin_known (s\<lparr>qs_deleted := x_deleted\<rparr>) = fin_known s"
  "fin_known (s\<lparr>qs_acked_stop_sending := x_acked_stop_sending\<rparr>) = fin_known s" "fin_known (s\<lparr>qs_want_max_stream_data := x_want_max_stream_data\<rparr>) = fin_known s"
  by (cases "qs_send_state s"; simp add: fin_known_def stream_defs)+

definition moves_to :: "bool \<Rightarrow> QUIC_STREAM \<Rightarrow> QUIC_STREAM \<Rightarrow> bool" where
  "moves_to b s s' \<longleftrightarrow> qs_send_state s' \<in> set (qs_send_state s # send_next (qs_send_state s))
     \<and> qs_recv_state s' \<in> set (qs_recv_state s # recv_next (qs_recv_state s))
     \<and> qs_id s' = qs_id s \<and> qs_type s' = qs_type s \<and> qs_txfc s' = qs_txfc s \<and> qs_rxfc s' = qs_rxfc s
     \<and> qs_as_server s' = qs_as_server s \<and> qs_deleted s' = qs_deleted s \<and> (fin_known s \<longrightarrow> fin_known s')
     \<and> (qs_rstream s' = qs_rstream s \<or> qs_rstream s' = None) \<and> (qs_stop_sending s \<longrightarrow> qs_stop_sending s')
     \<and> (b \<longrightarrow> qs_recv_state s' = qs_recv_state s \<and> qs_rstream s' = qs_rstream s)"

lemma refreshed_moves: "refreshed s s' \<Longrightarrow> moves_to b s s'"
  by (auto simp: refreshed_def acked_effect_def moves_to_def)

lemma refreshed_recv: "refreshed s s' \<Longrightarrow> qs_recv_state s' = qs_recv_state s \<and> qs_rstream s' = qs_rstream s"
  by (auto simp: refreshed_def acked_effect_def)

lemma refreshed_send:
  "refreshed s s' \<Longrightarrow> qs_send_state s \<noteq> QUIC_SSTREAM_STATE_DATA_SENT \<Longrightarrow>
    qs_send_state s' = qs_send_state s \<and> qs_sstream s' = qs_sstream s \<and> qs_send_final_size s' = qs_send_final_size s"
  by (auto simp: refreshed_def acked_effect_def)

lemma fc_ok_at:
  assumes "fc_ok qsm" "only_at i qsm qsm'" "qsm_map qsm i = Some s" "qsm_map qsm' i = Some s'"
    "qs_txfc s' = qs_txfc s" "qs_rxfc s' = qs_rxfc s"
  shows "fc_ok qsm'"
  unfolding fc_ok_def
proof (intro allI impI)
  fix j t assume t: "qsm_map qsm' j = Some t"
  show "ossl_quic_txfc_get_credit (qs_txfc t) 0 (qsm_tx qsm') \<noteq> None \<and> rx_at (qsm_rx qsm') (qs_rxfc t) \<noteq> None"
  proof (cases "j = i")
    case True
    with t assms show ?thesis by (simp add: fc_ok_def only_at_def)
  next
    case False
    with t assms(1,2) show ?thesis unfolding fc_ok_def only_at_def by metis
  qed
qed

text \<open>An operation on stream \<open>i\<close> succeeds or refuses, but does not fail an assertion, and moves only this stream.\<close>

definition op_effect :: "bool \<Rightarrow> nat \<Rightarrow> QUIC_STREAM_MAP \<Rightarrow> (bool \<times> QUIC_STREAM_MAP) option \<Rightarrow> bool" where
  "op_effect b i qsm res \<longleftrightarrow> (\<exists>ok qsm' s s'. res = Some (ok, qsm') \<and> qsm_wf qsm' \<and> fc_ok qsm' \<and> only_at i qsm qsm'
     \<and> qsm_map qsm i = Some s \<and> qsm_map qsm' i = Some s' \<and> moves_to b s s')"

lemma op_effectI:
  assumes "fc_ok qsm" "qsm_map qsm i = Some s" "qsm_wf qsm'" "only_at i qsm qsm'" "qsm_map qsm' i = Some s'" "moves_to b s s'"
  shows "op_effect b i qsm (Some (ok, qsm'))"
  unfolding op_effect_def using assms fc_ok_at [OF assms(1,4,2,5)] by (auto simp: moves_to_def)

lemma op_none: "qsm_wf qsm \<Longrightarrow> fc_ok qsm \<Longrightarrow> qsm_map qsm i = Some s \<Longrightarrow> op_effect b i qsm (Some (ok, qsm))"
  by (rule op_effectI [where s = s and s' = s]) (simp_all add: moves_to_def)

lemma op_set:
  assumes wf: "qsm_wf qsm" and fc: "fc_ok qsm" and s: "qsm_map qsm i = Some s" and s': "moves_to b s s'" "stream_ok s'"
    and flags: "qs_active s' = qs_active s" "qs_ready_for_gc s' = qs_ready_for_gc s" "qs_shutdown_flush s' = qs_shutdown_flush s"
  shows "op_effect b i qsm (Some (ok, qs_set s' qsm))"
proof -
  have id: "qs_id s' = i" "qs_type s' = qs_type s" using s'(1) wf_stream [OF wf s] by (auto simp: moves_to_def)
  show ?thesis by (rule op_effectI [OF fc s wf_qs_set [OF wf s id flags s'(2)]]) (use id s' in simp_all)
qed

lemma op_update:
  assumes wf: "qsm_wf qsm'" and fc: "fc_ok qsm" and at: "only_at i qsm qsm'" and s: "qsm_map qsm i = Some s" "qsm_map qsm' i = Some s'"
    and s': "moves_to b s s'" "qs_send_state s' \<noteq> QUIC_SSTREAM_STATE_DATA_SENT \<or> qs_send_state s = QUIC_SSTREAM_STATE_DATA_SENT"
  shows "op_effect b i qsm (do { qsm \<leftarrow> ossl_quic_stream_map_update_state i qsm'; Some (ok, qsm) })"
proof -
  have fc': "fc_ok qsm'" using fc_ok_at [OF fc at s] s'(1) by (simp add: moves_to_def)
  obtain q t where q: "ossl_quic_stream_map_update_state i qsm' = Some q" "qsm_wf q" "only_at i qsm' q" "qsm_map q i = Some t" "refreshed s' t"
    by (rule update_state_spec [OF wf fc' s(2)])
  have "moves_to b s t"
  proof (cases "qs_send_state s' = QUIC_SSTREAM_STATE_DATA_SENT")
    case True
    with s' refreshed_moves [OF q(5)] refreshed_recv [OF q(5)] show ?thesis by (simp add: moves_to_def)
  next
    case False
    with s'(1) refreshed_moves [OF q(5)] refreshed_send [OF q(5)] refreshed_recv [OF q(5)] show ?thesis by (simp add: moves_to_def)
  qed
  then have "op_effect b i qsm (Some (ok, q))" by (rule op_effectI [OF fc s(1) q(2) only_at_trans [OF at q(3)] q(4)])
  then show ?thesis using q(1) by simp
qed

lemma ensure_send_part_id_effect:
  assumes wf: "qsm_wf qsm" and fc: "fc_ok qsm" and s: "qsm_map qsm i = Some s"
  shows "op_effect True i qsm (ossl_quic_stream_map_ensure_send_part_id i qsm)"
proof (cases "qs_send_state s = QUIC_SSTREAM_STATE_READY")
  case True
  have "stream_ok (s\<lparr>qs_send_state := QUIC_SSTREAM_STATE_SEND\<rparr>)"
    using wf_stream [OF wf s] True by (simp add: stream_ok_def send_ok_def stream_defs)
  then have "op_effect True i qsm (Some (True, qs_set (s\<lparr>qs_send_state := QUIC_SSTREAM_STATE_SEND\<rparr>) qsm))"
    using True by (intro op_set [OF wf fc s]) (simp_all add: moves_to_def)
  then show ?thesis using True s by (simp add: ossl_quic_stream_map_ensure_send_part_id_def)
next
  case False
  then show ?thesis using s op_none [OF wf fc s]
    by (cases "qs_send_state s") (simp_all add: ossl_quic_stream_map_ensure_send_part_id_def)
qed

lemma all_data_sent_effect:
  assumes wf: "qsm_wf qsm" and fc: "fc_ok qsm" and s: "qsm_map qsm i = Some s"
  shows "op_effect True i qsm (ossl_quic_stream_map_notify_all_data_sent i qsm)"
proof (cases "qs_send_state s = QUIC_SSTREAM_STATE_SEND")
  case True
  obtain ss sent where ss: "qs_sstream s = Some ss" "sstream_inv sent ss"
    by (rule sstream_present) (use wf_stream [OF wf s] True in \<open>auto simp: stream_defs\<close>)
  show ?thesis
  proof (cases "ossl_quic_sstream_get_final_size ss")
    case None
    then show ?thesis using True s ss op_none [OF wf fc s] by (simp add: ossl_quic_stream_map_notify_all_data_sent_def)
  next
    case (Some n)
    let ?s = "s\<lparr>qs_send_final_size := n, qs_send_state := QUIC_SSTREAM_STATE_DATA_SENT\<rparr>"
    have "stream_ok ?s" using wf_stream [OF wf s] True by (simp add: stream_ok_def send_ok_def stream_defs)
    then have "op_effect True i qsm (Some (True, qs_set ?s qsm))"
      using True by (intro op_set [OF wf fc s]) (simp_all add: moves_to_def)
    then show ?thesis using True s ss Some by (simp add: ossl_quic_stream_map_notify_all_data_sent_def)
  qed
next
  case False
  then show ?thesis using s op_none [OF wf fc s]
    by (cases "qs_send_state s") (simp_all add: ossl_quic_stream_map_notify_all_data_sent_def)
qed

lemma totally_acked_effect:
  assumes wf: "qsm_wf qsm" and fc: "fc_ok qsm" and s: "qsm_map qsm i = Some s"
  shows "op_effect True i qsm (ossl_quic_stream_map_notify_totally_acked i qsm)"
proof (cases "qs_send_state s = QUIC_SSTREAM_STATE_DATA_SENT")
  case True
  obtain q where q: "ossl_quic_stream_map_notify_totally_acked i qsm = Some (True, q)" "qsm_wf q" "only_at i qsm q"
    "qsm_map q i = Some (s\<lparr>qs_send_state := QUIC_SSTREAM_STATE_DATA_RECVD, qs_sstream := None, qs_shutdown_flush := False\<rparr>)"
    by (rule notify_totally_acked_spec [OF wf s True])
  show ?thesis unfolding q(1) by (rule op_effectI [OF fc s q(2-4)]) (simp add: moves_to_def True)
next
  case False
  then show ?thesis using s op_none [OF wf fc s]
    by (cases "qs_send_state s") (simp_all add: ossl_quic_stream_map_notify_totally_acked_def)
qed

lemma reset_send_part_spec:
  assumes wf: "qsm_wf qsm" and fc: "fc_ok qsm" and s: "qsm_map qsm i = Some s"
  obtains q t where "reset_send_part i aec qsm = Some (True, q)" "qsm_wf q" "only_at i qsm q" "qsm_map q i = Some t"
    "qs_send_state t = QUIC_SSTREAM_STATE_RESET_SENT" "qs_send_final_size t = qs_send_final_size s"
    "moves_to True (s\<lparr>qs_send_state := QUIC_SSTREAM_STATE_RESET_SENT\<rparr>) t" "qs_recv_state t = qs_recv_state s"
proof -
  note id = wf_stream [OF wf s]
  let ?new = "s\<lparr>qs_reset_stream_aec := aec, qs_want_reset_stream := True, qs_send_state := QUIC_SSTREAM_STATE_RESET_SENT, qs_sstream := None,
    qs_shutdown_flush := False\<rparr>"
  let ?raw = "s\<lparr>qs_reset_stream_aec := aec, qs_want_reset_stream := True, qs_send_state := QUIC_SSTREAM_STATE_RESET_SENT, qs_sstream := None\<rparr>"
  have ok: "stream_ok (?raw\<lparr>qs_shutdown_flush := False\<rparr>)" using id by (simp add: stream_ok_def send_ok_def stream_defs)
  obtain q where q: "shutdown_flush_done i (qs_set ?raw qsm) = Some q" "qsm_wf q" "only_at i qsm q" "qsm_map q i = Some (?raw\<lparr>qs_shutdown_flush := False\<rparr>)"
    by (rule flush_done_spec [OF wf s _ _ _ _ _ ok]) (use id in simp_all)
  have fcq: "fc_ok q" by (rule fc_ok_at [OF fc q(3) s q(4)]) simp_all
  obtain q' t where q': "ossl_quic_stream_map_update_state i q = Some q'" "qsm_wf q'" "only_at i q q'" "qsm_map q' i = Some t" "refreshed ?new t"
    by (rule update_state_spec [OF q(2) fcq q(4)])
  have "moves_to True (s\<lparr>qs_send_state := QUIC_SSTREAM_STATE_RESET_SENT\<rparr>) t" using refreshed_moves [OF q'(5)] by (simp add: moves_to_def)
  moreover have "reset_send_part i aec qsm = Some (True, q')" using s q(1) q'(1) by (simp add: reset_send_part_def)
  ultimately show thesis
    using that [of q' t] q'(2-4) only_at_trans [OF q(3)] refreshed_send [OF q'(5)] refreshed_recv [OF q'(5)] by simp
qed

lemma get_credit_swm: "ossl_quic_txfc_get_credit a 0 tx \<noteq> None \<Longrightarrow> ossl_quic_txfc_get_swm a tx \<noteq> None"
  by (auto simp: ossl_quic_txfc_get_credit_def ossl_quic_txfc_get_credit_local_def ossl_quic_txfc_get_swm_def
      bind_eq_None_conv split: bind_splits)

definition reset_effect :: "nat \<Rightarrow> QUIC_STREAM_MAP \<Rightarrow> (bool \<times> QUIC_STREAM_MAP) option \<Rightarrow> bool" where
  "reset_effect i qsm res \<longleftrightarrow> op_effect True i qsm res \<and> (\<exists>q t. res = Some (True, q) \<and> qsm_map q i = Some t
     \<and> qs_send_state t = QUIC_SSTREAM_STATE_RESET_SENT)"

lemma reset_send_part_effect:
  assumes wf: "qsm_wf qsm" and fc: "fc_ok qsm" and s: "qsm_map qsm i = Some s" "ossl_quic_stream_has_send_buffer s"
    and s': "s' = s\<lparr>qs_send_state := st, qs_send_final_size := n\<rparr>" "stream_ok s'"
  shows "reset_effect i qsm (reset_send_part i aec (qs_set s' qsm))"
proof -
  have ids: "qs_id s' = i" unfolding s'(1) using wf_stream [OF wf s(1)] by simp
  have at: "only_at i qsm (qs_set s' qsm)" "qsm_map (qs_set s' qsm) i = Some s'" by (simp_all add: ids)
  have wf': "qsm_wf (qs_set s' qsm)" by (rule wf_qs_set [OF wf s(1) ids _ _ _ _ s'(2)]) (simp_all add: s'(1))
  have fc': "fc_ok (qs_set s' qsm)" by (rule fc_ok_at [OF fc at(1) s(1) at(2)]) (simp_all add: s'(1))
  obtain q t where q: "reset_send_part i aec (qs_set s' qsm) = Some (True, q)" "qsm_wf q" "only_at i (qs_set s' qsm) q" "qsm_map q i = Some t"
    "qs_send_state t = QUIC_SSTREAM_STATE_RESET_SENT" "qs_send_final_size t = qs_send_final_size s'"
    "moves_to True (s'\<lparr>qs_send_state := QUIC_SSTREAM_STATE_RESET_SENT\<rparr>) t" "qs_recv_state t = qs_recv_state s'"
    by (rule reset_send_part_spec [OF wf' fc' at(2)])
  have m: "moves_to True (s\<lparr>qs_send_final_size := n, qs_send_state := QUIC_SSTREAM_STATE_RESET_SENT\<rparr>) t" "qs_recv_state t = qs_recv_state s"
    using q(7,8) unfolding s'(1) by simp_all
  have "moves_to True s t" using q(5) m s(2) by (cases "qs_send_state s") (simp_all add: moves_to_def stream_defs)
  then have "op_effect True i qsm (Some (True, q))" by (rule op_effectI [OF fc s(1) q(2) only_at_trans [OF at(1) q(3)] q(4)])
  then show ?thesis unfolding reset_effect_def q(1) using q(4,5) by blast
qed

lemma reset_stream_send_part_reset:
  assumes wf: "qsm_wf qsm" and fc: "fc_ok qsm" and s: "qsm_map qsm i = Some s" "ossl_quic_stream_has_send_buffer s"
  shows "reset_effect i qsm (ossl_quic_stream_map_reset_stream_send_part i aec qsm)"
proof -
  note id = wf_stream [OF wf s(1)] and effect = reset_send_part_effect [OF wf fc s refl]
  obtain n where n: "ossl_quic_txfc_get_swm (qs_txfc s) (qsm_tx qsm) = Some n"
    using fc s get_credit_swm unfolding fc_ok_def by blast
  let ?t = "s\<lparr>qs_send_state := QUIC_SSTREAM_STATE_SEND, qs_send_final_size := n\<rparr>"
  show ?thesis
  proof (cases "qs_send_state s")
    case QUIC_SSTREAM_STATE_READY
    then have "stream_ok ?t" using id by (simp add: stream_ok_def send_ok_def stream_defs)
    from effect [OF this] show ?thesis using s(1) QUIC_SSTREAM_STATE_READY n id
      by (simp add: ossl_quic_stream_map_reset_stream_send_part_def ossl_quic_stream_map_ensure_send_part_id_def qs_set_set)
  next
    case QUIC_SSTREAM_STATE_SEND
    then have ok: "stream_ok ?t" using id by (simp add: stream_ok_def send_ok_def stream_defs)
    have eq: "?t = s\<lparr>qs_send_final_size := n\<rparr>" using QUIC_SSTREAM_STATE_SEND by (cases s) simp
    show ?thesis using effect [OF ok] unfolding eq using s(1) QUIC_SSTREAM_STATE_SEND n
      by (simp add: ossl_quic_stream_map_reset_stream_send_part_def)
  next
    case QUIC_SSTREAM_STATE_DATA_SENT
    have eq: "s\<lparr>qs_send_state := QUIC_SSTREAM_STATE_DATA_SENT, qs_send_final_size := qs_send_final_size s\<rparr> = s"
      using QUIC_SSTREAM_STATE_DATA_SENT by (cases s) simp
    have "qs_set s qsm = qsm" using s id by (simp add: qs_set_same)
    with effect [where st = QUIC_SSTREAM_STATE_DATA_SENT and n = "qs_send_final_size s", unfolded eq] id
    have "reset_effect i qsm (reset_send_part i aec qsm)" by simp
    then show ?thesis using s(1) QUIC_SSTREAM_STATE_DATA_SENT by (simp add: ossl_quic_stream_map_reset_stream_send_part_def)
  qed (use s in \<open>simp_all add: stream_defs\<close>)
qed

lemma reset_stream_send_part_effect:
  assumes wf: "qsm_wf qsm" and fc: "fc_ok qsm" and s: "qsm_map qsm i = Some s"
  shows "op_effect True i qsm (ossl_quic_stream_map_reset_stream_send_part i aec qsm)"
proof (cases "ossl_quic_stream_has_send_buffer s")
  case True
  from reset_stream_send_part_reset [OF wf fc s this] show ?thesis by (simp add: reset_effect_def)
next
  case False
  then show ?thesis using s op_none [OF wf fc s]
    by (cases "qs_send_state s") (simp_all add: ossl_quic_stream_map_reset_stream_send_part_def stream_defs)
qed

lemma reset_stream_acked_effect:
  assumes wf: "qsm_wf qsm" and fc: "fc_ok qsm" and s: "qsm_map qsm i = Some s"
  shows "op_effect True i qsm (ossl_quic_stream_map_notify_reset_stream_acked i qsm)"
proof (cases "qs_send_state s = QUIC_SSTREAM_STATE_RESET_SENT")
  case True
  have "stream_ok (s\<lparr>qs_send_state := QUIC_SSTREAM_STATE_RESET_RECVD\<rparr>)"
    using wf_stream [OF wf s] True by (simp add: stream_ok_def send_ok_def stream_defs)
  then have "op_effect True i qsm (Some (True, qs_set (s\<lparr>qs_send_state := QUIC_SSTREAM_STATE_RESET_RECVD\<rparr>) qsm))"
    using True by (intro op_set [OF wf fc s]) (simp_all add: moves_to_def)
  then show ?thesis using True s by (simp add: ossl_quic_stream_map_notify_reset_stream_acked_def)
next
  case False
  then show ?thesis using s op_none [OF wf fc s]
    by (cases "qs_send_state s") (simp_all add: ossl_quic_stream_map_notify_reset_stream_acked_def)
qed

lemma size_known_effect:
  assumes wf: "qsm_wf qsm" and fc: "fc_ok qsm" and s: "qsm_map qsm i = Some s"
  shows "op_effect False i qsm (ossl_quic_stream_map_notify_size_known_recv_part i final_size qsm)"
proof (cases "qs_recv_state s = QUIC_RSTREAM_STATE_RECV")
  case True
  have "stream_ok (s\<lparr>qs_recv_state := QUIC_RSTREAM_STATE_SIZE_KNOWN\<rparr>)"
    using wf_stream [OF wf s] True by (simp add: stream_ok_def recv_ok_def stream_defs)
  then have "op_effect False i qsm (Some (True, qs_set (s\<lparr>qs_recv_state := QUIC_RSTREAM_STATE_SIZE_KNOWN\<rparr>) qsm))"
    using True by (intro op_set [OF wf fc s]) (simp_all add: moves_to_def)
  then show ?thesis using True s by (simp add: ossl_quic_stream_map_notify_size_known_recv_part_def)
next
  case False
  then show ?thesis using s op_none [OF wf fc s]
    by (cases "qs_recv_state s") (simp_all add: ossl_quic_stream_map_notify_size_known_recv_part_def)
qed

lemma totally_received_effect:
  assumes wf: "qsm_wf qsm" and fc: "fc_ok qsm" and s: "qsm_map qsm i = Some s"
  shows "op_effect False i qsm (ossl_quic_stream_map_notify_totally_received i qsm)"
proof (cases "qs_recv_state s = QUIC_RSTREAM_STATE_SIZE_KNOWN")
  case True
  let ?t = "s\<lparr>qs_recv_state := QUIC_RSTREAM_STATE_DATA_RECVD, qs_want_stop_sending := False\<rparr>"
  have "stream_ok ?t"
    using wf_stream [OF wf s] True by (simp add: stream_ok_def recv_ok_def stream_defs)
  then have "op_effect False i qsm (Some (True, qs_set ?t qsm))"
    using True by (intro op_set [OF wf fc s]) (simp_all add: moves_to_def)
  then show ?thesis using True s by (simp add: ossl_quic_stream_map_notify_totally_received_def)
next
  case False
  then show ?thesis using s op_none [OF wf fc s]
    by (cases "qs_recv_state s") (simp_all add: ossl_quic_stream_map_notify_totally_received_def)
qed

lemma rstream_free_defined: "stream_ok s \<Longrightarrow> rstream_free (qs_rstream s) = Some ()"
  by (cases "qs_rstream s") (auto simp: stream_ok_def recv_ok_def rstream_free_def)

lemma totally_read_effect:
  assumes wf: "qsm_wf qsm" and fc: "fc_ok qsm" and s: "qsm_map qsm i = Some s"
  shows "op_effect False i qsm (ossl_quic_stream_map_notify_totally_read i qsm)"
proof (cases "qs_recv_state s = QUIC_RSTREAM_STATE_DATA_RECVD")
  case True
  let ?t = "s\<lparr>qs_recv_state := QUIC_RSTREAM_STATE_DATA_READ, qs_rstream := None\<rparr>"
  note id = wf_stream [OF wf s]
  have "stream_ok ?t"
    using id by (simp add: stream_ok_def recv_ok_def stream_defs)
  then have "op_effect False i qsm (Some (True, qs_set ?t qsm))"
    using True by (intro op_set [OF wf fc s]) (simp_all add: moves_to_def)
  then show ?thesis using True s rstream_free_defined id by (simp add: ossl_quic_stream_map_notify_totally_read_def)
next
  case False
  then show ?thesis using s op_none [OF wf fc s]
    by (cases "qs_recv_state s") (simp_all add: ossl_quic_stream_map_notify_totally_read_def)
qed

lemma app_read_reset_effect:
  assumes wf: "qsm_wf qsm" and fc: "fc_ok qsm" and s: "qsm_map qsm i = Some s"
  shows "op_effect False i qsm (ossl_quic_stream_map_notify_app_read_reset_recv_part i qsm)"
proof (cases "qs_recv_state s = QUIC_RSTREAM_STATE_RESET_RECVD")
  case True
  let ?t = "s\<lparr>qs_recv_state := QUIC_RSTREAM_STATE_RESET_READ\<rparr>"
  have "stream_ok ?t"
    using wf_stream [OF wf s] True by (simp add: stream_ok_def recv_ok_def stream_defs)
  then have "op_effect False i qsm (Some (True, qs_set ?t qsm))"
    using True by (intro op_set [OF wf fc s]) (simp_all add: moves_to_def)
  then show ?thesis using True s by (simp add: ossl_quic_stream_map_notify_app_read_reset_recv_part_def)
next
  case False
  then show ?thesis using s op_none [OF wf fc s]
    by (cases "qs_recv_state s") (simp_all add: ossl_quic_stream_map_notify_app_read_reset_recv_part_def)
qed

lemma op_effect_from:
  assumes eff: "op_effect b i qsm' res" and at: "only_at i qsm qsm'" and s: "qsm_map qsm i = Some s" "qsm_map qsm' i = Some s'"
    and m: "\<And>t. moves_to b s' t \<Longrightarrow> moves_to b s t"
  shows "op_effect b i qsm res"
proof -
  obtain ok q t t' where q: "res = Some (ok, q)" "qsm_wf q" "fc_ok q" "only_at i qsm' q" "qsm_map qsm' i = Some t" "qsm_map q i = Some t'" "moves_to b t t'"
    using eff unfolding op_effect_def by blast
  have "moves_to b s t'" using m q(5,7) s(2) by simp
  then show ?thesis unfolding op_effect_def using q s(1) only_at_trans [OF at q(4)] by blast
qed

lemma op_set_update:
  assumes wf: "qsm_wf qsm" and fc: "fc_ok qsm" and s: "qsm_map qsm i = Some s" and s': "moves_to b s s'" "stream_ok s'"
    and flags: "qs_active s' = qs_active s" "qs_ready_for_gc s' = qs_ready_for_gc s" "qs_shutdown_flush s' = qs_shutdown_flush s"
    and send: "qs_send_state s' = qs_send_state s"
  shows "op_effect b i qsm (do { qsm \<leftarrow> ossl_quic_stream_map_update_state i (qs_set s' qsm); Some (ok, qsm) })"
proof -
  have id: "qs_id s' = i" "qs_type s' = qs_type s" using s'(1) wf_stream [OF wf s] by (auto simp: moves_to_def)
  show ?thesis by (rule op_update [OF wf_qs_set [OF wf s id flags s'(2)] fc _ s _ s'(1)]) (use id send in auto)
qed

lemma reset_recv_part_effect:
  assumes wf: "qsm_wf qsm" and fc: "fc_ok qsm" and s: "qsm_map qsm i = Some s"
  shows "op_effect False i qsm (ossl_quic_stream_map_notify_reset_recv_part i aec final_size qsm)"
proof (cases "ossl_quic_stream_has_recv_buffer s")
  case False
  then show ?thesis using s op_none [OF wf fc s] by (simp add: ossl_quic_stream_map_notify_reset_recv_part_def)
next
  case True
  let ?t = "s\<lparr>qs_recv_state := QUIC_RSTREAM_STATE_RESET_RECVD, qs_peer_reset_stream_aec := aec, qs_want_stop_sending := False, qs_rstream := None\<rparr>"
  note id = wf_stream [OF wf s]
  obtain r where "rx_at (qsm_rx qsm) (qs_rxfc s) = Some r" using fc s unfolding fc_ok_def by blast
  then obtain n where n: "ossl_quic_stream_recv_get_final_size s (qsm_rx qsm) = Some n"
    by (cases "qs_recv_state s") (simp_all add: ossl_quic_stream_recv_get_final_size_def)
  have "stream_ok ?t" using id by (simp add: stream_ok_def recv_ok_def stream_defs)
  moreover have "moves_to False s ?t" using True by (cases "qs_recv_state s") (simp_all add: moves_to_def stream_defs)
  ultimately have "op_effect False i qsm (do { qsm \<leftarrow> ossl_quic_stream_map_update_state i (qs_set ?t qsm); Some (True, qsm) })"
    by (intro op_set_update [OF wf fc s]) simp_all
  then show ?thesis using True s n rstream_free_defined id op_none [OF wf fc s, of False]
    by (simp add: ossl_quic_stream_map_notify_reset_recv_part_def)
qed

lemma schedule_stop_sending_effect:
  assumes wf: "qsm_wf qsm" and fc: "fc_ok qsm" and s: "qsm_map qsm i = Some s"
  shows "op_effect True i qsm (ossl_quic_stream_map_schedule_stop_sending i qsm)"
proof -
  have "op_effect True i qsm (do { qsm \<leftarrow> ossl_quic_stream_map_update_state i (qs_set (s\<lparr>qs_want_stop_sending := True\<rparr>) qsm); Some (True, qsm) })"
    using wf_stream [OF wf s] by (intro op_set_update [OF wf fc s]) (simp_all add: moves_to_def)
  then show ?thesis using s op_none [OF wf fc s] by (simp add: ossl_quic_stream_map_schedule_stop_sending_def)
qed

lemma stop_sending_effect:
  assumes wf: "qsm_wf qsm" and fc: "fc_ok qsm" and s: "qsm_map qsm i = Some s"
  shows "op_effect True i qsm (ossl_quic_stream_map_stop_sending_recv_part i aec qsm)"
proof -
  note id = wf_stream [OF wf s]
  let ?t = "s\<lparr>qs_stop_sending := True, qs_stop_sending_aec := aec\<rparr>"
  have at: "only_at i qsm (qs_set ?t qsm)" "qsm_map (qs_set ?t qsm) i = Some ?t" using id by simp_all
  have wf': "qsm_wf (qs_set ?t qsm)" by (rule wf_qs_set [OF wf s]) (use id in simp_all)
  have fc': "fc_ok (qs_set ?t qsm)" by (rule fc_ok_at [OF fc at(1) s at(2)]) simp_all
  have "op_effect True i qsm (ossl_quic_stream_map_schedule_stop_sending i (qs_set ?t qsm))"
    by (rule op_effect_from [OF schedule_stop_sending_effect [OF wf' fc' at(2)] at(1) s at(2)]) (simp add: moves_to_def)
  then show ?thesis using s op_none [OF wf fc s] by (simp add: ossl_quic_stream_map_stop_sending_recv_part_def)
qed

text \<open>The operations that the state machines of a stream have, and those that leave the receive part alone.\<close>

datatype stream_op = Ensure_send_part_id | All_data_sent | Totally_acked | Reset_send_part nat | Reset_acked
  | Size_known nat | Totally_received | Totally_read | Reset_recv_part nat nat | App_read_reset
  | Stop_sending nat | Schedule_stop_sending | Update_state

fun do_stream_op :: "stream_op \<Rightarrow> nat \<Rightarrow> QUIC_STREAM_MAP \<Rightarrow> (bool \<times> QUIC_STREAM_MAP) option" where
  "do_stream_op Ensure_send_part_id i qsm = ossl_quic_stream_map_ensure_send_part_id i qsm"
| "do_stream_op All_data_sent i qsm = ossl_quic_stream_map_notify_all_data_sent i qsm"
| "do_stream_op Totally_acked i qsm = ossl_quic_stream_map_notify_totally_acked i qsm"
| "do_stream_op (Reset_send_part aec) i qsm = ossl_quic_stream_map_reset_stream_send_part i aec qsm"
| "do_stream_op Reset_acked i qsm = ossl_quic_stream_map_notify_reset_stream_acked i qsm"
| "do_stream_op (Size_known n) i qsm = ossl_quic_stream_map_notify_size_known_recv_part i n qsm"
| "do_stream_op Totally_received i qsm = ossl_quic_stream_map_notify_totally_received i qsm"
| "do_stream_op Totally_read i qsm = ossl_quic_stream_map_notify_totally_read i qsm"
| "do_stream_op (Reset_recv_part aec n) i qsm = ossl_quic_stream_map_notify_reset_recv_part i aec n qsm"
| "do_stream_op App_read_reset i qsm = ossl_quic_stream_map_notify_app_read_reset_recv_part i qsm"
| "do_stream_op (Stop_sending aec) i qsm = ossl_quic_stream_map_stop_sending_recv_part i aec qsm"
| "do_stream_op Schedule_stop_sending i qsm = ossl_quic_stream_map_schedule_stop_sending i qsm"
| "do_stream_op Update_state i qsm = map_option (Pair True) (ossl_quic_stream_map_update_state i qsm)"

fun send_side :: "stream_op \<Rightarrow> bool" where
  "send_side (Size_known _) = False"
| "send_side Totally_received = False"
| "send_side Totally_read = False"
| "send_side (Reset_recv_part _ _) = False"
| "send_side App_read_reset = False"
| "send_side _ = True"

lemma stream_op_effect:
  assumes wf: "qsm_wf qsm" and fc: "fc_ok qsm" and s: "qsm_map qsm i = Some s"
  shows "op_effect (send_side op) i qsm (do_stream_op op i qsm)"
proof (cases op)
  case Update_state
  have "op_effect True i qsm (do { qsm \<leftarrow> ossl_quic_stream_map_update_state i qsm; Some (True, qsm) })"
    by (rule op_update [OF wf fc only_at_refl(1) s s]) (auto simp: moves_to_def)
  moreover obtain q t where "ossl_quic_stream_map_update_state i qsm = Some q" "qsm_wf q" "only_at i qsm q" "qsm_map q i = Some t"
    by (rule update_state_spec [OF wf fc s])
  ultimately show ?thesis using Update_state by simp
qed (use ensure_send_part_id_effect [OF wf fc s] all_data_sent_effect [OF wf fc s] totally_acked_effect [OF wf fc s]
    reset_stream_send_part_effect [OF wf fc s] reset_stream_acked_effect [OF wf fc s] size_known_effect [OF wf fc s]
    totally_received_effect [OF wf fc s] totally_read_effect [OF wf fc s] reset_recv_part_effect [OF wf fc s]
    app_read_reset_effect [OF wf fc s] stop_sending_effect [OF wf fc s] schedule_stop_sending_effect [OF wf fc s] in simp_all)

section \<open>New and deleted streams\<close>

text \<open>
  The end of a stream object of the application, in \<open>ossl_quic_free\<close>: an unfinished send part is reset, the peer is asked
  to stop sending, and the stream is left for garbage collection.
\<close>

definition xso_free_stream :: "nat \<Rightarrow> QUIC_STREAM_MAP \<Rightarrow> QUIC_STREAM_MAP option" where
  "xso_free_stream i qsm = do {
     s \<leftarrow> qsm_map qsm i;
     reset \<leftarrow> (if qs_send_state s = QUIC_SSTREAM_STATE_READY \<or> qs_send_state s = QUIC_SSTREAM_STATE_SEND
               then map_option (\<lambda>ss. ossl_quic_sstream_get_final_size ss = None) (qs_sstream s) else Some False);
     qsm \<leftarrow> (if reset then map_option snd (ossl_quic_stream_map_reset_stream_send_part i 0 qsm) else Some qsm);
     s \<leftarrow> qsm_map qsm i;
     qsm \<leftarrow> (if qs_recv_state s = QUIC_RSTREAM_STATE_RECV \<or> qs_recv_state s = QUIC_RSTREAM_STATE_SIZE_KNOWN
             then map_option snd (ossl_quic_stream_map_stop_sending_recv_part i 0 qsm) else Some qsm);
     s \<leftarrow> qsm_map qsm i;
     ossl_quic_stream_map_update_state i (qs_set (s\<lparr>qs_deleted := True\<rparr>) qsm) }"

text \<open>What other components may do to a stream in between: they leave its identity, its states and its lists alone.\<close>

definition buffers_changed :: "QUIC_STREAM \<Rightarrow> QUIC_STREAM \<Rightarrow> bool" where
  "buffers_changed s s' \<longleftrightarrow> qs_id s' = qs_id s \<and> qs_type s' = qs_type s \<and> qs_send_state s' = qs_send_state s
     \<and> qs_recv_state s' = qs_recv_state s \<and> qs_txfc s' = qs_txfc s \<and> qs_rxfc s' = qs_rxfc s
     \<and> qs_active s' = qs_active s \<and> qs_ready_for_gc s' = qs_ready_for_gc s \<and> qs_shutdown_flush s' = qs_shutdown_flush s
     \<and> qs_deleted s' = qs_deleted s
     \<and> (case qs_sstream s of
          None \<Rightarrow> qs_sstream s' = None
        | Some ss \<Rightarrow> (\<exists>ss' sent. qs_sstream s' = Some ss' \<and> sstream_inv sent ss'
            \<and> (ss_have_final_size ss \<longrightarrow> ss_have_final_size ss')
            \<and> (qs_send_state s = QUIC_SSTREAM_STATE_READY \<longrightarrow> \<not> ss_have_final_size ss')))
     \<and> (case qs_rstream s of
          None \<Rightarrow> qs_rstream s' = None
        | Some rs \<Rightarrow> (\<exists>rs'. qs_rstream s' = Some rs' \<and> ossl_quic_rstream_free rs' \<noteq> None))"

lemma buffers_changed_ok:
  assumes ok: "stream_ok s" and c: "buffers_changed s s'"
  shows "stream_ok s'"
proof -
  have eq: "qs_send_state s' = qs_send_state s" "qs_recv_state s' = qs_recv_state s" "qs_deleted s' = qs_deleted s"
    "qs_shutdown_flush s' = qs_shutdown_flush s" using c by (simp_all add: buffers_changed_def)
  have "send_ok s'"
  proof (cases "qs_sstream s")
    case None
    then have n: "qs_sstream s' = None" using c by (simp add: buffers_changed_def)
    show ?thesis using ok None n eq
      by (cases "qs_send_state s") (simp_all add: stream_ok_def send_ok_def stream_defs)
  next
    case (Some ss)
    then obtain ss' sent where ss': "qs_sstream s' = Some ss'" "sstream_inv sent ss'" "ss_have_final_size ss \<longrightarrow> ss_have_final_size ss'"
      "qs_send_state s = QUIC_SSTREAM_STATE_READY \<longrightarrow> \<not> ss_have_final_size ss'"
      using c unfolding buffers_changed_def by auto
    show ?thesis using ok Some ss' eq
      by (cases "qs_send_state s") (auto simp: stream_ok_def send_ok_def stream_defs ossl_quic_sstream_get_final_size_def)
  qed
  moreover have "recv_ok s'"
    using ok c unfolding buffers_changed_def
    by (cases "qs_rstream s") (auto simp: stream_ok_def recv_ok_def ossl_quic_stream_has_recv_buffer_def)
  ultimately show ?thesis by (simp add: stream_ok_def)
qed

lemma wf_buffers_changed:
  assumes wf: "qsm_wf qsm" and s: "qsm_map qsm i = Some s" and c: "buffers_changed s s'"
  shows "qsm_wf (qs_set s' qsm)"
  by (rule wf_qs_set [OF wf s]) (use wf_stream [OF wf s] c buffers_changed_ok [OF _ c] in \<open>auto simp: buffers_changed_def\<close>)

lemma wf_new:
  assumes wf: "qsm_wf qsm" and new: "qsm_map qsm (qs_id s) = None" and small: "qs_id s < 2 ^ 62" and ok: "stream_ok s"
    and flags: "\<not> qs_active s" "\<not> qs_ready_for_gc s" "\<not> qs_shutdown_flush s"
  shows "qsm_wf (qs_set s qsm)"
proof -
  have m: "members P (qsm_map (qs_set s qsm)) = members P (qsm_map qsm)" if "\<not> P s" for P
    using that new by (auto simp: members_def)
  have "direction_matches u (qs_set s qsm) j = direction_matches u qsm j" if "j \<in> set (qsm_accept_list qsm)" for u j
    using that wf new by (auto simp: direction_matches_def qsm_wf_def)
  then have d: "filter (direction_matches u (qs_set s qsm)) (qsm_accept_list qsm) = filter (direction_matches u qsm) (qsm_accept_list qsm)" for u
    by (intro filter_cong) simp_all
  have "\<forall>j t. qsm_map (qs_set s qsm) j = Some t \<longrightarrow> qs_id t = j \<and> j < 2 ^ 62 \<and> stream_ok t"
    using ok small wf_stream [OF wf] by auto
  moreover have "set (qsm_accept_list qsm) \<subseteq> dom (qsm_map (qs_set s qsm))" using wf by (auto simp: qsm_wf_def)
  ultimately show ?thesis using wf
    unfolding qsm_wf_def qs_set_simps(2-) d m [of qs_active, OF flags(1)] m [of qs_ready_for_gc, OF flags(2)]
      m [of qs_shutdown_flush, OF flags(3)]
    by blast
qed

lemma op_effectE:
  assumes "op_effect b i qsm res" "qsm_map qsm i = Some s"
  obtains ok q t where "res = Some (ok, q)" "qsm_wf q" "fc_ok q" "only_at i qsm q" "qsm_map q i = Some t" "moves_to b s t"
  using assms unfolding op_effect_def by auto

text \<open>What stays of the receive part of a stream through the operations of the send part.\<close>

definition recv_kept :: "QUIC_STREAM \<Rightarrow> QUIC_STREAM \<Rightarrow> bool" where
  "recv_kept s t \<longleftrightarrow> qs_recv_state t = qs_recv_state s \<and> qs_rstream t = qs_rstream s \<and> (qs_stop_sending s \<longrightarrow> qs_stop_sending t)
     \<and> qs_txfc t = qs_txfc s \<and> qs_rxfc t = qs_rxfc s \<and> qs_id t = qs_id s \<and> qs_type t = qs_type s"

lemma recv_kept_refl [simp]: "recv_kept s s"
  by (simp add: recv_kept_def)

lemma recv_kept_trans: "recv_kept s t \<Longrightarrow> recv_kept t u \<Longrightarrow> recv_kept s u"
  by (simp add: recv_kept_def)

lemma moves_recv_kept: "moves_to True s t \<Longrightarrow> recv_kept s t"
  by (simp add: moves_to_def recv_kept_def)

lemma delete_spec:
  assumes wf: "qsm_wf qsm" and fc: "fc_ok qsm" and s: "qsm_map qsm i = Some s" and fin: "fin_known s"
  obtains q t where "ossl_quic_stream_map_update_state i (qs_set (s\<lparr>qs_deleted := True\<rparr>) qsm) = Some q" "qsm_wf q" "fc_ok q"
    "only_at i qsm q" "qsm_map q i = Some t" "qs_deleted t" "recv_kept s t"
proof -
  let ?s = "s\<lparr>qs_deleted := True\<rparr>"
  have ok: "stream_ok ?s"
    using wf_stream [OF wf s] fin by (cases "qs_send_state s") (simp_all add: stream_ok_def send_ok_def fin_known_def stream_defs)
  have id: "qs_id s = i" using wf_stream [OF wf s] by simp
  have wf3: "qsm_wf (qs_set ?s qsm)" by (rule wf_qs_set [OF wf s _ _ _ _ _ ok]) (simp_all add: id)
  have at: "only_at i qsm (qs_set ?s qsm)" "qsm_map (qs_set ?s qsm) i = Some ?s" by (simp_all add: id)
  have fc3: "fc_ok (qs_set ?s qsm)" by (rule fc_ok_at [OF fc at(1) s at(2)]) simp_all
  obtain q t where q: "ossl_quic_stream_map_update_state i (qs_set ?s qsm) = Some q" "qsm_wf q" "only_at i (qs_set ?s qsm) q"
    "qsm_map q i = Some t" "refreshed ?s t"
    by (rule update_state_spec [OF wf3 fc3 at(2)])
  note m = refreshed_moves [OF q(5), of True]
  have "fc_ok q" by (rule fc_ok_at [OF fc3 q(3) at(2) q(4)]) (use m in \<open>simp_all add: moves_to_def\<close>)
  moreover have "only_at i qsm q" by (rule only_at_trans [OF at(1) q(3)])
  moreover have "qs_deleted t" "recv_kept s t" using m moves_recv_kept [OF m] by (simp_all add: moves_to_def recv_kept_def)
  ultimately show thesis using q(1,2,4) by (intro that)
qed

lemma xso_free_stream_spec:
  assumes wf: "qsm_wf qsm" and fc: "fc_ok qsm" and s: "qsm_map qsm i = Some s"
  obtains q t where "xso_free_stream i qsm = Some q" "qsm_wf q" "fc_ok q" "only_at i qsm q" "qsm_map q i = Some t" "qs_deleted t"
    "recv_kept s t"
proof -
  define r where "r \<longleftrightarrow> \<not> fin_known s"
  have reset: "(if qs_send_state s = QUIC_SSTREAM_STATE_READY \<or> qs_send_state s = QUIC_SSTREAM_STATE_SEND
      then map_option (\<lambda>ss. ossl_quic_sstream_get_final_size ss = None) (qs_sstream s) else Some False) = Some r"
    using wf_stream [OF wf s]
    by (cases "qs_send_state s"; cases "qs_sstream s")
      (auto simp: r_def stream_ok_def send_ok_def fin_known_def stream_defs ossl_quic_sstream_get_final_size_def)
  obtain q1 s1 where q1: "(if r then map_option snd (ossl_quic_stream_map_reset_stream_send_part i 0 qsm) else Some qsm) = Some q1"
    "qsm_wf q1" "fc_ok q1" "only_at i qsm q1" "qsm_map q1 i = Some s1" "fin_known s1" "recv_kept s s1"
  proof (cases r)
    case True
    have "ossl_quic_stream_has_send_buffer s"
      using True by (cases "qs_send_state s") (simp_all add: r_def ossl_quic_stream_has_send_buffer_def)
    from reset_stream_send_part_reset [OF wf fc s this, of 0]
    obtain q t where q: "ossl_quic_stream_map_reset_stream_send_part i 0 qsm = Some (True, q)" "qsm_map q i = Some t"
      "qs_send_state t = QUIC_SSTREAM_STATE_RESET_SENT" "op_effect True i qsm (Some (True, q))"
      unfolding reset_effect_def by auto
    obtain ok q' t' where "Some (True, q) = Some (ok, q')" "qsm_wf q'" "fc_ok q'" "only_at i qsm q'" "qsm_map q' i = Some t'" "moves_to True s t'"
      by (rule op_effectE [OF q(4) s])
    with q True show thesis by (intro that [of q t]) (simp_all add: moves_recv_kept)
  next
    case False
    then show thesis using wf fc s by (intro that [of qsm s]) (simp_all add: r_def)
  qed
  obtain q2 s2 where q2: "(if qs_recv_state s1 = QUIC_RSTREAM_STATE_RECV \<or> qs_recv_state s1 = QUIC_RSTREAM_STATE_SIZE_KNOWN
      then map_option snd (ossl_quic_stream_map_stop_sending_recv_part i 0 q1) else Some q1) = Some q2"
    "qsm_wf q2" "fc_ok q2" "only_at i q1 q2" "qsm_map q2 i = Some s2" "fin_known s2" "recv_kept s1 s2"
  proof -
    obtain ok q t where q: "ossl_quic_stream_map_stop_sending_recv_part i 0 q1 = Some (ok, q)" "qsm_wf q" "fc_ok q" "only_at i q1 q"
      "qsm_map q i = Some t" "moves_to True s1 t"
      by (rule op_effectE [OF stop_sending_effect [OF q1(2,3,5)] q1(5)])
    show thesis
    proof (cases "qs_recv_state s1 = QUIC_RSTREAM_STATE_RECV \<or> qs_recv_state s1 = QUIC_RSTREAM_STATE_SIZE_KNOWN")
      case True
      then show thesis using q q1(6) moves_recv_kept [OF q(6)] by (intro that [of q t]) (simp_all add: moves_to_def)
    next
      case False
      then show thesis using q1 by (intro that [of q1 s1]) simp_all
    qed
  qed
  obtain q t where q: "ossl_quic_stream_map_update_state i (qs_set (s2\<lparr>qs_deleted := True\<rparr>) q2) = Some q" "qsm_wf q" "fc_ok q"
    "only_at i q2 q" "qsm_map q i = Some t" "qs_deleted t" "recv_kept s2 t"
    by (rule delete_spec [OF q2(2,3,5,6)])
  moreover have "xso_free_stream i qsm = Some q" using s reset q1(1,5) q2(1,5) q(1) by (simp add: xso_free_stream_def)
  moreover have "only_at i qsm q" by (rule only_at_trans [OF q1(4) only_at_trans [OF q2(4) q(4)]])
  moreover have "recv_kept s t" by (rule recv_kept_trans [OF q1(7) recv_kept_trans [OF q2(7) q(7)]])
  ultimately show thesis by (intro that)
qed

section \<open>Histories\<close>

lemma accept_count:
  assumes wf: "qsm_wf qsm"
  shows "length (filter P (qsm_accept_list qsm)) \<le> 2 ^ 62"
proof -
  have "length (qsm_accept_list qsm) = card (set (qsm_accept_list qsm))" using wf by (simp add: distinct_card qsm_wf_def)
  also have "\<dots> \<le> card {..<2 ^ 62 :: nat}" using wf by (intro card_mono) (auto simp: qsm_wf_def)
  finally have "length (qsm_accept_list qsm) \<le> 2 ^ 62" by simp
  with length_filter_le [of P "qsm_accept_list qsm"] show ?thesis by (rule order_trans)
qed

lemma push_accept_queue_spec:
  assumes wf: "qsm_wf qsm" and s: "qsm_map qsm i = Some s" and i: "i \<notin> set (qsm_accept_list qsm)"
  obtains q where "ossl_quic_stream_map_push_accept_queue i qsm = Some q" "qsm_wf q" "qsm_map q = qsm_map qsm"
    "qsm_tx q = qsm_tx qsm" "qsm_rx q = qsm_rx qsm"
proof -
  have "qsm_num_accept_bidi qsm \<le> 2 ^ 62" "qsm_num_accept_uni qsm \<le> 2 ^ 62"
    using wf accept_count [OF wf] by (simp_all add: qsm_wf_def)
  then have num: "u64_add (qsm_num_accept_bidi qsm) 1 = Suc (qsm_num_accept_bidi qsm)"
    "u64_add (qsm_num_accept_uni qsm) 1 = Suc (qsm_num_accept_uni qsm)"
    by (simp_all add: u64_add_exact)
  let ?q = "(if ossl_quic_stream_is_bidi s then qsm\<lparr>qsm_accept_list := qsm_accept_list qsm @ [i], qsm_num_accept_bidi := Suc (qsm_num_accept_bidi qsm)\<rparr>
     else qsm\<lparr>qsm_accept_list := qsm_accept_list qsm @ [i], qsm_num_accept_uni := Suc (qsm_num_accept_uni qsm)\<rparr>)"
  have run: "ossl_quic_stream_map_push_accept_queue i qsm = Some ?q"
    using s i num by (simp add: ossl_quic_stream_map_push_accept_queue_def list_insert_tail_def)
  have "direction_matches u ?q = direction_matches u qsm" for u by (auto simp: direction_matches_def fun_eq_iff)
  moreover have "direction_matches u qsm i \<longleftrightarrow> ossl_quic_stream_is_bidi s = (\<not> u)" for u using s by (simp add: direction_matches_def)
  ultimately have "qsm_wf ?q"
    using wf i s by (cases "ossl_quic_stream_is_bidi s") (auto simp: qsm_wf_def)
  then show thesis using that [of ?q] run by (cases "ossl_quic_stream_is_bidi s") auto
qed

lemma retire_at_keeps: "rx_retire_at now n m rtt a rx = Some rx' \<Longrightarrow> rx_at rx b \<noteq> None \<Longrightarrow> rx_at rx' b \<noteq> None"
  by (cases "rx_at rx a") (auto simp: rx_retire_at_def Let_def split: prod.splits)

lemma retire_keeps_controllers:
  assumes run: "ossl_quic_rxfc_on_retire now a n rtt rx = Some (ok, rx')" and b: "rx_at rx b \<noteq> None"
  shows "rx_at rx' b \<noteq> None"
proof (cases "rx_retire_at now n 0 rtt a rx")
  case None
  with run b show ?thesis by (auto simp: ossl_quic_rxfc_on_retire_def bind_eq_Some_conv split: if_splits)
next
  case (Some rx1)
  have "rx' = rx \<or> rx' = rx1 \<or> (\<exists>c m. rx_retire_at now n m rtt c rx1 = Some rx')"
    using run Some by (auto simp: ossl_quic_rxfc_on_retire_def bind_eq_Some_conv split: if_splits)
  then show ?thesis using b retire_at_keeps [OF Some b] retire_at_keeps [of now n _ rtt _ rx1 rx' b] by blast
qed

lemma remove_from_accept_queue_spec:
  assumes wf: "qsm_wf qsm" and fc: "fc_ok qsm" and run: "ossl_quic_stream_map_remove_from_accept_queue now i rtt qsm = Some q"
  shows "qsm_wf q \<and> fc_ok q"
proof -
  obtain s where s: "qsm_map qsm i = Some s"
    using run by (cases "qsm_map qsm i") (simp_all add: ossl_quic_stream_map_remove_from_accept_queue_def)
  have i: "i \<in> set (qsm_accept_list qsm)"
    using run s by (cases "i \<in> set (qsm_accept_list qsm)") (simp_all add: ossl_quic_stream_map_remove_from_accept_queue_def list_remove_def)
  let ?m = "if ossl_quic_stream_is_bidi s
     then qsm\<lparr>qsm_accept_list := remove1 i (qsm_accept_list qsm), qsm_num_accept_bidi := u64_sub (qsm_num_accept_bidi qsm) 1\<rparr>
     else qsm\<lparr>qsm_accept_list := remove1 i (qsm_accept_list qsm), qsm_num_accept_uni := u64_sub (qsm_num_accept_uni qsm) 1\<rparr>"
  have step: "ossl_quic_stream_map_remove_from_accept_queue now i rtt qsm = (case qsm_get_max_streams_rxfc s ?m of
      None \<Rightarrow> Some ?m
    | Some a \<Rightarrow> do { (_, rx) \<leftarrow> ossl_quic_rxfc_on_retire now a 1 rtt (qsm_rx ?m); Some (?m\<lparr>qsm_rx := rx\<rparr>) })"
    using s i by (cases "ossl_quic_stream_is_bidi s") (simp_all add: ossl_quic_stream_map_remove_from_accept_queue_def list_remove_def Let_def cong: option.case_cong)
  have rxm: "qsm_rx ?m = qsm_rx qsm" by simp
  obtain rx where q: "q = ?m\<lparr>qsm_rx := rx\<rparr>" and rx: "\<And>b. rx_at (qsm_rx qsm) b \<noteq> None \<Longrightarrow> rx_at rx b \<noteq> None"
  proof (cases "qsm_get_max_streams_rxfc s ?m")
    case None
    then have "q = ?m" using run step by (simp only: option.case option.inject)
    then have "q = ?m\<lparr>qsm_rx := qsm_rx qsm\<rparr>" by simp
    then show thesis by (rule that)
  next
    case (Some a)
    then have "do { (_, rx) \<leftarrow> ossl_quic_rxfc_on_retire now a 1 rtt (qsm_rx qsm); Some (?m\<lparr>qsm_rx := rx\<rparr>) } = Some q"
      using run step rxm by (simp only: option.case)
    then obtain ok rx where r: "ossl_quic_rxfc_on_retire now a 1 rtt (qsm_rx qsm) = Some (ok, rx)" "?m\<lparr>qsm_rx := rx\<rparr> = q"
      by (cases "ossl_quic_rxfc_on_retire now a 1 rtt (qsm_rx qsm)") auto
    show thesis by (rule that [OF r(2) [symmetric] retire_keeps_controllers [OF r(1)]])
  qed
  have d: "direction_matches u q = direction_matches u qsm" for u using q by (auto simp: direction_matches_def fun_eq_iff)
  have n: "length (filter P (remove1 i l)) = (if P i then length (filter P l) - 1 else length (filter P l))"
    if "i \<in> set l" for P l using that by (simp add: filter_remove1 length_remove1)
  have m: "direction_matches u qsm i \<longleftrightarrow> ossl_quic_stream_is_bidi s = (\<not> u)" for u using s by (simp add: direction_matches_def)
  then have "0 < length (filter (direction_matches (\<not> ossl_quic_stream_is_bidi s) qsm) (qsm_accept_list qsm))"
    using i by (auto simp: length_greater_0_conv filter_empty_conv)
  moreover have dec: "u64_sub k 1 = k - 1" if "0 < k" "k \<le> 2 ^ 62" for k using that by (intro u64_sub_exact) simp_all
  ultimately have sub: "u64_sub (length (filter (direction_matches (\<not> ossl_quic_stream_is_bidi s) qsm) (qsm_accept_list qsm))) 1
      = length (filter (direction_matches (\<not> ossl_quic_stream_is_bidi s) qsm) (remove1 i (qsm_accept_list qsm)))"
    unfolding n [OF i] using accept_count [OF wf, of "direction_matches (\<not> ossl_quic_stream_is_bidi s) qsm"] m [of "\<not> ossl_quic_stream_is_bidi s"]
    by (simp add: dec)
  have other: "length (filter (direction_matches (ossl_quic_stream_is_bidi s) qsm) (remove1 i (qsm_accept_list qsm)))
      = length (filter (direction_matches (ossl_quic_stream_is_bidi s) qsm) (qsm_accept_list qsm))"
    unfolding n [OF i] using m [of "ossl_quic_stream_is_bidi s"] by simp
  have old: "qsm_num_accept_bidi qsm = length (filter (direction_matches False qsm) (qsm_accept_list qsm))"
    "qsm_num_accept_uni qsm = length (filter (direction_matches True qsm) (qsm_accept_list qsm))" using wf by (simp_all add: qsm_wf_def)
  have nums: "qsm_num_accept_bidi q = length (filter (direction_matches False qsm) (remove1 i (qsm_accept_list qsm)))"
    "qsm_num_accept_uni q = length (filter (direction_matches True qsm) (remove1 i (qsm_accept_list qsm)))"
    unfolding q using sub other old by (cases "ossl_quic_stream_is_bidi s"; simp)+
  have sel: "qsm_map q = qsm_map qsm" "qsm_active_list q = qsm_active_list qsm" "qsm_ready_for_gc_list q = qsm_ready_for_gc_list qsm"
    "qsm_rr_cur q = qsm_rr_cur qsm" "qsm_num_shutdown_flush q = qsm_num_shutdown_flush qsm"
    "qsm_accept_list q = remove1 i (qsm_accept_list qsm)" "qsm_tx q = qsm_tx qsm" "qsm_rx q = rx"
    by (cases "ossl_quic_stream_is_bidi s"; simp add: q)+
  have "distinct (qsm_accept_list qsm)" "set (qsm_accept_list qsm) \<subseteq> dom (qsm_map qsm)" using wf by (simp_all add: qsm_wf_def)
  then have "distinct (remove1 i (qsm_accept_list qsm))" "set (remove1 i (qsm_accept_list qsm)) \<subseteq> dom (qsm_map qsm)"
    by (auto simp: distinct_remove1)
  then have "qsm_wf q" using wf unfolding qsm_wf_def sel d nums by blast
  moreover have "fc_ok q" using fc rx unfolding fc_ok_def sel by blast
  ultimately show ?thesis ..
qed

section \<open>Iteration, acceptance and flushing\<close>

text \<open>A position of the round robin: the stream it points to is the \<open>k\<close>-th of the active list.\<close>

lemma rr_position:
  assumes wf: "qsm_wf qsm" and cur: "qsm_rr_cur qsm = Some c"
  obtains k where "k < length (qsm_active_list qsm)" "qsm_active_list qsm ! k = c"
    "list_next (qsm_active_list qsm) c = Some (qsm_active_list qsm ! (Suc k mod length (qsm_active_list qsm)))"
proof -
  have rr: "rr_ok (qsm_rr_cur qsm) (qsm_active_list qsm)" and d: "distinct (qsm_active_list qsm)" using wf by (simp_all add: qsm_wf_def)
  from rr have "c \<in> set (qsm_active_list qsm)" by (simp add: cur rr_ok_def)
  then obtain k where k: "k < length (qsm_active_list qsm)" "qsm_active_list qsm ! k = c" by (auto simp: in_set_conv_nth)
  show thesis using that [OF k] list_next_nth [OF d k(1)] k(2) by simp
qed

lemma wf_rr:
  assumes wf: "qsm_wf qsm" and r: "rr_ok r (qsm_active_list qsm)"
  shows "qsm_wf (qsm\<lparr>qsm_rr_counter := n, qsm_rr_cur := r\<rparr>)"
proof -
  have "direction_matches u (qsm\<lparr>qsm_rr_counter := n, qsm_rr_cur := r\<rparr>) = direction_matches u qsm" for u
    by (auto simp: direction_matches_def fun_eq_iff)
  with wf r show ?thesis by (simp add: qsm_wf_def)
qed

lemma iter_init_spec:
  assumes wf: "qsm_wf qsm"
  obtains q ids where "ossl_quic_stream_iter_init adv qsm = Some (\<lparr>it_stream = qsm_rr_cur qsm, it_first_stream = qsm_rr_cur qsm\<rparr>, q)"
    "qsm_wf q" "qsm_map q = qsm_map qsm" "qsm_active_list q = qsm_active_list qsm"
    "iter_streams q \<lparr>it_stream = qsm_rr_cur qsm, it_first_stream = qsm_rr_cur qsm\<rparr> = Some ids"
    "distinct ids" "set ids = set (qsm_active_list qsm)" "list_head ids = qsm_rr_cur qsm"
    "qsm_rr_cur q = (if adv \<and> u64_add (qsm_rr_counter qsm) 1 \<ge> qsm_rr_stepping qsm then list_head (rotate1 ids) else list_head ids)"
proof (cases "qsm_rr_cur qsm")
  case None
  moreover have "iter_streams qsm \<lparr>it_stream = None, it_first_stream = None\<rparr> = Some []" by (simp add: iter_streams.simps)
  moreover have "qsm_active_list qsm = []" using wf None by (simp add: qsm_wf_def rr_ok_def)
  ultimately show thesis using that [of qsm "[]"] wf by (simp add: ossl_quic_stream_iter_init_def list_head_def)
next
  case (Some c)
  let ?l = "qsm_active_list qsm" and ?it = "\<lparr>it_stream = Some c, it_first_stream = Some c\<rparr>"
  obtain k where k: "k < length ?l" "?l ! k = c" "list_next ?l c = Some (?l ! (Suc k mod length ?l))"
    by (rule rr_position [OF wf Some])
  have d: "distinct ?l" and ne: "?l \<noteq> []" using wf k(1) by (auto simp: qsm_wf_def)
  have Suc_k: "Suc k mod length ?l < length ?l" using ne by (intro mod_less_divisor) simp
  have hd: "list_head (rotate j ?l) = Some (?l ! (j mod length ?l))" for j
    using ne by (auto simp: list_head_def hd_rotate_conv_nth [symmetric] split: list.splits)
  define stepped where "stepped \<longleftrightarrow> adv \<and> u64_add (qsm_rr_counter qsm) 1 \<ge> qsm_rr_stepping qsm"
  define q where "q = (if adv then qsm\<lparr>qsm_rr_counter := (if stepped then 0 else u64_add (qsm_rr_counter qsm) 1),
      qsm_rr_cur := Some (if stepped then ?l ! (Suc k mod length ?l) else c)\<rparr> else qsm)"
  have run: "ossl_quic_stream_iter_init adv qsm = Some (?it, q)"
    using Some k(3) by (cases adv) (simp_all add: ossl_quic_stream_iter_init_def q_def stepped_def)
  have rr: "rr_ok (Some (if stepped then ?l ! (Suc k mod length ?l) else c)) ?l"
    using k(1,2) Suc_k by (auto simp: rr_ok_def)
  have "qsm_wf q" using wf_rr [OF wf rr] wf by (simp add: q_def)
  moreover have act: "qsm_map q = qsm_map qsm" "qsm_active_list q = ?l" by (simp_all add: q_def)
  moreover have "iter_streams q ?it = Some (rotate k ?l)"
    using iter_streams_rotate [of q k] act(2) d k(1,2) by simp
  moreover have "qsm_rr_cur q = (if stepped then list_head (rotate1 (rotate k ?l)) else list_head (rotate k ?l))"
    using hd [of "Suc k"] hd [of k] k(1,2) Some by (auto simp: q_def stepped_def)
  ultimately show thesis using that [of q "rotate k ?l"] run Some d hd [of k] k(1,2) by (simp add: stepped_def)
qed

lemma accept_queue_len:
  "qsm_wf qsm \<Longrightarrow> ossl_quic_stream_map_get_accept_queue_len u qsm = length (filter (direction_matches u qsm) (qsm_accept_list qsm))"
  by (cases u) (simp_all add: ossl_quic_stream_map_get_accept_queue_len_def qsm_wf_def)

lemma find_in_accept_queue_spec:
  assumes wf: "qsm_wf qsm"
  shows "ossl_quic_stream_map_find_in_accept_queue is_uni qsm = Some (list_head (filter (direction_matches is_uni qsm) (qsm_accept_list qsm)))"
proof (cases "filter (direction_matches is_uni qsm) (qsm_accept_list qsm)")
  case Nil
  then have "ossl_quic_stream_map_get_accept_queue_len is_uni qsm = 0"
    by (simp add: accept_queue_len [OF wf])
  with Nil show ?thesis by (simp add: ossl_quic_stream_map_find_in_accept_queue_def list_head_def)
next
  case (Cons j js)
  then have len: "ossl_quic_stream_map_get_accept_queue_len is_uni qsm \<noteq> 0"
    by (simp add: accept_queue_len [OF wf])
  obtain i post where l: "qsm_accept_list qsm = [] @ i # post" using Cons by (cases "qsm_accept_list qsm") simp_all
  have "j \<in> set (filter (direction_matches is_uni qsm) (i # post))" using Cons l by (metis append_Nil list.set_intros(1))
  then have "\<exists>j\<in>set (i # post). direction_matches is_uni qsm j" by auto
  moreover have "distinct (qsm_accept_list qsm)" "set (qsm_accept_list qsm) \<subseteq> dom (qsm_map qsm)" using wf by (simp_all add: qsm_wf_def)
  ultimately have "find_accept is_uni i qsm = Some (hd (filter (direction_matches is_uni qsm) (i # post)))"
    by (intro find_accept_suffix [OF _ _ l])
  then show ?thesis
    using len l Cons by (simp add: ossl_quic_stream_map_find_in_accept_queue_def ossl_quic_stream_map_peek_accept_queue_def list_head_def)
qed

lemma gc_loop_head: "gc_loop h h qsm = Some qsm"
  by (cases h) (simp_all add: gc_loop.simps)

text \<open>The streams that a flush at shutdown waits for, and the marks it sets.\<close>

definition flush_wanted :: "QUIC_STREAM \<Rightarrow> bool" where
  "flush_wanted s \<longleftrightarrow> eligible_for_shutdown_flush s = Some True"

definition flush_mark :: "QUIC_STREAM \<Rightarrow> QUIC_STREAM" where
  "flush_mark s = (if flush_wanted s then s\<lparr>qs_shutdown_flush := True\<rparr> else s)"

lemma flush_mark_simps [simp]:
  "qs_id (flush_mark s) = qs_id s" "qs_type (flush_mark s) = qs_type s" "qs_active (flush_mark s) = qs_active s"
  "qs_ready_for_gc (flush_mark s) = qs_ready_for_gc s" "qs_shutdown_flush (flush_mark s) \<longleftrightarrow> flush_wanted s \<or> qs_shutdown_flush s"
  by (simp_all add: flush_mark_def)

lemma flush_mark_ok:
  assumes "stream_ok s"
  shows "eligible_for_shutdown_flush s = Some (flush_wanted s)" "stream_ok (flush_mark s)"
proof -
  show "eligible_for_shutdown_flush s = Some (flush_wanted s)"
    using assms by (cases "qs_send_state s") (auto simp: flush_wanted_def eligible_for_shutdown_flush_def stream_ok_defs stream_defs)
  show "stream_ok (flush_mark s)"
    using assms by (cases "qs_send_state s")
      (auto simp: flush_mark_def flush_wanted_def eligible_for_shutdown_flush_def stream_ok_def send_ok_def recv_ok_def stream_defs)
qed

lemma flush_each_spec:
  assumes wf: "qsm_wf qsm" and s: "qsm_map qsm i = Some s"
  obtains q where "begin_shutdown_flush_each i qsm = Some q" "qsm_wf q" "qsm_map q = (qsm_map qsm)(i \<mapsto> flush_mark s)"
proof (cases "\<not> flush_wanted s \<or> qs_shutdown_flush s")
  case True
  have "begin_shutdown_flush_each i qsm = Some qsm"
    using True s flush_mark_ok(1) wf_stream [OF wf s] by (simp add: begin_shutdown_flush_each_def)
  moreover have "flush_mark s = s" using True by (auto simp: flush_mark_def)
  ultimately show thesis using that [of qsm] wf s by (simp add: map_upd_triv)
next
  case False
  have id: "qs_id s = i" and ok: "stream_ok s" using wf_stream [OF wf s] by simp_all
  let ?q = "(qs_set (flush_mark s) qsm)\<lparr>qsm_num_shutdown_flush := u64_add (qsm_num_shutdown_flush qsm) 1\<rparr>"
  have map: "qsm_map ?q = (qsm_map qsm)(i \<mapsto> flush_mark s)" using id by simp
  have "members qs_shutdown_flush (qsm_map qsm) \<subseteq> {..<2 ^ 62}" using wf_stream [OF wf] by (auto simp: members_def)
  then have "card (members qs_shutdown_flush (qsm_map qsm)) \<le> 2 ^ 62" using card_mono [OF finite_lessThan] by fastforce
  then have num: "qsm_num_shutdown_flush ?q = Suc (qsm_num_shutdown_flush qsm)"
    using wf_lists(5) [OF wf] by (simp add: u64_add_exact)
  have "qsm_wf ?q"
  proof (rule wf_update [OF wf s _ _ flush_mark_ok(2) [OF ok] map])
    show "qsm_num_shutdown_flush ?q = card (members qs_shutdown_flush (qsm_map ?q))"
      unfolding num map using wf_lists(5) [OF wf] False s finite_members [OF wf] by (simp add: members_upd member_iff)
    show "set (qsm_ready_for_gc_list ?q) = members qs_ready_for_gc (qsm_map ?q)" "set (qsm_active_list ?q) = members qs_active (qsm_map ?q)"
      unfolding map using wf_lists [OF wf] by (simp_all add: members_upd_same [where m = "qsm_map qsm", OF s])
  qed (use id wf_lists [OF wf] in simp_all)
  moreover have "begin_shutdown_flush_each i qsm = Some ?q"
    using False s flush_mark_ok(1) [OF ok] by (simp add: begin_shutdown_flush_each_def flush_mark_def)
  ultimately show thesis using that map by blast
qed

lemma flush_visit:
  assumes "qsm_wf qsm" "distinct order" "set order \<subseteq> dom (qsm_map qsm)"
  shows "\<exists>q. ossl_quic_stream_map_visit order begin_shutdown_flush_each qsm = Some q \<and> qsm_wf q
    \<and> qsm_map q = (\<lambda>j. map_option (\<lambda>s. if j \<in> set order then flush_mark s else s) (qsm_map qsm j))"
  using assms
proof (induction order arbitrary: qsm)
  case Nil
  then show ?case by (simp add: option.map_id0 [unfolded id_def])
next
  case (Cons i order)
  then obtain s where s: "qsm_map qsm i = Some s" by auto
  obtain q where q: "begin_shutdown_flush_each i qsm = Some q" "qsm_wf q" "qsm_map q = (qsm_map qsm)(i \<mapsto> flush_mark s)"
    by (rule flush_each_spec [OF Cons.prems(1) s])
  have "distinct order" "set order \<subseteq> dom (qsm_map q)" using Cons.prems q(3) by auto
  from Cons.IH [OF q(2) this] obtain q' where q': "ossl_quic_stream_map_visit order begin_shutdown_flush_each q = Some q'" "qsm_wf q'"
    "qsm_map q' = (\<lambda>j. map_option (\<lambda>s. if j \<in> set order then flush_mark s else s) (qsm_map q j))" by blast
  have "qsm_map q' j = map_option (\<lambda>s. if j \<in> set (i # order) then flush_mark s else s) (qsm_map qsm j)" for j
    using q'(3) q(3) s Cons.prems(2) by (cases "j = i") simp_all
  then show ?case using q(1) q'(1,2) by (auto simp: fun_eq_iff)
qed

end
