(* ===== verification/Quic_Channel.thy ===== *)
theory Quic_Channel
  imports Quic_Stream_Map
begin

text \<open>
  The streams of a channel: how \<open>ssl/quic/quic_channel.c\<close> makes the streams of both sides with their buffers and flow
  controllers, rejects unwanted streams and terminates on a protocol error.

  The record has the fields of \<open>QUIC_CHANNEL\<close> that these functions use.  The controllers of the connection are at the
  address 0 of the two stores of \<open>Quic_Fc\<close>, those of the numbers of streams at 1 and 2, those of the cryptographic streams
  of the three packet number spaces at 3, 4 and 5, and those of the stream \<open>i\<close> at \<open>i + 6\<close>.  \<open>get_stream_limit\<close> reads the channel when the map calls it: the limits of the map follow the fields.
\<close>

unbundle bit_operations_syntax

section \<open>The program\<close>

abbreviation (input) INIT_APP_BUF_LEN :: nat where "INIT_APP_BUF_LEN \<equiv> 8192"
abbreviation (input) DEFAULT_INIT_CONN_RXFC_WND :: nat where "DEFAULT_INIT_CONN_RXFC_WND \<equiv> 768 * 1024"
abbreviation (input) DEFAULT_CONN_RXFC_MAX_WND_MUL :: nat where "DEFAULT_CONN_RXFC_MAX_WND_MUL \<equiv> 20"
abbreviation (input) DEFAULT_INIT_STREAM_RXFC_WND :: nat where "DEFAULT_INIT_STREAM_RXFC_WND \<equiv> 512 * 1024"
abbreviation (input) DEFAULT_STREAM_RXFC_MAX_WND_MUL :: nat where "DEFAULT_STREAM_RXFC_MAX_WND_MUL \<equiv> 12"
abbreviation (input) DEFAULT_INIT_CONN_MAX_STREAMS :: nat where "DEFAULT_INIT_CONN_MAX_STREAMS \<equiv> 100"

abbreviation (input) INIT_CRYPTO_RECV_BUF_LEN :: nat where "INIT_CRYPTO_RECV_BUF_LEN \<equiv> 16384"

abbreviation (input) conn_fc :: nat where "conn_fc \<equiv> 0"
abbreviation (input) max_streams_bidi_fc :: nat where "max_streams_bidi_fc \<equiv> 1"
abbreviation (input) max_streams_uni_fc :: nat where "max_streams_uni_fc \<equiv> 2"
abbreviation (input) crypto_fc :: "nat \<Rightarrow> nat" where "crypto_fc pn_space \<equiv> pn_space + 3"
abbreviation (input) stream_fc :: "nat \<Rightarrow> nat" where "stream_fc i \<equiv> i + 6"

record QUIC_CHANNEL =
  ch_qsm :: QUIC_STREAM_MAP
  ch_is_server :: bool
  ch_next_local_stream_ordinal_bidi :: nat
  ch_next_local_stream_ordinal_uni :: nat
  ch_next_remote_stream_ordinal_bidi :: nat
  ch_next_remote_stream_ordinal_uni :: nat
  ch_max_local_streams_bidi :: nat
  ch_max_local_streams_uni :: nat
  ch_got_remote_transport_params :: bool
  ch_rx_init_max_stream_data_bidi_local :: nat
  ch_rx_init_max_stream_data_bidi_remote :: nat
  ch_rx_init_max_stream_data_uni :: nat
  ch_tx_init_max_stream_data_bidi_local :: nat
  ch_tx_init_max_stream_data_bidi_remote :: nat
  ch_tx_init_max_stream_data_uni :: nat
  ch_statm :: OSSL_STATM
  ch_incoming_stream_auto_reject :: bool
  ch_incoming_stream_auto_reject_aec :: nat
  ch_protocol_error :: "(nat \<times> nat) option"

text \<open>What the allocations for a new stream return, and the references to received packets held elsewhere.\<close>

record stream_memory =
  no_stream :: bool
  sstream_mem :: bool
  no_rstream :: bool
  sm_malloc :: "nat \<Rightarrow> object"
  sm_refs :: "nat \<Rightarrow> nat"

definition ch_init :: "bool \<Rightarrow> QUIC_CHANNEL option option" where
  "ch_init is_server = do {
     (ok1, tx) \<leftarrow> ossl_quic_txfc_init conn_fc None Map.empty;
     (ok2, rx) \<leftarrow> ossl_quic_rxfc_init conn_fc None DEFAULT_INIT_CONN_RXFC_WND
        (DEFAULT_CONN_RXFC_MAX_WND_MUL * DEFAULT_INIT_CONN_RXFC_WND) \<lparr>rx_at = Map.empty, rx_calls = 0\<rparr>;
     (ok3, rx) \<leftarrow> ossl_quic_rxfc_init_standalone (crypto_fc 0) INIT_CRYPTO_RECV_BUF_LEN rx;
     (ok4, rx) \<leftarrow> ossl_quic_rxfc_init_standalone (crypto_fc 1) INIT_CRYPTO_RECV_BUF_LEN rx;
     (ok5, rx) \<leftarrow> ossl_quic_rxfc_init_standalone (crypto_fc 2) INIT_CRYPTO_RECV_BUF_LEN rx;
     (ok6, rx) \<leftarrow> ossl_quic_rxfc_init_standalone max_streams_bidi_fc DEFAULT_INIT_CONN_MAX_STREAMS rx;
     (ok7, rx) \<leftarrow> ossl_quic_rxfc_init_standalone max_streams_uni_fc DEFAULT_INIT_CONN_MAX_STREAMS rx;
     Some (if ok1 \<and> ok2 \<and> ok3 \<and> ok4 \<and> ok5 \<and> ok6 \<and> ok7
           then Some \<lparr>ch_qsm = ossl_quic_stream_map_init (Some (\<lambda>_. 0)) (Some max_streams_bidi_fc) (Some max_streams_uni_fc) is_server tx rx,
              ch_is_server = is_server, ch_next_local_stream_ordinal_bidi = 0, ch_next_local_stream_ordinal_uni = 0,
              ch_next_remote_stream_ordinal_bidi = 0, ch_next_remote_stream_ordinal_uni = 0,
              ch_max_local_streams_bidi = 0, ch_max_local_streams_uni = 0, ch_got_remote_transport_params = False,
              ch_rx_init_max_stream_data_bidi_local = 0, ch_rx_init_max_stream_data_bidi_remote = 0,
              ch_rx_init_max_stream_data_uni = 0, ch_tx_init_max_stream_data_bidi_local = DEFAULT_INIT_STREAM_RXFC_WND,
              ch_tx_init_max_stream_data_bidi_remote = DEFAULT_INIT_STREAM_RXFC_WND,
              ch_tx_init_max_stream_data_uni = DEFAULT_INIT_STREAM_RXFC_WND, ch_statm = ossl_statm_init, ch_incoming_stream_auto_reject = False,
              ch_incoming_stream_auto_reject_aec = 0, ch_protocol_error = None\<rparr>
           else None) }"

definition get_stream_limit :: "QUIC_CHANNEL \<Rightarrow> bool \<Rightarrow> nat" where
  "get_stream_limit ch uni = (if uni then ch_max_local_streams_uni ch else ch_max_local_streams_bidi ch)"

text \<open>Only the first call matters; it starts the termination of the connection with the code.\<close>

definition ossl_quic_channel_raise_protocol_error :: "nat \<Rightarrow> nat \<Rightarrow> QUIC_CHANNEL \<Rightarrow> QUIC_CHANNEL" where
  "ossl_quic_channel_raise_protocol_error error_code frame_type ch =
     (if ch_protocol_error ch \<noteq> None then ch else ch\<lparr>ch_protocol_error := Some (error_code, frame_type)\<rparr>)"

text \<open>The exit after a failure.\<close>

definition init_new_stream_err :: "QUIC_STREAM \<Rightarrow> QUIC_STREAM_MAP \<Rightarrow> QUIC_CHANNEL \<Rightarrow> (bool \<times> QUIC_CHANNEL) option" where
  "init_new_stream_err qs qsm ch = do {
     _ \<leftarrow> rstream_free (qs_rstream qs);
     Some (False, ch\<lparr>ch_qsm := qs_set (qs\<lparr>qs_sstream := None, qs_rstream := None\<rparr>) qsm\<rparr>) }"

definition ch_init_new_stream ::
  "stream_memory \<Rightarrow> nat \<Rightarrow> bool \<Rightarrow> bool \<Rightarrow> QUIC_CHANNEL \<Rightarrow> (bool \<times> QUIC_CHANNEL) option" where
  "ch_init_new_stream m i can_send can_recv ch = do {
     qs \<leftarrow> qsm_map (ch_qsm ch) i;
     let server_init = ossl_quic_stream_is_server_init qs;
         local_init = (ch_is_server ch = server_init);
         is_uni = (\<not> ossl_quic_stream_is_bidi qs) in do {
     ss \<leftarrow> (if can_send then ossl_quic_sstream_new (sstream_mem m) (sm_malloc m) INIT_APP_BUF_LEN else Some (qs_sstream qs));
     if can_send \<and> ss = None then init_new_stream_err qs (ch_qsm ch) ch
     else do {
       rs \<leftarrow> (if can_recv then ossl_quic_rstream_new (no_rstream m) (sm_malloc m) (sm_refs m) None None 0 else Some (qs_rstream qs));
       let qs = qs\<lparr>qs_sstream := ss, qs_rstream := rs\<rparr> in
       if can_recv \<and> rs = None then init_new_stream_err qs (ch_qsm ch) ch
       else do {
         (ok, tx) \<leftarrow> ossl_quic_txfc_init (qs_txfc qs) (Some conn_fc) (qsm_tx (ch_qsm ch));
         if \<not> ok then init_new_stream_err qs ((ch_qsm ch)\<lparr>qsm_tx := tx\<rparr>) ch
         else do {
           (_, tx) \<leftarrow> (if ch_got_remote_transport_params ch \<and> can_send
              then ossl_quic_txfc_bump_cwm (qs_txfc qs)
                (if is_uni then ch_rx_init_max_stream_data_uni ch
                 else if local_init then ch_rx_init_max_stream_data_bidi_local ch
                 else ch_rx_init_max_stream_data_bidi_remote ch) tx
              else Some (True, tx));
           let rxfc_wnd = (if \<not> can_recv then 0
                           else if is_uni then ch_tx_init_max_stream_data_uni ch
                           else if local_init then ch_tx_init_max_stream_data_bidi_local ch
                           else ch_tx_init_max_stream_data_bidi_remote ch) in do {
           (ok, rx) \<leftarrow> ossl_quic_rxfc_init (qs_rxfc qs) (Some conn_fc) rxfc_wnd
              (u64_mul DEFAULT_STREAM_RXFC_MAX_WND_MUL rxfc_wnd) (qsm_rx (ch_qsm ch));
           let qsm = (ch_qsm ch)\<lparr>qsm_tx := tx, qsm_rx := rx\<rparr> in
           if \<not> ok then init_new_stream_err qs qsm ch
           else Some (True, ch\<lparr>ch_qsm := qs_set qs qsm\<rparr>) } } } } } }"

definition ch_get_local_stream_next_ordinal :: "bool \<Rightarrow> QUIC_CHANNEL \<Rightarrow> nat" where
  "ch_get_local_stream_next_ordinal is_uni ch =
     (if is_uni then ch_next_local_stream_ordinal_uni ch else ch_next_local_stream_ordinal_bidi ch)"

definition ch_get_local_stream_max :: "bool \<Rightarrow> QUIC_CHANNEL \<Rightarrow> nat" where
  "ch_get_local_stream_max is_uni ch = (if is_uni then ch_max_local_streams_uni ch else ch_max_local_streams_bidi ch)"

definition ch_get_remote_stream_count_rxfc :: "bool \<Rightarrow> nat" where
  "ch_get_remote_stream_count_rxfc is_uni = (if is_uni then max_streams_uni_fc else max_streams_bidi_fc)"

definition ossl_quic_channel_is_new_local_stream_admissible :: "bool \<Rightarrow> QUIC_CHANNEL \<Rightarrow> bool" where
  "ossl_quic_channel_is_new_local_stream_admissible is_uni ch =
     ossl_quic_stream_map_is_local_allowed_by_stream_limit (ch_get_local_stream_next_ordinal is_uni ch) is_uni (ch_qsm ch)"

definition ossl_quic_channel_get_local_stream_count_avail :: "bool \<Rightarrow> QUIC_CHANNEL \<Rightarrow> nat" where
  "ossl_quic_channel_get_local_stream_count_avail is_uni ch =
     u64_sub (ch_get_local_stream_max is_uni ch) (ch_get_local_stream_next_ordinal is_uni ch)"

definition ossl_quic_channel_get_remote_stream_count_avail :: "bool \<Rightarrow> QUIC_CHANNEL \<Rightarrow> nat option" where
  "ossl_quic_channel_get_remote_stream_count_avail is_uni ch =
     map_option ossl_quic_rxfc_get_credit (rx_at (qsm_rx (ch_qsm ch)) (ch_get_remote_stream_count_rxfc is_uni))"

text \<open>The new streams are the ID of the stream, or \<open>None\<close> for the null pointer.\<close>

definition ossl_quic_channel_new_stream_local ::
  "stream_memory \<Rightarrow> bool \<Rightarrow> QUIC_CHANNEL \<Rightarrow> (nat option \<times> QUIC_CHANNEL) option" where
  "ossl_quic_channel_new_stream_local m is_uni ch =
     (let type = (if ch_is_server ch then QUIC_STREAM_INITIATOR_SERVER else QUIC_STREAM_INITIATOR_CLIENT);
          next_ordinal = ch_get_local_stream_next_ordinal is_uni ch;
          type = (if is_uni then type OR QUIC_STREAM_DIR_UNI else type OR QUIC_STREAM_DIR_BIDI)
      in if next_ordinal \<ge> 2 ^ 62 then Some (None, ch)
         else
           let stream_id = take_bit 64 (push_bit 2 next_ordinal) OR type;
               (qs, qsm) = ossl_quic_stream_map_alloc (no_stream m) (stream_fc stream_id) stream_id type (ch_qsm ch)
           in (case qs of
                 None \<Rightarrow> Some (None, ch)
               | Some i \<Rightarrow> do {
                   (ok, ch) \<leftarrow> ch_init_new_stream m i True (\<not> is_uni) (ch\<lparr>ch_qsm := qsm\<rparr>);
                   if \<not> ok
                   then do { qsm \<leftarrow> ossl_quic_stream_map_release i (ch_qsm ch); Some (None, ch\<lparr>ch_qsm := qsm\<rparr>) }
                   else Some (Some i,
                          if is_uni then ch\<lparr>ch_next_local_stream_ordinal_uni := u64_add next_ordinal 1\<rparr>
                          else ch\<lparr>ch_next_local_stream_ordinal_bidi := u64_add next_ordinal 1\<rparr>) }))"

definition ossl_quic_channel_set_incoming_stream_auto_reject :: "bool \<Rightarrow> nat \<Rightarrow> QUIC_CHANNEL \<Rightarrow> QUIC_CHANNEL" where
  "ossl_quic_channel_set_incoming_stream_auto_reject enable aec ch =
     ch\<lparr>ch_incoming_stream_auto_reject := enable, ch_incoming_stream_auto_reject_aec := aec\<rparr>"

definition ossl_quic_channel_reject_stream :: "nat \<Rightarrow> QUIC_CHANNEL \<Rightarrow> QUIC_CHANNEL option" where
  "ossl_quic_channel_reject_stream i ch = do {
     (_, qsm) \<leftarrow> ossl_quic_stream_map_stop_sending_recv_part i (ch_incoming_stream_auto_reject_aec ch) (ch_qsm ch);
     (_, qsm) \<leftarrow> ossl_quic_stream_map_reset_stream_send_part i (ch_incoming_stream_auto_reject_aec ch) qsm;
     qs \<leftarrow> qsm_map qsm i;
     qsm \<leftarrow> ossl_quic_stream_map_update_state i (qs_set (qs\<lparr>qs_deleted := True\<rparr>) qsm);
     Some (ch\<lparr>ch_qsm := qsm\<rparr>) }"

definition ossl_quic_channel_new_stream_remote ::
  "stream_memory \<Rightarrow> nat \<Rightarrow> QUIC_CHANNEL \<Rightarrow> (nat option \<times> QUIC_CHANNEL) option" where
  "ossl_quic_channel_new_stream_remote m stream_id ch =
     (if bit stream_id 0 \<noteq> (\<not> ch_is_server ch) then Some (None, ch)
      else
        let is_uni = bit stream_id 1;
            (qs, qsm) = ossl_quic_stream_map_alloc (no_stream m) (stream_fc stream_id) stream_id (take_bit 2 stream_id) (ch_qsm ch)
        in (case qs of
              None \<Rightarrow> Some (None, ch)
            | Some i \<Rightarrow> do {
                (ok, ch) \<leftarrow> ch_init_new_stream m i (\<not> is_uni) True (ch\<lparr>ch_qsm := qsm\<rparr>);
                if \<not> ok
                then do { qsm \<leftarrow> ossl_quic_stream_map_release i (ch_qsm ch); Some (None, ch\<lparr>ch_qsm := qsm\<rparr>) }
                else do {
                  ch \<leftarrow> (if ch_incoming_stream_auto_reject ch then ossl_quic_channel_reject_stream i ch
                         else do { qsm \<leftarrow> ossl_quic_stream_map_push_accept_queue i (ch_qsm ch); Some (ch\<lparr>ch_qsm := qsm\<rparr>) });
                  Some (Some i, ch) } }))"

text \<open>The increment of the ordinal of the next stream of the peer, which the caller of the function above does.\<close>

definition inc_next_remote_stream_ordinal :: "bool \<Rightarrow> QUIC_CHANNEL \<Rightarrow> QUIC_CHANNEL" where
  "inc_next_remote_stream_ordinal is_uni ch =
     (if is_uni then ch\<lparr>ch_next_remote_stream_ordinal_uni := u64_add (ch_next_remote_stream_ordinal_uni ch) 1\<rparr>
      else ch\<lparr>ch_next_remote_stream_ordinal_bidi := u64_add (ch_next_remote_stream_ordinal_bidi ch) 1\<rparr>)"

section \<open>New streams\<close>

definition memory_ok :: "(nat \<Rightarrow> nat) \<Rightarrow> stream_memory \<Rightarrow> bool" where
  "memory_ok refs m \<longleftrightarrow> malloc_ok (sm_malloc m) \<and> sm_refs m = refs"

definition memory_available :: "stream_memory \<Rightarrow> bool" where
  "memory_available m \<longleftrightarrow> \<not> no_stream m \<and> sstream_mem m \<and> \<not> no_rstream m \<and> sm_malloc m INIT_APP_BUF_LEN \<noteq> None"

text \<open>The buffers of a new stream.\<close>

definition fresh_buffers :: "(nat \<Rightarrow> nat) \<Rightarrow> bool \<Rightarrow> bool \<Rightarrow> quic_sstream option \<Rightarrow> QUIC_RSTREAM option \<Rightarrow> bool" where
  "fresh_buffers refs can_send can_recv ss rs \<longleftrightarrow>
     (ss \<noteq> None \<longleftrightarrow> can_send) \<and> (\<forall>x. ss = Some x \<longrightarrow> sstream_inv [] x \<and> \<not> ss_have_final_size x)
     \<and> (rs \<noteq> None \<longleftrightarrow> can_recv) \<and> (\<forall>x. rs = Some x \<longrightarrow> (\<forall>content. rs_abs content refs [] {} 0 False x))"

lemma sstream_new_cases:
  assumes "malloc_ok malloc"
  obtains res where "ossl_quic_sstream_new mem malloc INIT_APP_BUF_LEN = Some res"
    "\<And>x. res = Some x \<Longrightarrow> sstream_inv [] x \<and> \<not> ss_have_final_size x" "mem \<Longrightarrow> malloc INIT_APP_BUF_LEN \<noteq> None \<Longrightarrow> res \<noteq> None"
proof -
  obtain res where res: "ossl_quic_sstream_new mem malloc INIT_APP_BUF_LEN = Some res"
    "\<And>x. res = Some x \<Longrightarrow> sstream_inv [] x" using sstream_new_inv [OF assms, of mem INIT_APP_BUF_LEN] by (auto split: option.splits)
  moreover have "\<not> ss_have_final_size x" if "res = Some x" for x
    using res(1) that by (auto simp: ossl_quic_sstream_new_def bind_eq_Some_conv split: if_splits)
  moreover have "res \<noteq> None" if "mem" "malloc INIT_APP_BUF_LEN \<noteq> None"
  proof -
    have "ring_buf_wf ring_buf_init" by (simp add: ring_buf_wf_def ring_buf_init_def rb_mem_ok_def)
    then obtain r where "ring_buf_resize malloc ring_buf_init INIT_APP_BUF_LEN = Some (INIT_APP_BUF_LEN = rb_alloc ring_buf_init
        \<or> rb_head ring_buf_init - rb_ctail ring_buf_init \<le> INIT_APP_BUF_LEN \<and> malloc INIT_APP_BUF_LEN \<noteq> None, r)"
      by (rule ring_buf_resize_spec [OF _ assms])
    then have "ring_buf_resize malloc ring_buf_init INIT_APP_BUF_LEN = Some (True, r)" using that(2) by (simp add: ring_buf_init_def)
    then show ?thesis using res(1) that(1) by (auto simp: ossl_quic_sstream_new_def)
  qed
  ultimately show thesis using that by blast
qed

lemma rstream_new_cases:
  assumes "malloc_ok malloc"
  obtains res where "ossl_quic_rstream_new no_mem malloc refs None None 0 = Some res"
    "\<And>x content. res = Some x \<Longrightarrow> rs_abs content refs [] {} 0 False x" "res \<noteq> None \<longleftrightarrow> \<not> no_mem"
proof -
  have zero: "ring_buf_resize malloc ring_buf_init 0 = Some (True, ring_buf_init)" by (simp add: ring_buf_resize_def ring_buf_init_def)
  then obtain res where res: "ossl_quic_rstream_new no_mem malloc refs None None 0 = Some res" "res \<noteq> None \<longleftrightarrow> \<not> no_mem"
    by (cases no_mem) (simp_all add: ossl_quic_rstream_new_def)
  have "rs_abs content refs [] {} 0 False x" if x: "res = Some x" for x content
  proof -
    have "ossl_quic_rstream_new False malloc refs None None 0 = Some (Some x)" using res x by (cases no_mem) simp_all
    from new_spec [OF this assms, of content] show ?thesis by (simp add: rs_abs_def)
  qed
  then show thesis using that res by blast
qed

text \<open>The controllers of a stream \<open>i\<close> are new; all others are as before.\<close>

definition fresh_tx :: "nat \<Rightarrow> txfcs \<Rightarrow> txfcs \<Rightarrow> bool" where
  "fresh_tx i h h' \<longleftrightarrow> (\<exists>t. h' = h(stream_fc i \<mapsto> t) \<and> tx_parent t = Some conn_fc \<and> tx_swm t \<le> tx_cwm t \<and> tx_cwm t < U64)"

definition fresh_rx :: "nat \<Rightarrow> rxfcs \<Rightarrow> rxfcs \<Rightarrow> bool" where
  "fresh_rx i s s' \<longleftrightarrow> (\<exists>r. s' = s\<lparr>rx_at := (rx_at s)(stream_fc i \<mapsto> r)\<rparr> \<and> \<not> rx_standalone r \<and> rx_parent r = Some conn_fc
     \<and> rx_error_code r = 0 \<and> rx_hwm r = 0 \<and> rx_swm r = 0 \<and> rx_rwm r = 0 \<and> rx_cwm r < U64 \<and> \<not> rx_is_fin r)"

definition windows_ok :: "QUIC_CHANNEL \<Rightarrow> bool" where
  "windows_ok ch \<longleftrightarrow> ch_rx_init_max_stream_data_bidi_local ch < U64 \<and> ch_rx_init_max_stream_data_bidi_remote ch < U64
     \<and> ch_rx_init_max_stream_data_uni ch < U64 \<and> ch_tx_init_max_stream_data_bidi_local ch < U64
     \<and> ch_tx_init_max_stream_data_bidi_remote ch < U64 \<and> ch_tx_init_max_stream_data_uni ch < U64"

lemma init_new_stream_spec:
  assumes s: "qsm_map (ch_qsm ch) i = Some s" "qs_id s = i" "qs_sstream s = None" "qs_rstream s = None" "qs_txfc s = stream_fc i" "qs_rxfc s = stream_fc i"
    and tx: "qsm_tx (ch_qsm ch) conn_fc = Some p" "tx_parent p = None" and rx: "rx_at (qsm_rx (ch_qsm ch)) conn_fc = Some c" "rx_parent c = None"
    and m: "memory_ok refs m" and wnd: "windows_ok ch"
  obtains
    ss rs tx rx where "ch_init_new_stream m i can_send can_recv ch =
        Some (True, ch\<lparr>ch_qsm := qs_set (s\<lparr>qs_sstream := ss, qs_rstream := rs\<rparr>) ((ch_qsm ch)\<lparr>qsm_tx := tx, qsm_rx := rx\<rparr>)\<rparr>)"
      "fresh_buffers refs can_send can_recv ss rs" "fresh_tx i (qsm_tx (ch_qsm ch)) tx" "fresh_rx i (qsm_rx (ch_qsm ch)) rx"
  | "ch_init_new_stream m i can_send can_recv ch = Some (False, ch\<lparr>ch_qsm := qs_set s (ch_qsm ch)\<rparr>)" "\<not> memory_available m"
proof -
  have mal: "malloc_ok (sm_malloc m)" and refs: "sm_refs m = refs" using m by (simp_all add: memory_ok_def)
  have eta: "s\<lparr>qs_sstream := None, qs_rstream := None\<rparr> = s" using s(3,4) by simp
  obtain ss where ss: "(if can_send then ossl_quic_sstream_new (sstream_mem m) (sm_malloc m) INIT_APP_BUF_LEN else Some (qs_sstream s)) = Some ss"
    "ss \<noteq> None \<Longrightarrow> can_send" "\<And>x. ss = Some x \<Longrightarrow> sstream_inv [] x \<and> \<not> ss_have_final_size x" "can_send \<Longrightarrow> ss = None \<Longrightarrow> \<not> memory_available m"
    by (rule sstream_new_cases [OF mal, of "sstream_mem m"], cases can_send) (use s(3) in \<open>auto simp: memory_available_def\<close>)
  obtain rs where rs: "(if can_recv then ossl_quic_rstream_new (no_rstream m) (sm_malloc m) refs None None 0 else Some (qs_rstream s)) = Some rs"
    "rs \<noteq> None \<Longrightarrow> can_recv" "\<And>x content. rs = Some x \<Longrightarrow> rs_abs content refs [] {} 0 False x" "can_recv \<Longrightarrow> rs = None \<Longrightarrow> \<not> memory_available m"
    by (rule rstream_new_cases [OF mal, of "no_rstream m" refs], cases can_recv) (use s(4) in \<open>auto simp: memory_available_def\<close>)
  have none: "rstream_free None = Some ()" by (simp add: rstream_free_def)
  consider "can_send" "ss = None" | "ss \<noteq> None \<longleftrightarrow> can_send" "can_recv" "rs = None" | "ss \<noteq> None \<longleftrightarrow> can_send" "rs \<noteq> None \<longleftrightarrow> can_recv"
    using ss(2) rs(2) by blast
  then show thesis
  proof cases
    case 1
    then have "ch_init_new_stream m i can_send can_recv ch = Some (False, ch\<lparr>ch_qsm := qs_set s (ch_qsm ch)\<rparr>)"
      using s(1,4) ss(1) none by (simp add: ch_init_new_stream_def init_new_stream_err_def eta)
    then show thesis using 1 ss(4) that(2) by blast
  next
    case 2
    then have "ch_init_new_stream m i can_send can_recv ch = Some (False, ch\<lparr>ch_qsm := qs_set s (ch_qsm ch)\<rparr>)"
      using s(1,4) ss(1) rs(1) none by (simp add: ch_init_new_stream_def init_new_stream_err_def eta Let_def refs)
    then show thesis using 2 rs(4) that(2) by blast
  next
    case 3
    let ?wnd = "if \<not> can_recv then 0 else if \<not> ossl_quic_stream_is_bidi s then ch_tx_init_max_stream_data_uni ch
      else if ch_is_server ch = ossl_quic_stream_is_server_init s then ch_tx_init_max_stream_data_bidi_local ch
      else ch_tx_init_max_stream_data_bidi_remote ch"
    let ?cwm = "if \<not> ossl_quic_stream_is_bidi s then ch_rx_init_max_stream_data_uni ch
      else if ch_is_server ch = ossl_quic_stream_is_server_init s then ch_rx_init_max_stream_data_bidi_local ch
      else ch_rx_init_max_stream_data_bidi_remote ch"
    let ?t = "\<lparr>tx_parent = Some conn_fc, tx_swm = 0, tx_cwm = (if ch_got_remote_transport_params ch \<and> can_send then ?cwm else 0), tx_has_become_blocked = False\<rparr>"
    let ?r = "\<lparr>rx_cwm = ?wnd, rx_swm = 0, rx_rwm = 0, rx_esrwm = 0, rx_hwm = 0, rx_cur_window_size = ?wnd,
      rx_max_window_size = u64_mul DEFAULT_STREAM_RXFC_MAX_WND_MUL ?wnd, rx_epoch_start = ossl_time_zero, rx_parent = Some conn_fc, rx_error_code = 0,
      rx_has_cwm_changed = False, rx_is_fin = False, rx_standalone = False\<rparr>"
    have small: "?wnd < U64" "?cwm < U64" using wnd by (auto simp: windows_ok_def)
    let ?tx = "(qsm_tx (ch_qsm ch))(stream_fc i \<mapsto> ?t)" and ?rx = "(qsm_rx (ch_qsm ch))\<lparr>rx_at := (rx_at (qsm_rx (ch_qsm ch)))(stream_fc i \<mapsto> ?r)\<rparr>"
    define tx0 where "tx0 = (qsm_tx (ch_qsm ch))(stream_fc i \<mapsto> \<lparr>tx_parent = Some conn_fc, tx_swm = 0, tx_cwm = 0, tx_has_become_blocked = False\<rparr>)"
    have itx: "ossl_quic_txfc_init (stream_fc i) (Some conn_fc) (qsm_tx (ch_qsm ch)) = Some (True, tx0)"
      using tx by (simp add: ossl_quic_txfc_init_def tx0_def)
    have "\<exists>b. ossl_quic_txfc_bump_cwm (stream_fc i) n tx0 = Some (b, (qsm_tx (ch_qsm ch))
        (stream_fc i \<mapsto> \<lparr>tx_parent = Some conn_fc, tx_swm = 0, tx_cwm = n, tx_has_become_blocked = False\<rparr>))" for n
      by (intro exI [of _ "n \<noteq> 0"]) (simp add: ossl_quic_txfc_bump_cwm_def tx0_def)
    then obtain b where bump: "(if ch_got_remote_transport_params ch \<and> can_send then ossl_quic_txfc_bump_cwm (stream_fc i) ?cwm tx0 else Some (True, tx0)) = Some (b, ?tx)"
      by (cases "ch_got_remote_transport_params ch \<and> can_send") (simp_all only: if_True if_False, auto simp: tx0_def)
    have upd: "qs_txfc (s\<lparr>qs_sstream := ss, qs_rstream := rs\<rparr>) = stream_fc i" "qs_rxfc (s\<lparr>qs_sstream := ss, qs_rstream := rs\<rparr>) = stream_fc i"
      using s(5,6) by simp_all
    have some: "\<not> (can_send \<and> ss = None)" "\<not> (can_recv \<and> rs = None)" using 3 by auto
    have irx: "ossl_quic_rxfc_init (stream_fc i) (Some conn_fc) ?wnd (u64_mul DEFAULT_STREAM_RXFC_MAX_WND_MUL ?wnd) (qsm_rx (ch_qsm ch)) = Some (True, ?rx)"
      using rx by (simp add: ossl_quic_rxfc_init_def)
    have "ch_init_new_stream m i can_send can_recv ch =
        Some (True, ch\<lparr>ch_qsm := qs_set (s\<lparr>qs_sstream := ss, qs_rstream := rs\<rparr>) ((ch_qsm ch)\<lparr>qsm_tx := ?tx, qsm_rx := ?rx\<rparr>)\<rparr>)"
      unfolding ch_init_new_stream_def s(1) Let_def refs
      by (simp only: option.case bind.bind_lunit ss(1) rs(1) some if_False upd itx bump irx prod.case simp_thms)
    moreover have "fresh_buffers refs can_send can_recv ss rs" unfolding fresh_buffers_def using 3 ss(3) rs(3) by blast
    moreover have "fresh_tx i (qsm_tx (ch_qsm ch)) ?tx"
      unfolding fresh_tx_def using small(2) by (intro exI [of _ ?t]) simp
    moreover have "fresh_rx i (qsm_rx (ch_qsm ch)) ?rx"
      unfolding fresh_rx_def using small(1) by (intro exI [of _ ?r]) simp
    ultimately show thesis by (rule that(1))
  qed
qed

section \<open>The invariant of a channel\<close>

text \<open>
  The limits of the transmit controllers, of the stream counts and of the receive controllers.  A connection that is not
  being terminated has no error at the controller of a stream; the one of the connection may have an error that nobody
  has read.
\<close>

definition tx_chan :: "nat set \<Rightarrow> txfcs \<Rightarrow> bool" where
  "tx_chan S h \<longleftrightarrow> (\<exists>p. h conn_fc = Some p \<and> tx_parent p = None \<and> tx_swm p \<le> tx_cwm p \<and> tx_cwm p < U64)
     \<and> (\<forall>i\<in>S. \<exists>t. h (stream_fc i) = Some t \<and> tx_parent t = Some conn_fc \<and> tx_swm t \<le> tx_cwm t \<and> tx_cwm t < U64)"

definition rx_count :: "nat \<Rightarrow> QUIC_RXFC \<Rightarrow> bool" where
  "rx_count n r \<longleftrightarrow> rx_standalone r \<and> rx_parent r = None \<and> \<not> rx_is_fin r \<and> rx_error_code r = 0
     \<and> n \<le> rx_hwm r \<and> rx_hwm r = rx_swm r \<and> rx_swm r \<le> rx_cwm r \<and> rx_cwm r < U64"

definition rx_stream :: "QUIC_RXFC \<Rightarrow> bool" where
  "rx_stream r \<longleftrightarrow> \<not> rx_standalone r \<and> rx_parent r = Some conn_fc \<and> rx_error_code r = 0
     \<and> rx_hwm r = rx_swm r \<and> rx_swm r \<le> rx_cwm r \<and> rx_cwm r < U64 \<and> rx_rwm r \<le> rx_swm r \<and> rx_swm r < 2 ^ 62"

text \<open>
  The data of a receive part: \<open>got\<close> are the offsets that have arrived, \<open>out\<close> the bytes the application has read.  As long
  as the peer was not asked to stop, the buffer has everything that has arrived.
\<close>

definition buffer_data :: "(nat \<Rightarrow> u8) \<Rightarrow> (nat \<Rightarrow> nat) \<Rightarrow> nat set \<Rightarrow> u8 list \<Rightarrow> QUIC_RXFC \<Rightarrow> bool \<Rightarrow> QUIC_RSTREAM \<Rightarrow> bool" where
  "buffer_data content refs got out r stop rs \<longleftrightarrow> rx_rwm r = length out
     \<and> (\<exists>R E final. rs_abs content refs out R E final rs \<and> E \<le> rx_hwm r \<and> (final \<longrightarrow> rx_is_fin r \<and> E = rx_hwm r)
          \<and> (\<not> stop \<longrightarrow> R = got \<and> (rx_is_fin r \<longrightarrow> final)))"

definition recv_data :: "(nat \<Rightarrow> u8) \<Rightarrow> (nat \<Rightarrow> nat) \<Rightarrow> nat set \<Rightarrow> u8 list \<Rightarrow> QUIC_RXFC \<Rightarrow> QUIC_STREAM \<Rightarrow> bool" where
  "recv_data content refs got out r s \<longleftrightarrow>
     out = map content [0..<length out] \<and> got \<subseteq> {0..<rx_hwm r}
     \<and> (\<forall>rs. qs_rstream s = Some rs \<longrightarrow> buffer_data content refs got out r (qs_stop_sending s) rs)
     \<and> (qs_recv_state s = QUIC_RSTREAM_STATE_RECV \<longrightarrow> \<not> rx_is_fin r)
     \<and> (qs_recv_state s = QUIC_RSTREAM_STATE_SIZE_KNOWN \<or> qs_recv_state s = QUIC_RSTREAM_STATE_DATA_RECVD \<longrightarrow> rx_is_fin r)
     \<and> (qs_recv_state s = QUIC_RSTREAM_STATE_DATA_RECVD \<longrightarrow> \<not> qs_stop_sending s \<longrightarrow> got = {0..<rx_hwm r})"

definition stream_inv :: "(nat \<Rightarrow> u8) \<Rightarrow> (nat \<Rightarrow> nat) \<Rightarrow> nat set \<Rightarrow> u8 list \<Rightarrow> rxfcs \<Rightarrow> nat \<Rightarrow> QUIC_STREAM \<Rightarrow> bool" where
  "stream_inv content refs got out rx i s \<longleftrightarrow> qs_txfc s = stream_fc i \<and> qs_rxfc s = stream_fc i \<and> qs_type s = take_bit 2 i
     \<and> (\<exists>r. rx_at rx (stream_fc i) = Some r \<and> rx_stream r \<and> recv_data content refs got out r s)"

definition ch_next_remote_stream_ordinal :: "bool \<Rightarrow> QUIC_CHANNEL \<Rightarrow> nat" where
  "ch_next_remote_stream_ordinal is_uni ch = (if is_uni then ch_next_remote_stream_ordinal_uni ch else ch_next_remote_stream_ordinal_bidi ch)"

definition next_ordinal :: "QUIC_CHANNEL \<Rightarrow> nat \<Rightarrow> nat" where
  "next_ordinal ch i =
     (if bit i 0 = ch_is_server ch then ch_get_local_stream_next_ordinal (bit i 1) ch else ch_next_remote_stream_ordinal (bit i 1) ch)"

text \<open>Of each type the streams with the ordinals below the next one exist.\<close>

definition ids_inv :: "QUIC_CHANNEL \<Rightarrow> bool" where
  "ids_inv ch \<longleftrightarrow> (\<forall>i. i \<in> dom (qsm_map (ch_qsm ch)) \<longleftrightarrow> drop_bit 2 i < next_ordinal ch i) \<and> (\<forall>i. next_ordinal ch i \<le> 2 ^ 60)"

definition conf_inv :: "QUIC_CHANNEL \<Rightarrow> bool" where
  "conf_inv ch \<longleftrightarrow> windows_ok ch \<and> qsm_is_server (ch_qsm ch) = ch_is_server ch \<and> qsm_stream_limit (ch_qsm ch) = Some (get_stream_limit ch)
     \<and> qsm_max_streams_bidi_rxfc (ch_qsm ch) = Some max_streams_bidi_fc \<and> qsm_max_streams_uni_rxfc (ch_qsm ch) = Some max_streams_uni_fc"

definition rx_chan :: "QUIC_CHANNEL \<Rightarrow> rxfcs \<Rightarrow> bool" where
  "rx_chan ch rx \<longleftrightarrow> (\<exists>p. rx_at rx conn_fc = Some p \<and> rx_parent p = None)
     \<and> (\<forall>u. \<exists>r. rx_at rx (ch_get_remote_stream_count_rxfc u) = Some r \<and> rx_count (ch_next_remote_stream_ordinal u ch) r)"

definition ch_inv :: "(nat \<Rightarrow> nat \<Rightarrow> u8) \<Rightarrow> (nat \<Rightarrow> nat) \<Rightarrow> (nat \<Rightarrow> nat set) \<Rightarrow> (nat \<Rightarrow> u8 list) \<Rightarrow> QUIC_CHANNEL \<Rightarrow> bool" where
  "ch_inv content refs got out ch \<longleftrightarrow>
     qsm_wf (ch_qsm ch) \<and> tx_chan (dom (qsm_map (ch_qsm ch))) (qsm_tx (ch_qsm ch)) \<and> rx_chan ch (qsm_rx (ch_qsm ch))
     \<and> ids_inv ch \<and> conf_inv ch
     \<and> (\<forall>i s. qsm_map (ch_qsm ch) i = Some s \<longrightarrow> stream_inv (content i) refs (got i) (out i) (qsm_rx (ch_qsm ch)) i s)
     \<and> (\<forall>i. qsm_map (ch_qsm ch) i = None \<longrightarrow> got i = {} \<and> out i = [])"

lemma ch_inv_stream:
  assumes "ch_inv content refs got out ch" "qsm_map (ch_qsm ch) i = Some s"
  obtains r where "qs_id s = i" "qs_txfc s = stream_fc i" "qs_rxfc s = stream_fc i" "qs_type s = take_bit 2 i" "i < 2 ^ 62"
    "rx_at (qsm_rx (ch_qsm ch)) (stream_fc i) = Some r" "rx_stream r" "recv_data (content i) refs (got i) (out i) r s"
  using assms wf_stream [of "ch_qsm ch" i s] unfolding ch_inv_def stream_inv_def by blast

lemma tx_chan_credit:
  assumes "tx_chan S h" "i \<in> S"
  shows "ossl_quic_txfc_get_credit (stream_fc i) 0 h \<noteq> None"
  using assms by (auto simp: tx_chan_def ossl_quic_txfc_get_credit_def get_credit_local_0 dest!: bspec)

lemma ch_inv_fc: "ch_inv content refs got out ch \<Longrightarrow> fc_ok (ch_qsm ch)"
  unfolding fc_ok_def
proof (intro allI impI)
  fix i s assume inv: "ch_inv content refs got out ch" and s: "qsm_map (ch_qsm ch) i = Some s"
  have "ossl_quic_txfc_get_credit (stream_fc i) 0 (qsm_tx (ch_qsm ch)) \<noteq> None"
    using inv s by (intro tx_chan_credit) (auto simp: ch_inv_def)
  moreover obtain r where "qs_txfc s = stream_fc i" "qs_rxfc s = stream_fc i" "rx_at (qsm_rx (ch_qsm ch)) (stream_fc i) = Some r"
    by (rule ch_inv_stream [OF inv s])
  ultimately show "ossl_quic_txfc_get_credit (qs_txfc s) 0 (qsm_tx (ch_qsm ch)) \<noteq> None \<and> rx_at (qsm_rx (ch_qsm ch)) (qs_rxfc s) \<noteq> None"
    by simp
qed

text \<open>The configuration of the map, which the operations on a stream do not change.\<close>

definition same_conf :: "QUIC_STREAM_MAP \<Rightarrow> QUIC_STREAM_MAP \<Rightarrow> bool" where
  "same_conf qsm q \<longleftrightarrow> qsm_stream_limit q = qsm_stream_limit qsm \<and> qsm_is_server q = qsm_is_server qsm
     \<and> qsm_max_streams_bidi_rxfc q = qsm_max_streams_bidi_rxfc qsm \<and> qsm_max_streams_uni_rxfc q = qsm_max_streams_uni_rxfc qsm"

lemma same_conf_only_at: "only_at i qsm q \<Longrightarrow> same_conf qsm q"
  by (simp add: only_at_def same_conf_def)

lemma with_qsm_simps [simp]:
  "ch_next_remote_stream_ordinal u (ch\<lparr>ch_qsm := q\<rparr>) = ch_next_remote_stream_ordinal u ch"
  "ch_get_local_stream_next_ordinal u (ch\<lparr>ch_qsm := q\<rparr>) = ch_get_local_stream_next_ordinal u ch"
  "next_ordinal (ch\<lparr>ch_qsm := q\<rparr>) = next_ordinal ch" "windows_ok (ch\<lparr>ch_qsm := q\<rparr>) = windows_ok ch"
  "get_stream_limit (ch\<lparr>ch_qsm := q\<rparr>) = get_stream_limit ch"
  by (simp_all add: ch_next_remote_stream_ordinal_def ch_get_local_stream_next_ordinal_def next_ordinal_def windows_ok_def
      get_stream_limit_def fun_eq_iff)

text \<open>A step that changes the stream \<open>i\<close> and the controllers of this stream and of the connection.\<close>

lemma ch_inv_step:
  assumes inv: "ch_inv content refs got out ch" and wf: "qsm_wf q" and conf: "same_conf (ch_qsm ch) q"
    and map: "\<And>j. j \<noteq> i \<Longrightarrow> qsm_map q j = qsm_map (ch_qsm ch) j" and s: "qsm_map (ch_qsm ch) i = Some s" "qsm_map q i = Some t"
    and t: "qs_txfc t = qs_txfc s" "qs_rxfc t = qs_rxfc s" "qs_type t = qs_type s"
    and tx: "tx_chan (dom (qsm_map (ch_qsm ch))) (qsm_tx q)"
    and rx: "\<And>a. a \<noteq> stream_fc i \<Longrightarrow> a \<noteq> conn_fc \<Longrightarrow> rx_at (qsm_rx q) a = rx_at (qsm_rx (ch_qsm ch)) a"
    and p: "rx_at (qsm_rx q) conn_fc = Some p" "rx_parent p = None"
    and r: "rx_at (qsm_rx q) (stream_fc i) = Some r" "rx_stream r" "recv_data (content i) refs got' out' r t"
  shows "ch_inv content refs (got(i := got')) (out(i := out')) (ch\<lparr>ch_qsm := q\<rparr>)"
proof -
  have "qsm_map q j = None \<longleftrightarrow> qsm_map (ch_qsm ch) j = None" for j using map s by (cases "j = i") simp_all
  then have dom: "dom (qsm_map q) = dom (qsm_map (ch_qsm ch))" by (simp add: dom_def)
  have "tx_chan (dom (qsm_map q)) (qsm_tx q)" using tx dom by simp
  moreover have "ids_inv (ch\<lparr>ch_qsm := q\<rparr>)"
    using inv dom by (simp add: ch_inv_def ids_inv_def)
  moreover have "conf_inv (ch\<lparr>ch_qsm := q\<rparr>)"
    using inv conf by (simp add: ch_inv_def conf_inv_def same_conf_def)
  moreover have "rx_chan (ch\<lparr>ch_qsm := q\<rparr>) (qsm_rx q)"
  proof -
    have "rx_at (qsm_rx q) (ch_get_remote_stream_count_rxfc u) = rx_at (qsm_rx (ch_qsm ch)) (ch_get_remote_stream_count_rxfc u)" for u
      by (rule rx) (simp_all add: ch_get_remote_stream_count_rxfc_def)
    then show ?thesis using inv p unfolding ch_inv_def rx_chan_def by simp
  qed
  moreover have "stream_inv (content j) refs ((got(i := got')) j) ((out(i := out')) j) (qsm_rx q) j u" if u: "qsm_map q j = Some u" for j u
  proof (cases "j = i")
    case True
    obtain r0 where "qs_txfc s = stream_fc i" "qs_rxfc s = stream_fc i" "qs_type s = take_bit 2 i" by (rule ch_inv_stream [OF inv s(1)])
    with True show ?thesis using u s(2) t r by (simp add: stream_inv_def)
  next
    case False
    then have "qsm_map (ch_qsm ch) j = Some u" using map u by simp
    with inv have "stream_inv (content j) refs (got j) (out j) (qsm_rx (ch_qsm ch)) j u" by (simp add: ch_inv_def)
    moreover have "rx_at (qsm_rx q) (stream_fc j) = rx_at (qsm_rx (ch_qsm ch)) (stream_fc j)" using False by (intro rx) simp_all
    ultimately show ?thesis using False by (simp add: stream_inv_def)
  qed
  moreover have "(got(i := got')) j = {} \<and> (out(i := out')) j = []" if "qsm_map q j = None" for j
    using that map s inv by (cases "j = i") (simp_all add: ch_inv_def)
  ultimately show ?thesis unfolding ch_inv_def using wf by simp
qed

lemma buffer_data_stop:
  assumes "buffer_data content refs got out r stop rs" "stop \<longrightarrow> stop'"
  shows "buffer_data content refs got out r stop' rs"
proof -
  obtain R E final where *: "rs_abs content refs out R E final rs" "E \<le> rx_hwm r" "final \<longrightarrow> rx_is_fin r \<and> E = rx_hwm r"
    "\<not> stop \<longrightarrow> R = got \<and> (rx_is_fin r \<longrightarrow> final)" "rx_rwm r = length out" using assms(1) unfolding buffer_data_def by blast
  then show ?thesis unfolding buffer_data_def using assms(2) by blast
qed

lemma recv_data_kept:
  assumes "recv_data content refs got out r s" "recv_kept s t"
  shows "recv_data content refs got out r t"
  unfolding recv_data_def
  using assms buffer_data_stop [of content refs got out r "qs_stop_sending s" _ "qs_stop_sending t"]
  by (intro conjI allI impI) (auto simp: recv_data_def recv_kept_def)

text \<open>An operation that leaves the receive part of the stream and all controllers alone.\<close>

lemma ch_inv_op:
  assumes inv: "ch_inv content refs got out ch" and wf: "qsm_wf q" and at: "only_at i (ch_qsm ch) q"
    and s: "qsm_map (ch_qsm ch) i = Some s" "qsm_map q i = Some t" and kept: "recv_kept s t"
  shows "ch_inv content refs got out (ch\<lparr>ch_qsm := q\<rparr>)"
proof -
  obtain r where r: "rx_at (qsm_rx (ch_qsm ch)) (stream_fc i) = Some r" "rx_stream r" "recv_data (content i) refs (got i) (out i) r s"
    by (rule ch_inv_stream [OF inv s(1)])
  obtain p where p: "rx_at (qsm_rx (ch_qsm ch)) conn_fc = Some p" "rx_parent p = None" using inv by (auto simp: ch_inv_def rx_chan_def)
  have same: "qsm_tx q = qsm_tx (ch_qsm ch)" "qsm_rx q = qsm_rx (ch_qsm ch)" using at by (simp_all add: only_at_def)
  have "recv_data (content i) refs (got i) (out i) r t"
    by (rule recv_data_kept [OF r(3) kept])
  then have "ch_inv content refs (got(i := got i)) (out(i := out i)) (ch\<lparr>ch_qsm := q\<rparr>)"
    by (rule ch_inv_step [OF inv wf same_conf_only_at [OF at] _ s, rotated -1])
      (use p r(1,2) kept at inv in \<open>simp_all add: same only_at_def ch_inv_def recv_kept_def\<close>)
  then show ?thesis by simp
qed

subsection \<open>The new streams\<close>

definition blank_stream :: "nat \<Rightarrow> bool \<Rightarrow> QUIC_STREAM" where
  "blank_stream i server =
     \<lparr>qs_id = i, qs_stop_sending_aec = 0, qs_reset_stream_aec = 0, qs_peer_stop_sending_aec = 0, qs_peer_reset_stream_aec = 0,
      qs_send_final_size = UINT64_MAX, qs_sstream = None, qs_rstream = None, qs_txfc = stream_fc i, qs_rxfc = stream_fc i,
      qs_type = take_bit 2 i,
      qs_send_state = (if bit i 0 = server \<or> \<not> bit i 1 then QUIC_SSTREAM_STATE_READY else QUIC_SSTREAM_STATE_NONE),
      qs_recv_state = (if bit i 0 \<noteq> server \<or> \<not> bit i 1 then QUIC_RSTREAM_STATE_RECV else QUIC_RSTREAM_STATE_NONE),
      qs_active = False, qs_as_server = server, qs_stop_sending = False, qs_peer_stop_sending = False,
      qs_want_max_stream_data = False, qs_want_stop_sending = False, qs_want_reset_stream = False,
      qs_acked_stop_sending = False, qs_deleted = False, qs_ready_for_gc = False, qs_shutdown_flush = False\<rparr>"

lemma blank_stream_simps [simp]:
  "qs_id (blank_stream i b) = i" "qs_sstream (blank_stream i b) = None" "qs_rstream (blank_stream i b) = None"
  "qs_txfc (blank_stream i b) = stream_fc i" "qs_rxfc (blank_stream i b) = stream_fc i" "qs_type (blank_stream i b) = take_bit 2 i"
  "qs_active (blank_stream i b) = False" "qs_ready_for_gc (blank_stream i b) = False" "qs_shutdown_flush (blank_stream i b) = False"
  "qs_deleted (blank_stream i b) = False" "qs_stop_sending (blank_stream i b) = False"
  by (simp_all add: blank_stream_def)

lemma alloc_spec:
  assumes "qsm_map qsm i = None" "type = take_bit 2 i"
  shows "ossl_quic_stream_map_alloc no_mem (stream_fc i) i type qsm =
    (if no_mem then (None, qsm) else (Some i, qs_set (blank_stream i (qsm_is_server qsm)) qsm))"
proof -
  have "bit type 0 = bit i 0" "bit type 1 = bit i 1" using assms(2) by (simp_all add: bit_take_bit_iff)
  then show ?thesis using assms
    by (simp add: ossl_quic_stream_map_alloc_def blank_stream_def Let_def ossl_quic_stream_is_local_init_def
        ossl_quic_stream_is_server_init_def ossl_quic_stream_is_bidi_def del: One_nat_def)
qed

lemma release_blank:
  assumes wf: "qsm_wf qsm" and new: "qsm_map qsm i = None"
  shows "ossl_quic_stream_map_release i (qs_set (blank_stream i b) (qs_set (blank_stream i b) qsm)) = Some qsm"
proof -
  have "i \<notin> set (qsm_active_list qsm)" "i \<notin> set (qsm_ready_for_gc_list qsm)" "i \<notin> set (qsm_accept_list qsm)"
    using wf new by (auto simp: qsm_wf_def members_def)
  moreover have "(qsm_map qsm)(i := None) = qsm_map qsm" using new by (simp add: fun_upd_idem_iff)
  ultimately show ?thesis
    by (simp add: ossl_quic_stream_map_release_def unlink_def rstream_free_def qs_set_def)
qed

lemma rs_abs_free: "rs_abs content refs out R E final rs \<Longrightarrow> ossl_quic_rstream_free rs \<noteq> None"
proof -
  assume "rs_abs content refs out R E final rs"
  then have "held (fl_frames (rs_fl rs)) p \<le> pkt_refs (rs_fl rs) p" for p by (simp add: rs_abs_def rs_inv_def sf_wf_def)
  from free_frames_refs [OF this] show ?thesis by (auto simp: ossl_quic_rstream_free_def ossl_sframe_list_destroy_def)
qed

lemma fresh_stream_ok:
  assumes "fresh_buffers refs (bit i 0 = b \<or> \<not> bit i 1) (bit i 0 \<noteq> b \<or> \<not> bit i 1) ss rs"
  shows "stream_ok ((blank_stream i b)\<lparr>qs_sstream := ss, qs_rstream := rs\<rparr>)"
proof -
  have free: "\<forall>x. rs = Some x \<longrightarrow> ossl_quic_rstream_free x \<noteq> None" using assms rs_abs_free unfolding fresh_buffers_def by blast
  have "send_ok ((blank_stream i b)\<lparr>qs_sstream := ss, qs_rstream := rs\<rparr>)"
    using assms by (auto simp: fresh_buffers_def send_ok_def stream_defs blank_stream_def)
  moreover have "recv_ok ((blank_stream i b)\<lparr>qs_sstream := ss, qs_rstream := rs\<rparr>)"
    using assms free by (simp add: fresh_buffers_def recv_ok_def stream_defs blank_stream_def)
  ultimately show ?thesis by (simp add: stream_ok_def)
qed

lemma same_ordinal:
  assumes "take_bit 2 j = take_bit 2 i"
  shows "next_ordinal ch j = next_ordinal ch i"
proof -
  have "bit j n = bit i n" if "n < 2" for n using arg_cong [OF assms, of "\<lambda>k. bit k n"] that by (simp add: bit_take_bit_iff)
  then show ?thesis by (simp add: next_ordinal_def)
qed

lemma id_cases: "take_bit 2 j = take_bit 2 i \<Longrightarrow> drop_bit 2 j = drop_bit 2 i \<Longrightarrow> (j::nat) = i"
  by (metis bits_ident)

text \<open>The channel \<open>ch'\<close> has one stream more than \<open>ch\<close>, the next one of its type.\<close>

lemma ch_inv_new:
  assumes inv: "ch_inv content refs got out ch" and i: "drop_bit 2 i = next_ordinal ch i" "i < 2 ^ 62"
    and b: "b = ch_is_server ch" and fresh: "fresh_buffers refs (bit i 0 = b \<or> \<not> bit i 1) (bit i 0 \<noteq> b \<or> \<not> bit i 1) ss rs"
    and tx: "fresh_tx i (qsm_tx (ch_qsm ch)) tx" and rx: "fresh_rx i (qsm_rx (ch_qsm ch)) rx"
    and qsm: "ch_qsm ch' = qs_set ((blank_stream i b)\<lparr>qs_sstream := ss, qs_rstream := rs\<rparr>) ((ch_qsm ch)\<lparr>qsm_tx := tx, qsm_rx := rx\<rparr>)"
    and conf: "windows_ok ch' = windows_ok ch" "ch_is_server ch' = ch_is_server ch" "get_stream_limit ch' = get_stream_limit ch"
    and ord: "\<And>j. next_ordinal ch' j = (if take_bit 2 j = take_bit 2 i then Suc (next_ordinal ch j) else next_ordinal ch j)"
    and count: "rx_chan ch' (qsm_rx (ch_qsm ch))"
  shows "ch_inv content refs got out ch'"
proof -
  let ?s = "(blank_stream i b)\<lparr>qs_sstream := ss, qs_rstream := rs\<rparr>" and ?q = "(ch_qsm ch)\<lparr>qsm_tx := tx, qsm_rx := rx\<rparr>"
  have "i \<notin> dom (qsm_map (ch_qsm ch))" using inv i(1) unfolding ch_inv_def ids_inv_def by simp
  then have new: "qsm_map (ch_qsm ch) i = None" by (simp add: domIff)
  have map: "qsm_map (ch_qsm ch') = (qsm_map (ch_qsm ch))(i \<mapsto> ?s)" "qsm_tx (ch_qsm ch') = tx" "qsm_rx (ch_qsm ch') = rx"
    using qsm by simp_all
  have "direction_matches u ?q = direction_matches u (ch_qsm ch)" for u by (auto simp: direction_matches_def fun_eq_iff)
  then have "qsm_wf ?q" using inv unfolding ch_inv_def qsm_wf_def by simp
  then have wf: "qsm_wf (ch_qsm ch')" unfolding qsm by (rule wf_new) (use new i fresh_stream_ok [OF fresh] in simp_all)
  obtain t where t: "tx = (qsm_tx (ch_qsm ch))(stream_fc i \<mapsto> t)" "tx_parent t = Some conn_fc" "tx_swm t \<le> tx_cwm t" "tx_cwm t < U64"
    using tx by (auto simp: fresh_tx_def)
  obtain r where r: "rx = (qsm_rx (ch_qsm ch))\<lparr>rx_at := (rx_at (qsm_rx (ch_qsm ch)))(stream_fc i \<mapsto> r)\<rparr>" "\<not> rx_standalone r"
    "rx_parent r = Some conn_fc" "rx_error_code r = 0" "rx_hwm r = 0" "rx_swm r = 0" "rx_rwm r = 0" "rx_cwm r < U64" "\<not> rx_is_fin r"
    using rx by (auto simp: fresh_rx_def)
  have "tx_chan (dom (qsm_map (ch_qsm ch))) (qsm_tx (ch_qsm ch))" using inv by (simp add: ch_inv_def)
  then have "tx_chan (insert i (dom (qsm_map (ch_qsm ch)))) tx" using t by (auto simp: tx_chan_def)
  then have "tx_chan (dom (qsm_map (ch_qsm ch'))) (qsm_tx (ch_qsm ch'))" unfolding map by simp
  moreover have "rx_chan ch' (qsm_rx (ch_qsm ch'))"
    using count unfolding rx_chan_def map r(1) by (auto simp: ch_get_remote_stream_count_rxfc_def)
  moreover have "ids_inv ch'"
  proof -
    have "j \<in> dom (qsm_map (ch_qsm ch)) \<or> j = i \<longleftrightarrow> drop_bit 2 j < next_ordinal ch' j" for j
    proof (cases "take_bit 2 j = take_bit 2 i")
      case True
      have "j \<in> dom (qsm_map (ch_qsm ch)) \<longleftrightarrow> drop_bit 2 j < next_ordinal ch i"
        using inv same_ordinal [OF True, of ch] by (simp add: ch_inv_def ids_inv_def)
      moreover have "j = i \<longleftrightarrow> drop_bit 2 j = next_ordinal ch i" using id_cases [OF True] i(1) by auto
      ultimately show ?thesis using ord [of j] True same_ordinal [OF True, of ch] by auto
    next
      case False
      then show ?thesis using inv ord [of j] by (auto simp: ch_inv_def ids_inv_def)
    qed
    moreover have "next_ordinal ch' j \<le> 2 ^ 60" for j
    proof (cases "take_bit 2 j = take_bit 2 i")
      case True
      have "drop_bit 2 i < 2 ^ 60" using i(2) by (simp add: drop_bit_eq_div)
      with True show ?thesis using ord [of j] i(1) same_ordinal [OF True, of ch] by simp
    next
      case False
      then show ?thesis using inv ord [of j] by (simp add: ch_inv_def ids_inv_def)
    qed
    ultimately show ?thesis unfolding ids_inv_def map by auto
  qed
  moreover have "conf_inv ch'" using inv conf by (simp add: ch_inv_def conf_inv_def qsm qs_set_def)
  moreover have "stream_inv (content j) refs (got j) (out j) (qsm_rx (ch_qsm ch')) j u" if u: "qsm_map (ch_qsm ch') j = Some u" for j u
  proof (cases "j = i")
    case True
    have "got i = {}" "out i = []" using inv new by (simp_all add: ch_inv_def)
    moreover have "\<forall>x. rs = Some x \<longrightarrow> rs_abs (content i) refs [] {} 0 False x" using fresh by (simp add: fresh_buffers_def)
    ultimately have "recv_data (content i) refs (got i) (out i) r ?s"
      using r by (auto simp: recv_data_def buffer_data_def blank_stream_def)
    then show ?thesis using True u map r by (auto simp: stream_inv_def rx_stream_def)
  next
    case False
    then show ?thesis using u map r(1) inv by (auto simp: ch_inv_def stream_inv_def)
  qed
  moreover have "got j = {} \<and> out j = []" if "qsm_map (ch_qsm ch') j = None" for j
    using that inv map by (auto simp: ch_inv_def split: if_splits)
  ultimately show ?thesis unfolding ch_inv_def using wf by blast
qed

text \<open>A step that changes no receive part and no controller of a stream.\<close>

lemma ch_inv_map:
  assumes inv: "ch_inv content refs got out ch" and wf: "qsm_wf q" and conf: "same_conf (ch_qsm ch) q"
    and none: "\<And>j. qsm_map (ch_qsm ch) j = None \<Longrightarrow> qsm_map q j = None"
    and some: "\<And>j s. qsm_map (ch_qsm ch) j = Some s \<Longrightarrow> \<exists>t. qsm_map q j = Some t \<and> recv_kept s t"
    and tx: "tx_chan (dom (qsm_map (ch_qsm ch))) (qsm_tx q)" and rx: "rx_chan ch (qsm_rx q)"
    and same: "\<And>j. rx_at (qsm_rx q) (stream_fc j) = rx_at (qsm_rx (ch_qsm ch)) (stream_fc j)"
  shows "ch_inv content refs got out (ch\<lparr>ch_qsm := q\<rparr>)"
proof -
  have n: "qsm_map q j = None \<longleftrightarrow> qsm_map (ch_qsm ch) j = None" for j
    using none some by (cases "qsm_map (ch_qsm ch) j") fastforce+
  then have dom: "dom (qsm_map q) = dom (qsm_map (ch_qsm ch))" by (simp add: dom_def)
  have "stream_inv (content j) refs (got j) (out j) (qsm_rx q) j u" if u: "qsm_map q j = Some u" for j u
  proof -
    obtain s where s: "qsm_map (ch_qsm ch) j = Some s" using n [of j] u by auto
    then have k: "recv_kept s u" using some [OF s] u by simp
    obtain r where "qs_txfc s = stream_fc j" "qs_rxfc s = stream_fc j" "qs_type s = take_bit 2 j"
      "rx_at (qsm_rx (ch_qsm ch)) (stream_fc j) = Some r" "rx_stream r" "recv_data (content j) refs (got j) (out j) r s"
      by (rule ch_inv_stream [OF inv s])
    with k recv_data_kept [OF _ k] show ?thesis unfolding stream_inv_def same by (auto simp: recv_kept_def)
  qed
  moreover have "got j = {} \<and> out j = []" if "qsm_map q j = None" for j using that inv n by (simp add: ch_inv_def)
  moreover have "rx_chan (ch\<lparr>ch_qsm := q\<rparr>) (qsm_rx q)" using rx by (simp add: rx_chan_def)
  moreover have "ids_inv (ch\<lparr>ch_qsm := q\<rparr>)" "conf_inv (ch\<lparr>ch_qsm := q\<rparr>)"
    using inv conf dom by (simp_all add: ch_inv_def ids_inv_def conf_inv_def same_conf_def)
  moreover have "tx_chan (dom (qsm_map q)) (qsm_tx q)" using tx dom by simp
  ultimately show ?thesis unfolding ch_inv_def using wf by simp
qed

lemma push_accept_inv:
  assumes inv: "ch_inv content refs got out ch" and s: "qsm_map (ch_qsm ch) i = Some s" and i: "i \<notin> set (qsm_accept_list (ch_qsm ch))"
  obtains q where "ossl_quic_stream_map_push_accept_queue i (ch_qsm ch) = Some q" "ch_inv content refs got out (ch\<lparr>ch_qsm := q\<rparr>)"
    "qsm_map q = qsm_map (ch_qsm ch)" "qsm_rx q = qsm_rx (ch_qsm ch)"
proof -
  have wf: "qsm_wf (ch_qsm ch)" using inv by (simp add: ch_inv_def)
  obtain q where q: "ossl_quic_stream_map_push_accept_queue i (ch_qsm ch) = Some q" "qsm_wf q" "qsm_map q = qsm_map (ch_qsm ch)"
    "qsm_tx q = qsm_tx (ch_qsm ch)" "qsm_rx q = qsm_rx (ch_qsm ch)" by (rule push_accept_queue_spec [OF wf s i])
  have "same_conf (ch_qsm ch) q"
    using q(1) s i by (auto simp: ossl_quic_stream_map_push_accept_queue_def list_insert_tail_def same_conf_def Let_def split: if_splits)
  then have "ch_inv content refs got out (ch\<lparr>ch_qsm := q\<rparr>)"
    by (rule ch_inv_map [OF inv q(2)]) (use q inv in \<open>simp_all add: ch_inv_def\<close>)
  then show thesis by (rule that [OF q(1) _ q(3,5)])
qed

lemma reject_stream_inv:
  assumes inv: "ch_inv content refs got out ch" and s: "qsm_map (ch_qsm ch) i = Some s"
  obtains ch' where "ossl_quic_channel_reject_stream i ch = Some ch'" "ch_inv content refs got out ch'"
    "ch' = ch\<lparr>ch_qsm := ch_qsm ch'\<rparr>" "dom (qsm_map (ch_qsm ch')) = dom (qsm_map (ch_qsm ch))" "qsm_rx (ch_qsm ch') = qsm_rx (ch_qsm ch)"
proof -
  let ?aec = "ch_incoming_stream_auto_reject_aec ch"
  have wf: "qsm_wf (ch_qsm ch)" using inv by (simp add: ch_inv_def)
  obtain ok1 q1 s1 where q1: "ossl_quic_stream_map_stop_sending_recv_part i ?aec (ch_qsm ch) = Some (ok1, q1)" "qsm_wf q1" "fc_ok q1"
    "only_at i (ch_qsm ch) q1" "qsm_map q1 i = Some s1" "moves_to True s s1"
    by (rule op_effectE [OF stop_sending_effect [OF wf ch_inv_fc [OF inv] s] s])
  obtain ok2 q2 s2 where q2: "ossl_quic_stream_map_reset_stream_send_part i ?aec q1 = Some (ok2, q2)" "qsm_wf q2" "fc_ok q2"
    "only_at i q1 q2" "qsm_map q2 i = Some s2" "moves_to True s1 s2"
    by (rule op_effectE [OF reset_stream_send_part_effect [OF q1(2,3,5)] q1(5)])
  have fin: "fin_known s2"
  proof (cases "ossl_quic_stream_has_send_buffer s1")
    case True
    from reset_stream_send_part_reset [OF q1(2,3,5) this, of ?aec] q2(1,5)
    have "qs_send_state s2 = QUIC_SSTREAM_STATE_RESET_SENT" by (auto simp: reset_effect_def)
    then show ?thesis by simp
  next
    case False
    then have "fin_known s1" by (cases "qs_send_state s1") (simp_all add: stream_defs)
    then show ?thesis using q2(6) by (simp add: moves_to_def)
  qed
  obtain q t where q: "ossl_quic_stream_map_update_state i (qs_set (s2\<lparr>qs_deleted := True\<rparr>) q2) = Some q" "qsm_wf q" "fc_ok q"
    "only_at i q2 q" "qsm_map q i = Some t" "qs_deleted t" "recv_kept s2 t"
    by (rule delete_spec [OF q2(2,3,5) fin])
  have at: "only_at i (ch_qsm ch) q" by (rule only_at_trans [OF q1(4) only_at_trans [OF q2(4) q(4)]])
  have "recv_kept s t" by (rule recv_kept_trans [OF moves_recv_kept [OF q1(6)] recv_kept_trans [OF moves_recv_kept [OF q2(6)] q(7)]])
  then have "ch_inv content refs got out (ch\<lparr>ch_qsm := q\<rparr>)" by (rule ch_inv_op [OF inv q(2) at s q(5)])
  moreover have "ossl_quic_channel_reject_stream i ch = Some (ch\<lparr>ch_qsm := q\<rparr>)"
    using q1(1) q2(1,5) q(1) by (simp add: ossl_quic_channel_reject_stream_def)
  moreover have "qsm_map q j = None \<longleftrightarrow> qsm_map (ch_qsm ch) j = None" for j
    using at s q(5) by (cases "j = i") (simp_all add: only_at_def)
  then have "dom (qsm_map q) = dom (qsm_map (ch_qsm ch))" by (simp add: dom_def)
  moreover have "qsm_rx q = qsm_rx (ch_qsm ch)" using at by (simp add: only_at_def)
  ultimately show thesis using that [of "ch\<lparr>ch_qsm := q\<rparr>"] by simp
qed

lemma take_bit_2_iff: "take_bit 2 (j::nat) = take_bit 2 i \<longleftrightarrow> bit j 0 = bit i 0 \<and> bit j 1 = bit i 1"
proof
  assume "take_bit 2 j = take_bit 2 i"
  then have "bit (take_bit 2 j) n = bit (take_bit 2 i) n" for n by simp
  from this [of 0] this [of 1] show "bit j 0 = bit i 0 \<and> bit j 1 = bit i 1" by (simp add: bit_take_bit_iff)
next
  assume "bit j 0 = bit i 0 \<and> bit j 1 = bit i 1"
  then show "take_bit 2 j = take_bit 2 i" by (auto intro!: bit_eqI simp: bit_take_bit_iff less_2_cases_iff One_nat_def [symmetric] simp del: One_nat_def)
qed

lemma inc_remote_simps [simp]:
  "ch_qsm (inc_next_remote_stream_ordinal u ch) = ch_qsm ch" "ch_is_server (inc_next_remote_stream_ordinal u ch) = ch_is_server ch"
  "windows_ok (inc_next_remote_stream_ordinal u ch) = windows_ok ch" "get_stream_limit (inc_next_remote_stream_ordinal u ch) = get_stream_limit ch"
  "ch_protocol_error (inc_next_remote_stream_ordinal u ch) = ch_protocol_error ch"
  "inc_next_remote_stream_ordinal u (ch\<lparr>ch_qsm := q\<rparr>) = (inc_next_remote_stream_ordinal u ch)\<lparr>ch_qsm := q\<rparr>"
  "ch_incoming_stream_auto_reject (inc_next_remote_stream_ordinal u ch) = ch_incoming_stream_auto_reject ch"
  "ch_incoming_stream_auto_reject_aec (inc_next_remote_stream_ordinal u ch) = ch_incoming_stream_auto_reject_aec ch"
  by (simp_all add: inc_next_remote_stream_ordinal_def windows_ok_def get_stream_limit_def fun_eq_iff)

lemma inc_remote_next:
  assumes "ch_next_remote_stream_ordinal u ch < 2 ^ 62"
  shows "ch_next_remote_stream_ordinal v (inc_next_remote_stream_ordinal u ch) =
    (if u = v then Suc (ch_next_remote_stream_ordinal v ch) else ch_next_remote_stream_ordinal v ch)"
  using assms by (auto simp: ch_next_remote_stream_ordinal_def inc_next_remote_stream_ordinal_def u64_add_exact)

lemma inc_remote_ordinal:
  assumes "ch_next_remote_stream_ordinal u ch < 2 ^ 62"
  shows "next_ordinal (inc_next_remote_stream_ordinal u ch) j =
    (if bit j 0 \<noteq> ch_is_server ch \<and> bit j 1 = u then Suc (next_ordinal ch j) else next_ordinal ch j)"
proof -
  have "ch_get_local_stream_next_ordinal v (inc_next_remote_stream_ordinal u ch) = ch_get_local_stream_next_ordinal v ch" for v
    by (simp add: ch_get_local_stream_next_ordinal_def inc_next_remote_stream_ordinal_def)
  then show ?thesis using assms by (simp add: next_ordinal_def inc_remote_next)
qed

lemma reject_stream_inc:
  "ossl_quic_channel_reject_stream i (inc_next_remote_stream_ordinal u ch) =
     map_option (inc_next_remote_stream_ordinal u) (ossl_quic_channel_reject_stream i ch)"
  by (simp add: ossl_quic_channel_reject_stream_def case_prod_unfold map_option_bind o_def)

text \<open>
  The next stream of the peer is made, whether it is queued for the application or rejected; it is not when there is no
  memory, and then the channel is unchanged.
\<close>

lemma new_stream_remote_spec:
  assumes inv: "ch_inv content refs got out ch" and remote: "bit i 0 \<noteq> ch_is_server ch" and i: "drop_bit 2 i = next_ordinal ch i" "i < 2 ^ 62"
    and m: "memory_ok refs m" and count: "rx_at (qsm_rx (ch_qsm ch)) (ch_get_remote_stream_count_rxfc (bit i 1)) = Some r"
      "ch_next_remote_stream_ordinal (bit i 1) ch < rx_hwm r"
  obtains (made) ch' where "ossl_quic_channel_new_stream_remote m i ch = Some (Some i, ch')"
      "ch_inv content refs got out (inc_next_remote_stream_ordinal (bit i 1) ch')" "ch' = ch\<lparr>ch_qsm := ch_qsm ch'\<rparr>"
      "\<And>j. j \<noteq> stream_fc i \<Longrightarrow> rx_at (qsm_rx (ch_qsm ch')) j = rx_at (qsm_rx (ch_qsm ch)) j"
      "dom (qsm_map (ch_qsm ch')) = insert i (dom (qsm_map (ch_qsm ch)))"
  | (memory) "ossl_quic_channel_new_stream_remote m i ch = Some (None, ch)" "\<not> memory_available m"
proof -
  let ?u = "bit i 1" and ?b = "ch_is_server ch" and ?q = "qs_set (blank_stream i (ch_is_server ch)) (ch_qsm ch)"
  have wf: "qsm_wf (ch_qsm ch)" and server: "qsm_is_server (ch_qsm ch) = ?b" and wnd: "windows_ok ch"
    using inv by (simp_all add: ch_inv_def conf_inv_def)
  have "i \<notin> dom (qsm_map (ch_qsm ch))" using inv i(1) unfolding ch_inv_def ids_inv_def by simp
  then have new: "qsm_map (ch_qsm ch) i = None" by (simp add: domIff)
  note alloc = alloc_spec [OF new refl, of "no_stream m", unfolded server]
  have role: "\<not> (bit i 0 \<noteq> (\<not> ?b))" using remote by simp
  obtain p where p: "qsm_tx (ch_qsm ch) conn_fc = Some p" "tx_parent p = None" using inv by (auto simp: ch_inv_def tx_chan_def)
  obtain c where c: "rx_at (qsm_rx (ch_qsm ch)) conn_fc = Some c" "rx_parent c = None" using inv by (auto simp: ch_inv_def rx_chan_def)
  let ?ch0 = "ch\<lparr>ch_qsm := ?q\<rparr>"
  show thesis
  proof (cases "no_stream m")
    case True
    then have "ossl_quic_channel_new_stream_remote m i ch = Some (None, ch)"
      using alloc role by (simp add: ossl_quic_channel_new_stream_remote_def)
    then show thesis using memory True by (simp add: memory_available_def)
  next
    case False
    have run: "ossl_quic_channel_new_stream_remote m i ch = do {
        (ok, ch) \<leftarrow> ch_init_new_stream m i (\<not> ?u) True ?ch0;
        if \<not> ok
        then do { qsm \<leftarrow> ossl_quic_stream_map_release i (ch_qsm ch); Some (None, ch\<lparr>ch_qsm := qsm\<rparr>) }
        else do {
          ch \<leftarrow> (if ch_incoming_stream_auto_reject ch then ossl_quic_channel_reject_stream i ch
                 else do { qsm \<leftarrow> ossl_quic_stream_map_push_accept_queue i (ch_qsm ch); Some (ch\<lparr>ch_qsm := qsm\<rparr>) });
          Some (Some i, ch) } }"
      unfolding ossl_quic_channel_new_stream_remote_def if_not_P [OF role] Let_def alloc using False by simp
    have s: "qsm_map (ch_qsm ?ch0) i = Some (blank_stream i ?b)" by simp
    show thesis
    proof (rule init_new_stream_spec [OF s, of p c refs m "\<not> ?u" True])
      assume f: "ch_init_new_stream m i (\<not> ?u) True ?ch0 = Some (False, ?ch0\<lparr>ch_qsm := qs_set (blank_stream i ?b) (ch_qsm ?ch0)\<rparr>)" "\<not> memory_available m"
      have "ossl_quic_channel_new_stream_remote m i ch = Some (None, ch)"
        unfolding run f(1) using release_blank [OF wf new, of ?b] by simp
      then show thesis using memory f(2) by simp
    next
      fix ss rs tx rx
      assume ini: "ch_init_new_stream m i (\<not> ?u) True ?ch0 = Some (True, ?ch0\<lparr>ch_qsm := qs_set ((blank_stream i ?b)\<lparr>qs_sstream := ss, qs_rstream := rs\<rparr>)
            ((ch_qsm ?ch0)\<lparr>qsm_tx := tx, qsm_rx := rx\<rparr>)\<rparr>)"
        and fresh: "fresh_buffers refs (\<not> ?u) True ss rs" "fresh_tx i (qsm_tx (ch_qsm ?ch0)) tx" "fresh_rx i (qsm_rx (ch_qsm ?ch0)) rx"
      let ?s = "(blank_stream i ?b)\<lparr>qs_sstream := ss, qs_rstream := rs\<rparr>"
      define ch1 where "ch1 = ch\<lparr>ch_qsm := qs_set ?s ((ch_qsm ch)\<lparr>qsm_tx := tx, qsm_rx := rx\<rparr>)\<rparr>"
      have ini': "ch_init_new_stream m i (\<not> ?u) True ?ch0 = Some (True, ch1)"
        using ini by (simp add: ch1_def qs_set_def)
      have "drop_bit 2 i < 2 ^ 60" using i(2) by (simp add: drop_bit_eq_div)
      then have ord: "ch_next_remote_stream_ordinal ?u ch < 2 ^ 62" using i(1) remote by (simp add: next_ordinal_def)
      have inv1: "ch_inv content refs got out (inc_next_remote_stream_ordinal ?u ch1)"
      proof (rule ch_inv_new [OF inv i refl, of ss rs tx rx])
        show "fresh_buffers refs (bit i 0 = ?b \<or> \<not> ?u) (bit i 0 \<noteq> ?b \<or> \<not> ?u) ss rs" using fresh(1) remote by simp
        show "next_ordinal (inc_next_remote_stream_ordinal ?u ch1) j =
            (if take_bit 2 j = take_bit 2 i then Suc (next_ordinal ch j) else next_ordinal ch j)" for j
          using ord remote by (simp add: inc_remote_ordinal ch1_def take_bit_2_iff)
        show "rx_chan (inc_next_remote_stream_ordinal ?u ch1) (qsm_rx (ch_qsm ch))"
          unfolding rx_chan_def
        proof (intro conjI allI)
          show "\<exists>p. rx_at (qsm_rx (ch_qsm ch)) conn_fc = Some p \<and> rx_parent p = None" using c by simp
          fix v
          obtain r' where "rx_at (qsm_rx (ch_qsm ch)) (ch_get_remote_stream_count_rxfc v) = Some r'" "rx_count (ch_next_remote_stream_ordinal v ch) r'"
            using inv unfolding ch_inv_def rx_chan_def by blast
          then show "\<exists>r. rx_at (qsm_rx (ch_qsm ch)) (ch_get_remote_stream_count_rxfc v) = Some r
              \<and> rx_count (ch_next_remote_stream_ordinal v (inc_next_remote_stream_ordinal ?u ch1)) r"
            using count ord by (auto simp: inc_remote_next ch1_def rx_count_def)
        qed
      qed (use fresh in \<open>simp_all add: ch1_def\<close>)
      have s1: "qsm_map (ch_qsm ch1) i = Some ?s" "dom (qsm_map (ch_qsm ch1)) = insert i (dom (qsm_map (ch_qsm ch)))"
        by (auto simp: ch1_def)
      have rx1: "rx_at (qsm_rx (ch_qsm ch1)) j = rx_at (qsm_rx (ch_qsm ch)) j" if "j \<noteq> stream_fc i" for j
        using fresh(3) that by (auto simp: ch1_def fresh_rx_def)
      show thesis
      proof (cases "ch_incoming_stream_auto_reject ch")
        case True
        obtain ch2 where ch2: "ossl_quic_channel_reject_stream i (inc_next_remote_stream_ordinal ?u ch1) = Some ch2" "ch_inv content refs got out ch2"
          "ch2 = (inc_next_remote_stream_ordinal ?u ch1)\<lparr>ch_qsm := ch_qsm ch2\<rparr>" "dom (qsm_map (ch_qsm ch2)) = dom (qsm_map (ch_qsm ch1))"
          "qsm_rx (ch_qsm ch2) = qsm_rx (ch_qsm ch1)"
          by (rule reject_stream_inv [OF inv1, of i ?s]) (use s1(1) in simp_all)
        then obtain ch' where ch': "ossl_quic_channel_reject_stream i ch1 = Some ch'" "ch2 = inc_next_remote_stream_ordinal ?u ch'"
          by (auto simp: reject_stream_inc)
        have "ossl_quic_channel_new_stream_remote m i ch = Some (Some i, ch')"
          unfolding run ini' using True ch'(1) by (simp add: ch1_def)
        moreover have "ch' = ch\<lparr>ch_qsm := ch_qsm ch'\<rparr>"
          using ch'(1) by (auto simp: ossl_quic_channel_reject_stream_def bind_eq_Some_conv ch1_def)
        ultimately show thesis using made [of ch'] ch2(2,4,5) ch'(2) s1(2) rx1 by simp
      next
        case False
        have acc: "i \<notin> set (qsm_accept_list (ch_qsm ch1))" using wf new by (auto simp: ch1_def qsm_wf_def)
        obtain q where q: "ossl_quic_stream_map_push_accept_queue i (ch_qsm ch1) = Some q" "qsm_map q = qsm_map (ch_qsm ch1)"
            "qsm_rx q = qsm_rx (ch_qsm ch1)" "ch_inv content refs got out (inc_next_remote_stream_ordinal ?u (ch1\<lparr>ch_qsm := q\<rparr>))"
          by (rule push_accept_inv [OF inv1, of i ?s]) (use s1(1) acc in simp_all)
        have "ossl_quic_channel_new_stream_remote m i ch = Some (Some i, ch1\<lparr>ch_qsm := q\<rparr>)"
          unfolding run ini' using False q(1) by (simp add: ch1_def)
        then show thesis using made [of "ch1\<lparr>ch_qsm := q\<rparr>"] q(2-4) s1(2) rx1 by (simp add: ch1_def)
      qed
    qed (use p c m wnd in simp_all)
  qed
qed

text \<open>The ID of the next stream of this side.\<close>

definition local_id :: "bool \<Rightarrow> QUIC_CHANNEL \<Rightarrow> nat" where
  "local_id is_uni ch = 4 * ch_get_local_stream_next_ordinal is_uni ch + (if is_uni then 2 else 0) + (if ch_is_server ch then 1 else 0)"

lemma stream_id_or:
  assumes "n < 2 ^ 60" "t < 4"
  shows "take_bit 64 (push_bit 2 n) OR t = 4 * n + (t::nat)"
proof -
  have "t = take_bit 2 t" using assms(2) by (simp add: take_bit_eq_mod)
  then have "\<not> bit t k" if "2 \<le> k" for k using that by (metis bit_take_bit_iff not_le)
  then have "push_bit 2 n + t = push_bit 2 n OR t" by (intro disjunctive_add) (auto simp: bit_push_bit_iff)
  moreover have "take_bit 64 (push_bit 2 n) = push_bit 2 n" using assms(1) by (simp add: take_bit_eq_mod push_bit_eq_mult)
  ultimately show ?thesis by (simp add: push_bit_eq_mult)
qed

lemma id_bits:
  assumes "t < 4"
  shows "take_bit 2 (4 * n + t) = t" "drop_bit 2 (4 * n + t) = n" "bit (4 * n + t) 0 = odd t" "bit (4 * n + t) 1 = (1 < (t::nat))"
proof -
  show "take_bit 2 (4 * n + t) = t" "drop_bit 2 (4 * n + t) = n" using assms by (simp_all add: take_bit_eq_mod drop_bit_eq_div)
  show "bit (4 * n + t) 0 = odd t" by (simp add: bit_0)
  have "(4 * n + t) div 2 = 2 * n + t div 2" by simp
  then have "bit (4 * n + t) 1 = odd (t div 2)" by (simp add: bit_iff_odd)
  also have "\<dots> = (1 < t)" using assms by presburger
  finally show "bit (4 * n + t) 1 = (1 < t)" .
qed

definition local_type :: "bool \<Rightarrow> QUIC_CHANNEL \<Rightarrow> nat" where
  "local_type is_uni ch = (let type = (if ch_is_server ch then QUIC_STREAM_INITIATOR_SERVER else QUIC_STREAM_INITIATOR_CLIENT)
     in if is_uni then type OR QUIC_STREAM_DIR_UNI else type OR QUIC_STREAM_DIR_BIDI)"

lemma local_type_eq: "local_type u ch = (if u then 2 else 0) + (if ch_is_server ch then 1 else 0)" "local_type u ch < 4"
  by (simp_all add: local_type_def)

lemma local_id_bits:
  assumes "ch_get_local_stream_next_ordinal u ch < 2 ^ 60"
  shows "take_bit 64 (push_bit 2 (ch_get_local_stream_next_ordinal u ch)) OR local_type u ch = local_id u ch"
    "take_bit 2 (local_id u ch) = local_type u ch" "bit (local_id u ch) 0 = ch_is_server ch" "bit (local_id u ch) 1 = u"
    "drop_bit 2 (local_id u ch) = ch_get_local_stream_next_ordinal u ch" "local_id u ch < 2 ^ 62"
proof -
  have id: "local_id u ch = 4 * ch_get_local_stream_next_ordinal u ch + local_type u ch" by (simp add: local_id_def local_type_eq(1))
  note t = local_type_eq(2) [of u ch]
  show "take_bit 64 (push_bit 2 (ch_get_local_stream_next_ordinal u ch)) OR local_type u ch = local_id u ch"
    unfolding id by (rule stream_id_or [OF assms t])
  show "take_bit 2 (local_id u ch) = local_type u ch" "drop_bit 2 (local_id u ch) = ch_get_local_stream_next_ordinal u ch"
    unfolding id by (rule id_bits [OF t])+
  show "bit (local_id u ch) 0 = ch_is_server ch" "bit (local_id u ch) 1 = u"
    unfolding id id_bits [OF t] by (simp_all add: local_type_eq(1))
  show "local_id u ch < 2 ^ 62" using assms t unfolding id by simp
qed

lemma new_stream_local_spec:
  assumes inv: "ch_inv content refs got out ch" and n: "ch_get_local_stream_next_ordinal u ch < 2 ^ 60" and m: "memory_ok refs m"
  obtains (made) ch' where "ossl_quic_channel_new_stream_local m u ch = Some (Some (local_id u ch), ch')"
      "ch_inv content refs got out ch'" "dom (qsm_map (ch_qsm ch')) = insert (local_id u ch) (dom (qsm_map (ch_qsm ch)))"
      "ch_protocol_error ch' = ch_protocol_error ch"
  | (memory) "ossl_quic_channel_new_stream_local m u ch = Some (None, ch)" "\<not> memory_available m"
proof -
  let ?i = "local_id u ch" and ?b = "ch_is_server ch" and ?q = "qs_set (blank_stream (local_id u ch) (ch_is_server ch)) (ch_qsm ch)"
  note bits = local_id_bits [OF n]
  have i: "drop_bit 2 ?i = next_ordinal ch ?i" "?i < 2 ^ 62" using bits by (simp_all add: next_ordinal_def)
  have wf: "qsm_wf (ch_qsm ch)" and server: "qsm_is_server (ch_qsm ch) = ?b" and wnd: "windows_ok ch"
    using inv by (simp_all add: ch_inv_def conf_inv_def)
  have "?i \<notin> dom (qsm_map (ch_qsm ch))" using inv i(1) unfolding ch_inv_def ids_inv_def by simp
  then have new: "qsm_map (ch_qsm ch) ?i = None" by (simp add: domIff)
  note alloc = alloc_spec [OF new bits(2) [symmetric], of "no_stream m", unfolded server]
  obtain p where p: "qsm_tx (ch_qsm ch) conn_fc = Some p" "tx_parent p = None" using inv by (auto simp: ch_inv_def tx_chan_def)
  obtain c where c: "rx_at (qsm_rx (ch_qsm ch)) conn_fc = Some c" "rx_parent c = None" using inv by (auto simp: ch_inv_def rx_chan_def)
  let ?ch0 = "ch\<lparr>ch_qsm := ?q\<rparr>"
  have small: "\<not> 2 ^ 62 \<le> ch_get_local_stream_next_ordinal u ch" using n by simp
  have run: "ossl_quic_channel_new_stream_local m u ch =
      (case ossl_quic_stream_map_alloc (no_stream m) (stream_fc ?i) ?i (local_type u ch) (ch_qsm ch) of
         (None, qsm) \<Rightarrow> Some (None, ch)
       | (Some i, qsm) \<Rightarrow> do {
           (ok, ch) \<leftarrow> ch_init_new_stream m i True (\<not> u) (ch\<lparr>ch_qsm := qsm\<rparr>);
           if \<not> ok
           then do { qsm \<leftarrow> ossl_quic_stream_map_release i (ch_qsm ch); Some (None, ch\<lparr>ch_qsm := qsm\<rparr>) }
           else Some (Some i,
                  if u then ch\<lparr>ch_next_local_stream_ordinal_uni := u64_add n 1\<rparr>
                  else ch\<lparr>ch_next_local_stream_ordinal_bidi := u64_add n 1\<rparr>) })" if "n = ch_get_local_stream_next_ordinal u ch" for n
    unfolding that ossl_quic_channel_new_stream_local_def Let_def local_type_def [unfolded Let_def, symmetric] if_not_P [OF small] bits(1)
    by (simp add: case_prod_unfold)
  show thesis
  proof (cases "no_stream m")
    case True
    then have "ossl_quic_channel_new_stream_local m u ch = Some (None, ch)" unfolding run [OF refl] alloc by simp
    then show thesis using memory True by (simp add: memory_available_def)
  next
    case False
    have s: "qsm_map (ch_qsm ?ch0) ?i = Some (blank_stream ?i ?b)" by simp
    note run' = run [OF refl, unfolded alloc, simplified False if_False prod.case option.case]
    show thesis
    proof (rule init_new_stream_spec [OF s, of p c refs m True "\<not> u"])
      assume f: "ch_init_new_stream m ?i True (\<not> u) ?ch0 = Some (False, ?ch0\<lparr>ch_qsm := qs_set (blank_stream ?i ?b) (ch_qsm ?ch0)\<rparr>)" "\<not> memory_available m"
      have "ossl_quic_channel_new_stream_local m u ch = Some (None, ch)"
        unfolding run' f(1) using release_blank [OF wf new, of ?b] by simp
      then show thesis using memory f(2) by simp
    next
      fix ss rs tx rx
      assume ini: "ch_init_new_stream m ?i True (\<not> u) ?ch0 = Some (True, ?ch0\<lparr>ch_qsm := qs_set ((blank_stream ?i ?b)\<lparr>qs_sstream := ss, qs_rstream := rs\<rparr>)
            ((ch_qsm ?ch0)\<lparr>qsm_tx := tx, qsm_rx := rx\<rparr>)\<rparr>)"
        and fresh: "fresh_buffers refs True (\<not> u) ss rs" "fresh_tx ?i (qsm_tx (ch_qsm ?ch0)) tx" "fresh_rx ?i (qsm_rx (ch_qsm ?ch0)) rx"
      let ?q1 = "qs_set ((blank_stream ?i ?b)\<lparr>qs_sstream := ss, qs_rstream := rs\<rparr>) ((ch_qsm ch)\<lparr>qsm_tx := tx, qsm_rx := rx\<rparr>)"
      let ?n = "ch_get_local_stream_next_ordinal u ch"
      define ch' where "ch' = (if u then ch\<lparr>ch_qsm := ?q1, ch_next_local_stream_ordinal_uni := Suc ?n\<rparr>
          else ch\<lparr>ch_qsm := ?q1, ch_next_local_stream_ordinal_bidi := Suc ?n\<rparr>)"
      have "u64_add ?n 1 = Suc ?n" using n by (simp add: u64_add_exact)
      then have res: "ossl_quic_channel_new_stream_local m u ch = Some (Some ?i, ch')"
        unfolding run' ini by (cases u) (simp_all add: ch'_def qs_set_def)
      have loc: "ch_get_local_stream_next_ordinal v ch' = (if v = u then Suc ?n else ch_get_local_stream_next_ordinal v ch)" for v
        by (auto simp: ch'_def ch_get_local_stream_next_ordinal_def)
      have rem: "ch_next_remote_stream_ordinal v ch' = ch_next_remote_stream_ordinal v ch" for v
        by (simp add: ch'_def ch_next_remote_stream_ordinal_def)
      have same: "ch_is_server ch' = ?b" "windows_ok ch' = windows_ok ch" "get_stream_limit ch' = get_stream_limit ch" "ch_qsm ch' = ?q1"
        "ch_protocol_error ch' = ch_protocol_error ch"
        by (simp_all add: ch'_def windows_ok_def get_stream_limit_def fun_eq_iff)
      have "ch_inv content refs got out ch'"
      proof (rule ch_inv_new [OF inv i refl, of ss rs tx rx])
        show "fresh_buffers refs (bit ?i 0 = ?b \<or> \<not> bit ?i 1) (bit ?i 0 \<noteq> ?b \<or> \<not> bit ?i 1) ss rs" using fresh(1) bits(3,4) by simp
        show "next_ordinal ch' j = (if take_bit 2 j = take_bit 2 ?i then Suc (next_ordinal ch j) else next_ordinal ch j)" for j
          using bits(3,4) by (auto simp: next_ordinal_def loc rem same(1) take_bit_2_iff)
        show "rx_chan ch' (qsm_rx (ch_qsm ch))" using inv by (simp add: ch_inv_def rx_chan_def rem)
      qed (use fresh same in simp_all)
      moreover have "dom (qsm_map (ch_qsm ch')) = insert ?i (dom (qsm_map (ch_qsm ch)))" unfolding same(4) by auto
      ultimately show thesis using made [OF res] same(5) by blast
    qed (use p c m wnd in simp_all)
  qed
qed

end
