(* ===== verification/Cc_Newreno.thy ===== *)
theory Cc_Newreno
  imports Ossl_Time
begin

text \<open>
  The NewReno congestion controller of \<open>ssl/quic/cc_newreno.c\<close>.

  The diagnostic outputs are addresses in \<open>diag_mem\<close>, the memory of the caller they were bound to.  The number of calls
  of the clock so far is in the state.  An \<open>OSSL_PARAM\<close> array is the list of its
  entries before the terminating one; the conversion \<open>OSSL_PARAM_get_size_t\<close> of an entry is an argument.
\<close>

record OSSL_PARAM =
  key :: string
  data_type :: nat
  data :: nat
  data_size :: nat

abbreviation (input) OSSL_PARAM_UNSIGNED_INTEGER :: nat where "OSSL_PARAM_UNSIGNED_INTEGER \<equiv> 2"
abbreviation (input) OSSL_CC_OPTION_MAX_DGRAM_PAYLOAD_LEN :: string where
  "OSSL_CC_OPTION_MAX_DGRAM_PAYLOAD_LEN \<equiv> ''max_dgram_payload_len''"
abbreviation (input) OSSL_CC_OPTION_CUR_CWND_SIZE :: string where "OSSL_CC_OPTION_CUR_CWND_SIZE \<equiv> ''cur_cwnd_size''"
abbreviation (input) OSSL_CC_OPTION_MIN_CWND_SIZE :: string where "OSSL_CC_OPTION_MIN_CWND_SIZE \<equiv> ''min_cwnd_size''"
abbreviation (input) OSSL_CC_OPTION_CUR_BYTES_IN_FLIGHT :: string where
  "OSSL_CC_OPTION_CUR_BYTES_IN_FLIGHT \<equiv> ''bytes_in_flight''"
abbreviation (input) OSSL_CC_OPTION_CUR_STATE :: string where "OSSL_CC_OPTION_CUR_STATE \<equiv> ''cur_state''"
abbreviation (input) QUIC_MIN_INITIAL_DGRAM_LEN :: nat where "QUIC_MIN_INITIAL_DGRAM_LEN \<equiv> 1200"

primrec OSSL_PARAM_locate :: "OSSL_PARAM list \<Rightarrow> string \<Rightarrow> OSSL_PARAM option" where
  "OSSL_PARAM_locate [] k = None"
| "OSSL_PARAM_locate (p # ps) k = (if k = key p then Some p else OSSL_PARAM_locate ps k)"

definition OSSL_PARAM_locate_const :: "OSSL_PARAM list \<Rightarrow> string \<Rightarrow> OSSL_PARAM option" where
  "OSSL_PARAM_locate_const ps k = OSSL_PARAM_locate ps k"

record OSSL_CC_NEWRENO =
  k_init_wnd :: nat
  k_min_wnd :: nat
  k_loss_reduction_factor_num :: nat
  k_loss_reduction_factor_den :: nat
  persistent_cong_thresh :: nat
  max_dgram_size :: nat
  bytes_in_flight :: nat
  cong_wnd :: nat
  slow_start_thresh :: nat
  bytes_acked :: nat
  cong_recovery_start_time :: ossl_time
  processing_loss :: bool
  tx_time_of_last_loss :: ossl_time
  in_congestion_recovery :: bool
  p_diag_max_dgram_payload_len :: "nat option"
  p_diag_cur_cwnd_size :: "nat option"
  p_diag_min_cwnd_size :: "nat option"
  p_diag_cur_bytes_in_flight :: "nat option"
  p_diag_cur_state :: "nat option"
  diag_mem :: "nat \<rightharpoonup> nat"
  now_calls :: nat

definition MIN_MAX_INIT_WND_SIZE :: nat where "MIN_MAX_INIT_WND_SIZE = 14720"

definition store_at :: "nat option \<Rightarrow> nat \<Rightarrow> (nat \<rightharpoonup> nat) \<Rightarrow> (nat \<rightharpoonup> nat)" where
  "store_at pp v m = (case pp of None \<Rightarrow> m | Some a \<Rightarrow> m(a \<mapsto> v))"

definition newreno_update_diag :: "OSSL_CC_NEWRENO \<Rightarrow> OSSL_CC_NEWRENO" where
  "newreno_update_diag nr =
     (let m = diag_mem nr;
          m = store_at (p_diag_max_dgram_payload_len nr) (max_dgram_size nr) m;
          m = store_at (p_diag_cur_cwnd_size nr) (cong_wnd nr) m;
          m = store_at (p_diag_min_cwnd_size nr) (k_min_wnd nr) m;
          m = store_at (p_diag_cur_bytes_in_flight nr) (bytes_in_flight nr) m;
          m = store_at (p_diag_cur_state nr)
                (if in_congestion_recovery nr then of_char CHR ''R''
                 else if cong_wnd nr < slow_start_thresh nr then of_char CHR ''S'' else of_char CHR ''A'') m
      in nr\<lparr>diag_mem := m\<rparr>)"

definition newreno_set_max_dgram_size :: "nat \<Rightarrow> OSSL_CC_NEWRENO \<Rightarrow> OSSL_CC_NEWRENO" where
  "newreno_set_max_dgram_size size' nr =
     (let is_reduced = size' < max_dgram_size nr;
          nr = nr\<lparr>max_dgram_size := size'\<rparr>;
          max_init_wnd = u64_mul 2 size';
          max_init_wnd = (if max_init_wnd < MIN_MAX_INIT_WND_SIZE then MIN_MAX_INIT_WND_SIZE else max_init_wnd);
          nr = nr\<lparr>k_init_wnd := u64_mul 10 size'\<rparr>;
          nr = (if k_init_wnd nr > max_init_wnd then nr\<lparr>k_init_wnd := max_init_wnd\<rparr> else nr);
          nr = nr\<lparr>k_min_wnd := u64_mul 2 size'\<rparr>;
          nr = (if is_reduced then nr\<lparr>cong_wnd := k_init_wnd nr\<rparr> else nr)
      in newreno_update_diag nr)"

definition newreno_reset :: "OSSL_CC_NEWRENO \<Rightarrow> OSSL_CC_NEWRENO" where
  "newreno_reset nr = nr\<lparr>k_loss_reduction_factor_num := 1, k_loss_reduction_factor_den := 2, persistent_cong_thresh := 3,
     cong_wnd := k_init_wnd nr, bytes_in_flight := 0, bytes_acked := 0, slow_start_thresh := UINT64_MAX,
     cong_recovery_start_time := ossl_time_zero, processing_loss := False, tx_time_of_last_loss := ossl_time_zero,
     in_congestion_recovery := False\<rparr>"

text \<open>The structure as \<open>OPENSSL_zalloc\<close> returns it, in the memory \<open>m\<close> of the caller.\<close>

definition newreno_zero :: "(nat \<rightharpoonup> nat) \<Rightarrow> nat \<Rightarrow> OSSL_CC_NEWRENO" where
  "newreno_zero m calls = \<lparr>k_init_wnd = 0, k_min_wnd = 0, k_loss_reduction_factor_num = 0, k_loss_reduction_factor_den = 0,
     persistent_cong_thresh = 0, max_dgram_size = 0, bytes_in_flight = 0, cong_wnd = 0, slow_start_thresh = 0,
     bytes_acked = 0, cong_recovery_start_time = 0, processing_loss = False, tx_time_of_last_loss = 0,
     in_congestion_recovery = False, p_diag_max_dgram_payload_len = None, p_diag_cur_cwnd_size = None,
     p_diag_min_cwnd_size = None, p_diag_cur_bytes_in_flight = None, p_diag_cur_state = None, diag_mem = m,
     now_calls = calls\<rparr>"

definition newreno_new :: "bool \<Rightarrow> (nat \<rightharpoonup> nat) \<Rightarrow> nat \<Rightarrow> OSSL_CC_NEWRENO option" where
  "newreno_new malloc_fails m calls =
     (if malloc_fails then None
      else Some (newreno_reset (newreno_set_max_dgram_size QUIC_MIN_INITIAL_DGRAM_LEN (newreno_zero m calls))))"

definition newreno_set_input_params ::
  "(OSSL_PARAM \<Rightarrow> nat option) \<Rightarrow> OSSL_PARAM list \<Rightarrow> OSSL_CC_NEWRENO \<Rightarrow> bool \<times> OSSL_CC_NEWRENO" where
  "newreno_set_input_params get_size_t params nr =
     (case OSSL_PARAM_locate_const params OSSL_CC_OPTION_MAX_DGRAM_PAYLOAD_LEN of
        None \<Rightarrow> (True, nr)
      | Some p \<Rightarrow>
          (case get_size_t p of
             None \<Rightarrow> (False, nr)
           | Some v \<Rightarrow> if v < QUIC_MIN_INITIAL_DGRAM_LEN then (False, nr)
                       else (True, newreno_set_max_dgram_size v nr)))"

text \<open>The outer \<open>None\<close> is failure, the inner one the null pointer.\<close>

definition bind_diag :: "OSSL_PARAM list \<Rightarrow> string \<Rightarrow> nat \<Rightarrow> nat option option" where
  "bind_diag params param_name len =
     (case OSSL_PARAM_locate_const params param_name of
        None \<Rightarrow> Some None
      | Some p \<Rightarrow> if data_type p \<noteq> OSSL_PARAM_UNSIGNED_INTEGER \<or> data_size p \<noteq> len then None
                  else Some (if data p = 0 then None else Some (data p)))"

definition newreno_bind_diagnostic :: "OSSL_PARAM list \<Rightarrow> OSSL_CC_NEWRENO \<Rightarrow> bool \<times> OSSL_CC_NEWRENO" where
  "newreno_bind_diagnostic params nr =
     (case do { a \<leftarrow> bind_diag params OSSL_CC_OPTION_MAX_DGRAM_PAYLOAD_LEN 8;
                b \<leftarrow> bind_diag params OSSL_CC_OPTION_CUR_CWND_SIZE 8;
                c \<leftarrow> bind_diag params OSSL_CC_OPTION_MIN_CWND_SIZE 8;
                d \<leftarrow> bind_diag params OSSL_CC_OPTION_CUR_BYTES_IN_FLIGHT 8;
                e \<leftarrow> bind_diag params OSSL_CC_OPTION_CUR_STATE 4;
                Some (a, b, c, d, e) } of
        None \<Rightarrow> (False, nr)
      | Some (a, b, c, d, e) \<Rightarrow>
          let nr = (if a \<noteq> None then nr\<lparr>p_diag_max_dgram_payload_len := a\<rparr> else nr);
              nr = (if b \<noteq> None then nr\<lparr>p_diag_cur_cwnd_size := b\<rparr> else nr);
              nr = (if c \<noteq> None then nr\<lparr>p_diag_min_cwnd_size := c\<rparr> else nr);
              nr = (if d \<noteq> None then nr\<lparr>p_diag_cur_bytes_in_flight := d\<rparr> else nr);
              nr = (if e \<noteq> None then nr\<lparr>p_diag_cur_state := e\<rparr> else nr)
          in (True, newreno_update_diag nr))"

definition unbind_diag :: "OSSL_PARAM list \<Rightarrow> string \<Rightarrow> nat option \<Rightarrow> nat option" where
  "unbind_diag params param_name pp = (if OSSL_PARAM_locate_const params param_name \<noteq> None then None else pp)"

definition newreno_unbind_diagnostic :: "OSSL_PARAM list \<Rightarrow> OSSL_CC_NEWRENO \<Rightarrow> bool \<times> OSSL_CC_NEWRENO" where
  "newreno_unbind_diagnostic params nr = (True, nr\<lparr>
     p_diag_max_dgram_payload_len := unbind_diag params OSSL_CC_OPTION_MAX_DGRAM_PAYLOAD_LEN (p_diag_max_dgram_payload_len nr),
     p_diag_cur_cwnd_size := unbind_diag params OSSL_CC_OPTION_CUR_CWND_SIZE (p_diag_cur_cwnd_size nr),
     p_diag_min_cwnd_size := unbind_diag params OSSL_CC_OPTION_MIN_CWND_SIZE (p_diag_min_cwnd_size nr),
     p_diag_cur_bytes_in_flight := unbind_diag params OSSL_CC_OPTION_CUR_BYTES_IN_FLIGHT (p_diag_cur_bytes_in_flight nr),
     p_diag_cur_state := unbind_diag params OSSL_CC_OPTION_CUR_STATE (p_diag_cur_state nr)\<rparr>)"

definition newreno_in_cong_recovery :: "ossl_time \<Rightarrow> OSSL_CC_NEWRENO \<Rightarrow> bool" where
  "newreno_in_cong_recovery tx_time nr = (ossl_time_compare tx_time (cong_recovery_start_time nr) \<le> 0)"

definition newreno_cong :: "clock \<Rightarrow> ossl_time \<Rightarrow> OSSL_CC_NEWRENO \<Rightarrow> OSSL_CC_NEWRENO" where
  "newreno_cong now tx_time nr =
     (if newreno_in_cong_recovery tx_time nr then nr
      else
        let nr = nr\<lparr>in_congestion_recovery := True, cong_recovery_start_time := now (now_calls nr), now_calls := now_calls nr + 1\<rparr>;
            (thresh, err) = safe_muldivu UINT64_MAX (cong_wnd nr) (k_loss_reduction_factor_num nr)
                              (k_loss_reduction_factor_den nr) False;
            nr = nr\<lparr>slow_start_thresh := thresh\<rparr>;
            nr = (if err then nr\<lparr>slow_start_thresh := UINT64_MAX\<rparr> else nr);
            nr = nr\<lparr>cong_wnd := slow_start_thresh nr\<rparr>
        in (if cong_wnd nr < k_min_wnd nr then nr\<lparr>cong_wnd := k_min_wnd nr\<rparr> else nr))"

definition newreno_flush :: "clock \<Rightarrow> bool \<Rightarrow> OSSL_CC_NEWRENO \<Rightarrow> OSSL_CC_NEWRENO" where
  "newreno_flush now persistent_congestion nr =
     (if \<not> processing_loss nr then nr
      else
        let nr = newreno_cong now (tx_time_of_last_loss nr) nr;
            nr = (if persistent_congestion
                  then nr\<lparr>cong_wnd := k_min_wnd nr, cong_recovery_start_time := ossl_time_zero\<rparr> else nr);
            nr = nr\<lparr>processing_loss := False\<rparr>
        in newreno_update_diag nr)"

definition newreno_get_tx_allowance :: "OSSL_CC_NEWRENO \<Rightarrow> nat" where
  "newreno_get_tx_allowance nr =
     (if bytes_in_flight nr \<ge> cong_wnd nr then 0 else u64_sub (cong_wnd nr) (bytes_in_flight nr))"

definition newreno_get_wakeup_deadline :: "OSSL_CC_NEWRENO \<Rightarrow> ossl_time" where
  "newreno_get_wakeup_deadline nr =
     (if newreno_get_tx_allowance nr > 0 then ossl_time_zero else ossl_time_infinite)"

definition newreno_on_data_sent :: "nat \<Rightarrow> OSSL_CC_NEWRENO \<Rightarrow> bool \<times> OSSL_CC_NEWRENO" where
  "newreno_on_data_sent num_bytes nr =
     (True, newreno_update_diag (nr\<lparr>bytes_in_flight := u64_add (bytes_in_flight nr) num_bytes\<rparr>))"

definition newreno_is_cong_limited :: "OSSL_CC_NEWRENO \<Rightarrow> bool" where
  "newreno_is_cong_limited nr =
     (if bytes_in_flight nr \<ge> cong_wnd nr then True
      else
        let wnd_rem = u64_sub (cong_wnd nr) (bytes_in_flight nr)
        in (cong_wnd nr < slow_start_thresh nr \<and> wnd_rem \<le> cong_wnd nr div 2) \<or> wnd_rem \<le> u64_mul 3 (max_dgram_size nr))"

definition newreno_on_data_acked :: "ossl_time \<Rightarrow> nat \<Rightarrow> OSSL_CC_NEWRENO \<Rightarrow> bool \<times> OSSL_CC_NEWRENO" where
  "newreno_on_data_acked tx_time tx_size nr =
     (let nr = nr\<lparr>bytes_in_flight := u64_sub (bytes_in_flight nr) tx_size\<rparr>;
          nr =
            (if \<not> newreno_is_cong_limited nr then nr
             else if newreno_in_cong_recovery tx_time nr then nr
             else if cong_wnd nr < slow_start_thresh nr
             then nr\<lparr>cong_wnd := u64_add (cong_wnd nr) tx_size, in_congestion_recovery := False\<rparr>
             else
               let nr = nr\<lparr>bytes_acked := u64_add (bytes_acked nr) tx_size\<rparr>;
                   nr = (if bytes_acked nr \<ge> cong_wnd nr
                         then nr\<lparr>bytes_acked := u64_sub (bytes_acked nr) (cong_wnd nr),
                                 cong_wnd := u64_add (cong_wnd nr) (max_dgram_size nr)\<rparr>
                         else nr)
               in nr\<lparr>in_congestion_recovery := False\<rparr>)
      in (True, newreno_update_diag nr))"

definition newreno_on_data_lost :: "ossl_time \<Rightarrow> nat \<Rightarrow> OSSL_CC_NEWRENO \<Rightarrow> bool \<times> OSSL_CC_NEWRENO" where
  "newreno_on_data_lost tx_time tx_size nr =
     (if tx_size > bytes_in_flight nr then (False, nr)
      else
        let nr = nr\<lparr>bytes_in_flight := u64_sub (bytes_in_flight nr) tx_size\<rparr>
        in if \<not> processing_loss nr \<and> ossl_time_compare tx_time (tx_time_of_last_loss nr) \<le> 0
           then (True, newreno_update_diag nr)
           else
             let nr = (if \<not> processing_loss nr then nr\<lparr>processing_loss := True, bytes_acked := 0\<rparr> else nr);
                 nr = nr\<lparr>tx_time_of_last_loss := ossl_time_max (tx_time_of_last_loss nr) tx_time\<rparr>
             in (True, newreno_update_diag nr))"

definition newreno_on_data_lost_finished :: "clock \<Rightarrow> bool \<Rightarrow> OSSL_CC_NEWRENO \<Rightarrow> bool \<times> OSSL_CC_NEWRENO" where
  "newreno_on_data_lost_finished now persistent_congestion nr = (True, newreno_flush now persistent_congestion nr)"

definition newreno_on_data_invalidated :: "nat \<Rightarrow> OSSL_CC_NEWRENO \<Rightarrow> bool \<times> OSSL_CC_NEWRENO" where
  "newreno_on_data_invalidated num_bytes nr =
     (True, newreno_update_diag (nr\<lparr>bytes_in_flight := u64_sub (bytes_in_flight nr) num_bytes\<rparr>))"

definition newreno_on_ecn :: "clock \<Rightarrow> ossl_time \<Rightarrow> OSSL_CC_NEWRENO \<Rightarrow> bool \<times> OSSL_CC_NEWRENO" where
  "newreno_on_ecn now largest_acked_time nr =
     (True, newreno_flush now False
       (nr\<lparr>processing_loss := True, bytes_acked := 0, tx_time_of_last_loss := largest_acked_time\<rparr>))"

section \<open>What the diagnostic output and the helpers change\<close>

lemma newreno_update_diag_sel [simp]:
  "k_init_wnd (newreno_update_diag nr) = k_init_wnd nr"
  "k_min_wnd (newreno_update_diag nr) = k_min_wnd nr"
  "k_loss_reduction_factor_num (newreno_update_diag nr) = k_loss_reduction_factor_num nr"
  "k_loss_reduction_factor_den (newreno_update_diag nr) = k_loss_reduction_factor_den nr"
  "max_dgram_size (newreno_update_diag nr) = max_dgram_size nr"
  "bytes_in_flight (newreno_update_diag nr) = bytes_in_flight nr"
  "cong_wnd (newreno_update_diag nr) = cong_wnd nr"
  "slow_start_thresh (newreno_update_diag nr) = slow_start_thresh nr"
  "bytes_acked (newreno_update_diag nr) = bytes_acked nr"
  "cong_recovery_start_time (newreno_update_diag nr) = cong_recovery_start_time nr"
  "processing_loss (newreno_update_diag nr) = processing_loss nr"
  "tx_time_of_last_loss (newreno_update_diag nr) = tx_time_of_last_loss nr"
  by (simp_all add: newreno_update_diag_def Let_def)


section \<open>The history of a connection\<close>

text \<open>
  What a connection tells its controller, with the datagrams in flight (sending time and size) and the number of bytes
  that have left flight.  A datagram that is acknowledged, lost or invalidated is one in flight; datagrams are at most
  65535 bytes, and the connection sends less than \<open>2 ^ 56\<close> bytes.
\<close>

abbreviation flight_bytes :: "(ossl_time \<times> nat) list \<Rightarrow> nat" where
  "flight_bytes P \<equiv> sum_list (map snd P)"

inductive newreno_history :: "clock \<Rightarrow> (ossl_time \<times> nat) list \<Rightarrow> nat \<Rightarrow> OSSL_CC_NEWRENO \<Rightarrow> bool" for now where
  new: "newreno_new False m i = Some nr \<Longrightarrow> newreno_history now [] 0 nr"
| params: "newreno_history now P A nr \<Longrightarrow> \<forall>p v. get_size_t p = Some v \<longrightarrow> v \<le> 65535
    \<Longrightarrow> newreno_set_input_params get_size_t ps nr = (b, nr') \<Longrightarrow> newreno_history now P A nr'"
| bind_diagnostic: "newreno_history now P A nr \<Longrightarrow> newreno_bind_diagnostic ps nr = (b, nr') \<Longrightarrow> newreno_history now P A nr'"
| unbind_diagnostic: "newreno_history now P A nr \<Longrightarrow> newreno_unbind_diagnostic ps nr = (b, nr') \<Longrightarrow> newreno_history now P A nr'"
| reset: "newreno_history now P A nr \<Longrightarrow> newreno_history now [] (A + flight_bytes P) (newreno_reset nr)"
| sent: "newreno_history now P A nr \<Longrightarrow> A + flight_bytes P + n < 2 ^ 56 \<Longrightarrow> newreno_on_data_sent n nr = (b, nr')
    \<Longrightarrow> newreno_history now ((t, n) # P) A nr'"
| acked: "newreno_history now P A nr \<Longrightarrow> (t, n) \<in> set P \<Longrightarrow> newreno_on_data_acked t n nr = (b, nr')
    \<Longrightarrow> newreno_history now (remove1 (t, n) P) (A + n) nr'"
| lost: "newreno_history now P A nr \<Longrightarrow> (t, n) \<in> set P \<Longrightarrow> newreno_on_data_lost t n nr = (b, nr')
    \<Longrightarrow> newreno_history now (remove1 (t, n) P) (A + n) nr'"
| lost_finished: "newreno_history now P A nr \<Longrightarrow> newreno_on_data_lost_finished now persistent nr = (b, nr')
    \<Longrightarrow> newreno_history now P A nr'"
| invalidated: "newreno_history now P A nr \<Longrightarrow> (t, n) \<in> set P \<Longrightarrow> newreno_on_data_invalidated n nr = (b, nr')
    \<Longrightarrow> newreno_history now (remove1 (t, n) P) (A + n) nr'"
| ecn: "newreno_history now P A nr \<Longrightarrow> newreno_on_ecn now t nr = (b, nr') \<Longrightarrow> newreno_history now P A nr'"

text \<open>The limits of the window: the part that does not depend on the datagrams in flight.\<close>

definition newreno_limits :: "nat \<Rightarrow> OSSL_CC_NEWRENO \<Rightarrow> bool" where
  "newreno_limits A nr \<longleftrightarrow> QUIC_MIN_INITIAL_DGRAM_LEN \<le> max_dgram_size nr \<and> max_dgram_size nr \<le> 65535
     \<and> k_min_wnd nr = 2 * max_dgram_size nr
     \<and> k_init_wnd nr = min (10 * max_dgram_size nr) (max (2 * max_dgram_size nr) MIN_MAX_INIT_WND_SIZE)
     \<and> k_loss_reduction_factor_num nr = 1 \<and> k_loss_reduction_factor_den nr = 2
     \<and> 2 * QUIC_MIN_INITIAL_DGRAM_LEN \<le> cong_wnd nr \<and> bytes_acked nr \<le> A
     \<and> cong_wnd nr + 28 * bytes_acked nr \<le> 131072 + 28 * A"

definition newreno_inv :: "(ossl_time \<times> nat) list \<Rightarrow> nat \<Rightarrow> OSSL_CC_NEWRENO \<Rightarrow> bool" where
  "newreno_inv P A nr \<longleftrightarrow> newreno_limits A nr \<and> bytes_in_flight nr = flight_bytes P \<and> A + flight_bytes P < 2 ^ 56"

lemma newreno_limits_diag [simp]: "newreno_limits A (newreno_update_diag nr) = newreno_limits A nr"
  by (simp add: newreno_limits_def)

lemma newreno_cong_sel:
  assumes "newreno_limits A nr" "A < 2 ^ 56"
  shows "newreno_limits A (newreno_cong now t nr) \<and> bytes_in_flight (newreno_cong now t nr) = bytes_in_flight nr"
proof -
  have "cong_wnd nr < 2 ^ 62" using assms by (simp add: newreno_limits_def)
  then have "safe_muldivu UINT64_MAX (cong_wnd nr) 1 2 False = (cong_wnd nr div 2, False)"
    by (simp add: safe_muldivu_def safe_mulu_def)
  with assms show ?thesis by (auto simp: newreno_cong_def newreno_limits_def Let_def)
qed

lemma newreno_flush_sel:
  assumes "newreno_limits A nr" "A < 2 ^ 56"
  shows "newreno_limits A (newreno_flush now persistent nr)
    \<and> bytes_in_flight (newreno_flush now persistent nr) = bytes_in_flight nr"
  using newreno_cong_sel [OF assms, of now "tx_time_of_last_loss nr"] assms(1)
  by (auto simp: newreno_flush_def Let_def newreno_limits_def)

lemma newreno_set_max_dgram_size_sel:
  assumes "newreno_limits A nr" "QUIC_MIN_INITIAL_DGRAM_LEN \<le> v" "v \<le> 65535"
  shows "newreno_limits A (newreno_set_max_dgram_size v nr)
    \<and> bytes_in_flight (newreno_set_max_dgram_size v nr) = bytes_in_flight nr"
  using assms
  by (auto simp: newreno_set_max_dgram_size_def Let_def newreno_limits_def u64_mul_exact MIN_MAX_INIT_WND_SIZE_def)

lemma newreno_acked_sel:
  assumes inv: "newreno_limits A nr" and n: "n \<le> bytes_in_flight nr" "A + bytes_in_flight nr < 2 ^ 56"
    and eq: "newreno_on_data_acked t n nr = (b, nr')"
  shows "newreno_limits (A + n) nr' \<and> bytes_in_flight nr' = bytes_in_flight nr - n"
proof -
  have sub: "u64_sub (bytes_in_flight nr) n = bytes_in_flight nr - n" using n by (simp add: u64_sub_exact)
  have add: "u64_add (cong_wnd nr) n = cong_wnd nr + n" "u64_add (bytes_acked nr) n = bytes_acked nr + n"
    "u64_add (cong_wnd nr) (max_dgram_size nr) = cong_wnd nr + max_dgram_size nr"
    using inv n by (simp_all add: newreno_limits_def u64_add_exact)
  have sub': "cong_wnd nr \<le> bytes_acked nr + n \<Longrightarrow>
      u64_sub (bytes_acked nr + n) (cong_wnd nr) = bytes_acked nr + n - cong_wnd nr"
    using inv n by (simp add: newreno_limits_def u64_sub_exact)
  show ?thesis
    using eq inv unfolding newreno_on_data_acked_def Let_def
    by (auto simp: sub add sub' newreno_limits_def split: if_splits)
qed

lemma newreno_lost_sel:
  assumes inv: "newreno_limits A nr" and n: "n \<le> bytes_in_flight nr" "bytes_in_flight nr < U64"
    and eq: "newreno_on_data_lost t n nr = (b, nr')"
  shows "newreno_limits (A + n) nr' \<and> bytes_in_flight nr' = bytes_in_flight nr - n"
proof -
  have sub: "u64_sub (bytes_in_flight nr) n = bytes_in_flight nr - n" using n by (simp add: u64_sub_exact)
  show ?thesis
    using eq inv n(1) unfolding newreno_on_data_lost_def Let_def
    by (auto simp: sub newreno_limits_def split: if_splits)
qed

lemma newreno_limits_pointers:
  "newreno_limits A (nr\<lparr>p_diag_max_dgram_payload_len := v\<rparr>) = newreno_limits A nr"
  "newreno_limits A (nr\<lparr>p_diag_cur_cwnd_size := v\<rparr>) = newreno_limits A nr"
  "newreno_limits A (nr\<lparr>p_diag_min_cwnd_size := v\<rparr>) = newreno_limits A nr"
  "newreno_limits A (nr\<lparr>p_diag_cur_bytes_in_flight := v\<rparr>) = newreno_limits A nr"
  "newreno_limits A (nr\<lparr>p_diag_cur_state := v\<rparr>) = newreno_limits A nr"
  by (simp_all add: newreno_limits_def)

lemma newreno_bind_sel:
  assumes "newreno_bind_diagnostic ps nr = (ok, nr')"
  shows "newreno_limits A nr' = newreno_limits A nr \<and> bytes_in_flight nr' = bytes_in_flight nr"
proof -
  have "nr' = nr \<or> (\<exists>a b c d e. (let nr = (if a \<noteq> None then nr\<lparr>p_diag_max_dgram_payload_len := a\<rparr> else nr);
              nr = (if b \<noteq> None then nr\<lparr>p_diag_cur_cwnd_size := b\<rparr> else nr);
              nr = (if c \<noteq> None then nr\<lparr>p_diag_min_cwnd_size := c\<rparr> else nr);
              nr = (if d \<noteq> None then nr\<lparr>p_diag_cur_bytes_in_flight := d\<rparr> else nr);
              nr = (if e \<noteq> None then nr\<lparr>p_diag_cur_state := e\<rparr> else nr)
          in (True, newreno_update_diag nr)) = (ok, nr'))"
    using assms unfolding newreno_bind_diagnostic_def
    by (simp only: split: option.splits prod.splits) (blast, intro disjI2 exI, assumption)
  then consider "nr' = nr" | a b c d e n1 n2 n3 n4 n5 where
    "n1 = (if a \<noteq> None then nr\<lparr>p_diag_max_dgram_payload_len := a\<rparr> else nr)"
    "n2 = (if b \<noteq> None then n1\<lparr>p_diag_cur_cwnd_size := b\<rparr> else n1)"
    "n3 = (if c \<noteq> None then n2\<lparr>p_diag_min_cwnd_size := c\<rparr> else n2)"
    "n4 = (if d \<noteq> None then n3\<lparr>p_diag_cur_bytes_in_flight := d\<rparr> else n3)"
    "n5 = (if e \<noteq> None then n4\<lparr>p_diag_cur_state := e\<rparr> else n4)"
    "nr' = newreno_update_diag n5"
    unfolding Let_def by blast
  then show ?thesis
  proof cases
    case (2 a b c d e n1 n2 n3 n4 n5)
    have "newreno_limits A n1 = newreno_limits A nr \<and> bytes_in_flight n1 = bytes_in_flight nr"
      by (simp add: 2(1) newreno_limits_pointers)
    moreover have "newreno_limits A n2 = newreno_limits A n1 \<and> bytes_in_flight n2 = bytes_in_flight n1"
      by (simp add: 2(2) newreno_limits_pointers)
    moreover have "newreno_limits A n3 = newreno_limits A n2 \<and> bytes_in_flight n3 = bytes_in_flight n2"
      by (simp add: 2(3) newreno_limits_pointers)
    moreover have "newreno_limits A n4 = newreno_limits A n3 \<and> bytes_in_flight n4 = bytes_in_flight n3"
      by (simp add: 2(4) newreno_limits_pointers)
    moreover have "newreno_limits A n5 = newreno_limits A n4 \<and> bytes_in_flight n5 = bytes_in_flight n4"
      by (simp add: 2(5) newreno_limits_pointers)
    ultimately show ?thesis by (simp add: 2(6))
  qed simp
qed

lemma flight_remove1:
  "(t, n) \<in> set P \<Longrightarrow> flight_bytes P = n + flight_bytes (remove1 (t, n) P)"
  using sum_list_map_remove1 [of "(t, n)" P snd] by simp

lemma newreno_limits_mono: "newreno_limits A nr \<Longrightarrow> A \<le> B \<Longrightarrow> newreno_limits B nr"
  by (auto simp: newreno_limits_def)

lemma newreno_history_inv: "newreno_history now P A nr \<Longrightarrow> newreno_inv P A nr"
proof (induction rule: newreno_history.induct)
  case (new m i nr)
  then show ?case
    by (auto simp: newreno_new_def newreno_reset_def newreno_set_max_dgram_size_def newreno_zero_def Let_def
        newreno_inv_def newreno_limits_def u64_mul_exact MIN_MAX_INIT_WND_SIZE_def)
next
  case (params P A nr get_size_t ps b nr')
  have "newreno_limits A (newreno_set_max_dgram_size v nr) \<and> bytes_in_flight (newreno_set_max_dgram_size v nr) = bytes_in_flight nr"
    if "get_size_t p = Some v" "\<not> v < QUIC_MIN_INITIAL_DGRAM_LEN" for p v
    using params.hyps(2) params.IH that by (intro newreno_set_max_dgram_size_sel) (auto simp: newreno_inv_def)
  with params.hyps(3) params.IH show ?case
    by (auto simp: newreno_set_input_params_def newreno_inv_def split: option.splits if_splits)
next
  case (bind_diagnostic P A nr ps b nr')
  then show ?case using newreno_bind_sel by (simp add: newreno_inv_def)
next
  case (unbind_diagnostic P A nr ps b nr')
  then show ?case by (auto simp: newreno_unbind_diagnostic_def newreno_inv_def newreno_limits_def)
next
  case (reset P A nr)
  then show ?case by (auto simp: newreno_reset_def newreno_inv_def newreno_limits_def MIN_MAX_INIT_WND_SIZE_def)
next
  case (sent P A nr n b nr' t)
  then show ?case
    by (auto simp: newreno_on_data_sent_def newreno_inv_def newreno_limits_def u64_add_exact)
next
  case (acked P A nr t n b nr')
  have "newreno_limits (A + n) nr' \<and> bytes_in_flight nr' = bytes_in_flight nr - n"
    by (rule newreno_acked_sel [OF _ _ _ acked.hyps(3)])
      (use acked.IH flight_remove1 [OF acked.hyps(2)] in \<open>simp_all add: newreno_inv_def\<close>)
  with acked.IH flight_remove1 [OF acked.hyps(2)] show ?case by (simp add: newreno_inv_def)
next
  case (lost P A nr t n b nr')
  have "newreno_limits (A + n) nr' \<and> bytes_in_flight nr' = bytes_in_flight nr - n"
    by (rule newreno_lost_sel [OF _ _ _ lost.hyps(3)])
      (use lost.IH flight_remove1 [OF lost.hyps(2)] in \<open>simp_all add: newreno_inv_def\<close>)
  with lost.IH flight_remove1 [OF lost.hyps(2)] show ?case by (simp add: newreno_inv_def)
next
  case (lost_finished P A nr persistent b nr')
  then show ?case
    using newreno_flush_sel [of A nr now persistent] by (auto simp: newreno_on_data_lost_finished_def newreno_inv_def)
next
  case (invalidated P A nr t n b nr')
  then have "u64_sub (bytes_in_flight nr) n = bytes_in_flight nr - n"
    using flight_remove1 [OF invalidated.hyps(2)] by (simp add: newreno_inv_def u64_sub_exact)
  then show ?case
    using invalidated newreno_limits_mono [of A nr "A + n"] flight_remove1 [OF invalidated.hyps(2)]
    by (auto simp: newreno_on_data_invalidated_def newreno_inv_def newreno_limits_def)
next
  case (ecn P A nr t b nr')
  let ?nr = "nr\<lparr>processing_loss := True, bytes_acked := 0, tx_time_of_last_loss := t\<rparr>"
  have "newreno_limits A ?nr" using ecn.IH by (auto simp: newreno_inv_def newreno_limits_def)
  then show ?case
    using newreno_flush_sel [of A ?nr now False] ecn.hyps(2) ecn.IH by (auto simp: newreno_on_ecn_def newreno_inv_def)
qed

text \<open>
  C37.  The congestion window counts what is in flight and never closes.  After any history of a connection, with any
  changes of the datagram size, the controller counts exactly the bytes of the datagrams in flight; the window is at
  least two datagrams of the minimum size and does not wrap around; the allowance is what the window leaves; and with
  nothing in flight there is an allowance of at least two minimum datagrams, and the wakeup deadline is immediate.
\<close>

theorem newreno_window_history:
  assumes "newreno_history now P A nr"
  shows "bytes_in_flight nr = flight_bytes P
    \<and> 2 * QUIC_MIN_INITIAL_DGRAM_LEN \<le> cong_wnd nr \<and> cong_wnd nr \<le> 131072 + 28 * A
    \<and> newreno_get_tx_allowance nr = cong_wnd nr - flight_bytes P
    \<and> (P = [] \<longrightarrow> 2 * QUIC_MIN_INITIAL_DGRAM_LEN \<le> newreno_get_tx_allowance nr
                  \<and> newreno_get_wakeup_deadline nr = ossl_time_zero)"
proof -
  note inv = newreno_history_inv [OF assms]
  have allow: "newreno_get_tx_allowance nr = cong_wnd nr - flight_bytes P"
    using inv by (auto simp: newreno_get_tx_allowance_def newreno_inv_def newreno_limits_def u64_sub_exact)
  with inv show ?thesis by (auto simp: newreno_inv_def newreno_limits_def newreno_get_wakeup_deadline_def)
qed









definition example_newreno :: OSSL_CC_NEWRENO where
  "example_newreno = snd (newreno_on_data_sent 5000 (the (newreno_new False Map.empty 0)))"

lemma example_newreno_history: "newreno_history now [(7, 5000)] 0 example_newreno"
proof -
  have "newreno_new False Map.empty 0 = Some (the (newreno_new False Map.empty 0))" by (simp add: newreno_new_def)
  then have "newreno_history now [] 0 (the (newreno_new False Map.empty 0))" by (rule newreno_history.new)
  then show ?thesis
    by (rule newreno_history.sent [where b = True]) (simp_all add: example_newreno_def newreno_on_data_sent_def)
qed

theorem newreno_window_history_witness:
  "newreno_get_tx_allowance example_newreno = 7000 \<and> cong_wnd example_newreno = 12000"
proof -
  have "cong_wnd example_newreno = 12000" by code_simp
  with newreno_window_history [OF example_newreno_history [of "\<lambda>_. 0"]] show ?thesis by simp
qed

end
