(* ===== verification/Spec2Isabelle.thy ===== *)
theory Spec2Isabelle
  imports Ossl_Time Quic_Sstream Wpacket Quic_Frames Quic_Rstream Quic_Channel Cc_Newreno
begin

text \<open>
  A verification development for the data structures and wire codecs of OpenSSL's QUIC stack.
\<close>

end
